(* ===== verification/Prelude.thy ===== *)
theory Prelude
  imports Main
begin

text \<open>
  What every component of the development shares: Python strings and their methods, insertion
  ordered dictionaries, the SQL statements the ledger issues on one table, instants and the
  result type of code that raises, together with the lemmas the component proofs rewrite with.

  A string is Isabelle's \<open>char list\<close> read as UTF-8, so that a separator such as the em dash of the
  settlement notices is the three bytes it is stored as. Prefix, suffix, search, split and join
  agree with the code's methods on code points because UTF-8 is self-synchronising. Case folding,
  white space and word characters are modelled for ASCII; other characters are ordinary
  non-space characters. Instants are \<open>int\<close> microseconds since the epoch, in UTC.
\<close>

named_theorems pystr_simps \<open>the string methods, unfolded\<close>
named_theorems row_simps \<open>rows under an SQL UPDATE\<close>

subsection \<open>Results of code that raises\<close>

type_synonym ('e, 'a) result = "'e + 'a"

abbreviation Raise :: "'e \<Rightarrow> ('e, 'a) result" where "Raise \<equiv> Inl"
abbreviation Return :: "'a \<Rightarrow> ('e, 'a) result" where "Return \<equiv> Inr"

subsection \<open>Instants\<close>

type_synonym instant = int

definition seconds :: "int \<Rightarrow> int" where
  "seconds n = n * 1000000"

definition days :: "int \<Rightarrow> int" where
  "days n = n * 86400000000"

lemma seconds_mono: "a \<le> b \<Longrightarrow> seconds a \<le> seconds b"
  by (simp add: seconds_def)

lemma days_mono: "a \<le> b \<Longrightarrow> days a \<le> days b"
  by (simp add: days_def)

lemma days_nonneg: "0 \<le> a \<Longrightarrow> 0 \<le> days a"
  by (simp add: days_def)

subsection \<open>Strings\<close>

definition startswith :: "string \<Rightarrow> string \<Rightarrow> bool" where
  "startswith s p \<longleftrightarrow> take (length p) s = p"

definition endswith :: "string \<Rightarrow> string \<Rightarrow> bool" where
  "endswith s p \<longleftrightarrow> length p \<le> length s \<and> drop (length s - length p) s = p"

definition removeprefix :: "string \<Rightarrow> string \<Rightarrow> string" where
  "removeprefix s p = (if startswith s p then drop (length p) s else s)"

definition upper_ascii :: "char \<Rightarrow> bool" where
  "upper_ascii c \<longleftrightarrow> 65 \<le> (of_char c :: nat) \<and> (of_char c :: nat) \<le> 90"

definition lower_ascii :: "char \<Rightarrow> bool" where
  "lower_ascii c \<longleftrightarrow> 97 \<le> (of_char c :: nat) \<and> (of_char c :: nat) \<le> 122"

definition digit_char :: "char \<Rightarrow> bool" where
  "digit_char c \<longleftrightarrow> 48 \<le> (of_char c :: nat) \<and> (of_char c :: nat) \<le> 57"

definition lower_char :: "char \<Rightarrow> char" where
  "lower_char c = (if upper_ascii c then char_of ((of_char c :: nat) + 32) else c)"

definition lower :: "string \<Rightarrow> string" where
  "lower s = map lower_char s"

definition space_char :: "char \<Rightarrow> bool" where
  "space_char c \<longleftrightarrow> (of_char c :: nat) \<in> {9, 10, 11, 12, 13, 28, 29, 30, 31, 32}"

text \<open>The character classes on the bits of a character, for evaluation.\<close>

lemma of_char_bits:
  "(of_char (Char b0 b1 b2 b3 b4 b5 b6 b7) :: nat) =
     of_bool b0 + 2 * of_bool b1 + 4 * of_bool b2 + 8 * of_bool b3 + 16 * of_bool b4 +
     32 * of_bool b5 + 64 * of_bool b6 + 128 * of_bool b7"
  by (simp add: of_char_Char)

lemmas char_bits = of_char_bits of_bool_def

lemma upper_ascii_code [code]:
  "upper_ascii (Char b0 b1 b2 b3 b4 b5 b6 b7) \<longleftrightarrow>
     \<not> b7 \<and> b6 \<and> \<not> b5 \<and> (b0 \<or> b1 \<or> b2 \<or> b3 \<or> b4) \<and> \<not> (b4 \<and> b3 \<and> (b2 \<or> b1 \<and> b0))"
  unfolding upper_ascii_def char_bits by (cases b7; cases b6; cases b5; cases b4; cases b3; simp)

lemma lower_ascii_code [code]:
  "lower_ascii (Char b0 b1 b2 b3 b4 b5 b6 b7) \<longleftrightarrow>
     \<not> b7 \<and> b6 \<and> b5 \<and> (b0 \<or> b1 \<or> b2 \<or> b3 \<or> b4) \<and> \<not> (b4 \<and> b3 \<and> (b2 \<or> b1 \<and> b0))"
  unfolding lower_ascii_def char_bits by (cases b7; cases b6; cases b5; cases b4; cases b3; simp)

lemma digit_char_code [code]:
  "digit_char (Char b0 b1 b2 b3 b4 b5 b6 b7) \<longleftrightarrow>
     \<not> b7 \<and> \<not> b6 \<and> b5 \<and> b4 \<and> \<not> (b3 \<and> (b2 \<or> b1))"
  unfolding digit_char_def char_bits by (cases b7; cases b6; cases b5; cases b4; cases b3; simp)

lemma space_char_code [code]:
  "space_char (Char b0 b1 b2 b3 b4 b5 b6 b7) \<longleftrightarrow>
     \<not> b7 \<and> \<not> b6 \<and>
     (\<not> b5 \<and> \<not> b4 \<and> b3 \<and> (b2 \<and> \<not> b1 \<or> \<not> b2 \<and> (b1 \<or> b0)) \<or> \<not> b5 \<and> b4 \<and> b3 \<and> b2
      \<or> b5 \<and> \<not> b4 \<and> \<not> b3 \<and> \<not> b2 \<and> \<not> b1 \<and> \<not> b0)"
  unfolding space_char_def char_bits
  by (cases b7; cases b6; cases b5; cases b4; cases b3; cases b2; simp)

definition lstrip :: "string \<Rightarrow> string" where
  "lstrip s = dropWhile space_char s"

definition rstrip :: "string \<Rightarrow> string" where
  "rstrip s = rev (dropWhile space_char (rev s))"

definition strip :: "string \<Rightarrow> string" where
  "strip s = lstrip (rstrip s)"

text \<open>\<open>s.strip(c)\<close> with a one-character argument, and \<open>s.rstrip(c)\<close>.\<close>

definition rstrip_char :: "char \<Rightarrow> string \<Rightarrow> string" where
  "rstrip_char c s = rev (dropWhile (\<lambda>x. x = c) (rev s))"

definition strip_char :: "char \<Rightarrow> string \<Rightarrow> string" where
  "strip_char c s = dropWhile (\<lambda>x. x = c) (rstrip_char c s)"

text \<open>
  \<open>s.str_partition(sep)\<close>: the text before the first occurrence, whether there is one, and the text
  after it. Without an occurrence the whole string comes first and the rest is empty.
\<close>

fun str_partition :: "string \<Rightarrow> string \<Rightarrow> string \<times> bool \<times> string" where
  "str_partition [] sep = (if sep = [] then ([], True, []) else ([], False, []))"
| "str_partition (c # s) sep =
     (if startswith (c # s) sep then ([], True, drop (length sep) (c # s))
      else (case str_partition s sep of (a, f, b) \<Rightarrow> (c # a, f, b)))"

lemma str_partition_length: "str_partition s sep = (a, f, b) \<Longrightarrow> length b \<le> length s"
  by (induction s arbitrary: a f b) (auto split: if_splits prod.splits)

lemma str_partition_shorter:
  "str_partition s sep = (a, True, b) \<Longrightarrow> sep \<noteq> [] \<Longrightarrow> length b < length s"
proof (induction s arbitrary: a b)
  case Nil
  then show ?case by simp
next
  case (Cons c s)
  show ?case
  proof (cases "startswith (c # s) sep")
    case True
    with Cons.prems show ?thesis by (cases sep) (auto simp: less_Suc_eq_le)
  next
    case False
    with Cons.prems obtain a' where "str_partition s sep = (a', True, b)"
      by (auto split: prod.splits)
    with Cons.IH Cons.prems(2) show ?thesis by fastforce
  qed
qed

lemma str_partition_found:
  "str_partition s sep = (a, True, b) \<Longrightarrow> s = a @ sep @ b"
proof (induction s arbitrary: a b)
  case Nil
  then show ?case by (auto split: if_splits)
next
  case (Cons c s)
  show ?case
  proof (cases "startswith (c # s) sep")
    case True
    with Cons.prems show ?thesis
      by (auto simp: startswith_def) (metis append_take_drop_id)
  next
    case False
    with Cons.prems Cons.IH show ?thesis by (auto split: prod.splits)
  qed
qed

lemma str_partition_missing: "str_partition s sep = (a, False, b) \<Longrightarrow> a = s \<and> b = []"
  by (induction s arbitrary: a b) (auto split: if_splits prod.splits)

text \<open>\<open>s.split(sep)\<close> for a non-empty separator.\<close>

function split_on :: "string \<Rightarrow> string \<Rightarrow> string list" where
  "split_on sep s =
     (if sep = [] then [s]
      else case str_partition s sep of (a, found, b) \<Rightarrow>
             if found then a # split_on sep b else [a])"
  by pat_completeness auto
termination
  by (relation "measure (\<lambda>(sep, s). length s)") (auto intro: str_partition_shorter [OF sym])

declare split_on.simps [simp del]

lemma split_on_ne: "split_on sep s \<noteq> []"
  by (subst split_on.simps) (auto split: prod.splits)

definition join :: "string \<Rightarrow> string list \<Rightarrow> string" where
  "join sep xs = (case xs of [] \<Rightarrow> [] | y # ys \<Rightarrow> y @ concat (map (\<lambda>z. sep @ z) ys))"

lemma join_Nil [simp]: "join sep [] = []"
  and join_single [simp]: "join sep [x] = x"
  and join_Cons2 [simp]: "join sep (x # y # ys) = x @ sep @ join sep (y # ys)"
  by (simp_all add: join_def)

lemma join_Cons: "ys \<noteq> [] \<Longrightarrow> join sep (x # ys) = x @ sep @ join sep ys"
  by (cases ys) simp_all

text \<open>Splitting then joining gives the text back.\<close>

lemma join_split: "join sep (split_on sep s) = s"
proof (induction sep s rule: split_on.induct)
  case (1 sep s)
  obtain a f b where p: "str_partition s sep = (a, f, b)" by (cases "str_partition s sep") auto
  show ?case
  proof (cases "sep = [] \<or> \<not> f")
    case True
    with p show ?thesis
      by (subst split_on.simps) (auto dest: str_partition_missing)
  next
    case False
    with p 1 have "join sep (split_on sep b) = b" by auto
    with False p str_partition_found [of s sep a b] show ?thesis
      by (subst split_on.simps) (simp add: join_Cons [OF split_on_ne])
  qed
qed

text \<open>A separator of one character.\<close>

lemma str_partition_char:
  "c \<notin> set a \<Longrightarrow> str_partition (a @ c # b) [c] = (a, True, b)"
  by (induction a) (auto simp: startswith_def)

lemma str_partition_char_none:
  "c \<notin> set a \<Longrightarrow> str_partition a [c] = (a, False, [])"
  by (induction a) (auto simp: startswith_def)

lemma split_on_char: "c \<notin> set a \<Longrightarrow> split_on [c] (a @ c # b) = a # split_on [c] b"
  by (subst split_on.simps) (simp add: str_partition_char)

lemma split_on_char_none: "c \<notin> set a \<Longrightarrow> split_on [c] a = [a]"
  by (subst split_on.simps) (simp add: str_partition_char_none)

text \<open>
  \<open>s.splitlines()\<close>: line feed, carriage return (with a following line feed as one break),
  vertical tab, form feed and the four ASCII separators end a line; a final break adds no line.
\<close>

definition line_break :: "char \<Rightarrow> bool" where
  "line_break c \<longleftrightarrow> (of_char c :: nat) \<in> {10, 11, 12, 13, 28, 29, 30}"

fun lines_from :: "string \<Rightarrow> string \<Rightarrow> string list" where
  "lines_from acc [] = (if acc = [] then [] else [rev acc])"
| "lines_from acc (c # s) =
     (if c = CHR 0x0D then
        (case s of d # s' \<Rightarrow> if d = CHR 0x0A then rev acc # lines_from [] s'
                              else rev acc # lines_from [] s
                 | [] \<Rightarrow> [rev acc])
      else if line_break c then rev acc # lines_from [] s
      else lines_from (c # acc) s)"

lemma line_break_code [code]:
  "line_break (Char b0 b1 b2 b3 b4 b5 b6 b7) \<longleftrightarrow>
     \<not> b7 \<and> \<not> b6 \<and> \<not> b5 \<and> b3 \<and>
     (\<not> b4 \<and> (b2 \<and> \<not> b1 \<or> \<not> b2 \<and> b1) \<or> b4 \<and> b2 \<and> \<not> (b1 \<and> b0))"
  unfolding line_break_def char_bits
  by (cases b7; cases b6; cases b5; cases b4; cases b3; cases b2; simp)

definition splitlines :: "string \<Rightarrow> string list" where
  "splitlines s = lines_from [] s"

declare startswith_def [pystr_simps] endswith_def [pystr_simps] removeprefix_def [pystr_simps]

lemma startswith_append [simp]: "startswith (p @ s) p"
  by (simp add: startswith_def)

lemma startswith_prefix: "startswith s p \<longleftrightarrow> (\<exists>t. s = p @ t)"
  by (metis append_eq_conv_conj append_take_drop_id startswith_def)

lemma endswith_suffix: "endswith s p \<longleftrightarrow> (\<exists>t. s = t @ p)"
  unfolding endswith_def
proof safe
  assume "drop (length s - length p) s = p"
  then show "\<exists>t. s = t @ p" by (metis append_take_drop_id)
qed auto

lemma removeprefix_prefix [simp]: "removeprefix (p @ s) p = s"
  by (simp add: removeprefix_def)

lemma length_lower [simp]: "length (lower s) = length s"
  by (simp add: lower_def)

lemma lower_append [simp]: "lower (s @ t) = lower s @ lower t"
  by (simp add: lower_def)

lemma not_upper_lower_char [simp]: "\<not> upper_ascii (lower_char c)"
  by (auto simp: lower_char_def upper_ascii_def)

lemma lower_idem [simp]: "lower (lower s) = lower s"
proof -
  have "lower_char (lower_char c) = lower_char c" for c
    using not_upper_lower_char [of c] by (simp add: lower_char_def [of "lower_char c"])
  then show ?thesis by (simp add: lower_def)
qed

subsection \<open>Lists\<close>

text \<open>\<open>list(dict.fromkeys(xs))\<close>: the first occurrence of each element, in order.\<close>

fun fromkeys :: "'a list \<Rightarrow> 'a list" where
  "fromkeys [] = []"
| "fromkeys (x # xs) = x # filter (\<lambda>y. y \<noteq> x) (fromkeys xs)"

lemma set_fromkeys [simp]: "set (fromkeys xs) = set xs"
  by (induction xs) auto

lemma distinct_fromkeys [simp]: "distinct (fromkeys xs)"
  by (induction xs) auto

lemma fromkeys_empty [simp]: "fromkeys xs = [] \<longleftrightarrow> xs = []"
  by (cases xs) auto

text \<open>A dictionary that keeps insertion order, as Python's does.\<close>

fun dict_set :: "'k \<Rightarrow> 'v \<Rightarrow> ('k \<times> 'v) list \<Rightarrow> ('k \<times> 'v) list" where
  "dict_set k v [] = [(k, v)]"
| "dict_set k v ((k', v') # d) = (if k = k' then (k, v) # d else (k', v') # dict_set k v d)"

abbreviation dict_get :: "('k \<times> 'v) list \<Rightarrow> 'k \<Rightarrow> 'v option" where
  "dict_get d k \<equiv> map_of d k"

lemma dict_get_set [simp]: "dict_get (dict_set k v d) j = (if j = k then Some v else dict_get d j)"
  by (induction d) auto

lemma keys_dict_set: "fst ` set (dict_set k v d) = insert k (fst ` set d)"
proof (induction d)
  case (Cons e d)
  then show ?case by (cases e; cases "k = fst e") (simp_all add: insert_commute)
qed simp

lemma map_fst_dict_set:
  "map fst (dict_set k v d) = (if dict_get d k = None then map fst d @ [k] else map fst d)"
  by (induction d) auto

lemma distinct_dict_set: "distinct (map fst d) \<Longrightarrow> distinct (map fst (dict_set k v d))"
proof (induction d)
  case (Cons e d)
  then show ?case
    by (cases e; cases "k = fst e") (simp_all add: keys_dict_set)
qed simp

lemma map_mem: "x \<in> set xs \<Longrightarrow> f x = y \<Longrightarrow> y \<in> set (map f xs)"
  by auto

lemma dict_set_fresh: "dict_get d k = None \<Longrightarrow> dict_set k v d = d @ [(k, v)]"
  by (induction d) (auto split: if_splits)

lemma fold_dict_set:
  "distinct (map key xs) \<Longrightarrow> fst ` set d \<inter> key ` set xs = {} \<Longrightarrow>
   fold (\<lambda>x. dict_set (key x) (val x)) xs d = d @ map (\<lambda>x. (key x, val x)) xs"
proof (induction xs arbitrary: d)
  case (Cons x xs)
  then have "dict_get d (key x) = None" by (auto simp: map_of_eq_None_iff)
  with Cons show ?case by (auto simp: dict_set_fresh)
qed simp

lemma find_some_iff_filter: "List.find P xs = Some x \<Longrightarrow> x \<in> set xs \<and> P x"
  by (auto simp: find_Some_iff)

lemma find_key_None: "k \<notin> key ` set xs \<Longrightarrow> List.find (\<lambda>x. key x = k) xs = None"
  by (induction xs) auto

lemma find_unique:
  "x \<in> set xs \<Longrightarrow> P x \<Longrightarrow> (\<And>y. y \<in> set xs \<Longrightarrow> P y \<Longrightarrow> y = x) \<Longrightarrow> List.find P xs = Some x"
proof (cases "List.find P xs")
  case None
  then show "x \<in> set xs \<Longrightarrow> P x \<Longrightarrow> ?thesis" by (auto simp: find_None_iff)
next
  case (Some y)
  then have "y \<in> set xs \<and> P y" by (rule find_some_iff_filter)
  with Some show "(\<And>y. y \<in> set xs \<Longrightarrow> P y \<Longrightarrow> y = x) \<Longrightarrow> ?thesis" by simp
qed

lemma filter_split_length: "length (filter P xs) + length (filter (\<lambda>x. \<not> P x) xs) = length xs"
  by (induction xs) auto

subsection \<open>One table under SQL\<close>

text \<open>
  \<open>UPDATE t SET ... WHERE p\<close> rewrites the rows that satisfy the predicate, in place; its row
  count is how many did; \<open>RETURNING id\<close> with \<open>scalar_one_or_none\<close> is the first of them (the
  statements that use it select by primary key, so there is at most one).
\<close>

definition update_where :: "('r \<Rightarrow> bool) \<Rightarrow> ('r \<Rightarrow> 'r) \<Rightarrow> 'r list \<Rightarrow> 'r list" where
  "update_where p f rows = map (\<lambda>r. if p r then f r else r) rows"

definition rowcount :: "('r \<Rightarrow> bool) \<Rightarrow> 'r list \<Rightarrow> nat" where
  "rowcount p rows = length (filter p rows)"

lemma update_where_Nil [simp]: "update_where p f [] = []"
  and update_where_Cons [simp]:
    "update_where p f (r # rs) = (if p r then f r else r) # update_where p f rs"
  by (simp_all add: update_where_def)

lemma length_update_where [simp]: "length (update_where p f rows) = length rows"
  by (simp add: update_where_def)

lemma in_update_where [row_simps]:
  "r' \<in> set (update_where p f rows) \<longleftrightarrow> (\<exists>r \<in> set rows. r' = (if p r then f r else r))"
  by (auto simp: update_where_def)

lemma update_where_mem: "r \<in> set rows \<Longrightarrow> (if p r then f r else r) \<in> set (update_where p f rows)"
  by (auto simp: update_where_def)

lemma map_update_where [row_simps]:
  "(\<And>r. g (f r) = g r) \<Longrightarrow> map g (update_where p f rows) = map g rows"
  by (simp add: update_where_def)

lemma update_where_no_rows: "rowcount p rows = 0 \<Longrightarrow> update_where p f rows = rows"
  by (induction rows) (auto simp: rowcount_def)

lemma rowcount_pos: "0 < rowcount p rows \<longleftrightarrow> (\<exists>r \<in> set rows. p r)"
  by (auto simp: rowcount_def filter_empty_conv)

text \<open>\<open>ORDER BY key LIMIT 1\<close>: the first row with the least key.\<close>

fun first_by :: "('r \<Rightarrow> 'k::linorder) \<Rightarrow> 'r list \<Rightarrow> 'r option" where
  "first_by key [] = None"
| "first_by key (r # rs) =
     (case first_by key rs of None \<Rightarrow> Some r
      | Some m \<Rightarrow> if key r \<le> key m then Some r else Some m)"

lemma first_by_None [simp]: "first_by key rs = None \<longleftrightarrow> rs = []"
  by (cases rs) (auto split: option.splits)

lemma first_by_Some:
  "first_by key rs = Some m \<Longrightarrow> m \<in> set rs \<and> (\<forall>r \<in> set rs. key m \<le> key r)"
proof (induction rs arbitrary: m)
  case Nil
  then show ?case by simp
next
  case (Cons r rs)
  show ?case
  proof (cases "first_by key rs")
    case None
    with Cons.prems show ?thesis by auto
  next
    case (Some m')
    from Cons.IH [OF this] Some Cons.prems show ?thesis
      by (fastforce split: if_splits)
  qed
qed

lemma first_by_update [row_simps]:
  "(\<And>r. key (f r) = key r) \<Longrightarrow>
   first_by key (update_where p f rows) = map_option (\<lambda>r. if p r then f r else r) (first_by key rows)"
proof (induction rows)
  case (Cons r rows)
  then show ?case by (cases "first_by key rows") auto
qed simp

lemma filter_update_where [row_simps]:
  "(\<And>r. q (f r) = q r) \<Longrightarrow> filter q (update_where p f rows) = update_where p f (filter q rows)"
  by (induction rows) auto

lemma find_update_where [row_simps]:
  "(\<And>r. q (f r) = q r) \<Longrightarrow>
   List.find q (update_where p f rows) = map_option (\<lambda>r. if p r then f r else r) (List.find q rows)"
  by (induction rows) auto

lemma find_append:
  "List.find p (xs @ ys) = (case List.find p xs of None \<Rightarrow> List.find p ys | Some x \<Rightarrow> Some x)"
  by (induction xs) auto

text \<open>A look-up by primary key, and what an update by primary key does to it.\<close>

definition row_by :: "('r \<Rightarrow> 'i) \<Rightarrow> 'i \<Rightarrow> 'r list \<Rightarrow> 'r option" where
  "row_by key i rows = List.find (\<lambda>r. key r = i) rows"

lemma row_by_Some_in: "row_by key i rows = Some r \<Longrightarrow> r \<in> set rows \<and> key r = i"
  by (auto simp: row_by_def find_Some_iff)

lemma row_by_None: "row_by key i rows = None \<longleftrightarrow> i \<notin> key ` set rows"
  by (auto simp: row_by_def find_None_iff)

lemma row_by_Nil [simp]: "row_by key i [] = None"
  and row_by_Cons [simp]:
    "row_by key i (r # rs) = (if key r = i then Some r else row_by key i rs)"
  by (simp_all add: row_by_def)

lemma row_by_append [simp]:
  "row_by key i (rs @ qs) = (case row_by key i rs of None \<Rightarrow> row_by key i qs | Some r \<Rightarrow> Some r)"
  by (induction rs) auto

lemma row_by_in:
  "distinct (map key rows) \<Longrightarrow> r \<in> set rows \<Longrightarrow> row_by key (key r) rows = Some r"
  by (induction rows) (auto dest: image_eqI [of _ key])

lemma row_by_map [row_simps]:
  "(\<And>r. key (f r) = key r) \<Longrightarrow> row_by key i (map f rows) = map_option f (row_by key i rows)"
  by (induction rows) auto

lemma row_by_update [row_simps]:
  "(\<And>r. key (f r) = key r) \<Longrightarrow>
   row_by key i (update_where p f rows) =
     map_option (\<lambda>r. if p r then f r else r) (row_by key i rows)"
  by (induction rows) auto

end
