(* ===== verification/Lease.thy ===== *)
theory Lease
  imports Prelude
begin

text \<open>
  The lease contract both job queues keep. A row is claimed by moving it to running and bumping
  its claim generation; the holder presents the generation it was given. Whatever the other steps
  do (reclaiming an expired lease, failing, reviving, repairing), they never lower a generation
  and never make a row running without bumping it. From that alone a claim that was lost once is
  lost for good, and no generation of a row is ever handed out twice.

  The status column of both tables is one datatype; \<open>outcome_jobs\<close> never uses the last value.
\<close>

datatype status = Pending | Running | Done | Failed | Superseded

locale fenced_lease =
  fixes step :: "'s \<Rightarrow> 's \<Rightarrow> bool"
    and generation :: "'s \<Rightarrow> 'i \<Rightarrow> nat option"
    and running :: "'s \<Rightarrow> 'i \<Rightarrow> bool"
  assumes generation_mono:
      "step s t \<Longrightarrow> generation s i = Some g \<Longrightarrow> \<exists>g'. generation t i = Some g' \<and> g \<le> g'"
    and claim_bumps:
      "step s t \<Longrightarrow> generation s i = Some g \<Longrightarrow> \<not> running s i \<Longrightarrow> running t i \<Longrightarrow>
       \<exists>g'. generation t i = Some g' \<and> g < g'"
begin

text \<open>A generation that is not held any more: outrun, or its row stopped running.\<close>

lemma lost_step:
  assumes "step s t" and "generation s i = Some g'" and "g \<le> g'"
    and "\<not> (running s i \<and> generation s i = Some g)"
  shows "\<exists>g''. generation t i = Some g'' \<and> g \<le> g'' \<and>
           \<not> (running t i \<and> generation t i = Some g)"
proof -
  obtain g'' where g'': "generation t i = Some g''" "g' \<le> g''"
    using generation_mono [OF assms(1,2)] by blast
  show ?thesis
  proof (cases "running s i")
    case True
    with assms have "g < g'" by auto
    with g'' show ?thesis by auto
  next
    case False
    show ?thesis
    proof (cases "running t i")
      case True
      with claim_bumps [OF assms(1,2) False] assms(3) g'' show ?thesis by auto
    next
      case False
      with g'' assms(3) show ?thesis by auto
    qed
  qed
qed

lemma lost_forever:
  assumes "step\<^sup>*\<^sup>* s t" and "generation s i = Some g'" and "g \<le> g'"
    and "\<not> (running s i \<and> generation s i = Some g)"
  shows "\<not> (running t i \<and> generation t i = Some g)"
proof -
  from assms(1) have "\<exists>g''. generation t i = Some g'' \<and> g \<le> g'' \<and>
           \<not> (running t i \<and> generation t i = Some g)"
  proof (induction rule: rtranclp_induct)
    case base
    with assms(2-4) show ?case by auto
  next
    case (step t u)
    then show ?case using lost_step by blast
  qed
  then show ?thesis by blast
qed

lemma generation_mono_run:
  "step\<^sup>*\<^sup>* s t \<Longrightarrow> generation s i = Some g \<Longrightarrow> \<exists>g'. generation t i = Some g' \<and> g \<le> g'"
proof (induction rule: rtranclp_induct)
  case base
  then show ?case by auto
next
  case (step t u)
  then show ?case using generation_mono by (meson order_trans)
qed

text \<open>Two claims of one row, one after the other, never carry the same generation.\<close>

lemma claims_differ:
  assumes "generation s i = Some g" and "step\<^sup>*\<^sup>* s t" and "\<not> running t i"
    and "step t u" and "running u i"
  shows "generation u i \<noteq> Some g"
proof -
  obtain g' where "generation t i = Some g'" "g \<le> g'"
    using generation_mono_run [OF assms(2,1)] by blast
  with claim_bumps [OF assms(4) _ assms(3,5)] show ?thesis by fastforce
qed

end

end
