(* ===== verification/Review_Queue.thy ===== *)
theory Review_Queue
  imports Lease "HOL-Library.Product_Lexorder"
begin

text \<open>
  The durable review queue of \<open>api/doug/ingest.py\<close>: table \<open>review_jobs\<close> and every operation on it.
  Each operation is one database transaction and so one step; \<open>enqueue\<close> is two (the insert and,
  on a collision with the unique key, the revival), and the step relation lets other transactions
  run between them. The clock is the transaction's \<open>_db_now\<close>, an argument. Rows another open
  transaction has locked are an argument of \<open>claim\<close>, whose SELECT skips them.
\<close>

subsection \<open>The table\<close>

record review_job =
  rj_id :: int
  rj_installation :: int
  rj_repo :: int
  rj_repo_full_name :: string
  rj_pr :: int
  rj_base_sha :: "string option"
  rj_head_sha :: string
  rj_status :: status
  rj_attempts :: nat
  rj_generation :: nat
  rj_enqueued_at :: instant
  rj_started_at :: "instant option"
  rj_finished_at :: "instant option"
  rj_error :: "string option"
  rj_verdict_id :: "int option"
  rj_pr_comment :: "string option"

text \<open>The ledger as the process sees it: whether a database is configured, the rows, the sequence.\<close>

record review_db =
  rq_configured :: bool
  rq_jobs :: "review_job list"
  rq_next_id :: int

datatype rq_error = ValueError string | RuntimeError string

definition FAILED_REVIVE_COOLOFF_SECONDS :: int where
  "FAILED_REVIVE_COOLOFF_SECONDS = 3600"

definition STALL_LEASE_SECONDS :: int where
  "STALL_LEASE_SECONDS = 900"

definition MAX_ATTEMPTS :: nat where
  "MAX_ATTEMPTS = 3"

definition PR_COMMENT_OWED :: string where
  "PR_COMMENT_OWED = ''owed''"

definition no_engine :: rq_error where
  "no_engine = RuntimeError ''review_jobs requires DATABASE_URL''"

definition job_filter :: "int \<Rightarrow> int \<Rightarrow> int \<Rightarrow> review_job \<Rightarrow> bool" where
  "job_filter inst repo pr j \<longleftrightarrow> rj_installation j = inst \<and> rj_repo j = repo \<and> rj_pr j = pr"

subsection \<open>Enqueue and revive\<close>

definition new_job :: "instant \<Rightarrow> int \<Rightarrow> int \<Rightarrow> int \<Rightarrow> string \<Rightarrow> int \<Rightarrow> string \<Rightarrow> string \<Rightarrow> review_job" where
  "new_job now i inst repo name pr head base =
     \<lparr>rj_id = i, rj_installation = inst, rj_repo = repo, rj_repo_full_name = name, rj_pr = pr,
      rj_base_sha = Some base, rj_head_sha = head, rj_status = Pending, rj_attempts = 0,
      rj_generation = 0, rj_enqueued_at = now, rj_started_at = None, rj_finished_at = None,
      rj_error = None, rj_verdict_id = None, rj_pr_comment = None\<rparr>"

text \<open>The inserting transaction: \<open>None\<close> is the unique-key violation, which rolls it back.\<close>

definition enqueue_insert ::
    "instant \<Rightarrow> int \<Rightarrow> int \<Rightarrow> string \<Rightarrow> int \<Rightarrow> string \<Rightarrow> string \<Rightarrow> review_db \<Rightarrow> (int \<times> review_db) option" where
  "enqueue_insert now inst repo name pr head base db =
     (if \<exists>j \<in> set (rq_jobs db). job_filter inst repo pr j \<and> rj_head_sha j = head then None
      else let i = rq_next_id db;
               rows = rq_jobs db @ [new_job now i inst repo name pr head base]
           in Some (i, db\<lparr>rq_next_id := i + 1,
                rq_jobs := update_where
                  (\<lambda>j. job_filter inst repo pr j \<and> rj_head_sha j \<noteq> head \<and> rj_status j = Pending)
                  (\<lambda>j. j\<lparr>rj_status := Superseded, rj_finished_at := Some now\<rparr>) rows\<rparr>))"

text \<open>
  Which rows a collision may bring back. Any trigger but the sweep's own gets the live terms.
\<close>

definition revivable :: "instant \<Rightarrow> string \<Rightarrow> review_job \<Rightarrow> bool" where
  "revivable now trigger j \<longleftrightarrow>
     rj_status j = Superseded \<or>
     (rj_status j = Failed \<and>
      (trigger = ''reconcile'' \<longrightarrow>
        (case rj_finished_at j of None \<Rightarrow> True
         | Some f \<Rightarrow> f < now - seconds FAILED_REVIVE_COOLOFF_SECONDS)))"

definition revive ::
    "instant \<Rightarrow> int \<Rightarrow> int \<Rightarrow> int \<Rightarrow> string \<Rightarrow> string \<Rightarrow> string \<Rightarrow> review_db \<Rightarrow> int option \<times> review_db" where
  "revive now inst repo pr head base trigger db =
     (let hit = (\<lambda>j. job_filter inst repo pr j \<and> rj_head_sha j = head \<and> revivable now trigger j)
      in (map_option rj_id (List.find hit (rq_jobs db)),
          db\<lparr>rq_jobs := update_where hit
            (\<lambda>j. j\<lparr>rj_status := Pending, rj_attempts := 0, rj_error := None,
                   rj_enqueued_at := now, rj_started_at := None, rj_finished_at := None,
                   rj_verdict_id := None, rj_base_sha := Some base\<rparr>) (rq_jobs db)\<rparr>))"

definition enqueue ::
    "instant \<Rightarrow> instant \<Rightarrow> int \<Rightarrow> int \<Rightarrow> string \<Rightarrow> int \<Rightarrow> string \<Rightarrow> string option \<Rightarrow> string \<Rightarrow> review_db \<Rightarrow>
     (rq_error, int option \<times> review_db) result" where
  "enqueue now now' inst repo name pr head base_sha trigger db =
     (case base_sha of
        None \<Rightarrow> Raise (ValueError ''base_sha is required for new review work'')
      | Some base \<Rightarrow>
          if base = [] then Raise (ValueError ''base_sha is required for new review work'')
          else if \<not> rq_configured db then Raise no_engine
          else (case enqueue_insert now inst repo name pr head base db of
                  Some (i, db') \<Rightarrow> Return (Some i, db')
                | None \<Rightarrow> Return (revive now' inst repo pr head base trigger db)))"

text \<open>Why the sweep skipped a row: the whole seconds left of the cooloff.\<close>

definition cooloff_hold_remaining ::
    "instant \<Rightarrow> int \<Rightarrow> int \<Rightarrow> int \<Rightarrow> string \<Rightarrow> review_db \<Rightarrow> int option" where
  "cooloff_hold_remaining now inst repo pr head db =
     (if \<not> rq_configured db then None
      else case List.find (\<lambda>j. job_filter inst repo pr j \<and> rj_head_sha j = head) (rq_jobs db) of
        None \<Rightarrow> None
      | Some j \<Rightarrow>
          if rj_status j \<noteq> Failed then None
          else (case rj_finished_at j of
            None \<Rightarrow> None
          | Some f \<Rightarrow>
              (let remaining = seconds FAILED_REVIVE_COOLOFF_SECONDS - (now - f)
               in if remaining > 0 then Some (remaining div 1000000) else None)))"

subsection \<open>Claim and reclaim\<close>

definition claim :: "int list \<Rightarrow> instant \<Rightarrow> review_db \<Rightarrow> review_job option \<times> review_db" where
  "claim locked now db =
     (if \<not> rq_configured db then (None, db)
      else case first_by (\<lambda>j. (rj_enqueued_at j, rj_id j))
                  (filter (\<lambda>j. rj_status j = Pending \<and> rj_id j \<notin> set locked) (rq_jobs db)) of
        None \<Rightarrow> (None, db)
      | Some row \<Rightarrow>
          let hit = (\<lambda>j. rj_id j = rj_id row \<and> rj_status j = Pending);
              db' = db\<lparr>rq_jobs := update_where hit
                (\<lambda>j. j\<lparr>rj_status := Running, rj_started_at := Some now,
                       rj_generation := rj_generation j + 1\<rparr>) (rq_jobs db)\<rparr>
          in (case List.find hit (rq_jobs db) of
                None \<Rightarrow> (None, db')
              | Some j \<Rightarrow> (Some (row\<lparr>rj_status := Running, rj_started_at := Some now,
                                   rj_generation := rj_generation j + 1\<rparr>), db')))"

definition stalled :: "int \<Rightarrow> instant \<Rightarrow> review_job \<Rightarrow> bool" where
  "stalled older_than now j \<longleftrightarrow>
     rj_status j = Running \<and>
     (case rj_started_at j of None \<Rightarrow> True | Some s \<Rightarrow> s < now - seconds older_than)"

definition reclaim_stalled :: "int \<Rightarrow> instant \<Rightarrow> review_db \<Rightarrow> nat \<times> review_db" where
  "reclaim_stalled older_than now db =
     (if \<not> rq_configured db then (0, db)
      else (rowcount (stalled older_than now) (rq_jobs db),
            db\<lparr>rq_jobs := update_where (stalled older_than now)
              (\<lambda>j. j\<lparr>rj_status := Pending, rj_started_at := None, rj_enqueued_at := now\<rparr>)
              (rq_jobs db)\<rparr>))"

subsection \<open>What the holder of a claim does\<close>

definition terminal_where :: "int \<Rightarrow> nat \<Rightarrow> review_job \<Rightarrow> bool" where
  "terminal_where i g j \<longleftrightarrow> rj_id j = i \<and> rj_status j = Running \<and> rj_generation j = g"

text \<open>The shape of the four: one fenced UPDATE and whether it found its row.\<close>

definition fenced_update ::
    "int \<Rightarrow> nat \<Rightarrow> (review_job \<Rightarrow> review_job) \<Rightarrow> review_db \<Rightarrow> (rq_error, bool \<times> review_db) result" where
  "fenced_update i g f db =
     (if \<not> rq_configured db then Raise no_engine
      else Return (List.find (terminal_where i g) (rq_jobs db) \<noteq> None,
                   db\<lparr>rq_jobs := update_where (terminal_where i g) f (rq_jobs db)\<rparr>))"

definition release :: "int \<Rightarrow> nat \<Rightarrow> review_db \<Rightarrow> (rq_error, bool \<times> review_db) result" where
  "release i g = fenced_update i g (\<lambda>j. j\<lparr>rj_status := Pending, rj_started_at := None\<rparr>)"

definition complete ::
    "instant \<Rightarrow> int \<Rightarrow> int option \<Rightarrow> nat \<Rightarrow> bool \<Rightarrow> review_db \<Rightarrow> (rq_error, bool \<times> review_db) result" where
  "complete now i verdict g owes_comment =
     fenced_update i g (\<lambda>j. j\<lparr>rj_status := Done, rj_verdict_id := verdict,
       rj_finished_at := Some now, rj_error := None,
       rj_pr_comment := (if owes_comment then Some PR_COMMENT_OWED else rj_pr_comment j)\<rparr>)"

definition supersede :: "instant \<Rightarrow> int \<Rightarrow> nat \<Rightarrow> review_db \<Rightarrow> (rq_error, bool \<times> review_db) result" where
  "supersede now i g =
     fenced_update i g (\<lambda>j. j\<lparr>rj_status := Superseded, rj_finished_at := Some now\<rparr>)"

definition fail ::
    "instant \<Rightarrow> int \<Rightarrow> string \<Rightarrow> nat \<Rightarrow> nat \<Rightarrow> review_db \<Rightarrow> (rq_error, bool \<times> review_db) result" where
  "fail now i err g max_attempts =
     fenced_update i g (\<lambda>j. let n = rj_attempts j + 1; at_cap = n \<ge> max_attempts in
       j\<lparr>rj_attempts := n, rj_error := Some (take 500 err), rj_started_at := None,
         rj_status := (if at_cap then Failed else Pending),
         rj_finished_at := (if at_cap then Some now else rj_finished_at j),
         rj_enqueued_at := (if at_cap then rj_enqueued_at j else now)\<rparr>)"

subsection \<open>One step of the table, and its reachable states\<close>

text \<open>
  Every caller of \<open>fail\<close> leaves the cap at its default. The last rule stands for the writers of the
  comment column in \<open>store.py\<close>, which touch no other column.
\<close>

inductive rq_step :: "review_db \<Rightarrow> review_db \<Rightarrow> bool" where
  insert: "rq_configured db \<Longrightarrow> enqueue_insert now inst repo name pr head base db = Some (i, db') \<Longrightarrow> rq_step db db'"
| revive: "rq_configured db \<Longrightarrow> rq_step db (snd (revive now inst repo pr head base trigger db))"
| claim: "rq_step db (snd (claim locked now db))"
| reclaim: "rq_step db (snd (reclaim_stalled older_than now db))"
| release: "release i g db = Return (b, db') \<Longrightarrow> rq_step db db'"
| complete: "complete now i v g owes db = Return (b, db') \<Longrightarrow> rq_step db db'"
| supersede: "supersede now i g db = Return (b, db') \<Longrightarrow> rq_step db db'"
| fail: "fail now i err g MAX_ATTEMPTS db = Return (b, db') \<Longrightarrow> rq_step db db'"
| comment: "rq_step db (db\<lparr>rq_jobs := update_where p (\<lambda>j. j\<lparr>rj_pr_comment := c\<rparr>) (rq_jobs db)\<rparr>)"

definition rq_init :: review_db where
  "rq_init = \<lparr>rq_configured = True, rq_jobs = [], rq_next_id = 1\<rparr>"

text \<open>What the columns of one row say about each other.\<close>

definition row_ok :: "review_job \<Rightarrow> bool" where
  "row_ok j \<longleftrightarrow>
     (rj_status j = Running \<longrightarrow> 0 < rj_generation j \<and> rj_started_at j \<noteq> None) \<and>
     (rj_status j \<in> {Pending, Failed} \<longrightarrow> rj_started_at j = None) \<and>
     (rj_status j \<in> {Done, Failed, Superseded} \<longrightarrow> rj_finished_at j \<noteq> None) \<and>
     (rj_status j \<noteq> Done \<longrightarrow> rj_verdict_id j = None) \<and>
     (rj_status j = Done \<longrightarrow> rj_error j = None)"

definition rj_key :: "review_job \<Rightarrow> int \<times> int \<times> int \<times> string" where
  "rj_key j = (rj_installation j, rj_repo j, rj_pr j, rj_head_sha j)"

definition rq_wf :: "review_db \<Rightarrow> bool" where
  "rq_wf db \<longleftrightarrow>
     distinct (map rj_id (rq_jobs db)) \<and> distinct (map rj_key (rq_jobs db)) \<and>
     (\<forall>j \<in> set (rq_jobs db). rj_id j < rq_next_id db \<and> row_ok j)"

subsection \<open>Every step keeps the table well formed\<close>

lemma key_lemmas [row_simps]:
  "rj_key (j\<lparr>rj_status := s, rj_finished_at := f\<rparr>) = rj_key j"
  by (simp add: rj_key_def)

lemma wf_id_unique:
  "rq_wf db \<Longrightarrow> j \<in> set (rq_jobs db) \<Longrightarrow> k \<in> set (rq_jobs db) \<Longrightarrow> rj_id j = rj_id k \<Longrightarrow> j = k"
  by (auto simp: rq_wf_def distinct_map dest: inj_onD [of rj_id])

lemma wf_key_unique:
  "rq_wf db \<Longrightarrow> j \<in> set (rq_jobs db) \<Longrightarrow> k \<in> set (rq_jobs db) \<Longrightarrow> rj_key j = rj_key k \<Longrightarrow> j = k"
  by (auto simp: rq_wf_def distinct_map dest: inj_onD [of rj_key])

lemma update_keeps_wf:
  assumes "rq_wf db"
    and "\<And>j. rj_id (f j) = rj_id j" and "\<And>j. rj_key (f j) = rj_key j"
    and "\<And>j. p j \<Longrightarrow> row_ok j \<Longrightarrow> row_ok (f j)"
  shows "rq_wf (db\<lparr>rq_jobs := update_where p f (rq_jobs db)\<rparr>)"
  using assms by (auto simp: rq_wf_def row_simps)

lemma insert_wf:
  assumes "rq_wf db" and "enqueue_insert now inst repo name pr head base db = Some (i, db')"
  shows "rq_wf db'"
proof -
  let ?j = "new_job now (rq_next_id db) inst repo name pr head base"
  let ?db = "db\<lparr>rq_next_id := rq_next_id db + 1, rq_jobs := rq_jobs db @ [?j]\<rparr>"
  have fresh: "\<forall>j \<in> set (rq_jobs db). \<not> (job_filter inst repo pr j \<and> rj_head_sha j = head)"
    using assms(2) by (auto simp: enqueue_insert_def split: if_splits)
  have "row_ok ?j" by (simp add: row_ok_def new_job_def)
  moreover have "rj_key ?j \<notin> rj_key ` set (rq_jobs db)"
    using fresh by (auto simp: rj_key_def new_job_def job_filter_def)
  moreover have "rj_id ?j = rq_next_id db" by (simp add: new_job_def)
  ultimately have "rq_wf ?db"
    using assms(1) by (auto simp: rq_wf_def)
  then have "rq_wf (?db\<lparr>rq_jobs := update_where
      (\<lambda>j. job_filter inst repo pr j \<and> rj_head_sha j \<noteq> head \<and> rj_status j = Pending)
      (\<lambda>j. j\<lparr>rj_status := Superseded, rj_finished_at := Some now\<rparr>) (rq_jobs ?db)\<rparr>)"
    by (rule update_keeps_wf) (auto simp: rj_key_def row_ok_def)
  then show ?thesis
    using assms(2) by (auto simp: enqueue_insert_def Let_def split: if_splits)
qed

lemma revive_wf: "rq_wf db \<Longrightarrow> rq_wf (snd (revive now inst repo pr head base trigger db))"
  unfolding revive_def Let_def snd_conv
  by (rule update_keeps_wf) (auto simp: rj_key_def row_ok_def)

lemma claim_wf: "rq_wf db \<Longrightarrow> rq_wf (snd (claim locked now db))"
proof -
  assume "rq_wf db"
  then have "rq_wf (db\<lparr>rq_jobs := update_where (\<lambda>j. rj_id j = i \<and> rj_status j = Pending)
      (\<lambda>j. j\<lparr>rj_status := Running, rj_started_at := Some now,
             rj_generation := rj_generation j + 1\<rparr>) (rq_jobs db)\<rparr>)" for i
    by (rule update_keeps_wf) (auto simp: rj_key_def row_ok_def)
  with \<open>rq_wf db\<close> show ?thesis
    by (auto simp: claim_def Let_def split: option.splits)
qed

lemma reclaim_wf: "rq_wf db \<Longrightarrow> rq_wf (snd (reclaim_stalled older now db))"
proof -
  assume "rq_wf db"
  then have "rq_wf (db\<lparr>rq_jobs := update_where (stalled older now)
      (\<lambda>j. j\<lparr>rj_status := Pending, rj_started_at := None, rj_enqueued_at := now\<rparr>) (rq_jobs db)\<rparr>)"
    by (rule update_keeps_wf) (auto simp: rj_key_def row_ok_def stalled_def)
  with \<open>rq_wf db\<close> show ?thesis by (simp add: reclaim_stalled_def)
qed

lemma fenced_wf:
  assumes "rq_wf db" and "fenced_update i g f db = Return (b, db')"
    and "\<And>j. rj_id (f j) = rj_id j" and "\<And>j. rj_key (f j) = rj_key j"
    and "\<And>j. rj_status j = Running \<Longrightarrow> row_ok j \<Longrightarrow> row_ok (f j)"
  shows "rq_wf db'"
proof -
  have "rq_wf (db\<lparr>rq_jobs := update_where (terminal_where i g) f (rq_jobs db)\<rparr>)"
    by (rule update_keeps_wf [OF assms(1)]) (auto simp: terminal_where_def assms)
  with assms(2) show ?thesis by (auto simp: fenced_update_def split: if_splits)
qed

lemmas holder_defs = release_def complete_def supersede_def fail_def

lemma holder_wf:
  assumes "rq_wf db"
  shows "release i g db = Return (b, db') \<Longrightarrow> rq_wf db'"
    and "complete now i v g owes db = Return (b, db') \<Longrightarrow> rq_wf db'"
    and "supersede now i g db = Return (b, db') \<Longrightarrow> rq_wf db'"
    and "fail now i err g m db = Return (b, db') \<Longrightarrow> rq_wf db'"
  unfolding holder_defs
  by (erule fenced_wf [OF assms], simp_all add: rj_key_def row_ok_def Let_def)+

lemma comment_wf:
  "rq_wf db \<Longrightarrow>
   rq_wf (db\<lparr>rq_jobs := update_where p (\<lambda>j. j\<lparr>rj_pr_comment := c\<rparr>) (rq_jobs db)\<rparr>)"
  by (rule update_keeps_wf) (auto simp: rj_key_def row_ok_def)

lemma rq_step_wf: "rq_step db db' \<Longrightarrow> rq_wf db \<Longrightarrow> rq_wf db'"
  by (induction rule: rq_step.induct)
     (blast intro: insert_wf revive_wf claim_wf reclaim_wf holder_wf comment_wf)+

lemma rq_init_wf: "rq_wf rq_init"
  by (simp add: rq_wf_def rq_init_def)

lemma rq_run_wf: "rq_step\<^sup>*\<^sup>* db db' \<Longrightarrow> rq_wf db \<Longrightarrow> rq_wf db'"
  by (induction rule: rtranclp_induct) (auto intro: rq_step_wf)

subsection \<open>Every step is an in-place update, with at most one row appended\<close>

text \<open>
  The frame all later proofs use: a step changes the rows one by one with some function that keeps
  id, key and, outside a claim, the generation; nothing is deleted.
\<close>

definition budget :: "review_job \<Rightarrow> bool" where
  "budget j \<longleftrightarrow>
     (rj_status j \<in> {Pending, Running} \<longrightarrow> rj_attempts j < MAX_ATTEMPTS) \<and>
     (rj_status j = Failed \<longrightarrow> rj_attempts j = MAX_ATTEMPTS)"

definition row_step :: "review_job \<Rightarrow> review_job \<Rightarrow> bool" where
  "row_step j j' \<longleftrightarrow>
     rj_id j' = rj_id j \<and> rj_key j' = rj_key j \<and>
     (rj_status j = Done \<longrightarrow> rj_status j' = Done \<and> rj_verdict_id j' = rj_verdict_id j) \<and>
     (if rj_status j \<noteq> Running \<and> rj_status j' = Running
      then rj_status j = Pending \<and> rj_generation j' = rj_generation j + 1
      else rj_generation j' = rj_generation j) \<and>
     (budget j \<longrightarrow> budget j')"

lemma row_step_refl [simp]: "row_step j j"
  by (simp add: row_step_def)

definition frame :: "review_db \<Rightarrow> review_db \<Rightarrow> bool" where
  "frame db db' \<longleftrightarrow>
     (\<exists>f new. rq_jobs db' = map f (rq_jobs db) @ new \<and> (\<forall>j. row_step j (f j)) \<and>
       (\<forall>j \<in> set new. rj_status j = Pending \<and> rj_attempts j = 0)) \<and>
     rq_configured db' = rq_configured db"

lemma frame_refl: "frame db db"
  unfolding frame_def by (intro conjI exI [of _ id] exI [of _ "[]"]) auto

lemma frame_update:
  assumes "\<And>j. p j \<Longrightarrow> row_step j (f j)"
  shows "frame db (db\<lparr>rq_jobs := update_where p f (rq_jobs db)\<rparr>)"
  unfolding frame_def
  by (intro conjI exI [of _ "\<lambda>j. if p j then f j else j"] exI [of _ "[]"])
     (auto simp: update_where_def assms)

lemma frame_fenced:
  assumes "fenced_update i g f db = Return (b, db')"
    and "\<And>j. rj_status j = Running \<Longrightarrow> row_step j (f j)"
  shows "frame db db'"
proof -
  have "frame db (db\<lparr>rq_jobs := update_where (terminal_where i g) f (rq_jobs db)\<rparr>)"
    by (rule frame_update) (simp add: terminal_where_def assms(2))
  with assms(1) show ?thesis by (auto simp: fenced_update_def split: if_splits)
qed

lemma insert_shape:
  assumes "enqueue_insert now inst repo name pr head base db = Some (i, db')"
  shows "rq_jobs db' = map (\<lambda>j. if job_filter inst repo pr j \<and> rj_head_sha j \<noteq> head \<and> rj_status j = Pending
                then j\<lparr>rj_status := Superseded, rj_finished_at := Some now\<rparr> else j) (rq_jobs db)
           @ [new_job now (rq_next_id db) inst repo name pr head base]"
    and "i = rq_next_id db" and "rq_configured db' = rq_configured db"
  using assms by (auto simp: enqueue_insert_def Let_def update_where_def new_job_def split: if_splits)

lemma frame_insert:
  assumes "enqueue_insert now inst repo name pr head base db = Some (i, db')"
  shows "frame db db'"
proof -
  let ?j = "new_job now (rq_next_id db) inst repo name pr head base"
  let ?f = "\<lambda>j. if job_filter inst repo pr j \<and> rj_head_sha j \<noteq> head \<and> rj_status j = Pending
                then j\<lparr>rj_status := Superseded, rj_finished_at := Some now\<rparr> else j"
  note insert_shape [OF assms]
  moreover have "\<And>j. row_step j (?f j)"
    by (simp add: row_step_def budget_def rj_key_def)
  moreover have "rj_status ?j = Pending" and "rj_attempts ?j = 0" by (simp_all add: new_job_def)
  ultimately show ?thesis unfolding frame_def by (intro conjI exI [of _ ?f] exI [of _ "[?j]"]) auto
qed

lemma frame_revive: "frame db (snd (revive now inst repo pr head base trigger db))"
  unfolding revive_def Let_def snd_conv
  by (rule frame_update) (auto simp: row_step_def rj_key_def budget_def revivable_def MAX_ATTEMPTS_def)

lemma frame_claim: "frame db (snd (claim locked now db))"
proof -
  have "frame db (db\<lparr>rq_jobs := update_where (\<lambda>j. rj_id j = i \<and> rj_status j = Pending)
      (\<lambda>j. j\<lparr>rj_status := Running, rj_started_at := Some now,
             rj_generation := rj_generation j + 1\<rparr>) (rq_jobs db)\<rparr>)" for i
    by (rule frame_update) (auto simp: row_step_def rj_key_def budget_def)
  then show ?thesis
    by (auto simp: claim_def Let_def frame_refl split: option.splits)
qed

lemma frame_reclaim: "frame db (snd (reclaim_stalled older now db))"
proof -
  have "frame db (db\<lparr>rq_jobs := update_where (stalled older now)
      (\<lambda>j. j\<lparr>rj_status := Pending, rj_started_at := None, rj_enqueued_at := now\<rparr>) (rq_jobs db)\<rparr>)"
    by (rule frame_update) (auto simp: row_step_def rj_key_def budget_def stalled_def)
  then show ?thesis by (simp add: reclaim_stalled_def frame_refl)
qed

lemma frame_holder:
  shows "release i g db = Return (b, db') \<Longrightarrow> frame db db'"
    and "complete now i v g owes db = Return (b, db') \<Longrightarrow> frame db db'"
    and "supersede now i g db = Return (b, db') \<Longrightarrow> frame db db'"
    and "fail now i err g MAX_ATTEMPTS db = Return (b, db') \<Longrightarrow> frame db db'"
  unfolding holder_defs
  by (erule frame_fenced; auto simp: row_step_def rj_key_def budget_def Let_def)+

lemma frame_comment:
  "frame db (db\<lparr>rq_jobs := update_where p (\<lambda>j. j\<lparr>rj_pr_comment := c\<rparr>) (rq_jobs db)\<rparr>)"
  by (rule frame_update) (auto simp: row_step_def rj_key_def budget_def)

lemma rq_step_frame: "rq_step db db' \<Longrightarrow> frame db db'"
  by (induction rule: rq_step.induct)
     (blast intro: frame_insert frame_revive frame_claim frame_reclaim frame_holder frame_comment)+

subsection \<open>The queue keeps the lease contract\<close>

definition rq_generation :: "review_db \<Rightarrow> int \<Rightarrow> nat option" where
  "rq_generation db i = map_option rj_generation (row_by rj_id i (rq_jobs db))"

definition rq_running :: "review_db \<Rightarrow> int \<Rightarrow> bool" where
  "rq_running db i \<longleftrightarrow> map_option rj_status (row_by rj_id i (rq_jobs db)) = Some Running"

text \<open>The claim a worker was handed is still its own: what every settling UPDATE tests.\<close>

definition holds_claim :: "review_db \<Rightarrow> int \<Rightarrow> nat \<Rightarrow> bool" where
  "holds_claim db i g \<longleftrightarrow> (\<exists>j \<in> set (rq_jobs db). terminal_where i g j)"

lemma frame_row_by:
  assumes "frame db db'" and "row_by rj_id i (rq_jobs db) = Some j"
  shows "\<exists>j'. row_by rj_id i (rq_jobs db') = Some j' \<and> row_step j j'"
proof -
  obtain f new where f: "rq_jobs db' = map f (rq_jobs db) @ new" "\<And>j. row_step j (f j)"
    using assms(1) by (auto simp: frame_def)
  then have "\<And>j. rj_id (f j) = rj_id j" by (simp add: row_step_def)
  with f assms(2) show ?thesis by (simp add: row_simps)
qed

interpretation rq: fenced_lease rq_step rq_generation rq_running
proof unfold_locales
  fix s t i g
  assume st: "rq_step s t" and g: "rq_generation s i = Some g"
  from g obtain j where j: "row_by rj_id i (rq_jobs s) = Some j" "rj_generation j = g"
    by (auto simp: rq_generation_def)
  obtain j' where j': "row_by rj_id i (rq_jobs t) = Some j'" "row_step j j'"
    using frame_row_by [OF rq_step_frame [OF st] j(1)] by blast
  then show "\<exists>g'. rq_generation t i = Some g' \<and> g \<le> g'"
    using j by (auto simp: rq_generation_def row_step_def split: if_splits)
  assume "\<not> rq_running s i" and "rq_running t i"
  with j j' show "\<exists>g'. rq_generation t i = Some g' \<and> g < g'"
    by (auto simp: rq_generation_def rq_running_def row_step_def split: if_splits)
qed

lemma holds_claim_row:
  assumes "rq_wf db"
  shows "holds_claim db i g \<longleftrightarrow> rq_running db i \<and> rq_generation db i = Some g"
proof
  assume "holds_claim db i g"
  then obtain j where "j \<in> set (rq_jobs db)" "terminal_where i g j" by (auto simp: holds_claim_def)
  with assms row_by_in [of rj_id "rq_jobs db" j] show "rq_running db i \<and> rq_generation db i = Some g"
    by (auto simp: rq_wf_def terminal_where_def rq_running_def rq_generation_def)
next
  assume "rq_running db i \<and> rq_generation db i = Some g"
  then show "holds_claim db i g"
    by (auto simp: holds_claim_def terminal_where_def rq_running_def rq_generation_def
             dest: row_by_Some_in)
qed

lemma fenced_update_cases:
  assumes "rq_configured db"
  shows "fenced_update i g f db =
    Return (holds_claim db i g,
            if holds_claim db i g
            then db\<lparr>rq_jobs := update_where (terminal_where i g) f (rq_jobs db)\<rparr> else db)"
proof (cases "holds_claim db i g")
  case True
  with assms show ?thesis by (auto simp: fenced_update_def holds_claim_def find_None_iff)
next
  case False
  then have none: "List.find (terminal_where i g) (rq_jobs db) = None"
    and "rowcount (terminal_where i g) (rq_jobs db) = 0"
    by (auto simp: holds_claim_def find_None_iff rowcount_def filter_empty_conv)
  with assms False show ?thesis
    by (simp add: fenced_update_def update_where_no_rows)
qed

lemma frame_configured: "rq_step\<^sup>*\<^sup>* db db' \<Longrightarrow> rq_configured db' = rq_configured db"
proof (induction rule: rtranclp_induct)
  case (step t u)
  then show ?case using rq_step_frame [of t u] by (simp add: frame_def)
qed simp

lemma claim_result:
  assumes "claim locked now db = (Some r, db')"
  obtains j where "j \<in> set (rq_jobs db)" and "rj_status j = Pending" and "rj_id j \<notin> set locked"
    and "\<forall>k \<in> set (rq_jobs db). rj_status k = Pending \<longrightarrow> rj_id k \<notin> set locked \<longrightarrow>
           (rj_enqueued_at j, rj_id j) \<le> (rj_enqueued_at k, rj_id k)"
    and "rj_id r = rj_id j" and "rj_key r = rj_key j"
    and "db' = db\<lparr>rq_jobs := update_where (\<lambda>k. rj_id k = rj_id j \<and> rj_status k = Pending)
                (\<lambda>k. k\<lparr>rj_status := Running, rj_started_at := Some now,
                       rj_generation := rj_generation k + 1\<rparr>) (rq_jobs db)\<rparr>"
    and "\<exists>k \<in> set (rq_jobs db). rj_id k = rj_id j \<and> rj_status k = Pending \<and>
           r = j\<lparr>rj_status := Running, rj_started_at := Some now, rj_generation := rj_generation k + 1\<rparr>"
    and "rq_configured db"
proof -
  let ?free = "filter (\<lambda>j. rj_status j = Pending \<and> rj_id j \<notin> set locked) (rq_jobs db)"
  obtain j where j: "first_by (\<lambda>j. (rj_enqueued_at j, rj_id j)) ?free = Some j" and conf: "rq_configured db"
    using assms by (auto simp: claim_def split: if_splits option.splits)
  note least = first_by_Some [OF j]
  let ?hit = "\<lambda>k. rj_id k = rj_id j \<and> rj_status k = Pending"
  obtain k where k: "List.find ?hit (rq_jobs db) = Some k"
    using assms j conf by (auto simp: claim_def Let_def split: option.splits)
  have r: "r = j\<lparr>rj_status := Running, rj_started_at := Some now, rj_generation := rj_generation k + 1\<rparr>"
    and db': "db' = db\<lparr>rq_jobs := update_where ?hit
                (\<lambda>k. k\<lparr>rj_status := Running, rj_started_at := Some now,
                       rj_generation := rj_generation k + 1\<rparr>) (rq_jobs db)\<rparr>"
    using assms j k conf by (auto simp: claim_def Let_def)
  show ?thesis
    by (rule that [of j])
       (use least r db' conf find_some_iff_filter [OF k] in \<open>auto simp: rj_key_def\<close>)
qed

text \<open>A claim hands out a row that is then running at the generation it reports.\<close>

lemma claim_holds:
  assumes "rq_wf db" and "claim locked now db = (Some r, db')"
  shows "r \<in> set (rq_jobs db') \<and> holds_claim db' (rj_id r) (rj_generation r)"
proof -
  obtain j k where j: "j \<in> set (rq_jobs db)" "k \<in> set (rq_jobs db)" "rj_id k = rj_id j"
      "rj_status k = Pending" "rj_status j = Pending"
    and r: "r = j\<lparr>rj_status := Running, rj_started_at := Some now, rj_generation := rj_generation k + 1\<rparr>"
    and db': "db' = db\<lparr>rq_jobs := update_where (\<lambda>k. rj_id k = rj_id j \<and> rj_status k = Pending)
                (\<lambda>k. k\<lparr>rj_status := Running, rj_started_at := Some now,
                       rj_generation := rj_generation k + 1\<rparr>) (rq_jobs db)\<rparr>"
    using assms(2) by (elim claim_result) blast
  have "k = j" using j(2,1,3) by (rule wf_id_unique [OF assms(1)])
  with j r db' have "r \<in> set (rq_jobs db')" by (auto simp: in_update_where intro!: bexI [of _ j])
  moreover have "terminal_where (rj_id r) (rj_generation r) r" by (simp add: r terminal_where_def)
  ultimately show ?thesis by (auto simp: holds_claim_def)
qed

subsection \<open>Properties\<close>

text \<open>
  C29. Well-formed ledger: in every state the queue can reach, row ids and the deduplication key
  (installation, repository, pull request, head SHA) are unique and the columns of every row agree:
  a running row has a lease clock and a positive generation, a row that gave up has recorded when,
  only a finished row carries a verdict, and a finished row carries no error text.
\<close>
theorem review_queue_well_formed:
  assumes "rq_step\<^sup>*\<^sup>* rq_init db"
  shows "rq_wf db"
  using assms rq_init_wf by (rule rq_run_wf)

text \<open>
  C19. Fencing: once a claim is lost (its lease expired and the row was re-pended, or somebody else
  finished it), the old holder can never again change the queue. In every later state, release,
  complete, supersede and fail with the old generation report False and leave the ledger as it is.
\<close>
theorem stale_claim_never_settles:
  assumes "rq_wf s" and "claim locked now s = (Some r, s1)" and "rq_step\<^sup>*\<^sup>* s1 s2"
    and lost: "\<not> holds_claim s2 (rj_id r) (rj_generation r)" and "rq_step\<^sup>*\<^sup>* s2 s3"
  shows "release (rj_id r) (rj_generation r) s3 = Return (False, s3) \<and>
         complete t1 (rj_id r) v (rj_generation r) owes s3 = Return (False, s3) \<and>
         supersede t2 (rj_id r) (rj_generation r) s3 = Return (False, s3) \<and>
         fail t3 (rj_id r) err (rj_generation r) m s3 = Return (False, s3)"
proof -
  let ?i = "rj_id r" and ?g = "rj_generation r"
  have "rq_step s s1" using rq_step.claim [of s locked now] assms(2) by simp
  with assms have wf1: "rq_wf s1" and wf2: "rq_wf s2" and wf3: "rq_wf s3"
    by (blast intro: rq_step_wf rq_run_wf)+
  have "rq_generation s1 ?i = Some ?g"
    using claim_holds [OF assms(1,2)] holds_claim_row [OF wf1] by blast
  then obtain g' where g': "rq_generation s2 ?i = Some g'" "?g \<le> g'"
    using rq.generation_mono_run [OF assms(3)] by blast
  have gone: "\<not> holds_claim s3 ?i ?g"
    using rq.lost_forever [OF assms(5) g'] lost holds_claim_row wf2 wf3 by blast
  have "rq_configured s" using assms(2) by (elim claim_result)
  then have "rq_configured s3"
    using frame_configured \<open>rq_step s s1\<close> assms(3,5) by (metis r_into_rtranclp)
  with gone show ?thesis by (simp add: holder_defs fenced_update_cases)
qed

text \<open>
  C21. No second paid read: once the review of a pull request's head is done, no later claim ever
  hands that head out again, whatever deliveries, failures, reclaims and sweeps happen in between;
  and the row keeps the verdict it finished with.
\<close>
theorem done_head_never_claimed_again:
  assumes "rq_wf s" and "j \<in> set (rq_jobs s)" and "rj_status j = Done" and "rq_step\<^sup>*\<^sup>* s t"
  shows "(\<exists>j' \<in> set (rq_jobs t). rj_key j' = rj_key j \<and> rj_status j' = Done \<and>
            rj_verdict_id j' = rj_verdict_id j) \<and>
         (\<forall>locked now r t'. claim locked now t = (Some r, t') \<longrightarrow> rj_key r \<noteq> rj_key j)"
proof -
  have "\<exists>j' \<in> set (rq_jobs t). rj_key j' = rj_key j \<and> rj_status j' = Done \<and>
          rj_verdict_id j' = rj_verdict_id j"
    using assms(4)
  proof (induction rule: rtranclp_induct)
    case base
    with assms show ?case by blast
  next
    case (step t u)
    then obtain j' where j': "j' \<in> set (rq_jobs t)" "rj_key j' = rj_key j" "rj_status j' = Done"
        "rj_verdict_id j' = rj_verdict_id j" by blast
    obtain f new where "rq_jobs u = map f (rq_jobs t) @ new" "\<And>j. row_step j (f j)"
      using rq_step_frame [OF step(2)] by (auto simp: frame_def)
    with j' show ?case by (intro bexI [of _ "f j'"]) (auto simp: row_step_def)
  qed
  then obtain j' where j': "j' \<in> set (rq_jobs t)" "rj_key j' = rj_key j" "rj_status j' = Done"
      "rj_verdict_id j' = rj_verdict_id j" by blast
  have wf: "rq_wf t" using assms by (blast intro: rq_run_wf)
  have "rj_key r \<noteq> rj_key j" if c: "claim locked now t = (Some r, t')" for locked now r t'
  proof
    assume eq: "rj_key r = rj_key j"
    obtain k where k: "k \<in> set (rq_jobs t)" "rj_status k = Pending" "rj_key r = rj_key k"
      using c by (elim claim_result) blast
    have "k = j'" using wf k(1) j'(1) by (rule wf_key_unique) (use eq k j' in simp)
    with k j' show False by simp
  qed
  with j' show ?thesis by blast
qed

text \<open>
  The queue is a queue: a claim takes the least pending row by (time enqueued, id) among those
  no other transaction has locked, marks exactly that row running with the next generation, and
  changes no other row.
\<close>
theorem claim_takes_the_oldest:
  assumes "rq_wf db" and "claim locked now db = (Some r, db')"
  shows "\<exists>j \<in> set (rq_jobs db). rj_status j = Pending \<and>
           r = j\<lparr>rj_status := Running, rj_started_at := Some now, rj_generation := rj_generation j + 1\<rparr> \<and>
           rq_jobs db' = map (\<lambda>k. if rj_id k = rj_id j then r else k) (rq_jobs db) \<and>
           (\<forall>k \<in> set (rq_jobs db). rj_status k = Pending \<and> rj_id k \<notin> set locked \<longrightarrow>
              (rj_enqueued_at j, rj_id j) \<le> (rj_enqueued_at k, rj_id k))"
proof -
  obtain j k where j: "j \<in> set (rq_jobs db)" "rj_status j = Pending"
      "k \<in> set (rq_jobs db)" "rj_id k = rj_id j"
    and least: "\<forall>k \<in> set (rq_jobs db). rj_status k = Pending \<longrightarrow> rj_id k \<notin> set locked \<longrightarrow>
           (rj_enqueued_at j, rj_id j) \<le> (rj_enqueued_at k, rj_id k)"
    and r: "r = j\<lparr>rj_status := Running, rj_started_at := Some now, rj_generation := rj_generation k + 1\<rparr>"
    and db': "db' = db\<lparr>rq_jobs := update_where (\<lambda>k. rj_id k = rj_id j \<and> rj_status k = Pending)
                (\<lambda>k. k\<lparr>rj_status := Running, rj_started_at := Some now,
                       rj_generation := rj_generation k + 1\<rparr>) (rq_jobs db)\<rparr>"
    using assms(2) by (elim claim_result) blast
  have same: "l = j" if "l \<in> set (rq_jobs db)" "rj_id l = rj_id j" for l
    using that(1) j(1) that(2) by (rule wf_id_unique [OF assms(1)])
  with j r db' have "rq_jobs db' = map (\<lambda>k. if rj_id k = rj_id j then r else k) (rq_jobs db)"
    by (auto simp: update_where_def)
  with same j r least show ?thesis by (intro bexI [of _ j]) auto
qed

text \<open>A collision, and the two things the revival can then do.\<close>

definition revived :: "instant \<Rightarrow> string \<Rightarrow> review_job \<Rightarrow> review_job" where
  "revived now base j = j\<lparr>rj_status := Pending, rj_attempts := 0, rj_error := None,
     rj_enqueued_at := now, rj_started_at := None, rj_finished_at := None,
     rj_verdict_id := None, rj_base_sha := Some base\<rparr>"

lemma enqueue_collision:
  assumes "enqueue_insert now inst repo name pr head base db = None"
  obtains j where "j \<in> set (rq_jobs db)" and "rj_key j = (inst, repo, pr, head)"
  using assms by (force simp: enqueue_insert_def Let_def rj_key_def job_filter_def split: if_splits)

lemma revive_cases:
  assumes "rq_wf db" and "j \<in> set (rq_jobs db)" and "rj_key j = (inst, repo, pr, head)"
  shows "revive now inst repo pr head base trigger db =
    (if revivable now trigger j
     then (Some (rj_id j),
           db\<lparr>rq_jobs := map (\<lambda>k. if k = j then revived now base k else k) (rq_jobs db)\<rparr>)
     else (None, db))"
proof -
  let ?hit = "\<lambda>k. job_filter inst repo pr k \<and> rj_head_sha k = head \<and> revivable now trigger k"
  have same: "k = j" if "k \<in> set (rq_jobs db)" "?hit k" for k
    using that assms by (intro wf_key_unique [OF assms(1)]) (auto simp: rj_key_def job_filter_def)
  have hit: "?hit j \<longleftrightarrow> revivable now trigger j"
    using assms(3) by (simp add: rj_key_def job_filter_def)
  show ?thesis
  proof (cases "revivable now trigger j")
    case True
    then have "List.find ?hit (rq_jobs db) = Some j"
      using hit by (intro find_unique [OF assms(2)]) (simp_all add: same)
    moreover have iff: "?hit k \<longleftrightarrow> k = j" if "k \<in> set (rq_jobs db)" for k
      using same hit True that by blast
    have "update_where ?hit (revived now base) (rq_jobs db) =
        map (\<lambda>k. if k = j then revived now base k else k) (rq_jobs db)"
      unfolding update_where_def by (rule map_cong [OF refl]) (simp only: iff)
    ultimately show ?thesis using True by (simp add: revive_def revived_def [abs_def])
  next
    case False
    then have none: "\<forall>k \<in> set (rq_jobs db). \<not> ?hit k" using same hit by blast
    then have "rowcount ?hit (rq_jobs db) = 0" by (simp add: rowcount_def filter_empty_conv)
    with none False show ?thesis
      by (auto simp: revive_def update_where_no_rows find_None_iff)
  qed
qed

text \<open>
  No push is lost: a live enqueue of a well-formed job leaves a row for exactly that head that
  is pending, running or done. It returns the row's id when this call made the work pending (a new
  row or a revived one, with a fresh attempt budget and the observed base), and \<open>None\<close>, changing
  nothing, when the head was already queued, in flight or reviewed.
\<close>
theorem live_enqueue_never_loses_a_push:
  assumes "rq_wf db" and "rq_configured db" and "base \<noteq> []" and "trigger \<noteq> ''reconcile''"
  shows "\<exists>r db' j. enqueue now now' inst repo name pr head (Some base) trigger db = Return (r, db') \<and>
           j \<in> set (rq_jobs db') \<and> rj_key j = (inst, repo, pr, head) \<and>
           rj_status j \<in> {Pending, Running, Done} \<and>
           (r \<noteq> None \<longrightarrow> r = Some (rj_id j) \<and> rj_status j = Pending \<and> rj_attempts j = 0 \<and>
              rj_base_sha j = Some base) \<and>
           (r = None \<longrightarrow> db' = db)"
proof (cases "enqueue_insert now inst repo name pr head base db")
  case (Some res)
  then obtain i db' where res: "res = (i, db')" by (cases res) auto
  let ?j = "new_job now (rq_next_id db) inst repo name pr head base"
  have "i = rq_next_id db" and "?j \<in> set (rq_jobs db')"
    using Some by (auto simp: res enqueue_insert_def Let_def update_where_def new_job_def split: if_splits)
  with Some assms show ?thesis
    by (intro exI [of _ "Some i"] exI [of _ db'] exI [of _ ?j])
       (auto simp: enqueue_def res new_job_def rj_key_def)
next
  case None
  then obtain j where j: "j \<in> set (rq_jobs db)" "rj_key j = (inst, repo, pr, head)"
    by (rule enqueue_collision)
  have enq: "enqueue now now' inst repo name pr head (Some base) trigger db =
      Return (revive now' inst repo pr head base trigger db)"
    using None assms by (simp add: enqueue_def)
  show ?thesis
  proof (cases "revivable now' trigger j")
    case True
    have "rj_key (revived now' base j) = (inst, repo, pr, head)"
      using j by (simp add: revived_def rj_key_def)
    with True show ?thesis
      unfolding enq revive_cases [OF assms(1) j]
      by (intro exI [of _ "revived now' base j"] exI) (use j(1) in \<open>auto simp: revived_def\<close>)
  next
    case False
    with assms(4) have "rj_status j \<in> {Pending, Running, Done}"
      by (cases "rj_status j") (auto simp: revivable_def)
    with False j show ?thesis unfolding enq revive_cases [OF assms(1) j] by auto
  qed
qed

text \<open>
  The sweep's cooloff and its explanation agree: for a head whose row exists, a reconciling
  enqueue skips a failed row exactly while the hold is reported, except at the single instant at
  which the cooloff is exactly used up, where the row is skipped and nothing is reported.
\<close>
theorem reconcile_skip_is_explained:
  assumes "rq_wf db" and "rq_configured db" and "base \<noteq> []" and "j \<in> set (rq_jobs db)"
    and "rj_key j = (inst, repo, pr, head)" and "rj_status j = Failed"
  shows "enqueue now now inst repo name pr head (Some base) ''reconcile'' db = Return (None, db) \<longleftrightarrow>
         cooloff_hold_remaining now inst repo pr head db \<noteq> None \<or>
         rj_finished_at j = Some (now - seconds FAILED_REVIVE_COOLOFF_SECONDS)"
proof -
  have "enqueue_insert now inst repo name pr head base db = None"
    using assms(4,5) by (auto simp: enqueue_insert_def rj_key_def job_filter_def)
  then have enq: "enqueue now now inst repo name pr head (Some base) ''reconcile'' db =
      Return (revive now inst repo pr head base ''reconcile'' db)"
    using assms by (simp add: enqueue_def)
  have "List.find (\<lambda>j. job_filter inst repo pr j \<and> rj_head_sha j = head) (rq_jobs db) = Some j"
  proof (rule find_unique [OF assms(4)])
    show "job_filter inst repo pr j \<and> rj_head_sha j = head"
      using assms(5) by (simp add: rj_key_def job_filter_def)
    show "k = j" if "k \<in> set (rq_jobs db)" "job_filter inst repo pr k \<and> rj_head_sha k = head" for k
      using that(1) assms(4) by (rule wf_key_unique [OF assms(1)])
        (use that assms(5) in \<open>simp add: rj_key_def job_filter_def\<close>)
  qed
  then show ?thesis
    unfolding enq revive_cases [OF assms(1,4,5)]
    using assms(2,6) by (auto simp: cooloff_hold_remaining_def revivable_def Let_def split: option.splits)
qed

text \<open>
  One pending head per push: after an enqueue that inserted a row, no other head of the same
  pull request is pending, and rows of other pull requests are untouched.
\<close>
theorem enqueue_supersedes_older_heads:
  assumes "enqueue_insert now inst repo name pr head base db = Some (i, db')"
  shows "(\<forall>j \<in> set (rq_jobs db'). job_filter inst repo pr j \<and> rj_status j = Pending \<longrightarrow> rj_head_sha j = head) \<and>
         filter (\<lambda>j. \<not> job_filter inst repo pr j) (rq_jobs db') =
         filter (\<lambda>j. \<not> job_filter inst repo pr j) (rq_jobs db)"
proof -
  let ?f = "\<lambda>j. if job_filter inst repo pr j \<and> rj_head_sha j \<noteq> head \<and> rj_status j = Pending
                then j\<lparr>rj_status := Superseded, rj_finished_at := Some now\<rparr> else j"
  have other: "job_filter inst repo pr (?f j) = job_filter inst repo pr j" for j
    by (simp add: job_filter_def)
  have "filter (\<lambda>j. \<not> job_filter inst repo pr j) (map ?f rows) =
        filter (\<lambda>j. \<not> job_filter inst repo pr j) rows" for rows
    by (induction rows) (simp_all only: list.map filter.simps other, auto)
  moreover have "job_filter inst repo pr (new_job now k inst repo name pr head base)" for k
    by (simp add: job_filter_def new_job_def)
  moreover have "rj_head_sha (?f j) = head" if "job_filter inst repo pr (?f j)" "rj_status (?f j) = Pending" for j
    using that other [of j] by (simp split: if_splits)
  ultimately show ?thesis
    unfolding insert_shape(1) [OF assms] by (auto simp: new_job_def)
qed

text \<open>
  Bounded spending: in every reachable state a row that is pending or running has attempts left,
  and a row that failed has used exactly the cap. Reclaiming a crashed worker's claim spends none.
\<close>
theorem attempts_stay_within_the_cap:
  assumes "rq_step\<^sup>*\<^sup>* rq_init db"
  shows "\<forall>j \<in> set (rq_jobs db).
           (rj_status j \<in> {Pending, Running} \<longrightarrow> rj_attempts j < MAX_ATTEMPTS) \<and>
           (rj_status j = Failed \<longrightarrow> rj_attempts j = MAX_ATTEMPTS) \<and>
           map rj_attempts (rq_jobs (snd (reclaim_stalled older now db))) = map rj_attempts (rq_jobs db)"
proof -
  from assms have "\<forall>j \<in> set (rq_jobs db). budget j"
  proof (induction rule: rtranclp_induct)
    case base
    show ?case by (simp add: rq_init_def)
  next
    case (step t u)
    obtain f new where f: "rq_jobs u = map f (rq_jobs t) @ new" "\<And>j. row_step j (f j)"
        "\<forall>j \<in> set new. rj_status j = Pending \<and> rj_attempts j = 0"
      using rq_step_frame [OF step(2)] by (auto simp: frame_def)
    with step(3) show ?case by (auto simp: row_step_def budget_def MAX_ATTEMPTS_def)
  qed
  moreover have "map rj_attempts (rq_jobs (snd (reclaim_stalled older now db))) = map rj_attempts (rq_jobs db)"
    by (simp add: reclaim_stalled_def row_simps)
  ultimately show ?thesis by (simp add: budget_def)
qed

text \<open>
  A failed attempt: the holder's \<open>fail\<close> spends one attempt in one update; at the cap the row is
  failed and keeps its place, below it the row is pending again behind everything enqueued before.
\<close>
theorem fail_spends_one_attempt:
  assumes "rq_wf db" and "rq_configured db" and "j \<in> set (rq_jobs db)" and "terminal_where i g j"
  shows "\<exists>db' j'. fail now i err g m db = Return (True, db') \<and> j' \<in> set (rq_jobs db') \<and>
           rj_id j' = i \<and> rj_attempts j' = rj_attempts j + 1 \<and> rj_started_at j' = None \<and>
           (if m \<le> rj_attempts j + 1
            then rj_status j' = Failed \<and> rj_finished_at j' = Some now \<and>
                 rj_enqueued_at j' = rj_enqueued_at j
            else rj_status j' = Pending \<and> rj_finished_at j' = rj_finished_at j \<and>
                 rj_enqueued_at j' = now)"
proof -
  have "holds_claim db i g" using assms by (auto simp: holds_claim_def)
  let ?f = "\<lambda>j. let n = rj_attempts j + 1; at_cap = n \<ge> m in
       j\<lparr>rj_attempts := n, rj_error := Some (take 500 err), rj_started_at := None,
         rj_status := (if at_cap then Failed else Pending),
         rj_finished_at := (if at_cap then Some now else rj_finished_at j),
         rj_enqueued_at := (if at_cap then rj_enqueued_at j else now)\<rparr>"
  let ?db = "db\<lparr>rq_jobs := update_where (terminal_where i g) ?f (rq_jobs db)\<rparr>"
  have "fail now i err g m db = Return (True, ?db)"
    using \<open>holds_claim db i g\<close> by (simp add: fail_def fenced_update_cases [OF assms(2)])
  moreover have "?f j \<in> set (rq_jobs ?db)"
    using assms(3,4) by (auto simp: in_update_where intro!: bexI [of _ j])
  moreover have "rj_id j = i" using assms(4) by (simp add: terminal_where_def)
  ultimately show ?thesis
    by (intro exI [of _ ?db] exI [of _ "?f j"]) (simp add: Let_def)
qed

subsection \<open>Witnesses\<close>

text \<open>One queued head; the same head claimed; and the claim reclaimed after its lease.\<close>

definition ex_queued :: review_db where
  "ex_queued = \<lparr>rq_configured = True,
     rq_jobs = [new_job 0 1 10 20 ''o/r'' 7 ''h1'' ''b1''], rq_next_id = 2\<rparr>"

definition ex_running :: review_db where
  "ex_running = snd (claim [] 5 ex_queued)"

definition ex_row :: review_job where
  "ex_row = (new_job 0 1 10 20 ''o/r'' 7 ''h1'' ''b1'')
     \<lparr>rj_status := Running, rj_started_at := Some 5, rj_generation := 1\<rparr>"

definition ex_reclaimed :: review_db where
  "ex_reclaimed = snd (reclaim_stalled STALL_LEASE_SECONDS (seconds 1000) ex_running)"

definition ex_done :: review_db where
  "ex_done = ex_queued\<lparr>rq_jobs :=
     [(new_job 0 1 10 20 ''o/r'' 7 ''h1'' ''b1'')
        \<lparr>rj_status := Done, rj_generation := 1, rj_finished_at := Some 9, rj_verdict_id := Some 3\<rparr>]\<rparr>"

definition ex_failed :: review_db where
  "ex_failed = ex_queued\<lparr>rq_jobs :=
     [(new_job 0 1 10 20 ''o/r'' 7 ''h1'' ''b1'')
        \<lparr>rj_status := Failed, rj_generation := 3, rj_attempts := 3, rj_finished_at := Some 9\<rparr>]\<rparr>"

lemma ex_queued_step: "rq_step rq_init ex_queued"
proof -
  have "enqueue_insert 0 10 20 ''o/r'' 7 ''h1'' ''b1'' rq_init = Some (1, ex_queued)" by code_simp
  then show ?thesis by (rule rq_step.insert [rotated]) code_simp
qed

lemma ex_queued_run: "rq_step\<^sup>*\<^sup>* rq_init ex_queued"
  using ex_queued_step by blast

lemma ex_claim: "claim [] 5 ex_queued = (Some ex_row, ex_running)"
  by code_simp

lemma ex_wf: "rq_wf ex_queued" "rq_wf ex_done" "rq_wf ex_failed" "rq_wf ex_running"
  by code_simp+

theorem review_queue_well_formed_witness: "rq_wf ex_queued"
  by (rule review_queue_well_formed) (rule ex_queued_run)

theorem stale_claim_never_settles_witness:
  "complete 99 1 (Some 4) 1 True ex_reclaimed = Return (False, ex_reclaimed)"
proof -
  have "rq_step ex_running ex_reclaimed"
    unfolding ex_reclaimed_def by (rule rq_step.reclaim)
  then have run: "rq_step\<^sup>*\<^sup>* ex_running ex_reclaimed" by blast
  have "\<not> holds_claim ex_reclaimed (rj_id ex_row) (rj_generation ex_row)" by code_simp
  from stale_claim_never_settles [OF ex_wf(1) ex_claim run this rtranclp.rtrancl_refl]
  have "complete 99 (rj_id ex_row) (Some 4) (rj_generation ex_row) True ex_reclaimed =
      Return (False, ex_reclaimed)" by blast
  then show ?thesis by (simp add: ex_row_def new_job_def)
qed

theorem done_head_never_claimed_again_witness:
  "\<exists>j' \<in> set (rq_jobs ex_done). rj_verdict_id j' = Some 3"
  using done_head_never_claimed_again
    [OF ex_wf(2) _ _ rtranclp.rtrancl_refl, of "hd (rq_jobs ex_done)"]
  by (auto simp: ex_done_def)

theorem claim_takes_the_oldest_witness:
  "\<exists>j \<in> set (rq_jobs ex_queued). rj_status j = Pending \<and> rj_id j = 1"
  using claim_takes_the_oldest [OF ex_wf(1) ex_claim]
  by (auto simp: ex_queued_def new_job_def)

theorem live_enqueue_never_loses_a_push_witness:
  "\<exists>r db'. enqueue 50 50 10 20 ''o/r'' 7 ''h1'' (Some ''b2'') ''live'' ex_failed = Return (r, db')"
  using live_enqueue_never_loses_a_push
    [OF ex_wf(3), of "''b2''" "''live''" 50 50 10 20 "''o/r''" 7 "''h1''"]
  by (auto simp: ex_failed_def ex_queued_def)

theorem reconcile_skip_is_explained_witness:
  "enqueue 50 50 10 20 ''o/r'' 7 ''h1'' (Some ''b2'') ''reconcile'' ex_failed = Return (None, ex_failed)"
proof -
  have "cooloff_hold_remaining 50 10 20 7 ''h1'' ex_failed \<noteq> None" by code_simp
  then show ?thesis
    using reconcile_skip_is_explained
      [OF ex_wf(3), of "''b2''" "hd (rq_jobs ex_failed)" 10 20 7 "''h1''" 50 "''o/r''"]
    by (auto simp: ex_failed_def ex_queued_def new_job_def rj_key_def)
qed

theorem enqueue_supersedes_older_heads_witness:
  "\<exists>db'. enqueue_insert 8 10 20 ''o/r'' 7 ''h2'' ''b2'' ex_queued = Some (2, db') \<and>
         (\<exists>j \<in> set (rq_jobs db'). rj_status j = Superseded)"
proof -
  have some: "enqueue_insert 8 10 20 ''o/r'' 7 ''h2'' ''b2'' ex_queued =
      Some (2, snd (the (enqueue_insert 8 10 20 ''o/r'' 7 ''h2'' ''b2'' ex_queued)))" by code_simp
  have "\<exists>j \<in> set (rq_jobs (snd (the (enqueue_insert 8 10 20 ''o/r'' 7 ''h2'' ''b2'' ex_queued)))).
      rj_status j = Superseded" by code_simp
  with enqueue_supersedes_older_heads [OF some] some show ?thesis by blast
qed

theorem attempts_stay_within_the_cap_witness:
  "list_all (\<lambda>j. rj_attempts j < MAX_ATTEMPTS) (rq_jobs ex_queued)"
  using attempts_stay_within_the_cap [OF ex_queued_run]
  by (simp add: ex_queued_def new_job_def)

theorem fail_spends_one_attempt_witness:
  "\<exists>db'. fail 7 1 ''boom'' 1 MAX_ATTEMPTS ex_running = Return (True, db')"
proof -
  have "rq_configured ex_running" "ex_row \<in> set (rq_jobs ex_running)" "terminal_where 1 1 ex_row"
    by code_simp+
  from fail_spends_one_attempt [OF ex_wf(4) this] show ?thesis by blast
qed

end
