(* ===== verification/Registry.thy ===== *)
theory Registry
  imports Prelude Complex_Main "HOL-Library.Product_Lexorder"
begin

text \<open>
  Who installed the reader where: the \<open>installations\<close> and \<open>installation_repos\<close> tables of
  \<open>api/doug/store.py\<close>, their two webhook writers, the per-repository settings, and the readers that
  resolve a repository to an installation. The record is extended by the outcome ledger, so every
  operation is stated on the record scheme. A threshold is the exact value of the float it is
  stored as, rounded half to even as Python rounds.
\<close>

subsection \<open>The tables\<close>

record install_row =
  in_id :: int
  in_installation :: int
  in_login :: string
  in_type :: string
  in_state :: string
  in_updated_at :: instant
  in_installer :: "int option"

record repo_row =
  ip_id :: int
  ip_installation :: int
  ip_repo :: int
  ip_full_name :: string
  ip_state :: string
  ip_updated_at :: instant
  ip_threshold :: "rat option"
  ip_pr_comment :: bool
  ip_deep_read :: bool

record registry =
  rg_configured :: bool
  rg_installs :: "install_row list"
  rg_repos :: "repo_row list"
  rg_install_seq :: int
  rg_repo_seq :: int

definition repo_is :: "int \<Rightarrow> int \<Rightarrow> repo_row \<Rightarrow> bool" where
  "repo_is inst repo r \<longleftrightarrow> ip_installation r = inst \<and> ip_repo r = repo"

text \<open>The row of one (installation, repository): at most one exists, by the table's unique key.\<close>

definition registration :: "('a registry_scheme) \<Rightarrow> int \<Rightarrow> int \<Rightarrow> repo_row option" where
  "registration db inst repo = List.find (repo_is inst repo) (rg_repos db)"

definition registry_wf :: "('a registry_scheme) \<Rightarrow> bool" where
  "registry_wf db \<longleftrightarrow>
     distinct (map in_installation (rg_installs db)) \<and>
     distinct (map ip_id (rg_repos db)) \<and>
     distinct (map (\<lambda>r. (ip_installation r, ip_repo r)) (rg_repos db)) \<and>
     list_all (\<lambda>i. i < rg_repo_seq db) (map ip_id (rg_repos db))"

subsection \<open>The webhook writers\<close>

text \<open>
  \<open>seen\<close> is the table the reading transaction saw: another delivery may insert the row before the
  writing transaction runs, and then the insert fails on the unique key and the update follows.
\<close>

definition upsert_installation ::
    "instant \<Rightarrow> int \<Rightarrow> string \<Rightarrow> string \<Rightarrow> string \<Rightarrow> int option \<Rightarrow> install_row list \<Rightarrow>
     ('a registry_scheme) \<Rightarrow> ('a registry_scheme)" where
  "upsert_installation now inst login kind state installer seen db =
     (if \<not> rg_configured db then db
      else let here = (\<lambda>r. in_installation r = inst);
               write = (\<lambda>r. r\<lparr>in_login := login, in_type := kind, in_state := state, in_updated_at := now,
                              in_installer := (if installer = None then in_installer r else installer)\<rparr>)
           in if List.find here seen = None \<and> List.find here (rg_installs db) = None
              then db\<lparr>rg_installs := rg_installs db @
                       [\<lparr>in_id = rg_install_seq db, in_installation = inst, in_login = login, in_type = kind,
                         in_state = state, in_updated_at = now, in_installer = installer\<rparr>],
                      rg_install_seq := rg_install_seq db + 1\<rparr>
              else db\<lparr>rg_installs := update_where here write (rg_installs db)\<rparr>)"

definition new_registration :: "instant \<Rightarrow> int \<Rightarrow> int \<Rightarrow> string \<Rightarrow> string \<Rightarrow> int \<Rightarrow> repo_row" where
  "new_registration now inst repo name state i =
     \<lparr>ip_id = i, ip_installation = inst, ip_repo = repo, ip_full_name = name, ip_state = state,
      ip_updated_at = now, ip_threshold = None, ip_pr_comment = True, ip_deep_read = True\<rparr>"

definition touch :: "instant \<Rightarrow> string \<Rightarrow> string \<Rightarrow> repo_row \<Rightarrow> repo_row" where
  "touch now name state r = r\<lparr>ip_full_name := name, ip_state := state, ip_updated_at := now\<rparr>"

text \<open>The loop over the delivered repositories; \<open>known\<close> maps a repository id to its row's id.\<close>

fun write_repos ::
    "instant \<Rightarrow> int \<Rightarrow> string \<Rightarrow> (int \<times> string) list \<Rightarrow> (int \<times> int) list \<Rightarrow>
     ('a registry_scheme) \<Rightarrow> ('a registry_scheme)" where
  "write_repos now inst state [] known db = db"
| "write_repos now inst state ((repo, name) # rest) known db =
     (case dict_get known repo of
        Some i \<Rightarrow> write_repos now inst state rest known
                    (db\<lparr>rg_repos := update_where (\<lambda>r. ip_id r = i) (touch now name state) (rg_repos db)\<rparr>)
      | None \<Rightarrow>
          let i = rg_repo_seq db
          in write_repos now inst state rest (dict_set repo i known)
               (db\<lparr>rg_repos := rg_repos db @ [new_registration now inst repo name state i],
                   rg_repo_seq := i + 1\<rparr>))"

definition retire_stale :: "instant \<Rightarrow> int \<Rightarrow> int list \<Rightarrow> ('a registry_scheme) \<Rightarrow> ('a registry_scheme)" where
  "retire_stale now inst ids db =
     db\<lparr>rg_repos := update_where
          (\<lambda>r. ip_installation r = inst \<and> (ids = [] \<or> ip_repo r \<notin> set ids))
          (\<lambda>r. r\<lparr>ip_state := ''removed'', ip_updated_at := now\<rparr>) (rg_repos db)\<rparr>"

definition known_repos :: "int \<Rightarrow> ('a registry_scheme) \<Rightarrow> (int \<times> int) list" where
  "known_repos inst db =
     fold (\<lambda>r d. dict_set (ip_repo r) (ip_id r) d) (filter (\<lambda>r. ip_installation r = inst) (rg_repos db)) []"

definition set_installation_repos ::
    "instant \<Rightarrow> int \<Rightarrow> (int \<times> string) list \<Rightarrow> bool \<Rightarrow> string \<Rightarrow> ('a registry_scheme) \<Rightarrow> ('a registry_scheme)" where
  "set_installation_repos now inst repos replace state db =
     (if \<not> rg_configured db then db
      else let db1 = (if replace then retire_stale now inst (map fst repos) db else db)
           in write_repos now inst state repos (known_repos inst db1) db1)"

subsection \<open>Settings\<close>

definition round_half_even :: "rat \<Rightarrow> int" where
  "round_half_even x =
     (let f = \<lfloor>x\<rfloor>; d = x - of_int f
      in if d < 1/2 then f else if d > 1/2 then f + 1 else if even f then f else f + 1)"

definition round2 :: "rat \<Rightarrow> rat" where
  "round2 x = of_int (round_half_even (x * 100)) / 100"

definition active_row :: "int \<Rightarrow> int \<Rightarrow> repo_row \<Rightarrow> bool" where
  "active_row inst repo r \<longleftrightarrow> repo_is inst repo r \<and> ip_state r = ''active''"

text \<open>The three setters share one statement: write one column of the active row, report one hit.\<close>

definition set_column ::
    "int \<Rightarrow> int \<Rightarrow> (repo_row \<Rightarrow> repo_row) \<Rightarrow> ('a registry_scheme) \<Rightarrow> bool \<times> ('a registry_scheme)" where
  "set_column inst repo f db =
     (if \<not> rg_configured db then (False, db)
      else (rowcount (active_row inst repo) (rg_repos db) = 1,
            db\<lparr>rg_repos := update_where (active_row inst repo) f (rg_repos db)\<rparr>))"

definition repo_threshold :: "int \<Rightarrow> int \<Rightarrow> ('a registry_scheme) \<Rightarrow> rat option" where
  "repo_threshold inst repo db =
     (if \<not> rg_configured db then None
      else case registration db inst repo of None \<Rightarrow> None | Some r \<Rightarrow> ip_threshold r)"

definition set_repo_threshold ::
    "int \<Rightarrow> int \<Rightarrow> rat option \<Rightarrow> ('a registry_scheme) \<Rightarrow> bool \<times> ('a registry_scheme)" where
  "set_repo_threshold inst repo v =
     set_column inst repo (\<lambda>r. r\<lparr>ip_threshold := map_option round2 v\<rparr>)"

definition repo_deep_read :: "int \<Rightarrow> int \<Rightarrow> ('a registry_scheme) \<Rightarrow> bool" where
  "repo_deep_read inst repo db =
     (if \<not> rg_configured db then True
      else case registration db inst repo of None \<Rightarrow> True | Some r \<Rightarrow> ip_deep_read r)"

definition set_repo_deep_read ::
    "int \<Rightarrow> int \<Rightarrow> bool \<Rightarrow> ('a registry_scheme) \<Rightarrow> bool \<times> ('a registry_scheme)" where
  "set_repo_deep_read inst repo v = set_column inst repo (\<lambda>r. r\<lparr>ip_deep_read := v\<rparr>)"

datatype comment_state = CommentOn | CommentOff | NoActiveRow | NoLedger

definition repo_pr_comment_state :: "int \<Rightarrow> int \<Rightarrow> ('a registry_scheme) \<Rightarrow> comment_state" where
  "repo_pr_comment_state inst repo db =
     (if \<not> rg_configured db then NoLedger
      else case List.find (active_row inst repo) (rg_repos db) of
             None \<Rightarrow> NoActiveRow
           | Some r \<Rightarrow> if ip_pr_comment r then CommentOn else CommentOff)"

definition repo_pr_comment :: "int \<Rightarrow> int \<Rightarrow> ('a registry_scheme) \<Rightarrow> bool" where
  "repo_pr_comment inst repo db \<longleftrightarrow> repo_pr_comment_state inst repo db = CommentOn"

definition set_repo_pr_comment ::
    "int \<Rightarrow> int \<Rightarrow> bool \<Rightarrow> ('a registry_scheme) \<Rightarrow> bool \<times> ('a registry_scheme)" where
  "set_repo_pr_comment inst repo v = set_column inst repo (\<lambda>r. r\<lparr>ip_pr_comment := v\<rparr>)"

subsection \<open>Readers\<close>

definition active_installations :: "('a registry_scheme) \<Rightarrow> int list" where
  "active_installations db =
     (if \<not> rg_configured db then []
      else map in_installation (filter (\<lambda>r. in_state r = ''active'') (rg_installs db)))"

definition installation_state :: "int \<Rightarrow> ('a registry_scheme) \<Rightarrow> string option" where
  "installation_state inst db =
     (if \<not> rg_configured db then None
      else map_option in_state (row_by in_installation inst (rg_installs db)))"

definition active_repos :: "int \<Rightarrow> ('a registry_scheme) \<Rightarrow> (int \<times> string) list" where
  "active_repos inst db =
     (if \<not> rg_configured db then []
      else map (\<lambda>r. (ip_repo r, ip_full_name r))
             (filter (\<lambda>r. ip_installation r = inst \<and> ip_state r = ''active'') (rg_repos db)))"

definition installation_lineage :: "int list \<Rightarrow> ('a registry_scheme) \<Rightarrow> int list" where
  "installation_lineage repos db =
     (if \<not> rg_configured db \<or> repos = [] then []
      else fromkeys (map ip_installation (filter (\<lambda>r. ip_repo r \<in> set repos) (rg_repos db))))"

text \<open>The one tenant filter: a caller that gives both spellings, or a lineage alone, is a bug.\<close>

definition tenant_ids ::
    "int option \<Rightarrow> int list option \<Rightarrow> int list option \<Rightarrow> (string, int list option) result" where
  "tenant_ids inst insts repos =
     (case insts of
        Some is \<Rightarrow>
          if inst \<noteq> None then Raise ''pass installation_id or installation_ids, never both''
          else if repos = None then Raise ''installation_ids requires repo_ids''
          else Return (Some is)
      | None \<Rightarrow> Return (map_option (\<lambda>i. [i]) inst))"

text \<open>\<open>ORDER BY updated_at DESC, id DESC\<close>: the newest registration comes first.\<close>

definition newest_key :: "repo_row \<Rightarrow> int \<times> int" where
  "newest_key r = (- ip_updated_at r, - ip_id r)"

definition repo_id_for :: "string \<Rightarrow> ('a registry_scheme) \<Rightarrow> (int \<times> int) option" where
  "repo_id_for name db =
     (if \<not> rg_configured db then None
      else map_option (\<lambda>r. (ip_installation r, ip_repo r))
             (first_by newest_key
                (filter (\<lambda>r. ip_full_name r = name \<and> ip_state r = ''active'') (rg_repos db))))"

text \<open>\<open>outcome_queue._live_registration\<close>: the same order, with the installation active too.\<close>

definition installation_active :: "('a registry_scheme) \<Rightarrow> int \<Rightarrow> bool" where
  "installation_active db inst \<longleftrightarrow>
     (\<exists>r \<in> set (rg_installs db). in_installation r = inst \<and> in_state r = ''active'')"

definition covers_live :: "('a registry_scheme) \<Rightarrow> repo_row \<Rightarrow> bool" where
  "covers_live db r \<longleftrightarrow> ip_state r = ''active'' \<and> installation_active db (ip_installation r)"

definition live_registration :: "('a registry_scheme) \<Rightarrow> int \<Rightarrow> (int \<times> string) option" where
  "live_registration db repo =
     map_option (\<lambda>r. (ip_installation r, ip_full_name r))
       (first_by newest_key (filter (\<lambda>r. ip_repo r = repo \<and> covers_live db r) (rg_repos db)))"

subsection \<open>What the writers do to one registration\<close>

lemma touch_simps [simp]:
  "ip_id (touch now name state r) = ip_id r" "ip_installation (touch now name state r) = ip_installation r"
  "ip_repo (touch now name state r) = ip_repo r"
  by (simp_all add: touch_def)

lemma new_registration_simps [simp]:
  "ip_id (new_registration now inst repo name state i) = i"
  "ip_installation (new_registration now inst repo name state i) = inst"
  "ip_repo (new_registration now inst repo name state i) = repo"
  by (simp_all add: new_registration_def)

text \<open>The dictionary of known rows is faithful to the table.\<close>

definition knows :: "int \<Rightarrow> (int \<times> int) list \<Rightarrow> ('a registry_scheme) \<Rightarrow> bool" where
  "knows inst known db \<longleftrightarrow> (\<forall>repo. dict_get known repo = map_option ip_id (registration db inst repo))"

lemma registration_some:
  "registration db inst repo = Some r \<Longrightarrow> r \<in> set (rg_repos db) \<and> ip_installation r = inst \<and> ip_repo r = repo"
  by (auto simp: registration_def repo_is_def dest: find_some_iff_filter)

lemma registration_in:
  assumes "registry_wf db" and "r \<in> set (rg_repos db)"
  shows "registration db (ip_installation r) (ip_repo r) = Some r"
  unfolding registration_def
proof (rule find_unique)
  fix q
  assume "q \<in> set (rg_repos db)" "repo_is (ip_installation r) (ip_repo r) q"
  with assms show "q = r"
    by (auto simp: registry_wf_def repo_is_def distinct_map dest: inj_onD)
qed (use assms in \<open>auto simp: repo_is_def\<close>)

lemma fold_known:
  assumes "distinct (map (\<lambda>r. (ip_installation r, ip_repo r)) rows)"
  shows "dict_get (fold (\<lambda>r d. dict_set (ip_repo r) (ip_id r) d) (filter (\<lambda>r. ip_installation r = inst) rows) d) repo =
     (case List.find (repo_is inst repo) rows of None \<Rightarrow> dict_get d repo | Some r \<Rightarrow> Some (ip_id r))"
  using assms
proof (induction rows arbitrary: d)
  case (Cons r rows)
  show ?case
  proof (cases "repo_is inst repo r")
    case True
    with Cons.prems have none: "List.find (repo_is inst repo) rows = None"
      by (auto simp: find_None_iff repo_is_def image_iff)
    from True have r: "ip_installation r = inst" "ip_repo r = repo" by (simp_all add: repo_is_def)
    from True none Cons.prems show ?thesis by (simp add: r Cons.IH)
  next
    case False
    with Cons show ?thesis by (auto simp: repo_is_def split: option.splits)
  qed
qed simp

lemma known_repos_knows: "registry_wf db \<Longrightarrow> knows inst (known_repos inst db) db"
  by (auto simp: knows_def known_repos_def registry_wf_def fold_known registration_def split: option.splits)

lemma retire_stale_wf [simp]: "registry_wf (retire_stale now inst ids db) = registry_wf db"
  by (auto simp: registry_wf_def retire_stale_def row_simps)

lemma registration_update:
  assumes "\<And>r. ip_installation (f r) = ip_installation r" and "\<And>r. ip_repo (f r) = ip_repo r"
  shows "registration (db\<lparr>rg_repos := update_where q f (rg_repos db)\<rparr>) i repo =
     map_option (\<lambda>r. if q r then f r else r) (registration db i repo)"
  by (simp add: registration_def find_update_where repo_is_def assms)

lemma retire_stale_registration:
  "registration (retire_stale now inst ids db) i repo =
     map_option (\<lambda>r. if i = inst \<and> repo \<notin> set ids then r\<lparr>ip_state := ''removed'', ip_updated_at := now\<rparr> else r)
       (registration db i repo)"
proof (cases "registration db i repo")
  case None
  then show ?thesis by (simp add: retire_stale_def registration_update)
next
  case (Some r)
  then show ?thesis
    using registration_some [OF Some] by (auto simp: retire_stale_def registration_update)
qed

text \<open>One delivered repository: its row is written, or made, and no other row changes.\<close>

definition written :: "instant \<Rightarrow> int \<Rightarrow> string \<Rightarrow> int \<Rightarrow> string \<Rightarrow> repo_row option \<Rightarrow> repo_row option \<Rightarrow> bool" where
  "written now inst state repo name old new \<longleftrightarrow>
     (case old of
        Some r \<Rightarrow> new = Some (touch now name state r)
      | None \<Rightarrow> (\<exists>i. new = Some (new_registration now inst repo name state i)))"

lemma written_again:
  "written now inst state repo name old mid \<Longrightarrow> written now inst state repo name' mid new \<Longrightarrow>
   written now inst state repo name' old new"
  by (auto simp: written_def touch_def new_registration_def split: option.splits)

lemma update_one:
  fixes now :: instant and name state :: string
  assumes wf: "registry_wf db" and r: "registration db inst repo = Some r"
  defines "db' \<equiv> db\<lparr>rg_repos := update_where (\<lambda>q. ip_id q = ip_id r) (touch now name state) (rg_repos db)\<rparr>"
  shows "registry_wf db'"
    and "registration db' i q = (if i = inst \<and> q = repo then Some (touch now name state r) else registration db i q)"
proof -
  show "registry_wf db'"
    using wf by (auto simp: registry_wf_def db'_def row_simps)
  have same: "x = r" if "registration db i q = Some x" "ip_id x = ip_id r" for x
    using wf registration_some [OF r] registration_some [OF that(1)] that(2)
    by (auto simp: registry_wf_def distinct_map dest: inj_onD)
  show "registration db' i q =
      (if i = inst \<and> q = repo then Some (touch now name state r) else registration db i q)"
  proof (cases "i = inst \<and> q = repo")
    case True
    with r show ?thesis by (simp add: db'_def registration_update)
  next
    case False
    then have "ip_id x \<noteq> ip_id r" if "registration db i q = Some x" for x
      using same [OF that] registration_some [OF that] registration_some [OF r] by blast
    with False show ?thesis
      by (cases "registration db i q") (auto simp: db'_def registration_update)
  qed
qed

lemma insert_one:
  fixes now :: instant and name state :: string
  assumes wf: "registry_wf db" and none: "registration db inst repo = None"
  defines "new \<equiv> new_registration now inst repo name state (rg_repo_seq db)"
  defines "db' \<equiv> db\<lparr>rg_repos := rg_repos db @ [new], rg_repo_seq := rg_repo_seq db + 1\<rparr>"
  shows "registry_wf db'"
    and "registration db' i q = (if i = inst \<and> q = repo then Some new else registration db i q)"
proof -
  have "(inst, repo) \<notin> (\<lambda>r. (ip_installation r, ip_repo r)) ` set (rg_repos db)"
    using none by (auto simp: registration_def find_None_iff repo_is_def)
  moreover have "rg_repo_seq db \<notin> ip_id ` set (rg_repos db)" and
      "list_all (\<lambda>i. i < rg_repo_seq db + 1) (map ip_id (rg_repos db))"
    using wf by (auto simp: registry_wf_def list_all_iff)
  ultimately show "registry_wf db'"
    using wf by (simp add: registry_wf_def db'_def new_def)
  show "registration db' i q = (if i = inst \<and> q = repo then Some new else registration db i q)"
    using none
    by (auto simp: registration_def db'_def find_append repo_is_def new_def split: option.splits)
qed

lemma write_repos_effect:
  assumes "registry_wf db" and "knows inst known db"
  shows "registry_wf (write_repos now inst state rs known db) \<and>
     (\<forall>i repo. i \<noteq> inst \<longrightarrow> registration (write_repos now inst state rs known db) i repo = registration db i repo) \<and>
     (\<forall>repo. case dict_get (rev rs) repo of
        None \<Rightarrow> registration (write_repos now inst state rs known db) inst repo = registration db inst repo
      | Some name \<Rightarrow> written now inst state repo name (registration db inst repo)
                      (registration (write_repos now inst state rs known db) inst repo))"
  using assms
proof (induction now inst state rs known db rule: write_repos.induct)
  case (2 now inst state repo name rest known db)
  define db1 where "db1 = (case dict_get known repo of
      Some i \<Rightarrow> db\<lparr>rg_repos := update_where (\<lambda>r. ip_id r = i) (touch now name state) (rg_repos db)\<rparr>
    | None \<Rightarrow> db\<lparr>rg_repos := rg_repos db @ [new_registration now inst repo name state (rg_repo_seq db)],
                 rg_repo_seq := rg_repo_seq db + 1\<rparr>)"
  define known1 where "known1 = (case dict_get known repo of Some i \<Rightarrow> known | None \<Rightarrow> dict_set repo (rg_repo_seq db) known)"
  have step: "write_repos now inst state ((repo, name) # rest) known db = write_repos now inst state rest known1 db1"
    by (simp add: db1_def known1_def Let_def split: option.splits)
  have k: "dict_get known repo = map_option ip_id (registration db inst repo)"
    using 2(4) by (simp add: knows_def)
  have one: "registry_wf db1 \<and> knows inst known1 db1 \<and>
      written now inst state repo name (registration db inst repo) (registration db1 inst repo) \<and>
      (\<forall>i q. (i, q) \<noteq> (inst, repo) \<longrightarrow> registration db1 i q = registration db i q)"
  proof (cases "registration db inst repo")
    case None
    then show ?thesis
      using insert_one [OF 2(3) None] k 2(4)
      by (auto simp: db1_def known1_def knows_def written_def)
  next
    case (Some r)
    then show ?thesis
      using update_one [OF 2(3) Some] k 2(4)
      by (auto simp: db1_def known1_def knows_def written_def)
  qed
  have IH: "registry_wf (write_repos now inst state rest known1 db1) \<and>
     (\<forall>i repo. i \<noteq> inst \<longrightarrow> registration (write_repos now inst state rest known1 db1) i repo = registration db1 i repo) \<and>
     (\<forall>repo. case dict_get (rev rest) repo of
        None \<Rightarrow> registration (write_repos now inst state rest known1 db1) inst repo = registration db1 inst repo
      | Some name \<Rightarrow> written now inst state repo name (registration db1 inst repo)
                      (registration (write_repos now inst state rest known1 db1) inst repo))"
  proof (cases "dict_get known repo")
    case None
    then have "db1 = db\<lparr>rg_repos := rg_repos db @ [new_registration now inst repo name state (rg_repo_seq db)],
                 rg_repo_seq := rg_repo_seq db + 1\<rparr>" "known1 = dict_set repo (rg_repo_seq db) known"
      by (simp_all add: db1_def known1_def)
    with 2(1) [OF None refl] one show ?thesis by blast
  next
    case (Some i)
    then have "db1 = db\<lparr>rg_repos := update_where (\<lambda>r. ip_id r = i) (touch now name state) (rg_repos db)\<rparr>"
        "known1 = known"
      by (simp_all add: db1_def known1_def)
    with 2(2) [OF Some] one show ?thesis by blast
  qed
  show ?case unfolding step
  proof (intro conjI allI impI)
    fix q
    show "case dict_get (rev ((repo, name) # rest)) q of
        None \<Rightarrow> registration (write_repos now inst state rest known1 db1) inst q = registration db inst q
      | Some name \<Rightarrow> written now inst state q name (registration db inst q)
                      (registration (write_repos now inst state rest known1 db1) inst q)"
      using conjunct2 [OF conjunct2 [OF IH], rule_format, of q] one
      by (cases "q = repo") (auto simp: map_add_def split: option.splits dest: written_again)
  qed (use IH one in auto)
qed (auto simp: split: option.splits)

subsection \<open>Properties\<close>

text \<open>
  A delivery of repositories writes exactly the rows it names, under the last name it gives
  each: a known row keeps its id and all its settings, an unknown one starts with the defaults. A
  replacing delivery marks every other repository of that installation removed; a merging one
  leaves them, and either leaves the other installations alone. The table stays well formed.
\<close>
theorem delivery_writes_exactly_what_it_names:
  assumes "registry_wf db" and "rg_configured db"
    and eq: "db' = set_installation_repos now inst rs replace state db"
  shows "registry_wf db' \<and>
     (\<forall>i repo. registration db' i repo =
        (if i \<noteq> inst then registration db i repo
         else case dict_get (rev rs) repo of
           None \<Rightarrow>
             if replace then map_option (\<lambda>r. r\<lparr>ip_state := ''removed'', ip_updated_at := now\<rparr>) (registration db i repo)
             else registration db i repo
         | Some name \<Rightarrow>
             (case registration db i repo of
                Some r \<Rightarrow> Some (r\<lparr>ip_full_name := name, ip_state := state, ip_updated_at := now\<rparr>)
              | None \<Rightarrow> map_option (\<lambda>r. new_registration now inst repo name state (ip_id r)) (registration db' i repo))) \<and>
        (registration db i repo \<noteq> None \<or> (i = inst \<and> repo \<in> fst ` set rs) \<longleftrightarrow> registration db' i repo \<noteq> None))"
proof -
  define db1 where "db1 = (if replace then retire_stale now inst (map fst rs) db else db)"
  have wf: "registry_wf db1" using assms(1) by (simp add: db1_def)
  have db': "db' = write_repos now inst state rs (known_repos inst db1) db1"
    using assms(2) by (simp add: eq set_installation_repos_def db1_def Let_def)
  have reg1: "registration db1 i repo = map_option (\<lambda>r. if replace \<and> i = inst \<and> repo \<notin> fst ` set rs
      then r\<lparr>ip_state := ''removed'', ip_updated_at := now\<rparr> else r) (registration db i repo)" for i repo
    by (cases "registration db i repo") (auto simp: db1_def retire_stale_registration)
  have named: "dict_get (rev rs) repo = None \<longleftrightarrow> repo \<notin> fst ` set rs" for repo
    by (simp add: map_of_eq_None_iff)
  note effect = write_repos_effect [OF wf known_repos_knows [OF wf], where now = now and inst = inst and state = state and rs = rs, folded db']
  have other: "i \<noteq> inst \<Longrightarrow> registration db' i repo = registration db1 i repo" for i repo
    using effect by blast
  have here: "case dict_get (rev rs) repo of
        None \<Rightarrow> registration db' inst repo = registration db1 inst repo
      | Some name \<Rightarrow> written now inst state repo name (registration db1 inst repo) (registration db' inst repo)" for repo
    using effect by blast
  show ?thesis
  proof (intro conjI allI)
    fix i repo
    show "registration db' i repo = (if i \<noteq> inst then registration db i repo
         else case dict_get (rev rs) repo of
           None \<Rightarrow>
             if replace then map_option (\<lambda>r. r\<lparr>ip_state := ''removed'', ip_updated_at := now\<rparr>) (registration db i repo)
             else registration db i repo
         | Some name \<Rightarrow>
             (case registration db i repo of
                Some r \<Rightarrow> Some (r\<lparr>ip_full_name := name, ip_state := state, ip_updated_at := now\<rparr>)
              | None \<Rightarrow> map_option (\<lambda>r. new_registration now inst repo name state (ip_id r)) (registration db' i repo)))"
      using other [of i repo] here [of repo] reg1 [of i repo] named [of repo]
      by (cases "i = inst"; cases "registration db i repo"; cases "dict_get (rev rs) repo")
         (auto simp: written_def touch_def)
    show "(registration db i repo \<noteq> None \<or> (i = inst \<and> repo \<in> fst ` set rs)) = (registration db' i repo \<noteq> None)"
      using other [of i repo] here [of repo] reg1 [of i repo] named [of repo]
      by (cases "registration db i repo"; cases "dict_get (rev rs) repo"; cases "i = inst")
         (auto simp: written_def)
  qed (use effect in blast)
qed

lemma set_column_effect:
  assumes "registry_wf db" and "rg_configured db"
    and f: "\<And>r. ip_id (f r) = ip_id r \<and> ip_installation (f r) = ip_installation r \<and> ip_repo (f r) = ip_repo r \<and>
           ip_full_name (f r) = ip_full_name r \<and> ip_state (f r) = ip_state r \<and> ip_updated_at (f r) = ip_updated_at r"
  shows "fst (set_column inst repo f db) \<longleftrightarrow> repo \<in> fst ` set (active_repos inst db)" (is ?hit)
    and "repo \<notin> fst ` set (active_repos inst db) \<Longrightarrow> snd (set_column inst repo f db) = db"
    and "repo \<in> fst ` set (active_repos inst db) \<Longrightarrow>
           \<exists>r. registration db inst repo = Some r \<and> ip_state r = ''active'' \<and>
               registration (snd (set_column inst repo f db)) inst repo = Some (f r) \<and>
               List.find (active_row inst repo) (rg_repos (snd (set_column inst repo f db))) = Some (f r)"
    and "repo_id_for name (snd (set_column inst repo f db)) = repo_id_for name db"
    and "live_registration (snd (set_column inst repo f db)) other = live_registration db other"
    and "rg_configured (snd (set_column inst repo f db))"
proof -
  let ?out = "set_column inst repo f db"
  have active: "repo \<in> fst ` set (active_repos inst db) \<longleftrightarrow> (\<exists>r \<in> set (rg_repos db). active_row inst repo r)"
    using assms(2) by (force simp: active_repos_def active_row_def repo_is_def)
  have atmost: "rowcount (active_row inst repo) (rg_repos db) \<le> 1"
  proof -
    have "distinct (map (\<lambda>r. (ip_installation r, ip_repo r)) (filter (active_row inst repo) (rg_repos db)))"
      using assms(1) by (auto simp: registry_wf_def distinct_map intro: inj_on_subset)
    moreover have "set (map (\<lambda>r. (ip_installation r, ip_repo r)) (filter (active_row inst repo) (rg_repos db))) \<subseteq> {(inst, repo)}"
      by (auto simp: active_row_def repo_is_def)
    ultimately have "length (map (\<lambda>r. (ip_installation r, ip_repo r)) (filter (active_row inst repo) (rg_repos db))) \<le> card {(inst, repo)}"
      by (metis card_mono distinct_card finite.intros(1) finite.intros(2))
    then show ?thesis by (simp add: rowcount_def)
  qed
  show ?hit
    using atmost rowcount_pos [of "active_row inst repo" "rg_repos db"] assms(2)
    by (auto simp: set_column_def active)
  show "snd ?out = db" if "repo \<notin> fst ` set (active_repos inst db)"
    using that assms(2) rowcount_pos [of "active_row inst repo" "rg_repos db"]
    by (simp add: set_column_def active update_where_no_rows)
  show "\<exists>r. registration db inst repo = Some r \<and> ip_state r = ''active'' \<and>
               registration (snd ?out) inst repo = Some (f r) \<and>
               List.find (active_row inst repo) (rg_repos (snd ?out)) = Some (f r)"
    if "repo \<in> fst ` set (active_repos inst db)"
  proof -
    from that active obtain r where r: "r \<in> set (rg_repos db)" "active_row inst repo r" by blast
    then have reg: "registration db inst repo = Some r"
      using registration_in [OF assms(1) r(1)] by (auto simp: active_row_def repo_is_def)
    then obtain q where q: "List.find (active_row inst repo) (rg_repos db) = Some q"
      using r by (cases "List.find (active_row inst repo) (rg_repos db)") (auto simp: find_None_iff)
    from find_some_iff_filter [OF this] registration_in [OF assms(1), of q] reg have "q = r"
      by (auto simp: active_row_def repo_is_def)
    with q r reg f assms(2) show ?thesis
      by (auto simp: set_column_def registration_update find_update_where active_row_def repo_is_def)
  qed
  show "repo_id_for name (snd ?out) = repo_id_for name db"
    using assms(2) f
    by (cases "first_by newest_key (filter (\<lambda>r. ip_full_name r = name \<and> ip_state r = ''active'') (rg_repos db))")
       (simp_all add: set_column_def repo_id_for_def row_simps newest_key_def)
  show "live_registration (snd ?out) other = live_registration db other"
    using assms(2) f
    by (cases "first_by newest_key (filter (\<lambda>r. ip_repo r = other \<and> covers_live db r) (rg_repos db))")
       (simp_all add: set_column_def live_registration_def covers_live_def installation_active_def row_simps newest_key_def)
  show "rg_configured (snd ?out)" using assms(2) by (simp add: set_column_def)
qed

text \<open>
  A setting is written on the active row only, reads back as written (a threshold rounded to
  two decimals), reports False and changes nothing when no active row exists, and never moves the
  registration another reader resolves: the newest row of a name and the live installation of a
  repository are the ones from before.
\<close>
theorem settings_read_back_and_move_nothing:
  assumes "registry_wf db" and "rg_configured db"
    and "hit = (repo \<in> fst ` set (active_repos inst db))"
  shows "fst (set_repo_threshold inst repo v db) = hit \<and>
         fst (set_repo_deep_read inst repo b db) = hit \<and>
         fst (set_repo_pr_comment inst repo b db) = hit \<and>
         (if hit then repo_threshold inst repo (snd (set_repo_threshold inst repo v db)) = map_option round2 v \<and>
                      repo_deep_read inst repo (snd (set_repo_deep_read inst repo b db)) = b \<and>
                      repo_pr_comment inst repo (snd (set_repo_pr_comment inst repo b db)) = b
          else snd (set_repo_threshold inst repo v db) = db \<and> snd (set_repo_deep_read inst repo b db) = db \<and>
               snd (set_repo_pr_comment inst repo b db) = db) \<and>
         (\<forall>out. out \<in> {set_repo_threshold inst repo v db, set_repo_deep_read inst repo b db, set_repo_pr_comment inst repo b db} \<longrightarrow>
            repo_id_for name (snd out) = repo_id_for name db \<and>
            live_registration (snd out) other = live_registration db other)"
proof -
  note effect = set_column_effect [OF assms(1,2), where inst = inst and repo = repo]
  note t = effect [where f = "\<lambda>r. r\<lparr>ip_threshold := map_option round2 v\<rparr>", folded set_repo_threshold_def]
  note d = effect [where f = "\<lambda>r. r\<lparr>ip_deep_read := b\<rparr>", folded set_repo_deep_read_def]
  note c = effect [where f = "\<lambda>r. r\<lparr>ip_pr_comment := b\<rparr>", folded set_repo_pr_comment_def]
  show ?thesis
  proof (cases "repo \<in> fst ` set (active_repos inst db)")
    case True
    have "repo_threshold inst repo (snd (set_repo_threshold inst repo v db)) = map_option round2 v"
      using t(3) [OF _ True] t(6) by (auto simp: repo_threshold_def)
    moreover have "repo_deep_read inst repo (snd (set_repo_deep_read inst repo b db)) = b"
      using d(3) [OF _ True] d(6) by (auto simp: repo_deep_read_def)
    moreover have "repo_pr_comment inst repo (snd (set_repo_pr_comment inst repo b db)) = b"
      using c(3) [OF _ True] c(6) by (cases b) (auto simp: repo_pr_comment_def repo_pr_comment_state_def)
    ultimately show ?thesis
      using True t(1,4,5) d(1,4,5) c(1,4,5) assms(3) by auto
  next
    case False
    then show ?thesis
      using t(1,2,4,5) d(1,2,4,5) c(1,2,4,5) assms(3) by auto
  qed
qed

text \<open>
  Recording an installation is idempotent under the insert race: whichever table the reading
  transaction saw, afterwards there is one row for it, in the delivered state, the installer named
  by a created delivery is never blanked by a later one, and no other installation changes.
\<close>
theorem installation_upsert_keeps_one_row:
  assumes "registry_wf db" and "rg_configured db"
    and "in_installation ` set seen \<subseteq> in_installation ` set (rg_installs db)"
    and "db' = upsert_installation now inst login kind state installer seen db"
  shows "registry_wf db' \<and> installation_state inst db' = Some state \<and>
         (\<forall>i. i \<noteq> inst \<longrightarrow> row_by in_installation i (rg_installs db') = row_by in_installation i (rg_installs db)) \<and>
         map_option in_installer (row_by in_installation inst (rg_installs db')) =
           Some (if installer \<noteq> None then installer
                 else case row_by in_installation inst (rg_installs db) of None \<Rightarrow> None | Some r \<Rightarrow> in_installer r)"
proof -
  have here: "List.find (\<lambda>r. in_installation r = inst) = row_by in_installation inst"
    by (simp add: row_by_def fun_eq_iff)
  show ?thesis
  proof (cases "row_by in_installation inst (rg_installs db)")
    case None
    then have "inst \<notin> in_installation ` set (rg_installs db)" by (simp add: row_by_None)
    moreover from this assms(3) have "row_by in_installation inst seen = None"
      by (auto simp: row_by_None)
    ultimately show ?thesis
      using None assms
      by (auto simp: upsert_installation_def here registry_wf_def installation_state_def Let_def split: option.splits)
  next
    case (Some r)
    let ?upd = "\<lambda>r. r\<lparr>in_login := login, in_type := kind, in_state := state, in_updated_at := now,
                         in_installer := (if installer = None then in_installer r else installer)\<rparr>"
    have db': "db' = db\<lparr>rg_installs := update_where (\<lambda>r. in_installation r = inst) ?upd (rg_installs db)\<rparr>"
      using Some assms(2,4) by (simp add: upsert_installation_def here Let_def)
    have look: "row_by in_installation i (rg_installs db') =
        map_option (\<lambda>r. if in_installation r = inst then ?upd r else r) (row_by in_installation i (rg_installs db))" for i
      by (simp add: db' row_by_update)
    have "row_by in_installation i (rg_installs db') = row_by in_installation i (rg_installs db)" if "i \<noteq> inst" for i
      using that by (cases "row_by in_installation i (rg_installs db)") (auto simp: look dest: row_by_Some_in)
    moreover have "row_by in_installation inst (rg_installs db') = Some (?upd r)"
      using row_by_Some_in [OF Some] by (simp add: look Some)
    moreover have "registry_wf db'" "rg_configured db'"
      using assms(1,2) by (simp_all add: db' registry_wf_def row_simps)
    ultimately show ?thesis
      using Some by (simp add: installation_state_def)
  qed
qed

subsection \<open>Witnesses\<close>

definition ex_registry :: registry where
  "ex_registry = \<lparr>rg_configured = True,
     rg_installs = [\<lparr>in_id = 1, in_installation = 7, in_login = ''acme'', in_type = ''Organization'',
                     in_state = ''active'', in_updated_at = 0, in_installer = Some 42\<rparr>],
     rg_repos = [new_registration 0 7 100 ''acme/app'' ''active'' 1, new_registration 0 7 101 ''acme/old'' ''active'' 2],
     rg_install_seq = 2, rg_repo_seq = 3\<rparr>"

lemma ex_registry_ok: "registry_wf ex_registry" "rg_configured ex_registry"
  by (simp_all add: ex_registry_def registry_wf_def)

theorem delivery_writes_exactly_what_it_names_witness:
  "registry_wf (set_installation_repos 5 7 [(100, ''acme/app2''), (102, ''acme/new'')] True ''active'' ex_registry)"
  using delivery_writes_exactly_what_it_names [OF ex_registry_ok refl] by blast

theorem settings_read_back_and_move_nothing_witness:
  "fst (set_repo_threshold 7 100 (Some (1/3)) ex_registry)"
  using settings_read_back_and_move_nothing
    [OF ex_registry_ok refl, where inst = 7 and repo = 100 and v = "Some (1/3)" and b = True and name = "[]" and other = 0]
  by (simp add: ex_registry_def active_repos_def new_registration_def)

theorem installation_upsert_keeps_one_row_witness:
  "installation_state 7 (upsert_installation 9 7 ''acme'' ''Organization'' ''suspended'' None [] ex_registry) = Some ''suspended''"
  using installation_upsert_keeps_one_row
    [OF ex_registry_ok, where seen = "[]" and now = 9 and inst = 7 and login = "''acme''" and kind = "''Organization''"
      and state = "''suspended''" and installer = None and
      db' = "upsert_installation 9 7 ''acme'' ''Organization'' ''suspended'' None [] ex_registry"]
  by simp

end
