(* ===== verification/Regex.thy ===== *)
theory Regex
  imports Prelude
begin

text \<open>
  The part of Python's \<open>re\<close> the program uses: a backtracking matcher that lists every match at a
  position in the order the engine tries them, so that the first is the one Python returns.
  Repetition is greedy, alternation prefers its left branch, groups remember their last text.
  A position is the character before it and the text after it, which is what anchors, word
  boundaries, one-character look-behinds and look-aheads inspect. The patterns of the program have no nullable
  repetition body; the matcher stops a repetition that makes no progress, as the engine does.
\<close>

datatype regex =
    Chars "char \<Rightarrow> bool"
  | Eps
  | Seq regex regex
  | Alt regex regex
  | Star regex
  | Grp nat regex
  | Bol
  | Eol
  | WordB
  | NotBehind "char \<Rightarrow> bool"
  | NotAhead regex

type_synonym position = "char option \<times> string"
type_synonym groups = "(nat \<times> string) list"

definition word_char :: "char \<Rightarrow> bool" where
  "word_char c \<longleftrightarrow> upper_ascii c \<or> lower_ascii c \<or> digit_char c \<or> c = CHR ''_''"

definition at_word :: "char option \<Rightarrow> bool" where
  "at_word c = (case c of None \<Rightarrow> False | Some x \<Rightarrow> word_char x)"

definition next_char :: "string \<Rightarrow> char option" where
  "next_char s = (case s of [] \<Rightarrow> None | c # _ \<Rightarrow> Some c)"

function (sequential) rmatch :: "regex \<Rightarrow> position \<Rightarrow> groups \<Rightarrow> (position \<times> groups) list" where
  "rmatch (Chars P) (p, []) g = []"
| "rmatch (Chars P) (p, c # s) g = (if P c then [((Some c, s), g)] else [])"
| "rmatch Eps q g = [(q, g)]"
| "rmatch (Seq a b) q g = concat (map (\<lambda>(q', g'). rmatch b q' g') (rmatch a q g))"
| "rmatch (Alt a b) q g = rmatch a q g @ rmatch b q g"
| "rmatch (Star a) q g =
     concat (map (\<lambda>(q', g'). if length (snd q') < length (snd q) then rmatch (Star a) q' g' else [])
                 (rmatch a q g)) @ [(q, g)]"
| "rmatch (Grp n a) q g =
     map (\<lambda>(q', g'). (q', (n, take (length (snd q) - length (snd q')) (snd q)) # g')) (rmatch a q g)"
| "rmatch Bol q g = (if fst q = None then [(q, g)] else [])"
| "rmatch Eol q g = (if snd q = [] \<or> snd q = [CHR 0x0A] then [(q, g)] else [])"
| "rmatch WordB q g = (if at_word (fst q) \<noteq> at_word (next_char (snd q)) then [(q, g)] else [])"
| "rmatch (NotBehind P) q g =
     (case fst q of None \<Rightarrow> [(q, g)] | Some c \<Rightarrow> if P c then [] else [(q, g)])"
| "rmatch (NotAhead a) q g = (if rmatch a q g = [] then [(q, g)] else [])"
  by pat_completeness auto
termination
  by (relation "measures [\<lambda>(r, q, g). size r, \<lambda>(r, q, g). length (snd q)]") auto

declare rmatch.simps(6) [simp del]

text \<open>Every result is further along the same text.\<close>

lemma rmatch_suffix: "(q', g') \<in> set (rmatch r q g) \<Longrightarrow> \<exists>m. snd q = m @ snd q'"
proof (induction r q g arbitrary: q' g' rule: rmatch.induct)
  case (4 a b q g)
  from 4(3) obtain p h where ph: "(p, h) \<in> set (rmatch a q g)" "(q', g') \<in> set (rmatch b p h)"
    by auto
  from 4(1) [OF ph(1)] obtain m where m: "snd q = m @ snd p" by blast
  from 4(2) [OF ph(1) refl ph(2)] obtain m' where "snd p = m' @ snd q'" by blast
  with m have "snd q = (m @ m') @ snd q'" by simp
  then show ?case by blast
next
  case (6 a q g)
  from 6(3) show ?case
  proof (subst (asm) rmatch.simps(6), unfold set_append Un_iff, elim disjE)
    assume "(q', g') \<in> set (concat (map (\<lambda>(q', g').
      if length (snd q') < length (snd q) then rmatch (Star a) q' g' else []) (rmatch a q g)))"
    then obtain p h where ph: "(p, h) \<in> set (rmatch a q g)" "length (snd p) < length (snd q)"
        "(q', g') \<in> set (rmatch (Star a) p h)"
      by (auto split: if_splits)
    from 6(1) [OF ph(1)] obtain m where m: "snd q = m @ snd p" by blast
    from 6(2) [OF ph(1) refl ph(2,3)] obtain m' where "snd p = m' @ snd q'" by blast
    with m have "snd q = (m @ m') @ snd q'" by simp
    then show ?thesis by blast
  qed auto
qed (auto split: if_splits option.splits)

lemma rmatch_length: "(q', g') \<in> set (rmatch r q g) \<Longrightarrow> length (snd q') \<le> length (snd q)"
  by (drule rmatch_suffix) auto

subsection \<open>match, search, fullmatch, finditer, sub\<close>

text \<open>A match object: the text matched, the groups, and the position after it.\<close>

type_synonym re_match_obj = "string \<times> groups \<times> position"

definition match_at :: "regex \<Rightarrow> position \<Rightarrow> re_match_obj option" where
  "match_at r q =
     (case rmatch r q [] of
        [] \<Rightarrow> None
      | (q', g) # _ \<Rightarrow> Some (take (length (snd q) - length (snd q')) (snd q), g, q'))"

definition re_match :: "regex \<Rightarrow> string \<Rightarrow> re_match_obj option" where
  "re_match r s = match_at r (None, s)"

definition re_fullmatch :: "regex \<Rightarrow> string \<Rightarrow> bool" where
  "re_fullmatch r s \<longleftrightarrow> list_ex (\<lambda>(q, g). snd q = []) (rmatch r (None, s) [])"

text \<open>\<open>r.fullmatch(s)\<close> with its groups: the first match in the engine's order that ends at the end.\<close>

definition fullmatch_obj :: "regex \<Rightarrow> string \<Rightarrow> re_match_obj option" where
  "fullmatch_obj r s =
     (case filter (\<lambda>(q, g). snd q = []) (rmatch r (None, s) []) of
        [] \<Rightarrow> None
      | (q, g) # _ \<Rightarrow> Some (s, g, q))"

text \<open>The leftmost match, with the text skipped before it.\<close>

function search_from :: "regex \<Rightarrow> position \<Rightarrow> (string \<times> re_match_obj) option" where
  "search_from r q =
     (case match_at r q of
        Some m \<Rightarrow> Some ([], m)
      | None \<Rightarrow> (case snd q of [] \<Rightarrow> None
                 | c # s \<Rightarrow> map_option (\<lambda>(pre, m). (c # pre, m)) (search_from r (Some c, s))))"
  by pat_completeness auto
termination
  by (relation "measure (\<lambda>(r, q). length (snd q))") auto

declare search_from.simps [simp del]

definition re_search :: "regex \<Rightarrow> string \<Rightarrow> re_match_obj option" where
  "re_search r s = map_option snd (search_from r (None, s))"

definition re_found :: "regex \<Rightarrow> string \<Rightarrow> bool" where
  "re_found r s \<longleftrightarrow> re_search r s \<noteq> None"

text \<open>\<open>m.group(n)\<close>.\<close>

definition group_of :: "nat \<Rightarrow> re_match_obj \<Rightarrow> string" where
  "group_of n m = (case map_of (fst (snd m)) n of None \<Rightarrow> [] | Some t \<Rightarrow> t)"

lemma match_at_suffix:
  "match_at r q = Some (t, g, q') \<Longrightarrow> snd q = t @ snd q'"
proof -
  assume m: "match_at r q = Some (t, g, q')"
  then obtain rest where "rmatch r q [] = (q', g) # rest"
      and t: "t = take (length (snd q) - length (snd q')) (snd q)"
    by (auto simp: match_at_def split: list.splits)
  then have "(q', g) \<in> set (rmatch r q [])" by simp
  then obtain m where "snd q = m @ snd q'" using rmatch_suffix by blast
  with t show ?thesis by simp
qed

lemma search_from_suffix:
  "search_from r q = Some (pre, t, g, q') \<Longrightarrow> snd q = pre @ t @ snd q'"
proof (induction r q arbitrary: pre rule: search_from.induct)
  case (1 r q)
  show ?case
  proof (cases "match_at r q")
    case (Some m)
    with 1(2) match_at_suffix [of r q t g q'] show ?thesis
      by (subst (asm) search_from.simps) auto
  next
    case None
    show ?thesis
    proof (cases "snd q")
      case Nil
      with None 1(2) show ?thesis by (subst (asm) search_from.simps) simp
    next
      case (Cons c s)
      with None 1(2) obtain pre' where pre': "pre = c # pre'"
          "search_from r (Some c, s) = Some (pre', t, g, q')"
        by (subst (asm) search_from.simps) auto
      from 1(1) [OF None Cons pre'(2)] Cons pre'(1) show ?thesis by simp
    qed
  qed
qed

text \<open>All non-overlapping matches, left to right; an empty match moves one character on.\<close>

function finditer_from :: "regex \<Rightarrow> position \<Rightarrow> re_match_obj list" where
  "finditer_from r q =
     (case search_from r q of
        None \<Rightarrow> []
      | Some (pre, t, g, q') \<Rightarrow>
          (t, g, q') #
          (if length (snd q') < length (snd q) then finditer_from r q'
           else (case snd q' of [] \<Rightarrow> [] | c # s \<Rightarrow> finditer_from r (Some c, s))))"
  by pat_completeness auto
termination
proof (relation "measure (\<lambda>(r, q). length (snd q))", goal_cases)
  case (3 r q x2 pre y t z g q' c s)
  then have "search_from r q = Some (pre, t, g, q')" by simp
  from search_from_suffix [OF this] 3 show ?case by simp
qed simp_all

declare finditer_from.simps [simp del]

definition finditer :: "regex \<Rightarrow> string \<Rightarrow> re_match_obj list" where
  "finditer r s = finditer_from r (None, s)"

text \<open>\<open>findall\<close> for a pattern with one group.\<close>

definition findall1 :: "regex \<Rightarrow> string \<Rightarrow> string list" where
  "findall1 r s = map (group_of 1) (finditer r s)"

text \<open>\<open>r.sub(repl, s)\<close> with a literal replacement, for a pattern that matches no empty text.\<close>

function sub_from :: "regex \<Rightarrow> string \<Rightarrow> position \<Rightarrow> string" where
  "sub_from r repl q =
     (case search_from r q of
        None \<Rightarrow> snd q
      | Some (pre, t, g, q') \<Rightarrow>
          (if length (snd q') < length (snd q) then pre @ repl @ sub_from r repl q' else snd q))"
  by pat_completeness auto
termination
  by (relation "measure (\<lambda>(r, repl, q). length (snd q))") auto

declare sub_from.simps [simp del]

definition re_sub :: "regex \<Rightarrow> string \<Rightarrow> string \<Rightarrow> string" where
  "re_sub r repl s = sub_from r repl (None, s)"

lemma sub_none: "\<not> re_found r s \<Longrightarrow> re_sub r repl s = s"
proof -
  assume "\<not> re_found r s"
  then have "search_from r (None, s) = None"
    by (cases "search_from r (None, s)") (auto simp: re_found_def re_search_def)
  then show ?thesis by (simp add: re_sub_def sub_from.simps [of r repl])
qed

text \<open>\<open>r.split(s)\<close> for a pattern without groups that matches no empty text.\<close>

function split_from :: "regex \<Rightarrow> position \<Rightarrow> string list" where
  "split_from r q =
     (case search_from r q of
        None \<Rightarrow> [snd q]
      | Some (pre, t, g, q') \<Rightarrow>
          (if length (snd q') < length (snd q) then pre # split_from r q' else [snd q]))"
  by pat_completeness auto
termination
  by (relation "measure (\<lambda>(r, q). length (snd q))") auto

declare split_from.simps [simp del]

definition re_split :: "regex \<Rightarrow> string \<Rightarrow> string list" where
  "re_split r s = split_from r (None, s)"

text \<open>Every match found by a scan is a match at some position.\<close>

lemma search_from_match: "search_from r q = Some (pre, m) \<Longrightarrow> \<exists>p. match_at r p = Some m"
proof (induction r q arbitrary: pre rule: search_from.induct)
  case (1 r q)
  show ?case
  proof (cases "match_at r q")
    case (Some m')
    with 1(2) have "m' = m" by (subst (asm) search_from.simps) simp
    with Some show ?thesis by blast
  next
    case None
    show ?thesis
    proof (cases "snd q")
      case Nil
      with None 1(2) show ?thesis by (subst (asm) search_from.simps) simp
    next
      case (Cons c s)
      with None 1(2) obtain pre' where "search_from r (Some c, s) = Some (pre', m)"
        by (subst (asm) search_from.simps) auto
      then show ?thesis using 1(1) [OF None Cons] by blast
    qed
  qed
qed

lemma finditer_from_match: "m \<in> set (finditer_from r q) \<Longrightarrow> \<exists>p. match_at r p = Some m"
proof (induction r q rule: finditer_from.induct)
  case (1 r q)
  show ?case
  proof (cases "search_from r q")
    case None
    with 1(3) show ?thesis by (subst (asm) finditer_from.simps) simp
  next
    case (Some s)
    obtain pre t g q' where s: "s = (pre, t, g, q')" by (cases s)
    from 1(3) Some s have "m \<in> set ((t, g, q') #
        (if length (snd q') < length (snd q) then finditer_from r q'
         else (case snd q' of [] \<Rightarrow> [] | c # s \<Rightarrow> finditer_from r (Some c, s))))"
      by (subst (asm) finditer_from.simps) simp
    then consider "m = (t, g, q')"
      | "length (snd q') < length (snd q)" "m \<in> set (finditer_from r q')"
      | c u where "\<not> length (snd q') < length (snd q)" "snd q' = c # u"
          "m \<in> set (finditer_from r (Some c, u))"
      by (cases "length (snd q') < length (snd q)"; cases "snd q'") auto
    then show ?thesis
    proof cases
      case 1
      then show ?thesis using search_from_match [of r q pre "(t, g, q')"] Some s by blast
    next
      case 2
      then show ?thesis using 1(1) Some s by blast
    next
      case 3
      then show ?thesis using 1(2) Some s by blast
    qed
  qed
qed

lemma finditer_match: "m \<in> set (finditer r s) \<Longrightarrow> \<exists>p. match_at r p = Some m"
  unfolding finditer_def by (rule finditer_from_match)

text \<open>A repetition of a character class consumes characters of the class and sets no group.\<close>

lemma star_chars:
  "(q', g') \<in> set (rmatch (Star (Chars P)) q g) \<Longrightarrow>
     g' = g \<and> (\<exists>m. snd q = m @ snd q' \<and> list_all P m)"
proof (induction "length (snd q)" arbitrary: q rule: less_induct)
  case less
  obtain p s where q: "q = (p, s)" by (cases q)
  show ?case
  proof (cases s)
    case Nil
    with less(2) q show ?thesis by (subst (asm) rmatch.simps(6)) simp
  next
    case (Cons c t)
    show ?thesis
    proof (cases "P c")
      case False
      with less(2) q Cons show ?thesis by (subst (asm) rmatch.simps(6)) simp
    next
      case True
      with less(2) q Cons consider "(q', g') = (q, g)"
        | "(q', g') \<in> set (rmatch (Star (Chars P)) (Some c, t) g)"
        by (subst (asm) rmatch.simps(6)) auto
      then show ?thesis
      proof cases
        case 1
        then show ?thesis by simp
      next
        case 2
        with less(1) [of "(Some c, t)"] q Cons obtain m where "g' = g" "t = m @ snd q'" "list_all P m"
          by auto
        with q Cons True show ?thesis by (auto intro!: exI [of _ "c # m"])
      qed
    qed
  qed
qed

subsection \<open>Building patterns\<close>

definition lit :: "string \<Rightarrow> regex" where
  "lit s = foldr (\<lambda>c r. Seq (Chars (\<lambda>x. x = c)) r) s Eps"

text \<open>A literal under \<open>re.IGNORECASE\<close>; it is written in lower case.\<close>

definition lit_ci :: "string \<Rightarrow> regex" where
  "lit_ci s = foldr (\<lambda>c r. Seq (Chars (\<lambda>x. lower_char x = c)) r) s Eps"

definition ch :: "char \<Rightarrow> regex" where
  "ch c = Chars (\<lambda>x. x = c)"

definition one_of :: "string \<Rightarrow> regex" where
  "one_of cs = Chars (\<lambda>x. x \<in> set cs)"

definition none_of :: "string \<Rightarrow> regex" where
  "none_of cs = Chars (\<lambda>x. x \<notin> set cs)"

definition wsp :: regex where "wsp = Chars space_char"
definition digit :: regex where "digit = Chars digit_char"
definition anychar :: regex where "anychar = Chars (\<lambda>x. x \<noteq> CHR 0x0A)"

definition plus :: "regex \<Rightarrow> regex" where
  "plus r = Seq r (Star r)"

definition opt :: "regex \<Rightarrow> regex" where
  "opt r = Alt r Eps"

fun seqs :: "regex list \<Rightarrow> regex" where
  "seqs [] = Eps"
| "seqs [r] = r"
| "seqs (r # rs) = Seq r (seqs rs)"

fun alts :: "regex list \<Rightarrow> regex" where
  "alts [] = Chars (\<lambda>_. False)"
| "alts [r] = r"
| "alts (r # rs) = Alt r (alts rs)"

text \<open>\<open>r{m,m+n}\<close>: at least \<open>m\<close>, then up to \<open>n\<close> more.\<close>

fun up_to :: "nat \<Rightarrow> regex \<Rightarrow> regex" where
  "up_to 0 r = Eps"
| "up_to (Suc n) r = opt (Seq r (up_to n r))"

fun times :: "nat \<Rightarrow> regex \<Rightarrow> regex" where
  "times 0 r = Eps"
| "times (Suc n) r = Seq r (times n r)"

lemmas regex_defs = lit_def lit_ci_def ch_def one_of_def none_of_def wsp_def digit_def anychar_def
  plus_def opt_def

text \<open>\<open>(?<!c)\<close> for a character class is \<open>NotBehind\<close>; \<open>\S\<close> and a class of identifier characters.\<close>

definition non_space_re :: regex where "non_space_re = Chars (\<lambda>x. \<not> space_char x)"

definition letter_re :: regex where "letter_re = Chars (\<lambda>x. upper_ascii x \<or> lower_ascii x)"

definition identifier_re :: regex where
  "identifier_re = Seq (Chars (\<lambda>x. upper_ascii x \<or> lower_ascii x \<or> x = CHR ''_'')) (Star (Chars word_char))"

text \<open>What a group around an identifier remembers is an identifier.\<close>

lemma identifier_group:
  assumes "(q', g') \<in> set (rmatch (Grp n identifier_re) q g)"
  shows "\<exists>t. g' = (n, t) # g \<and> snd q = t @ snd q' \<and> t \<noteq> [] \<and> list_all word_char t"
proof -
  from assms obtain h where h: "(q', h) \<in> set (rmatch identifier_re q g)"
      and g': "g' = (n, take (length (snd q) - length (snd q')) (snd q)) # h" by auto
  obtain p s where q: "q = (p, s)" by (cases q)
  from h q obtain c t where s: "s = c # t" "upper_ascii c \<or> lower_ascii c \<or> c = CHR ''_''"
      and r: "(q', h) \<in> set (rmatch (Star (Chars word_char)) (Some c, t) g)"
    by (cases s) (auto simp: identifier_re_def split: if_splits)
  from star_chars [OF r] obtain m where m: "h = g" "t = m @ snd q'" "list_all word_char m" by auto
  have "word_char c" using s(2) by (auto simp: word_char_def)
  with m g' q s show ?thesis by (intro exI [of _ "c # m"]) simp
qed

text \<open>\<open>int(digits)\<close>.\<close>

definition int_of_digits :: "string \<Rightarrow> int" where
  "int_of_digits s = foldl (\<lambda>n c. 10 * n + (int (of_char c) - 48)) 0 s"

end
