(* ===== verification/Iso_Time.thy ===== *)
theory Iso_Time
  imports Prelude
begin

text \<open>
  \<open>datetime\<close> values and \<open>datetime.fromisoformat\<close> on the shape the program feeds it: the strict ISO
  date git prints for \<open>%cI\<close> and GitHub puts in its payloads, \<open>YYYY-MM-DDTHH:MM:SS\<close> with nothing,
  \<open>Z\<close> or \<open>+HH:MM\<close> behind it. The other spellings the library accepts never reach this code and
  are not read. A \<open>datetime\<close> is its local reading in microseconds since the epoch, with its offset
  when it is aware.
\<close>

type_synonym datetime = "int \<times> int option"

definition digits_value :: "string \<Rightarrow> int option" where
  "digits_value s =
     (if s \<noteq> [] \<and> list_all digit_char s
      then Some (foldl (\<lambda>n c. 10 * n + (int (of_char c) - 48)) 0 s) else None)"

definition leap :: "int \<Rightarrow> bool" where
  "leap y \<longleftrightarrow> y mod 4 = 0 \<and> (y mod 100 \<noteq> 0 \<or> y mod 400 = 0)"

definition days_in_month :: "int \<Rightarrow> int \<Rightarrow> int" where
  "days_in_month y m =
     (if m = 2 then (if leap y then 29 else 28) else if m \<in> {4, 6, 9, 11} then 30 else 31)"

text \<open>Days from the epoch to a civil date of the proleptic Gregorian calendar.\<close>

definition days_from_civil :: "int \<Rightarrow> int \<Rightarrow> int \<Rightarrow> int" where
  "days_from_civil y m d =
     (let y' = (if m \<le> 2 then y - 1 else y);
          m' = (if m > 2 then m - 3 else m + 9);
          doy = (153 * m' + 2) div 5 + d - 1
      in 365 * y' + y' div 4 - y' div 100 + y' div 400 + doy - 719468)"

lemma civil_epoch: "days_from_civil 1970 1 1 = 0"
  by (simp add: days_from_civil_def)

lemma civil_next_day: "days_from_civil y m (d + 1) = days_from_civil y m d + 1"
  by (simp add: days_from_civil_def Let_def)

definition parse_offset :: "string \<Rightarrow> int option option" where
  "parse_offset z =
     (if z = [] then Some None
      else if z = ''Z'' then Some (Some 0)
      else if length z = 6 \<and> hd z \<in> {CHR ''+'', CHR ''-''} \<and> z ! 3 = CHR '':'' then
        (case (digits_value (take 2 (drop 1 z)), digits_value (drop 4 z)) of
           (Some h, Some m) \<Rightarrow>
             (let off = h * 3600 + m * 60
              in if off < 86400 then Some (Some (seconds (if hd z = CHR ''-'' then - off else off)))
                 else None)
         | _ \<Rightarrow> None)
      else None)"

text \<open>\<open>None\<close> is the \<open>ValueError\<close>.\<close>

definition fromisoformat :: "string \<Rightarrow> datetime option" where
  "fromisoformat s =
     (if length s < 19 \<or> s ! 4 \<noteq> CHR ''-'' \<or> s ! 7 \<noteq> CHR ''-'' \<or> s ! 13 \<noteq> CHR '':'' \<or> s ! 16 \<noteq> CHR '':''
      then None
      else case map digits_value [take 4 s, take 2 (drop 5 s), take 2 (drop 8 s),
                                  take 2 (drop 11 s), take 2 (drop 14 s), take 2 (drop 17 s)] of
        [Some y, Some mo, Some d, Some h, Some mi, Some se] \<Rightarrow>
          (if 1 \<le> y \<and> 1 \<le> mo \<and> mo \<le> 12 \<and> 1 \<le> d \<and> d \<le> days_in_month y mo \<and>
              h < 24 \<and> mi < 60 \<and> se < 60
           then (case parse_offset (drop 19 s) of
                   None \<Rightarrow> None
                 | Some off \<Rightarrow>
                     Some (days (days_from_civil y mo d) + seconds (h * 3600 + mi * 60 + se), off))
           else None)
      | _ \<Rightarrow> None)"

text \<open>The instant an aware \<open>datetime\<close> names, and a naive one read as UTC.\<close>

definition as_utc :: "datetime \<Rightarrow> instant" where
  "as_utc t = (case t of (l, None) \<Rightarrow> l | (l, Some off) \<Rightarrow> l - off)"

lemma as_utc_simps [simp]: "as_utc (l, None) = l" "as_utc (l, Some off) = l - off"
  by (simp_all add: as_utc_def)

lemma parse_offset_bound:
  "parse_offset z = Some (Some off) \<Longrightarrow> \<bar>off\<bar> < seconds 86400"
proof -
  have nonneg: "0 \<le> n" if "digits_value s = Some n" for s n
  proof -
    have "0 \<le> foldl (\<lambda>n c. 10 * n + (int (of_char c) - 48)) k s"
      if "0 \<le> k" "list_all digit_char s" for k
      using that by (induction s arbitrary: k) (auto simp: digit_char_def)
    with that show ?thesis by (auto simp: digits_value_def split: if_splits)
  qed
  assume "parse_offset z = Some (Some off)"
  then show ?thesis
    by (auto simp: parse_offset_def seconds_def Let_def dest!: nonneg
             split: if_splits option.splits)
qed

end
