(* ===== verification/Git_Labels.thy ===== *)
theory Git_Labels
  imports Regex Iso_Time "HOL-Library.List_Lexorder" "HOL-Library.Char_ord"
begin

text \<open>
  Revert labels from git history, \<open>api/doug/backtest/git_labels.py\<close>: the parser of the log output,
  the commit patterns, and the one attribution pass both public parsers run with a different rule
  for which of two reverts of a pull request is the earlier. Cloning and running git are outside
  the model; the text \<open>git log\<close> prints is an argument.
\<close>

record commit =
  c_sha :: string
  c_date :: string
  c_subject :: string
  c_body :: string

datatype label_error = UnparseableDate string | NoOffset string

definition TOLERANCE_DAYS :: int where
  "TOLERANCE_DAYS = 1"

definition SHORT_SHA :: nat where
  "SHORT_SHA = 7"

subsection \<open>The patterns\<close>

definition PR_PAREN :: regex where
  "PR_PAREN = seqs [lit ''(#'', Grp 1 (plus digit), lit '')'']"

definition PR_HASH :: regex where
  "PR_HASH = seqs [Alt Bol (Chars (\<lambda>c. space_char c \<or> c = CHR '':'')), lit ''#'',
                   Grp 1 (plus digit), WordB]"

definition revert_word :: regex where
  "revert_word = seqs [lit_ci ''revert'', opt (Alt (lit_ci ''s'') (lit_ci ''ed''))]"

definition QUOTED_REVERT :: regex where
  "QUOTED_REVERT = seqs [Bol, Star wsp, revert_word, WordB, Star (none_of [CHR 0x22]), ch (CHR 0x22)]"

definition BARE_TARGET :: regex where
  "BARE_TARGET = seqs [Bol, Star wsp, revert_word, Star wsp, opt (one_of '':(''), Star wsp,
                       one_of ''#('', Grp 1 (plus digit), opt (lit '')''), WordB]"

definition QUOTED :: regex where
  "QUOTED = seqs [ch (CHR 0x22), Grp 1 (plus (none_of [CHR 0x22])), ch (CHR 0x22)]"

definition MERGE_PR :: regex where
  "MERGE_PR = seqs [lit_ci ''merge pull request #'', Grp 1 (plus digit), WordB]"

definition TRAILING_PR :: regex where
  "TRAILING_PR = seqs [Star wsp, lit ''(#'', plus digit, lit '')'', Star wsp, Eol]"

definition hex_digit :: regex where
  "hex_digit = Chars (\<lambda>c. digit_char c \<or> lower_char c \<in> set ''abcdef'')"

definition REVERTS_COMMIT :: regex where
  "REVERTS_COMMIT = seqs [lit_ci ''this reverts commit '',
                          Grp 1 (Seq (times 7 hex_digit) (up_to 33 hex_digit))]"

subsection \<open>The log\<close>

definition LOG_SEP :: string where "LOG_SEP = [CHR 0x1F]"
definition LOG_REC :: string where "LOG_REC = [CHR 0x1E]"

definition log_record :: "string \<Rightarrow> commit option" where
  "log_record record =
     (if strip record = [] then None
      else (case split_on LOG_SEP (dropWhile (\<lambda>c. c = CHR 0x0A) record) of
              sha # date # subject # rest \<Rightarrow>
                Some (\<lparr>c_sha = sha, c_date = date, c_subject = subject,
                       c_body = (case rest of [] \<Rightarrow> [] | b # _ \<Rightarrow> b)\<rparr>)
            | _ \<Rightarrow> None))"

definition log_records :: "string \<Rightarrow> commit list" where
  "log_records out = List.map_filter log_record (split_on LOG_REC out)"

text \<open>What \<open>git log --format\<close> prints for a history: each record, and a line feed between two.\<close>

definition print_commit :: "commit \<Rightarrow> string" where
  "print_commit c =
     c_sha c @ LOG_SEP @ c_date c @ LOG_SEP @ c_subject c @ LOG_SEP @ c_body c @ LOG_REC @ [CHR 0x0A]"

definition print_log :: "commit list \<Rightarrow> string" where
  "print_log cs = concat (map print_commit cs)"

subsection \<open>Squash titles and shas\<close>

definition pr_numbers_by_sha :: "commit list \<Rightarrow> (string \<times> int) list" where
  "pr_numbers_by_sha commits =
     fold (\<lambda>c out. if c_sha c = [] then out
                   else (case re_search PR_PAREN (c_subject c) of
                           None \<Rightarrow> out
                         | Some m \<Rightarrow> dict_set (c_sha c) (int_of_digits (group_of 1 m)) out))
          commits []"

definition resolve_sha :: "string \<Rightarrow> (string \<times> int) list \<Rightarrow> int option" where
  "resolve_sha sha by_sha =
     (case dict_get by_sha sha of
        Some hit \<Rightarrow> Some hit
      | None \<Rightarrow>
          if length sha < SHORT_SHA then None
          else case fromkeys (map snd (filter (\<lambda>(full, pr). startswith full sha) by_sha)) of
                 [pr] \<Rightarrow> Some pr
               | _ \<Rightarrow> None)"

definition normalize_title :: "string \<Rightarrow> string" where
  "normalize_title title = strip (re_sub TRAILING_PR [] title)"

definition is_revert_subject :: "string \<Rightarrow> bool" where
  "is_revert_subject subject \<longleftrightarrow>
     re_found QUOTED_REVERT subject \<or> re_match BARE_TARGET subject \<noteq> None"

definition pr_titles_from_subjects :: "string list \<Rightarrow> (string \<times> int) list" where
  "pr_titles_from_subjects subjects =
     fold (\<lambda>subject titles.
             if re_found MERGE_PR subject \<or> is_revert_subject subject then titles
             else case re_search PR_PAREN subject of
                    None \<Rightarrow> titles
                  | Some m \<Rightarrow>
                      (let key = normalize_title subject
                       in if key \<noteq> [] \<and> dict_get titles key = None
                          then dict_set key (int_of_digits (group_of 1 m)) titles else titles))
          subjects []"

subsection \<open>Which revert is the earlier\<close>

definition commit_instant :: "string \<Rightarrow> (label_error, instant) result" where
  "commit_instant date =
     (case fromisoformat date of
        None \<Rightarrow> Raise (UnparseableDate date)
      | Some (l, None) \<Rightarrow> Raise (NoOffset date)
      | Some (l, Some off) \<Rightarrow> Return (as_utc (l, Some off)))"

definition earlier_by_string :: "commit \<Rightarrow> commit \<Rightarrow> (label_error, bool) result" where
  "earlier_by_string candidate incumbent = Return (c_date candidate < c_date incumbent)"

definition earlier_by_instant :: "commit \<Rightarrow> commit \<Rightarrow> (label_error, bool) result" where
  "earlier_by_instant candidate incumbent =
     (case commit_instant (c_date candidate) of
        Inl e \<Rightarrow> Raise e
      | Inr a \<Rightarrow>
          (case commit_instant (c_date incumbent) of
             Inl e \<Rightarrow> Raise e
           | Inr b \<Rightarrow> Return (a < b \<or> (a = b \<and> c_sha candidate < c_sha incumbent))))"

subsection \<open>Attribution\<close>

text \<open>The pull requests one commit marks, in the order it marks them.\<close>

definition quoted_targets :: "(string \<times> int) list \<Rightarrow> string \<Rightarrow> int list" where
  "quoted_targets titles q =
     map int_of_digits (findall1 PR_PAREN q) @ map int_of_digits (findall1 PR_HASH q) @
     (case dict_get titles (normalize_title q) of None \<Rightarrow> [] | Some n \<Rightarrow> [n])"

definition commit_targets :: "(string \<times> int) list \<Rightarrow> (string \<times> int) list \<Rightarrow> commit \<Rightarrow> int list" where
  "commit_targets titles by_sha c =
     (if re_found QUOTED_REVERT (c_subject c) then
        concat (map (quoted_targets titles) (findall1 QUOTED (c_subject c))) @
        concat (map (\<lambda>sha. case resolve_sha (lower sha) by_sha of None \<Rightarrow> [] | Some n \<Rightarrow> [n])
                    (findall1 REVERTS_COMMIT (c_body c)))
      else case re_match BARE_TARGET (c_subject c) of
             None \<Rightarrow> []
           | Some m \<Rightarrow> [int_of_digits (group_of 1 m)])"

fun mark_all ::
    "(commit \<Rightarrow> commit \<Rightarrow> ('e, bool) result) \<Rightarrow> commit \<Rightarrow> int list \<Rightarrow> (int \<times> commit) list \<Rightarrow>
     ('e, (int \<times> commit) list) result" where
  "mark_all earlier c [] marked = Return marked"
| "mark_all earlier c (n # ns) marked =
     (case dict_get marked n of
        None \<Rightarrow> mark_all earlier c ns (dict_set n c marked)
      | Some incumbent \<Rightarrow>
          (case earlier c incumbent of
             Inl e \<Rightarrow> Raise e
           | Inr b \<Rightarrow> mark_all earlier c ns (if b then dict_set n c marked else marked)))"

fun mark_commits ::
    "(commit \<Rightarrow> commit \<Rightarrow> ('e, bool) result) \<Rightarrow> (commit \<Rightarrow> int list) \<Rightarrow> commit list \<Rightarrow>
     (int \<times> commit) list \<Rightarrow> ('e, (int \<times> commit) list) result" where
  "mark_commits earlier targets [] marked = Return marked"
| "mark_commits earlier targets (c # cs) marked =
     (case mark_all earlier c (targets c) marked of
        Inl e \<Rightarrow> Raise e
      | Inr marked' \<Rightarrow> mark_commits earlier targets cs marked')"

definition attribute_reverts ::
    "(commit \<Rightarrow> commit \<Rightarrow> ('e, bool) result) \<Rightarrow> commit list \<Rightarrow> (string \<times> int) list option \<Rightarrow>
     ('e, (int \<times> commit) list) result" where
  "attribute_reverts earlier commits titles =
     (let titles' = (case titles of None \<Rightarrow> pr_titles_from_subjects (map c_subject commits)
                     | Some t \<Rightarrow> t);
          by_sha = pr_numbers_by_sha commits
      in mark_commits earlier (commit_targets titles' by_sha) commits [])"

definition parse_revert_targets_dated ::
    "commit list \<Rightarrow> (string \<times> int) list option \<Rightarrow> (label_error, (int \<times> string) list) result" where
  "parse_revert_targets_dated commits titles =
     (case attribute_reverts earlier_by_string commits titles of
        Inl e \<Rightarrow> Raise e
      | Inr marked \<Rightarrow> Return (map (\<lambda>(n, c). (n, c_date c)) marked))"

definition parse_revert_targets_evidenced ::
    "commit list \<Rightarrow> (string \<times> int) list option \<Rightarrow> (label_error, (int \<times> commit) list) result" where
  "parse_revert_targets_evidenced commits titles =
     attribute_reverts earlier_by_instant commits titles"

definition parse_revert_targets ::
    "string list \<Rightarrow> (string \<times> int) list option \<Rightarrow> (label_error, int set) result" where
  "parse_revert_targets subjects titles =
     (case parse_revert_targets_dated
             (map (\<lambda>s. \<lparr>c_sha = [], c_date = [], c_subject = s, c_body = []\<rparr>) subjects) titles of
        Inl e \<Rightarrow> Raise e
      | Inr dated \<Rightarrow> Return (fst ` set dated))"

text \<open>
  The evidence the scheduled adjudicator reads from a clone: the parsed log, its squash titles, and
  the evidenced parser over both.
\<close>

definition find_reverted_prs_evidenced :: "string \<Rightarrow> (label_error, (int \<times> commit) list) result" where
  "find_reverted_prs_evidenced log_output =
     (let commits = log_records log_output;
          titles = pr_titles_from_subjects (map c_subject commits)
      in parse_revert_targets_evidenced commits (Some titles))"

subsection \<open>The log printer and its reader\<close>

text \<open>A commit git can print: no separator in a field, and a sha that is a word.\<close>

definition printable :: "commit \<Rightarrow> bool" where
  "printable c \<longleftrightarrow>
     c_sha c \<noteq> [] \<and> list_all (\<lambda>x. \<not> space_char x) (c_sha c) \<and>
     (\<forall>f \<in> {c_sha c, c_date c, c_subject c, c_body c}. CHR 0x1F \<notin> set f \<and> CHR 0x1E \<notin> set f)"

lemma strip_nonempty: "x \<in> set s \<Longrightarrow> \<not> space_char x \<Longrightarrow> strip s \<noteq> []"
proof -
  assume x: "x \<in> set s" "\<not> space_char x"
  then have "x \<in> set (dropWhile space_char (rev s))"
    using takeWhile_dropWhile_id [of space_char "rev s"] set_takeWhileD [of x space_char "rev s"]
    by (metis Un_iff set_append set_rev)
  then have "x \<in> set (rstrip s)" by (simp add: rstrip_def)
  with x(2) have "dropWhile space_char (rstrip s) \<noteq> []" by (auto simp: dropWhile_eq_Nil_conv)
  then show ?thesis by (simp add: strip_def lstrip_def)
qed

lemma log_record_printed:
  assumes "printable c" and "set pre \<subseteq> {CHR 0x0A}"
  shows "log_record (pre @ c_sha c @ LOG_SEP @ c_date c @ LOG_SEP @ c_subject c @ LOG_SEP @ c_body c) = Some c"
proof -
  obtain x xs where sha: "c_sha c = x # xs" and x: "\<not> space_char x"
    using assms(1) by (cases "c_sha c") (auto simp: printable_def)
  then have nl: "x \<noteq> CHR 0x0A" by (auto simp: space_char_def)
  let ?r = "c_sha c @ LOG_SEP @ c_date c @ LOG_SEP @ c_subject c @ LOG_SEP @ c_body c"
  have "strip (pre @ ?r) \<noteq> []" using x sha by (intro strip_nonempty [of x]) auto
  moreover have "dropWhile (\<lambda>c. c = CHR 0x0A) (pre @ ?r) = ?r"
    using assms(2) nl sha by (subst dropWhile_append2) auto
  moreover have "split_on LOG_SEP ?r = [c_sha c, c_date c, c_subject c, c_body c]"
    using assms(1) by (simp add: LOG_SEP_def printable_def split_on_char split_on_char_none)
  ultimately show ?thesis by (simp add: log_record_def)
qed

lemma log_records_printed:
  assumes "list_all printable cs" and "set pre \<subseteq> {CHR 0x0A}"
  shows "List.map_filter log_record (split_on LOG_REC (pre @ print_log cs)) = cs"
  using assms
proof (induction cs arbitrary: pre)
  case Nil
  then have "CHR 0x1E \<notin> set pre" and "\<forall>x \<in> set (rev pre). space_char x"
    by (auto simp: space_char_def)
  moreover from this(2) have "rstrip pre = []"
    by (simp only: rstrip_def dropWhile_eq_Nil_conv rev.simps) simp
  ultimately have "CHR 0x1E \<notin> set pre" and "strip pre = []" by (simp_all add: strip_def lstrip_def)
  then show ?case
    by (simp add: print_log_def LOG_REC_def split_on_char_none map_filter_def log_record_def)
next
  case (Cons c cs)
  let ?r = "pre @ c_sha c @ LOG_SEP @ c_date c @ LOG_SEP @ c_subject c @ LOG_SEP @ c_body c"
  have "CHR 0x1E \<notin> set ?r"
    using Cons.prems by (auto simp: printable_def LOG_SEP_def)
  note split_on_char [OF this, of "[CHR 0x0A] @ print_log cs"]
  moreover have "pre @ print_log (c # cs) = ?r @ CHR 0x1E # [CHR 0x0A] @ print_log cs"
    by (simp add: print_log_def print_commit_def LOG_REC_def)
  ultimately have "split_on LOG_REC (pre @ print_log (c # cs)) =
      ?r # split_on LOG_REC ([CHR 0x0A] @ print_log cs)"
    unfolding LOG_REC_def by (simp only:)
  moreover have "log_record ?r = Some c" using Cons.prems by (intro log_record_printed) simp_all
  moreover have "List.map_filter log_record (split_on LOG_REC ([CHR 0x0A] @ print_log cs)) = cs"
    using Cons.prems(1) by (intro Cons.IH) simp_all
  ultimately show ?case by (simp add: map_filter_simps)
qed

subsection \<open>The contract between the attribution pass and its notion of earlier\<close>

locale earliest =
  fixes earlier :: "commit \<Rightarrow> commit \<Rightarrow> ('e, bool) result"
    and le :: "commit \<Rightarrow> commit \<Rightarrow> bool"
  assumes earlier_True: "earlier c i = Return True \<Longrightarrow> le c i"
    and earlier_False: "earlier c i = Return False \<Longrightarrow> le i c"
    and le_trans: "le a b \<Longrightarrow> le b c \<Longrightarrow> le a c"
begin

text \<open>
  After the marks \<open>S\<close>: every marked number has a winner, which marked it and is no later than any
  other commit that did.
\<close>

lemma mark_all_inv:
  assumes "mark_all earlier c ns marked = Return marked'"
    and "\<And>n w. dict_get marked n = Some w \<Longrightarrow> (w, n) \<in> S \<and> (\<forall>d. (d, n) \<in> S \<longrightarrow> d = w \<or> le w d)"
    and "\<And>d n. (d, n) \<in> S \<Longrightarrow> dict_get marked n \<noteq> None"
  shows "(\<forall>n w. dict_get marked' n = Some w \<longrightarrow>
            (w, n) \<in> S \<union> {c} \<times> set ns \<and> (\<forall>d. (d, n) \<in> S \<union> {c} \<times> set ns \<longrightarrow> d = w \<or> le w d)) \<and>
         (\<forall>d n. (d, n) \<in> S \<union> {c} \<times> set ns \<longrightarrow> dict_get marked' n \<noteq> None)"
  using assms
proof (induction ns arbitrary: marked S)
  case Nil
  then show ?case by auto
next
  case (Cons n ns)
  have S: "S \<union> {c} \<times> set (n # ns) = (S \<union> {(c, n)}) \<union> {c} \<times> set ns" by auto
  show ?case
  proof (cases "dict_get marked n")
    case None
    then have fresh: "(d, n) \<notin> S" for d using Cons.prems(3) by blast
    from None Cons.prems(1) have "mark_all earlier c ns (dict_set n c marked) = Return marked'" by simp
    then show ?thesis unfolding S
      by (rule Cons.IH) (use Cons.prems(2,3) fresh in \<open>auto split: if_splits\<close>)
  next
    case (Some i)
    note i = Cons.prems(2) [OF Some]
    obtain b where b: "earlier c i = Return b"
      using Cons.prems(1) Some by (auto split: sum.splits)
    show ?thesis
    proof (cases b)
      case True
      with b have "le c i" by (simp add: earlier_True)
      then have best: "d = c \<or> le c d" if "(d, n) \<in> S" for d using i that le_trans by blast
      from b True Some Cons.prems(1) have "mark_all earlier c ns (dict_set n c marked) = Return marked'"
        by simp
      then show ?thesis unfolding S
        by (rule Cons.IH) (use Cons.prems(2,3) best in \<open>auto split: if_splits\<close>)
    next
      case False
      with b have "le i c" by (simp add: earlier_False)
      from b False Some Cons.prems(1) have "mark_all earlier c ns marked = Return marked'" by simp
      then show ?thesis unfolding S
        by (rule Cons.IH) (use Cons.prems(2,3) Some \<open>le i c\<close> in auto)
    qed
  qed
qed

lemma mark_commits_inv:
  assumes "mark_commits earlier targets cs marked = Return marked'"
    and "\<And>n w. dict_get marked n = Some w \<Longrightarrow> (w, n) \<in> S \<and> (\<forall>d. (d, n) \<in> S \<longrightarrow> d = w \<or> le w d)"
    and "\<And>d n. (d, n) \<in> S \<Longrightarrow> dict_get marked n \<noteq> None"
  shows "(\<forall>n w. dict_get marked' n = Some w \<longrightarrow>
            (w, n) \<in> S \<union> {(d, n). d \<in> set cs \<and> n \<in> set (targets d)} \<and>
            (\<forall>d. (d, n) \<in> S \<union> {(d, n). d \<in> set cs \<and> n \<in> set (targets d)} \<longrightarrow> d = w \<or> le w d)) \<and>
         (\<forall>d n. (d, n) \<in> S \<union> {(d, n). d \<in> set cs \<and> n \<in> set (targets d)} \<longrightarrow> dict_get marked' n \<noteq> None)"
  using assms
proof (induction cs arbitrary: marked S)
  case Nil
  then show ?case by auto
next
  case (Cons c cs)
  obtain m where m: "mark_all earlier c (targets c) marked = Return m"
      "mark_commits earlier targets cs m = Return marked'"
    using Cons.prems(1) by (auto split: sum.splits)
  have S: "S \<union> {(d, n). d \<in> set (c # cs) \<and> n \<in> set (targets d)} =
      (S \<union> {c} \<times> set (targets c)) \<union> {(d, n). d \<in> set cs \<and> n \<in> set (targets d)}" by auto
  have inv: "(\<forall>n w. dict_get m n = Some w \<longrightarrow>
            (w, n) \<in> S \<union> {c} \<times> set (targets c) \<and>
            (\<forall>d. (d, n) \<in> S \<union> {c} \<times> set (targets c) \<longrightarrow> d = w \<or> le w d)) \<and>
         (\<forall>d n. (d, n) \<in> S \<union> {c} \<times> set (targets c) \<longrightarrow> dict_get m n \<noteq> None)"
    using Cons.prems(2,3) by (rule mark_all_inv [OF m(1)])
  show ?case unfolding S
    by (rule Cons.IH [OF m(2)]) (use inv in blast)+
qed

lemma winner:
  assumes "mark_commits earlier targets cs [] = Return marked"
  shows "dict_get marked n = Some w \<Longrightarrow>
           w \<in> set cs \<and> n \<in> set (targets w) \<and>
           (\<forall>c \<in> set cs. n \<in> set (targets c) \<longrightarrow> c = w \<or> le w c)"
    and "dict_get marked n \<noteq> None \<longleftrightarrow> (\<exists>c \<in> set cs. n \<in> set (targets c))"
proof -
  have inv: "(\<forall>n w. dict_get marked n = Some w \<longrightarrow>
      (w \<in> set cs \<and> n \<in> set (targets w)) \<and>
      (\<forall>d. d \<in> set cs \<and> n \<in> set (targets d) \<longrightarrow> d = w \<or> le w d)) \<and>
    (\<forall>d n. d \<in> set cs \<and> n \<in> set (targets d) \<longrightarrow> dict_get marked n \<noteq> None)"
    using mark_commits_inv [OF assms, of "{}"] by simp
  then show "dict_get marked n = Some w \<Longrightarrow>
           w \<in> set cs \<and> n \<in> set (targets w) \<and>
           (\<forall>c \<in> set cs. n \<in> set (targets c) \<longrightarrow> c = w \<or> le w c)" by blast
  from inv show "dict_get marked n \<noteq> None \<longleftrightarrow> (\<exists>c \<in> set cs. n \<in> set (targets c))" by blast
qed

end

subsection \<open>The two rules meet the contract\<close>

definition no_later_by_string :: "commit \<Rightarrow> commit \<Rightarrow> bool" where
  "no_later_by_string a b \<longleftrightarrow> c_date a \<le> c_date b"

definition no_later_by_instant :: "commit \<Rightarrow> commit \<Rightarrow> bool" where
  "no_later_by_instant a b \<longleftrightarrow>
     (\<exists>s t. commit_instant (c_date a) = Return s \<and> commit_instant (c_date b) = Return t \<and>
            (s < t \<or> (s = t \<and> c_sha a \<le> c_sha b)))"

interpretation by_string: earliest earlier_by_string no_later_by_string
  by unfold_locales (auto simp: earlier_by_string_def no_later_by_string_def)

interpretation by_instant: earliest earlier_by_instant no_later_by_instant
  by unfold_locales
    (auto simp: earlier_by_instant_def no_later_by_instant_def split: sum.splits)

text \<open>The string rule never raises; what the instant rule may raise is a date it had to compare.\<close>

lemma mark_all_string: "\<exists>m. mark_all earlier_by_string c ns marked = Return m"
  by (induction ns arbitrary: marked) (auto simp: earlier_by_string_def split: option.splits)

lemma mark_commits_string: "\<exists>m. mark_commits earlier_by_string targets cs marked = Return m"
proof (induction cs arbitrary: marked)
  case (Cons c cs)
  obtain m where "mark_all earlier_by_string c (targets c) marked = Return m"
    using mark_all_string by blast
  with Cons show ?case by simp
qed simp

lemma mark_all_keys:
  assumes "mark_all e c ns m = Return r" and "mark_all e' c' ns m' = Return r'" and "map fst m = map fst m'"
  shows "map fst r = map fst r'"
proof -
  from assms show ?thesis
  proof (induction ns arbitrary: m m')
    case (Cons n ns)
    have iff: "dict_get m n = None \<longleftrightarrow> dict_get m' n = None"
      using Cons.prems(3) by (metis list.set_map map_of_eq_None_iff)
    then have same: "map fst (dict_set n c m) = map fst (dict_set n c' m')"
      using Cons.prems(3) by (simp add: map_fst_dict_set)
    show ?case
    proof (cases "dict_get m n")
      case None
      with iff Cons same show ?thesis by simp
    next
      case (Some i)
      with iff obtain i' where i': "dict_get m' n = Some i'" by auto
      obtain b b' where "e c i = Return b" "e' c' i' = Return b'"
        using Cons.prems(1,2) Some i' by (auto split: sum.splits)
      with Cons.prems Some i' have
        "mark_all e c ns (if b then dict_set n c m else m) = Return r"
        "mark_all e' c' ns (if b' then dict_set n c' m' else m') = Return r'" by simp_all
      then show ?thesis by (rule Cons.IH) (use Some i' Cons.prems(3) in \<open>simp add: map_fst_dict_set\<close>)
    qed
  qed simp
qed

lemma mark_commits_keys:
  "mark_commits e t cs m = Return r \<Longrightarrow> mark_commits e' t cs m' = Return r' \<Longrightarrow>
   map fst m = map fst m' \<Longrightarrow> map fst r = map fst r'"
proof (induction cs arbitrary: m m')
  case (Cons c cs)
  obtain k k' where k: "mark_all e c (t c) m = Return k" "mark_commits e t cs k = Return r"
      "mark_all e' c (t c) m' = Return k'" "mark_commits e' t cs k' = Return r'"
    using Cons.prems(1,2) by (auto split: sum.splits)
  from mark_all_keys [OF k(1,3) Cons.prems(3)] Cons.IH [OF k(2,4)] show ?case by blast
qed simp

text \<open>A commit that marks one number twice compares its own date with itself.\<close>

lemma mark_all_undated:
  assumes "commit_instant (c_date c) = Raise e" and "(\<exists>n \<in> set ns. dict_get m n \<noteq> None) \<or> \<not> distinct ns"
  shows "mark_all earlier_by_instant c ns m = Raise e"
  using assms(2)
proof (induction ns arbitrary: m)
  case (Cons n ns)
  show ?case
  proof (cases "dict_get m n")
    case None
    with Cons.prems have "(\<exists>k \<in> set ns. dict_get (dict_set n c m) k \<noteq> None) \<or> \<not> distinct ns"
      by auto
    then have "mark_all earlier_by_instant c ns (dict_set n c m) = Raise e" by (rule Cons.IH)
    with None show ?thesis by simp
  next
    case (Some i)
    with assms(1) show ?thesis by (simp add: earlier_by_instant_def)
  qed
qed simp

subsection \<open>Properties\<close>

text \<open>
  Round trip: the reader of the log output recovers exactly the commits git printed, in order,
  for every history whose shas are words and whose fields hold neither separator.
\<close>
theorem log_reader_inverts_the_printer:
  assumes "list_all printable cs"
  shows "log_records (print_log cs) = cs"
  using log_records_printed [OF assms, of "[]"] by (simp add: log_records_def)

text \<open>
  One detector on both sides: whenever the adjudicator's parser returns, the backtest's parser
  marks exactly the same pull requests, in the same order, from the same history.
\<close>
theorem parsers_mark_the_same_pull_requests:
  assumes "parse_revert_targets_evidenced cs titles = Return marked"
  shows "\<exists>dated. parse_revert_targets_dated cs titles = Return dated \<and> map fst dated = map fst marked"
proof -
  let ?t = "commit_targets (case titles of None \<Rightarrow> pr_titles_from_subjects (map c_subject cs) | Some t \<Rightarrow> t)
              (pr_numbers_by_sha cs)"
  obtain m where m: "mark_commits earlier_by_string ?t cs [] = Return m"
    using mark_commits_string by blast
  have "mark_commits earlier_by_instant ?t cs [] = Return marked"
    using assms by (simp add: parse_revert_targets_evidenced_def attribute_reverts_def Let_def)
  with m have "map fst m = map fst marked" by (rule mark_commits_keys) simp
  moreover have "parse_revert_targets_dated cs titles = Return (map (\<lambda>(n, c). (n, c_date c)) m)"
    using m by (simp add: parse_revert_targets_dated_def attribute_reverts_def Let_def)
  ultimately show ?thesis by (simp add: case_prod_beta comp_def)
qed

text \<open>
  The earliest revert wins: the evidence published for a pull request is a commit of the history
  that marks it, and every other commit that marks it is no earlier on the UTC instant, ties broken
  by the smaller sha, whatever offsets the dates are written in; and a pull request has evidence
  exactly when some commit marks it.
\<close>
theorem evidence_is_the_earliest_revert:
  assumes "parse_revert_targets_evidenced cs (Some titles) = Return marked"
  shows "(\<forall>n w. dict_get marked n = Some w \<longrightarrow>
            w \<in> set cs \<and> n \<in> set (commit_targets titles (pr_numbers_by_sha cs) w) \<and>
            (\<forall>c \<in> set cs. n \<in> set (commit_targets titles (pr_numbers_by_sha cs) c) \<longrightarrow> c \<noteq> w \<longrightarrow>
               (\<exists>s t. commit_instant (c_date w) = Return s \<and> commit_instant (c_date c) = Return t \<and>
                      (s < t \<or> (s = t \<and> c_sha w \<le> c_sha c))))) \<and>
         (\<forall>n. dict_get marked n \<noteq> None \<longleftrightarrow>
            (\<exists>c \<in> set cs. n \<in> set (commit_targets titles (pr_numbers_by_sha cs) c)))"
proof -
  have "mark_commits earlier_by_instant (commit_targets titles (pr_numbers_by_sha cs)) cs [] = Return marked"
    using assms by (simp add: parse_revert_targets_evidenced_def attribute_reverts_def)
  note win = by_instant.winner [OF this]
  show ?thesis
    using win(1) unfolding no_later_by_instant_def win(2) by blast
qed

text \<open>
  Where the error containment of the adjudicator does not reach: a commit that marks one pull
  request twice (as a generated revert of a squash merge does, through the quoted number and
  through the quoted title) is compared with itself, so if its date cannot be read the parser
  fails for the whole repository, not for the jobs that depend on that commit.
\<close>
theorem undated_double_mark_fails_the_repository:
  assumes "c \<in> set cs" and "commit_instant (c_date c) = Raise e"
    and "\<not> distinct (commit_targets titles (pr_numbers_by_sha cs) c)"
  shows "\<exists>e'. parse_revert_targets_evidenced cs (Some titles) = Raise e'"
proof -
  have "\<exists>e'. mark_commits earlier_by_instant t ds m = Raise e'"
    if "c \<in> set ds" "\<not> distinct (t c)" for t ds m
    using that
  proof (induction ds arbitrary: m)
    case (Cons d ds)
    show ?case
    proof (cases "mark_all earlier_by_instant d (t d) m")
      case (Inr m')
      have "d \<noteq> c" using mark_all_undated [OF assms(2), of "t c" m] Cons.prems(2) Inr by auto
      with Cons Inr show ?thesis by simp
    qed simp
  qed simp
  from this [where t = "commit_targets titles (pr_numbers_by_sha cs)", OF assms(1,3)] show ?thesis
    by (simp add: parse_revert_targets_evidenced_def attribute_reverts_def)
qed

subsection \<open>Witnesses\<close>

text \<open>
  A squash merge, its generated revert, and a second revert in another offset that is later as an
  instant although its date sorts first as text.
\<close>

definition ex_merge :: commit where
  "ex_merge = \<lparr>c_sha = ''aaaaaaaa'', c_date = ''2026-02-20T10:00:00+00:00'',
     c_subject = ''Add x (#7)'', c_body = []\<rparr>"

definition ex_revert :: "string \<Rightarrow> string \<Rightarrow> commit" where
  "ex_revert sha date = \<lparr>c_sha = sha, c_date = date,
     c_subject = ''Revert '' @ [CHR 0x22] @ ''Add x (#7)'' @ [CHR 0x22] @ '' (#9)'', c_body = []\<rparr>"

definition ex_history :: "commit list" where
  "ex_history = [ex_revert ''cccccccc'' ''2026-03-01T02:00:00-05:00'',
                 ex_revert ''bbbbbbbb'' ''2026-03-01T09:00:00+09:00'', ex_merge]"

lemma ex_history_marked:
  "parse_revert_targets_evidenced ex_history (Some [(''Add x'', 7)]) =
   Return [(7, ex_revert ''bbbbbbbb'' ''2026-03-01T09:00:00+09:00'')]"
  by code_simp

theorem log_reader_inverts_the_printer_witness:
  "log_records (print_log [ex_merge]) = [ex_merge]"
  by (rule log_reader_inverts_the_printer) code_simp

theorem parsers_mark_the_same_pull_requests_witness:
  "\<exists>dated. parse_revert_targets_dated ex_history (Some [(''Add x'', 7)]) = Return dated \<and>
           map fst dated = [7]"
  using parsers_mark_the_same_pull_requests [OF ex_history_marked] by simp

theorem evidence_is_the_earliest_revert_witness:
  "ex_revert ''bbbbbbbb'' ''2026-03-01T09:00:00+09:00'' \<in> set ex_history"
  using evidence_is_the_earliest_revert [OF ex_history_marked] by simp

theorem undated_double_mark_fails_the_repository_witness:
  "\<exists>e. parse_revert_targets_evidenced
     [ex_revert ''bbbbbbbb'' ''2026-02-26T06:13:20+24:00'', ex_merge] (Some [(''Add x'', 7)]) = Raise e"
proof (rule undated_double_mark_fails_the_repository)
  let ?c = "ex_revert ''bbbbbbbb'' ''2026-02-26T06:13:20+24:00''"
  show "?c \<in> set [?c, ex_merge]" by simp
  show "commit_instant (c_date ?c) = Raise (UnparseableDate ''2026-02-26T06:13:20+24:00'')" by code_simp
  show "\<not> distinct (commit_targets [(''Add x'', 7)] (pr_numbers_by_sha [?c, ex_merge]) ?c)" by code_simp
qed

end
