(* ===== verification/Adjudicate.thy ===== *)
theory Adjudicate
  imports Git_Labels
begin

text \<open>
  The pure adjudicator, \<open>api/doug/adjudicate.py\<close>: job rows and a revert map in, one outcome or one
  refusal per job out.
\<close>

subsection \<open>Rows\<close>

datatype outcome_kind = Revert | Clean | Censored

datatype censor_reason = BaseRef | Unreachable

text \<open>The columns of a claimed \<open>outcome_jobs\<close> row the adjudicator reads.\<close>

record adj_job =
  aj_installation :: int
  aj_repo :: int
  aj_pr :: int
  aj_merge_sha :: string
  aj_merged_at :: datetime
  aj_base_ref :: string
  aj_window_days :: int

record outcome_detail =
  od_anchor_sha :: string
  od_revert_sha :: "string option"
  od_revert_instant :: "instant option"
  od_window_starts_at :: instant
  od_window_ends_at :: instant
  od_base_ref :: string
  od_default_branch :: "string option"
  od_censor_reason :: "censor_reason option"

record outcome =
  oc_installation :: int
  oc_repo :: int
  oc_pr :: int
  oc_window_days :: int
  oc_merge_sha :: string
  oc_kind :: outcome_kind
  oc_detail :: outcome_detail

record 'j adjudication =
  ad_outcomes :: "outcome list"
  ad_unadjudicable :: "('j \<times> label_error) list"

subsection \<open>Classification\<close>

definition window_starts_at :: "adj_job \<Rightarrow> instant" where
  "window_starts_at job = as_utc (aj_merged_at job) - days TOLERANCE_DAYS"

definition window_ends_at :: "adj_job \<Rightarrow> instant" where
  "window_ends_at job = as_utc (aj_merged_at job) + days (aj_window_days job)"

definition disposition ::
    "adj_job \<Rightarrow> instant option \<Rightarrow> string option \<Rightarrow> outcome_kind \<times> censor_reason option" where
  "disposition job revert_instant default_branch =
     (if (case revert_instant of None \<Rightarrow> False
          | Some t \<Rightarrow> window_starts_at job \<le> t \<and> t \<le> window_ends_at job) then (Revert, None)
      else if default_branch = None then (Censored, Some Unreachable)
      else if Some (aj_base_ref job) \<noteq> default_branch then (Censored, Some BaseRef)
      else (Clean, None))"

definition classify ::
    "adj_job \<Rightarrow> commit option \<Rightarrow> instant option \<Rightarrow> string option \<Rightarrow> outcome" where
  "classify job revert revert_instant default_branch =
     (let (kind, reason) = disposition job revert_instant default_branch
      in \<lparr>oc_installation = aj_installation job, oc_repo = aj_repo job, oc_pr = aj_pr job,
          oc_window_days = aj_window_days job, oc_merge_sha = aj_merge_sha job, oc_kind = kind,
          oc_detail = \<lparr>od_anchor_sha = aj_merge_sha job, od_revert_sha = map_option c_sha revert,
            od_revert_instant = revert_instant, od_window_starts_at = window_starts_at job,
            od_window_ends_at = window_ends_at job, od_base_ref = aj_base_ref job,
            od_default_branch = default_branch, od_censor_reason = reason\<rparr>\<rparr>)"

text \<open>The parse of the attributed revert's date: nothing attributed is no instant and no error.\<close>

definition revert_instant_of :: "commit option \<Rightarrow> (label_error, instant option) result" where
  "revert_instant_of revert =
     (case revert of None \<Rightarrow> Return None
      | Some c \<Rightarrow> (case commit_instant (c_date c) of Inl e \<Rightarrow> Raise e | Inr t \<Rightarrow> Return (Some t)))"

text \<open>
  The loop, with the row type and its reading of the columns left open: the drain passes whole rows
  and gets them back in the refusals.
\<close>

fun adjudicate_loop ::
    "('j \<Rightarrow> adj_job) \<Rightarrow> (int \<times> commit) list \<Rightarrow> string option \<Rightarrow> 'j list \<Rightarrow> 'j adjudication \<Rightarrow> 'j adjudication" where
  "adjudicate_loop row revert_map branch [] acc = acc"
| "adjudicate_loop row revert_map branch (j # js) acc =
     (let revert = dict_get revert_map (aj_pr (row j))
      in adjudicate_loop row revert_map branch js
           (case revert_instant_of revert of
              Inl e \<Rightarrow> acc\<lparr>ad_unadjudicable := ad_unadjudicable acc @ [(j, e)]\<rparr>
            | Inr t \<Rightarrow> acc\<lparr>ad_outcomes := ad_outcomes acc @ [classify (row j) revert t branch]\<rparr>))"

definition adjudicate ::
    "('j \<Rightarrow> adj_job) \<Rightarrow> 'j list \<Rightarrow> (int \<times> commit) list \<Rightarrow> string option \<Rightarrow> 'j adjudication" where
  "adjudicate row jobs revert_map branch =
     adjudicate_loop row revert_map branch jobs \<lparr>ad_outcomes = [], ad_unadjudicable = []\<rparr>"

text \<open>\<open>Adjudication.predated_reverts\<close>: per window, the attributed reverts the lower bound refused.\<close>

definition predated :: "outcome \<Rightarrow> bool" where
  "predated oc \<longleftrightarrow>
     (case od_revert_instant (oc_detail oc) of None \<Rightarrow> False
      | Some t \<Rightarrow> t < od_window_starts_at (oc_detail oc))"

definition predated_reverts :: "'j adjudication \<Rightarrow> (int \<times> nat) list" where
  "predated_reverts a =
     fold (\<lambda>oc dropped.
             if predated oc
             then dict_set (oc_window_days oc)
                    ((case dict_get dropped (oc_window_days oc) of None \<Rightarrow> 0 | Some n \<Rightarrow> n) + 1) dropped
             else dropped)
          (ad_outcomes a) []"

subsection \<open>The loop in closed form\<close>

lemma classify_simps [simp]:
  "oc_installation (classify job r t b) = aj_installation job"
  "oc_repo (classify job r t b) = aj_repo job"
  "oc_pr (classify job r t b) = aj_pr job"
  "oc_window_days (classify job r t b) = aj_window_days job"
  "oc_merge_sha (classify job r t b) = aj_merge_sha job"
  "oc_kind (classify job r t b) = fst (disposition job t b)"
  "od_revert_instant (oc_detail (classify job r t b)) = t"
  "od_revert_sha (oc_detail (classify job r t b)) = map_option c_sha r"
  "od_window_starts_at (oc_detail (classify job r t b)) = window_starts_at job"
  "od_window_ends_at (oc_detail (classify job r t b)) = window_ends_at job"
  "od_censor_reason (oc_detail (classify job r t b)) = snd (disposition job t b)"
  by (simp_all add: classify_def case_prod_beta)

definition result_of ::
    "('j \<Rightarrow> adj_job) \<Rightarrow> (int \<times> commit) list \<Rightarrow> string option \<Rightarrow> 'j \<Rightarrow> ('j \<times> label_error) + outcome" where
  "result_of row revert_map branch j =
     (let revert = dict_get revert_map (aj_pr (row j))
      in case revert_instant_of revert of
           Inl e \<Rightarrow> Inl (j, e)
         | Inr t \<Rightarrow> Inr (classify (row j) revert t branch))"

definition lefts :: "('a + 'b) list \<Rightarrow> 'a list" where
  "lefts xs = concat (map (\<lambda>x. case x of Inl a \<Rightarrow> [a] | Inr b \<Rightarrow> []) xs)"

definition rights :: "('a + 'b) list \<Rightarrow> 'b list" where
  "rights xs = concat (map (\<lambda>x. case x of Inl a \<Rightarrow> [] | Inr b \<Rightarrow> [b]) xs)"

lemma lefts_rights_simps [simp]:
  "lefts [] = []" "rights [] = []"
  "lefts (Inl a # xs) = a # lefts xs" "lefts (Inr b # xs) = lefts xs"
  "rights (Inl a # xs) = rights xs" "rights (Inr b # xs) = b # rights xs"
  by (simp_all add: lefts_def rights_def)

lemma length_lefts_rights: "length (lefts xs) + length (rights xs) = length xs"
proof (induction xs)
  case (Cons x xs)
  then show ?case by (cases x) auto
qed simp

lemma adjudicate_loop_results:
  "adjudicate_loop row rm b js acc =
     acc\<lparr>ad_unadjudicable := ad_unadjudicable acc @ lefts (map (result_of row rm b) js),
         ad_outcomes := ad_outcomes acc @ rights (map (result_of row rm b) js)\<rparr>"
proof (induction js arbitrary: acc)
  case Nil
  then show ?case by simp
next
  case (Cons j js)
  then show ?case
    by (cases "revert_instant_of (dict_get rm (aj_pr (row j)))") (simp_all add: result_of_def Let_def)
qed

lemma adjudicate_results:
  "ad_outcomes (adjudicate row js rm b) = rights (map (result_of row rm b) js)"
  "ad_unadjudicable (adjudicate row js rm b) = lefts (map (result_of row rm b) js)"
  by (simp_all add: adjudicate_def adjudicate_loop_results)

lemma in_rights: "y \<in> set (rights xs) \<longleftrightarrow> Inr y \<in> set xs"
proof (induction xs)
  case (Cons x xs)
  then show ?case by (cases x) auto
qed simp

lemma in_lefts: "y \<in> set (lefts xs) \<longleftrightarrow> Inl y \<in> set xs"
proof (induction xs)
  case (Cons x xs)
  then show ?case by (cases x) auto
qed simp

lemma result_of_Inr:
  "result_of row rm b j = Inr oc \<Longrightarrow>
   \<exists>t. revert_instant_of (dict_get rm (aj_pr (row j))) = Return t \<and>
       oc = classify (row j) (dict_get rm (aj_pr (row j))) t b"
  by (auto simp: result_of_def Let_def split: sum.splits)

lemma predated_reverts_count:
  "dict_get (predated_reverts a) w =
     (let n = length (filter (\<lambda>oc. oc_window_days oc = w \<and> predated oc) (ad_outcomes a))
      in if n = 0 then None else Some n)"
proof -
  let ?f = "\<lambda>oc dropped. if predated oc
             then dict_set (oc_window_days oc)
                    ((case dict_get dropped (oc_window_days oc) of None \<Rightarrow> 0 | Some n \<Rightarrow> n) + 1) dropped
             else dropped"
  have "(case dict_get (fold ?f ocs d) w of None \<Rightarrow> 0 | Some n \<Rightarrow> n) =
          (case dict_get d w of None \<Rightarrow> 0 | Some n \<Rightarrow> n) +
          length (filter (\<lambda>oc. oc_window_days oc = w \<and> predated oc) ocs)"
    and "dict_get (fold ?f ocs d) w = None \<longleftrightarrow>
         dict_get d w = None \<and> length (filter (\<lambda>oc. oc_window_days oc = w \<and> predated oc) ocs) = 0"
    for ocs and d :: "(int \<times> nat) list"
    by (induction ocs arbitrary: d) auto
  from this [of "ad_outcomes a" "[]"] show ?thesis
    by (auto simp: predated_reverts_def Let_def split: option.splits)
qed

subsection \<open>Properties\<close>

text \<open>
  Exactly one result per job: every claimed job contributes exactly one entry, an outcome when
  the attributed revert's date can be read and a refusal otherwise, both lists in job order; so
  the counts of misses, clean and censored rows add up to the jobs that were not refused.
\<close>
theorem one_result_per_job:
  "ad_outcomes (adjudicate row js rm b) = rights (map (result_of row rm b) js) \<and>
   ad_unadjudicable (adjudicate row js rm b) = lefts (map (result_of row rm b) js) \<and>
   length (ad_outcomes (adjudicate row js rm b)) + length (ad_unadjudicable (adjudicate row js rm b)) = length js \<and>
   length (filter (\<lambda>oc. oc_kind oc = Revert) (ad_outcomes (adjudicate row js rm b))) +
   length (filter (\<lambda>oc. oc_kind oc = Clean) (ad_outcomes (adjudicate row js rm b))) +
   length (filter (\<lambda>oc. oc_kind oc = Censored) (ad_outcomes (adjudicate row js rm b))) =
   length js - length (ad_unadjudicable (adjudicate row js rm b))"
proof -
  have kinds: "length (filter (\<lambda>oc. oc_kind oc = Revert) ocs) + length (filter (\<lambda>oc. oc_kind oc = Clean) ocs) +
      length (filter (\<lambda>oc. oc_kind oc = Censored) ocs) = length ocs" for ocs :: "outcome list"
  proof (induction ocs)
    case (Cons oc ocs)
    then show ?case by (cases "oc_kind oc") auto
  qed simp
  have total: "length (ad_outcomes (adjudicate row js rm b)) +
      length (ad_unadjudicable (adjudicate row js rm b)) = length js"
    by (simp add: adjudicate_results) (metis add.commute length_lefts_rights length_map)
  then show ?thesis unfolding kinds by (simp add: adjudicate_results)
qed

text \<open>
  Precedence of the three dispositions: a row is a miss exactly when a revert is attributed
  inside the inclusive window, wherever the pull request was merged; otherwise it is censored
  exactly when the clone is missing or does not hold the base branch, with that reason; otherwise
  clean. The evidence recorded on the row decides the same comparison again.
\<close>
theorem disposition_by_precedence:
  assumes "oc = classify job r t b"
  shows "(oc_kind oc = Revert \<longleftrightarrow>
            (\<exists>s. od_revert_instant (oc_detail oc) = Some s \<and>
                 od_window_starts_at (oc_detail oc) \<le> s \<and> s \<le> od_window_ends_at (oc_detail oc))) \<and>
         (oc_kind oc = Censored \<longleftrightarrow> oc_kind oc \<noteq> Revert \<and> b \<noteq> Some (aj_base_ref job)) \<and>
         (oc_kind oc = Clean \<longleftrightarrow> oc_kind oc \<noteq> Revert \<and> b = Some (aj_base_ref job)) \<and>
         (od_censor_reason (oc_detail oc) =
            (if oc_kind oc \<noteq> Censored then None else if b = None then Some Unreachable else Some BaseRef))"
  using assms by (cases t) (auto simp: disposition_def)

lemma whole_days_at_least: "0 < k \<Longrightarrow> n \<le> x div k \<longleftrightarrow> n * k \<le> x" for k n x :: int
  by (metis (no_types, opaque_lifting) mult.commute mult_le_cancel_left_pos order_trans
      pos_mod_sign div_mult_mod_eq add_increasing2 le_add_same_cancel1 zdiv_mono1 nonzero_mult_div_cancel_left less_irrefl)

text \<open>
  The live bound is the backtest's filter: the adjudicator keeps a revert on its lower side
  exactly when the whole-day difference the backtest computes, floored as Python floors it, is at
  least minus the tolerance.
\<close>
theorem live_bound_agrees_with_backtest_filter:
  "window_starts_at job \<le> t \<longleftrightarrow> - TOLERANCE_DAYS \<le> (t - as_utc (aj_merged_at job)) div 86400000000"
proof -
  define x where "x = t - as_utc (aj_merged_at job)"
  have "- TOLERANCE_DAYS \<le> x div 86400000000 \<longleftrightarrow> - TOLERANCE_DAYS * 86400000000 \<le> x"
    by (rule whole_days_at_least) simp
  then show ?thesis by (simp add: window_starts_at_def days_def x_def algebra_simps)
qed

text \<open>
  The published count of refused labels is recomputable: for every window it equals the number
  of outcome rows of that window whose own evidence shows a revert before the recorded start, and
  none of those rows is a miss.
\<close>
theorem predated_reverts_match_the_rows:
  "(case dict_get (predated_reverts (adjudicate row js rm b)) w of None \<Rightarrow> 0 | Some n \<Rightarrow> n) =
     length (filter (\<lambda>oc. oc_window_days oc = w \<and> predated oc) (ad_outcomes (adjudicate row js rm b))) \<and>
   (\<forall>oc. oc \<in> set (ad_outcomes (adjudicate row js rm b)) \<and> predated oc \<longrightarrow> oc_kind oc \<noteq> Revert)"
proof -
  have "oc_kind oc \<noteq> Revert" if oc: "oc \<in> set (ad_outcomes (adjudicate row js rm b))" "predated oc" for oc
  proof -
    from oc(1) obtain j where "result_of row rm b j = Inr oc"
      by (auto simp: adjudicate_results in_rights)
    with oc(2) show ?thesis
      by (auto simp: predated_def disposition_def dest!: result_of_Inr split: option.splits if_splits)
  qed
  then show ?thesis by (auto simp: predated_reverts_count Let_def)
qed

subsection \<open>Witnesses\<close>

definition ex_job :: adj_job where
  "ex_job = \<lparr>aj_installation = 1, aj_repo = 2, aj_pr = 7, aj_merge_sha = ''aaaaaaaa'',
     aj_merged_at = (days 100, None), aj_base_ref = ''release'', aj_window_days = 14\<rparr>"

theorem disposition_by_precedence_witness:
  "oc_kind (classify ex_job None (Some (days 114)) (Some ''main'')) = Revert \<and>
   oc_kind (classify ex_job None (Some (days 114 + 1)) (Some ''main'')) = Censored"
  using disposition_by_precedence [OF refl, of ex_job None "Some (days 114)" "Some ''main''"]
    disposition_by_precedence [OF refl, of ex_job None "Some (days 114 + 1)" "Some ''main''"]
  by (simp add: window_starts_at_def window_ends_at_def ex_job_def days_def TOLERANCE_DAYS_def)

theorem predated_reverts_match_the_rows_witness:
  "filter (\<lambda>oc. predated oc \<and> oc_kind oc = Revert) (ad_outcomes (adjudicate id [ex_job] [] None)) = []"
  using predated_reverts_match_the_rows [of id "[ex_job]" "[]" None 14] by (auto simp: filter_empty_conv)

end
