(* ===== verification/Outcome_Queue.thy ===== *)
theory Outcome_Queue
  imports Lease Registry Adjudicate
begin

text \<open>
  The outcome ledger: \<open>outcome_jobs\<close> and \<open>outcomes\<close> beside the registry, the enqueue of
  \<open>api/doug/store.py\<close>, and the claim and settlement boundary of \<open>api/doug/outcome_queue.py\<close>. An
  operation that opens one transaction is one step: it returns the new ledger, or an error and then
  nothing it did is kept. An instant column holds the instant, so \<open>due_at\<close> is \<open>merged_at\<close> read as UTC
  plus whole days. Sequence values are only fresh: a conflicting insert uses none up.
\<close>

subsection \<open>The tables\<close>

record outcome_job =
  oj_id :: int
  oj_installation :: int
  oj_repo :: int
  oj_pr :: int
  oj_merge_sha :: string
  oj_merged_at :: datetime
  oj_base_ref :: string
  oj_window :: int
  oj_due_at :: instant
  oj_status :: status
  oj_attempts :: nat
  oj_started_at :: "instant option"
  oj_finished_at :: "instant option"
  oj_error :: "string option"
  oj_generation :: nat
  oj_created_at :: instant
  oj_merged_head_sha :: "string option"

text \<open>
  The JSON text of \<open>outcomes.detail\<close>: what the adjudicator wrote with the registration hash beside
  it, text that is not JSON, or JSON that is not an object.
\<close>

datatype stored_detail = Detail outcome_detail string | NotJson string | NotObject string

record outcome_row =
  os_id :: int
  os_repo_name :: string
  os_pr :: int
  os_kind :: string
  os_observed_at :: instant
  os_source :: string
  os_github_repo :: "int option"
  os_installation :: "int option"
  os_window :: "int option"
  os_merge_sha :: "string option"
  os_detail :: "stored_detail option"

record verdict_ref =
  vr_id :: int
  vr_repo_name :: string
  vr_installation :: "int option"
  vr_github_repo :: "int option"

record ledger = registry +
  lg_jobs :: "outcome_job list"
  lg_job_seq :: int
  lg_outcomes :: "outcome_row list"
  lg_outcome_seq :: int
  lg_verdicts :: "verdict_ref list"

datatype ledger_error = NoEngine | LostClaim string | ValueError string | UniqueViolation | MultipleRows

type_synonym job_identity = "int \<times> int \<times> int \<times> string \<times> int"

definition job_identity :: "outcome_job \<Rightarrow> job_identity" where
  "job_identity j = (oj_installation j, oj_repo j, oj_pr j, oj_merge_sha j, oj_window j)"

definition MAX_ATTEMPTS :: nat where
  "MAX_ATTEMPTS = 10"

definition STALL_LEASE_SECONDS :: int where
  "STALL_LEASE_SECONDS = 7200"

subsection \<open>Enqueue\<close>

definition new_outcome_job ::
    "instant \<Rightarrow> int \<Rightarrow> int \<Rightarrow> int \<Rightarrow> int \<Rightarrow> string \<Rightarrow> datetime \<Rightarrow> string \<Rightarrow> string option \<Rightarrow> int \<Rightarrow> outcome_job" where
  "new_outcome_job now i inst repo pr sha merged_at base head window =
     \<lparr>oj_id = i, oj_installation = inst, oj_repo = repo, oj_pr = pr, oj_merge_sha = sha,
      oj_merged_at = merged_at, oj_base_ref = base, oj_window = window,
      oj_due_at = as_utc merged_at + days window, oj_status = Pending, oj_attempts = 0,
      oj_started_at = None, oj_finished_at = None, oj_error = None, oj_generation = 0,
      oj_created_at = now, oj_merged_head_sha = head\<rparr>"

text \<open>One statement inserts a row per window; a row whose identity exists is skipped.\<close>

fun insert_windows ::
    "(int \<Rightarrow> int \<Rightarrow> outcome_job) \<Rightarrow> int list \<Rightarrow> ledger \<Rightarrow> (int \<times> int) list \<times> ledger" where
  "insert_windows mk [] db = ([], db)"
| "insert_windows mk (w # rest) db =
     (let j = mk (lg_job_seq db) w
      in if job_identity j \<in> job_identity ` set (lg_jobs db) then insert_windows mk rest db
         else let (ids, db') = insert_windows mk rest
                    (db\<lparr>lg_jobs := lg_jobs db @ [j], lg_job_seq := lg_job_seq db + 1\<rparr>)
              in ((w, lg_job_seq db) # ids, db'))"

definition enqueue_outcome_jobs ::
    "instant \<Rightarrow> int \<Rightarrow> int \<Rightarrow> int \<Rightarrow> string \<Rightarrow> datetime \<Rightarrow> string \<Rightarrow> int list \<Rightarrow> string option \<Rightarrow> ledger \<Rightarrow>
     (int \<times> int) list \<times> ledger" where
  "enqueue_outcome_jobs now inst repo pr sha merged_at base windows head db =
     (if \<not> rg_configured db then ([], db)
      else insert_windows (\<lambda>i. new_outcome_job now i inst repo pr sha merged_at base head) windows db)"

definition enqueue_outcome_job ::
    "instant \<Rightarrow> int \<Rightarrow> int \<Rightarrow> int \<Rightarrow> string \<Rightarrow> datetime \<Rightarrow> string \<Rightarrow> int \<Rightarrow> ledger \<Rightarrow> int option \<times> ledger" where
  "enqueue_outcome_job now inst repo pr sha merged_at base window db =
     (let (ids, db') = enqueue_outcome_jobs now inst repo pr sha merged_at base [window] None db
      in (dict_get ids window, db'))"

subsection \<open>What is due, and under which identity\<close>

type_synonym repository_key = "int \<times> int"

definition job_key :: "outcome_job \<Rightarrow> repository_key" where
  "job_key j = (oj_installation j, oj_repo j)"

definition is_due :: "instant \<Rightarrow> outcome_job \<Rightarrow> bool" where
  "is_due now j \<longleftrightarrow> oj_status j = Pending \<and> oj_due_at j \<le> now"

definition first_due :: "instant \<Rightarrow> ledger \<Rightarrow> repository_key \<Rightarrow> instant" where
  "first_due now db k = Min (oj_due_at ` set (filter (\<lambda>j. is_due now j \<and> job_key j = k) (lg_jobs db)))"

text \<open>
  The snapshot of one drain. SQL leaves the order of two groups with the same first due date and
  installation open; here they keep their order in the table.
\<close>

definition due_repositories :: "instant \<Rightarrow> ledger \<Rightarrow> (ledger_error, repository_key list) result" where
  "due_repositories now db =
     (if \<not> rg_configured db then Raise NoEngine
      else Return (sort_key (\<lambda>k. (first_due now db k, fst k))
                     (fromkeys (map job_key (filter (is_due now) (lg_jobs db))))))"

definition repository_identity :: "repository_key \<Rightarrow> ledger \<Rightarrow> string option \<times> bool \<times> int option" where
  "repository_identity key db =
     (case key of (inst, repo_id) \<Rightarrow>
      (let state = map_option in_state (row_by in_installation inst (rg_installs db));
           repo = registration db inst repo_id;
           permanent = (state = Some ''deleted'' \<or>
             (case repo of None \<Rightarrow> False | Some r \<Rightarrow> ip_state r \<noteq> ''active''));
           own = (case repo of
               Some r \<Rightarrow> (Some (ip_full_name r), permanent, None)
             | None \<Rightarrow> (map_option vr_repo_name
                          (first_by (\<lambda>v. - vr_id v)
                             (filter (\<lambda>v. vr_installation v = Some inst \<and> vr_github_repo v = Some repo_id)
                                (lg_verdicts db))), permanent, None))
       in case (if permanent then live_registration db repo_id else None) of
            Some (successor, name) \<Rightarrow> if successor \<noteq> inst then (Some name, False, Some successor) else own
          | None \<Rightarrow> own))"

subsection \<open>Claims\<close>

record claimed_batch =
  cb_key :: repository_key
  cb_repo_full_name :: "string option"
  cb_permanently_unreachable :: bool
  cb_jobs :: "outcome_job list"
  cb_evidence :: "int option"

definition reader_installation_id :: "claimed_batch \<Rightarrow> int" where
  "reader_installation_id b = (case cb_evidence b of None \<Rightarrow> fst (cb_key b) | Some i \<Rightarrow> i)"

definition due_order :: "outcome_job \<Rightarrow> instant \<times> int" where
  "due_order j = (oj_due_at j, oj_id j)"

definition claim_query :: "int list \<Rightarrow> repository_key \<Rightarrow> instant \<Rightarrow> ledger \<Rightarrow> outcome_job list" where
  "claim_query locked key now db =
     sort_key due_order (filter (\<lambda>j. job_key j = key \<and> is_due now j \<and> oj_id j \<notin> set locked) (lg_jobs db))"

definition claim_row :: "instant \<Rightarrow> outcome_job \<Rightarrow> outcome_job" where
  "claim_row now j = j\<lparr>oj_status := Running, oj_started_at := Some now, oj_finished_at := None,
                       oj_error := None, oj_generation := oj_generation j + 1\<rparr>"

definition claim_repository ::
    "int list \<Rightarrow> instant \<Rightarrow> repository_key \<Rightarrow> ledger \<Rightarrow> (ledger_error, claimed_batch option \<times> ledger) result" where
  "claim_repository locked now key db =
     (if \<not> rg_configured db then Raise NoEngine
      else let rows = claim_query locked key now db
           in if rows = [] then Return (None, db)
              else let ids = map oj_id rows;
                       hit = (\<lambda>j. oj_id j \<in> set ids \<and> oj_status j = Pending);
                       db' = db\<lparr>lg_jobs := update_where hit (claim_row now) (lg_jobs db)\<rparr>
                   in if rowcount hit (lg_jobs db) \<noteq> length ids
                      then Raise (LostClaim ''one or more outcome rows changed during claim'')
                      else (case repository_identity key db' of (name, permanent, evidence) \<Rightarrow>
                        Return (Some \<lparr>cb_key = key, cb_repo_full_name = name,
                          cb_permanently_unreachable = permanent,
                          cb_jobs = sort_key due_order (filter (\<lambda>j. oj_id j \<in> set ids) (lg_jobs db')),
                          cb_evidence = evidence\<rparr>, db')))"

definition lease_expired :: "int \<Rightarrow> instant \<Rightarrow> outcome_job \<Rightarrow> bool" where
  "lease_expired older_than now j \<longleftrightarrow>
     oj_status j = Running \<and> (case oj_started_at j of None \<Rightarrow> True | Some s \<Rightarrow> s < now - seconds older_than)"

definition reclaim_stalled :: "int \<Rightarrow> instant \<Rightarrow> ledger \<Rightarrow> (ledger_error, nat \<times> ledger) result" where
  "reclaim_stalled older_than now db =
     (if \<not> rg_configured db then Raise NoEngine
      else Return (rowcount (lease_expired older_than now) (lg_jobs db),
             db\<lparr>lg_jobs := update_where (lease_expired older_than now)
                  (\<lambda>j. j\<lparr>oj_status := Pending, oj_started_at := None\<rparr>) (lg_jobs db)\<rparr>))"

definition claims_are_current :: "claimed_batch \<Rightarrow> ledger \<Rightarrow> bool" where
  "claims_are_current b db =
     (let expected = fold (\<lambda>j. dict_set (oj_id j) (oj_generation j)) (cb_jobs b) [];
          rows = filter (\<lambda>j. oj_id j \<in> fst ` set expected) (lg_jobs db)
      in length rows = length expected \<and>
         list_all (\<lambda>j. oj_status j = Running \<and> dict_get expected (oj_id j) = Some (oj_generation j)) rows)"

definition held_by :: "outcome_job \<Rightarrow> outcome_job \<Rightarrow> bool" where
  "held_by job j \<longleftrightarrow> oj_id j = oj_id job \<and> oj_status j = Running \<and> oj_generation j = oj_generation job"

text \<open>One fenced UPDATE of a claimed row; the whole transaction fails when it does not find it.\<close>

definition fenced_write ::
    "(outcome_job \<Rightarrow> outcome_job) \<Rightarrow> outcome_job \<Rightarrow> ledger \<Rightarrow> (ledger_error, ledger) result" where
  "fenced_write f job db =
     (if rowcount (held_by job) (lg_jobs db) \<noteq> 1 then Raise (LostClaim ''outcome job is no longer held'')
      else Return (db\<lparr>lg_jobs := update_where (held_by job) f (lg_jobs db)\<rparr>))"

definition fail_row :: "string \<Rightarrow> instant \<Rightarrow> nat \<Rightarrow> outcome_job \<Rightarrow> outcome_job" where
  "fail_row err now max_attempts j =
     (let n = oj_attempts j + 1; at_cap = n \<ge> max_attempts
      in j\<lparr>oj_status := (if at_cap then Failed else Pending), oj_attempts := n, oj_started_at := None,
           oj_finished_at := (if at_cap then Some now else None), oj_error := Some (take 1000 err)\<rparr>)"

definition fail_job ::
    "outcome_job \<Rightarrow> string \<Rightarrow> instant \<Rightarrow> nat \<Rightarrow> ledger \<Rightarrow> (ledger_error, ledger) result" where
  "fail_job job err now max_attempts = fenced_write (fail_row err now max_attempts) job"

text \<open>The loops of a transaction: the first error ends it.\<close>

fun each :: "('a \<Rightarrow> 's \<Rightarrow> ('e, 's) result) \<Rightarrow> 'a list \<Rightarrow> 's \<Rightarrow> ('e, 's) result" where
  "each f [] s = Return s"
| "each f (x # xs) s = (case f x s of Inl e \<Rightarrow> Raise e | Inr s' \<Rightarrow> each f xs s')"

definition fail_batch ::
    "instant \<Rightarrow> claimed_batch \<Rightarrow> string \<Rightarrow> nat \<Rightarrow> ledger \<Rightarrow> (ledger_error, nat \<times> ledger) result" where
  "fail_batch now b err max_attempts db =
     (if \<not> rg_configured db then Raise NoEngine
      else if \<not> claims_are_current b db then Raise (LostClaim ''one or more outcome claims were reclaimed'')
      else case each (\<lambda>job. fail_job job err now max_attempts) (cb_jobs b) db of
             Inl e \<Rightarrow> Raise e
           | Inr db' \<Rightarrow> Return (length (cb_jobs b), db'))"

subsection \<open>Settlement\<close>

type_synonym settle_identity = "int \<times> string \<times> int"

definition identity :: "outcome_job \<Rightarrow> settle_identity" where
  "identity j = (oj_pr j, oj_merge_sha j, oj_window j)"

definition outcome_identity :: "outcome \<Rightarrow> settle_identity" where
  "outcome_identity oc = (oc_pr oc, oc_merge_sha oc, oc_window_days oc)"

definition kind_value :: "outcome_kind \<Rightarrow> string" where
  "kind_value k = (case k of Revert \<Rightarrow> ''revert'' | Clean \<Rightarrow> ''clean'' | Censored \<Rightarrow> ''censored'')"

text \<open>The partial unique index: two rows with a merge commit never share the five columns.\<close>

definition outcome_key :: "outcome_row \<Rightarrow> (int option \<times> int option \<times> int \<times> string \<times> int option) option" where
  "outcome_key r = map_option (\<lambda>sha. (os_installation r, os_github_repo r, os_pr r, sha, os_window r)) (os_merge_sha r)"

definition same_index :: "outcome_row \<Rightarrow> outcome_row \<Rightarrow> bool" where
  "same_index a b \<longleftrightarrow> outcome_key a = outcome_key b \<and> os_merge_sha a \<noteq> None \<and>
     os_installation a \<noteq> None \<and> os_github_repo a \<noteq> None \<and> os_window a \<noteq> None"

definition insert_outcome :: "(int \<Rightarrow> outcome_row) \<Rightarrow> ledger \<Rightarrow> (ledger_error, ledger) result" where
  "insert_outcome mk db =
     (let r = mk (lg_outcome_seq db)
      in if \<exists>q \<in> set (lg_outcomes db). same_index r q then Raise UniqueViolation
         else Return (db\<lparr>lg_outcomes := lg_outcomes db @ [r], lg_outcome_seq := lg_outcome_seq db + 1\<rparr>))"

definition settled_row :: "string \<Rightarrow> instant \<Rightarrow> string \<Rightarrow> outcome \<Rightarrow> int \<Rightarrow> outcome_row" where
  "settled_row name observed_at prereg oc i =
     \<lparr>os_id = i, os_repo_name = name, os_pr = oc_pr oc, os_kind = kind_value (oc_kind oc),
      os_observed_at = observed_at, os_source = ''git-labels'', os_github_repo = Some (oc_repo oc),
      os_installation = Some (oc_installation oc), os_window = Some (oc_window_days oc),
      os_merge_sha = Some (oc_merge_sha oc), os_detail = Some (Detail (oc_detail oc) prereg)\<rparr>"

definition done_row :: "instant \<Rightarrow> outcome_job \<Rightarrow> outcome_job" where
  "done_row now j = j\<lparr>oj_status := Done, oj_finished_at := Some now, oj_error := None\<rparr>"

definition settle_one ::
    "string \<Rightarrow> instant \<Rightarrow> string \<Rightarrow> instant \<Rightarrow> (settle_identity \<times> outcome_job) list \<Rightarrow>
     settle_identity \<times> outcome \<Rightarrow> ledger \<Rightarrow> (ledger_error, ledger) result" where
  "settle_one name observed_at prereg now jobs entry db =
     (case dict_get jobs (fst entry) of
        None \<Rightarrow> Raise (ValueError ''KeyError'')
      | Some job \<Rightarrow>
          (case insert_outcome (settled_row name observed_at prereg (snd entry)) db of
             Inl e \<Rightarrow> Raise e
           | Inr db' \<Rightarrow> fenced_write (done_row now) job db'))"

definition refuse_one ::
    "(label_error \<Rightarrow> string) \<Rightarrow> instant \<Rightarrow> (settle_identity \<times> outcome_job) list \<Rightarrow>
     settle_identity \<times> outcome_job \<times> label_error \<Rightarrow> ledger \<Rightarrow> (ledger_error, ledger) result" where
  "refuse_one why now jobs entry db =
     (case dict_get jobs (fst entry) of
        None \<Rightarrow> Raise (ValueError ''KeyError'')
      | Some job \<Rightarrow> fail_job job (why (snd (snd entry))) now MAX_ATTEMPTS db)"

definition dict_of :: "('a \<Rightarrow> 'k) \<Rightarrow> 'a list \<Rightarrow> ('k \<times> 'a) list" where
  "dict_of key xs = fold (\<lambda>x. dict_set (key x) x) xs []"

text \<open>\<open>why\<close> is Python's text of the error a refused job carries.\<close>

definition settle_batch ::
    "(label_error \<Rightarrow> string) \<Rightarrow> instant \<Rightarrow> claimed_batch \<Rightarrow> outcome_job adjudication \<Rightarrow> string \<Rightarrow> instant \<Rightarrow> string \<Rightarrow>
     ledger \<Rightarrow> (ledger_error, (nat \<times> nat) \<times> ledger) result" where
  "settle_batch why now b adj name observed_at prereg db =
     (if \<not> rg_configured db then Raise NoEngine
      else let jobs = dict_of identity (cb_jobs b);
               classified = dict_of outcome_identity (ad_outcomes adj);
               refused = dict_of (\<lambda>item. identity (fst item)) (ad_unadjudicable adj)
           in if fst ` set jobs \<noteq> fst ` set classified \<union> fst ` set refused \<or>
                 fst ` set classified \<inter> fst ` set refused \<noteq> {}
              then Raise (ValueError ''adjudication must account for every claimed job exactly once'')
              else if \<not> claims_are_current b db
              then Raise (LostClaim ''one or more outcome claims were reclaimed'')
              else case each (settle_one name observed_at prereg now jobs) classified db of
                     Inl e \<Rightarrow> Raise e
                   | Inr db1 \<Rightarrow>
                       (case each (refuse_one why now jobs) refused db1 of
                          Inl e \<Rightarrow> Raise e
                        | Inr db2 \<Rightarrow> Return ((length classified, length refused), db2)))"

text \<open>The columns the adjudicator reads of a claimed row.\<close>

definition adj_row :: "outcome_job \<Rightarrow> adj_job" where
  "adj_row j = \<lparr>aj_installation = oj_installation j, aj_repo = oj_repo j, aj_pr = oj_pr j,
     aj_merge_sha = oj_merge_sha j, aj_merged_at = oj_merged_at j, aj_base_ref = oj_base_ref j,
     aj_window_days = oj_window j\<rparr>"

subsection \<open>The ledger invariant\<close>

definition jobs_wf :: "ledger \<Rightarrow> bool" where
  "jobs_wf db \<longleftrightarrow> distinct (map oj_id (lg_jobs db)) \<and>
     list_all (\<lambda>i. i < lg_job_seq db) (map oj_id (lg_jobs db)) \<and>
     distinct (map job_identity (lg_jobs db))"

definition settled_identity :: "outcome_row \<Rightarrow> job_identity option" where
  "settled_identity r =
     (case (os_installation r, os_github_repo r, os_merge_sha r, os_window r) of
        (Some inst, Some repo, Some sha, Some w) \<Rightarrow> Some (inst, repo, os_pr r, sha, w)
      | _ \<Rightarrow> None)"

definition identities :: "outcome_row list \<Rightarrow> job_identity list" where
  "identities rows = List.map_filter settled_identity rows"

text \<open>
  The numerator and the denominator: outcome ids are unique, a row with a repository id names one
  job, no job is named twice, and the jobs named are exactly the done ones.
\<close>

definition paired :: "ledger \<Rightarrow> bool" where
  "paired db \<longleftrightarrow> distinct (map os_id (lg_outcomes db)) \<and>
     list_all (\<lambda>i. i < lg_outcome_seq db) (map os_id (lg_outcomes db)) \<and>
     list_all (\<lambda>r. os_github_repo r \<noteq> None \<longrightarrow> settled_identity r \<noteq> None) (lg_outcomes db) \<and>
     distinct (identities (lg_outcomes db)) \<and>
     set (identities (lg_outcomes db)) = job_identity ` {j \<in> set (lg_jobs db). oj_status j = Done}"

definition ledger_wf :: "ledger \<Rightarrow> bool" where
  "ledger_wf db \<longleftrightarrow> rg_configured db \<and> jobs_wf db \<and> paired db"

lemma identities_simps [simp]:
  "identities [] = []"
  "identities (r # rs) = (case settled_identity r of None \<Rightarrow> identities rs | Some i \<Rightarrow> i # identities rs)"
  "identities (rs @ qs) = identities rs @ identities qs"
  by (simp_all add: identities_def map_filter_simps map_filter_def split: option.splits)

lemma in_identities: "q \<in> set rows \<Longrightarrow> settled_identity q = Some i \<Longrightarrow> i \<in> set (identities rows)"
  by (induction rows) (auto split: option.splits)

lemma settled_row_identity [simp]:
  "settled_identity (settled_row name t prereg oc i) =
     Some (oc_installation oc, oc_repo oc, oc_pr oc, oc_merge_sha oc, oc_window_days oc)"
  by (simp add: settled_identity_def settled_row_def)

subsection \<open>What a step may do to a row\<close>

definition oj_step :: "outcome_job \<Rightarrow> outcome_job \<Rightarrow> bool" where
  "oj_step j j' \<longleftrightarrow> oj_id j' = oj_id j \<and> job_identity j' = job_identity j \<and> adj_row j' = adj_row j \<and>
     oj_due_at j' = oj_due_at j \<and> oj_generation j \<le> oj_generation j' \<and>
     (oj_status j \<noteq> Running \<and> oj_status j' = Running \<longrightarrow> oj_generation j < oj_generation j')"

definition oq_frame :: "ledger \<Rightarrow> ledger \<Rightarrow> bool" where
  "oq_frame db db' \<longleftrightarrow> rg_configured db' = rg_configured db \<and>
     (\<exists>f new. lg_jobs db' = map f (lg_jobs db) @ new \<and> (\<forall>j. oj_step j (f j)))"

lemma oj_step_refl [simp]: "oj_step j j"
  by (simp add: oj_step_def)

lemma oj_step_trans: "oj_step j k \<Longrightarrow> oj_step k l \<Longrightarrow> oj_step j l"
  by (cases "oj_status k = Running") (auto simp: oj_step_def)

lemma oq_frame_refl [simp]: "oq_frame db db"
  by (auto simp: oq_frame_def intro: exI [of _ id] exI [of _ "[]"])

lemma oq_frame_trans: "oq_frame a b \<Longrightarrow> oq_frame b c \<Longrightarrow> oq_frame a c"
proof -
  assume ab: "oq_frame a b" and bc: "oq_frame b c"
  from ab obtain f new where f: "lg_jobs b = map f (lg_jobs a) @ new" "\<forall>j. oj_step j (f j)"
    by (auto simp: oq_frame_def)
  from bc obtain g new' where g: "lg_jobs c = map g (lg_jobs b) @ new'" "\<forall>j. oj_step j (g j)"
    by (auto simp: oq_frame_def)
  have "lg_jobs c = map (g \<circ> f) (lg_jobs a) @ (map g new @ new') \<and> (\<forall>j. oj_step j ((g \<circ> f) j))"
    using f g by (auto intro: oj_step_trans)
  with ab bc show ?thesis unfolding oq_frame_def by (metis (no_types))
qed

lemma oq_frame_update:
  assumes "\<And>j. p j \<Longrightarrow> oj_step j (f j)"
  shows "oq_frame db (db\<lparr>lg_jobs := update_where p f (lg_jobs db)\<rparr>)"
  unfolding oq_frame_def using assms
  by (auto simp: update_where_def intro!: exI [of _ "\<lambda>j. if p j then f j else j"] exI [of _ "[]"])

lemma oq_frame_outcomes: "lg_jobs db' = lg_jobs db \<Longrightarrow> rg_configured db' = rg_configured db \<Longrightarrow> oq_frame db db'"
  by (auto simp: oq_frame_def intro: exI [of _ id] exI [of _ "[]"])

lemmas row_defs = claim_row_def fail_row_def done_row_def

lemma step_rows [intro]:
  "oj_status j = Pending \<Longrightarrow> oj_step j (claim_row now j)"
  "oj_step j (done_row now j)"
  "oj_step j (fail_row err now m j)"
  by (auto simp: oj_step_def row_defs job_identity_def adj_row_def Let_def)

lemma frame_fenced_write: "fenced_write (done_row now) job db = Return db' \<Longrightarrow> oq_frame db db'"
  "fenced_write (fail_row err now m) job db = Return db' \<Longrightarrow> oq_frame db db'"
  by (auto simp: fenced_write_def intro!: oq_frame_update split: if_splits)

lemma each_rel:
  assumes "\<And>x s s'. x \<in> set xs \<Longrightarrow> f x s = Return s' \<Longrightarrow> R s s'"
    and "\<And>s. R s s" and "\<And>a b c. R a b \<Longrightarrow> R b c \<Longrightarrow> R a c"
  shows "each f xs s = Return s' \<Longrightarrow> R s s'"
  using assms by (induction xs arbitrary: s) (fastforce split: sum.splits)+

lemma frame_insert_windows:
  "insert_windows mk ws db = (ids, db') \<Longrightarrow> oq_frame db db'"
proof (induction mk ws db arbitrary: ids rule: insert_windows.induct)
  case (2 mk w rest db)
  let ?j = "mk (lg_job_seq db) w"
  let ?db1 = "db\<lparr>lg_jobs := lg_jobs db @ [?j], lg_job_seq := lg_job_seq db + 1\<rparr>"
  have "oq_frame db ?db1" by (auto simp: oq_frame_def intro!: exI [of _ id] exI [of _ "[?j]"])
  with 2 show ?case by (auto simp: Let_def split: if_splits prod.splits intro: oq_frame_trans)
qed simp

lemma frame_enqueue: "enqueue_outcome_jobs now inst repo pr sha m base ws head db = (ids, db') \<Longrightarrow> oq_frame db db'"
  by (auto simp: enqueue_outcome_jobs_def intro: frame_insert_windows split: if_splits)

lemma frame_claim_batch: "claim_repository locked now key db = Return (b, db') \<Longrightarrow> oq_frame db db'"
  by (auto simp: claim_repository_def Let_def split: if_splits prod.splits intro!: oq_frame_update)

lemma frame_reclaim_leases: "reclaim_stalled older now db = Return (n, db') \<Longrightarrow> oq_frame db db'"
  by (auto simp: reclaim_stalled_def lease_expired_def oj_step_def job_identity_def adj_row_def
      split: if_splits intro!: oq_frame_update)

lemma frame_each_fail: "each (\<lambda>job. fail_job job err now m) jobs db = Return db' \<Longrightarrow> oq_frame db db'"
  by (rule each_rel [where R = oq_frame]) (auto simp: fail_job_def intro: frame_fenced_write oq_frame_trans)

lemma frame_fail_batch: "fail_batch now b err m db = Return (n, db') \<Longrightarrow> oq_frame db db'"
  by (auto simp: fail_batch_def split: if_splits sum.splits intro: frame_each_fail)

lemma frame_insert_outcome: "insert_outcome mk db = Return db' \<Longrightarrow> oq_frame db db'"
  by (auto simp: insert_outcome_def Let_def split: if_splits intro: oq_frame_outcomes)

lemma frame_settle_one: "settle_one name t prereg now jobs e db = Return db' \<Longrightarrow> oq_frame db db'"
  by (auto simp: settle_one_def split: option.splits sum.splits
      dest!: frame_fenced_write frame_insert_outcome intro: oq_frame_trans)

lemma frame_refuse_one: "refuse_one why now jobs e db = Return db' \<Longrightarrow> oq_frame db db'"
  by (auto simp: refuse_one_def fail_job_def split: option.splits dest!: frame_fenced_write)

lemma frame_settle: "settle_batch why now b adj name t prereg db = Return (c, db') \<Longrightarrow> oq_frame db db'"
proof -
  assume "settle_batch why now b adj name t prereg db = Return (c, db')"
  then obtain db1 jobs xs ys where "each (settle_one name t prereg now jobs) xs db = Return db1"
      "each (refuse_one why now jobs) ys db1 = Return db'"
    by (auto simp: settle_batch_def Let_def split: if_splits sum.splits)
  moreover have "each (settle_one name t prereg now jobs) xs db = Return db1 \<Longrightarrow> oq_frame db db1"
    by (rule each_rel [where R = oq_frame]) (auto intro: frame_settle_one oq_frame_trans)
  moreover have "each (refuse_one why now jobs) ys db1 = Return db' \<Longrightarrow> oq_frame db1 db'"
    by (rule each_rel [where R = oq_frame]) (auto intro: frame_refuse_one oq_frame_trans)
  ultimately show ?thesis by (blast intro: oq_frame_trans)
qed

subsection \<open>Every step keeps the ledger invariant\<close>

lemma adj_row_identity: "adj_row j = adj_row k \<Longrightarrow> job_identity j = job_identity k"
  by (simp add: adj_row_def job_identity_def)

lemma jobs_wf_map:
  "jobs_wf db \<Longrightarrow> (\<And>j. oj_id (f j) = oj_id j \<and> job_identity (f j) = job_identity j) \<Longrightarrow>
   jobs_wf (db\<lparr>lg_jobs := map f (lg_jobs db)\<rparr>)"
  by (simp add: jobs_wf_def comp_def)

lemma paired_same_done:
  assumes "paired db"
    and "\<And>j. j \<in> set (lg_jobs db) \<Longrightarrow> job_identity (f j) = job_identity j \<and> (oj_status (f j) = Done) = (oj_status j = Done)"
  shows "paired (db\<lparr>lg_jobs := map f (lg_jobs db)\<rparr>)"
proof -
  have "{j \<in> f ` set (lg_jobs db). oj_status j = Done} = f ` {j \<in> set (lg_jobs db). oj_status j = Done}"
    using assms(2) by auto
  then have "job_identity ` {j \<in> f ` set (lg_jobs db). oj_status j = Done} =
      job_identity ` {j \<in> set (lg_jobs db). oj_status j = Done}"
    using assms(2) by (auto simp: image_image)
  with assms(1) show ?thesis by (simp add: paired_def)
qed

lemma update_ledger_wf:
  assumes "ledger_wf db"
    and "\<And>j. p j \<Longrightarrow> oj_step j (f j) \<and> oj_status j \<noteq> Done \<and> oj_status (f j) \<noteq> Done"
  shows "ledger_wf (db\<lparr>lg_jobs := update_where p f (lg_jobs db)\<rparr>)"
proof -
  let ?g = "\<lambda>j. if p j then f j else j"
  have g: "oj_id (?g j) = oj_id j" "job_identity (?g j) = job_identity j" "(oj_status (?g j) = Done) = (oj_status j = Done)" for j
    using assms(2) [of j] by (auto simp: oj_step_def)
  have "jobs_wf (db\<lparr>lg_jobs := map ?g (lg_jobs db)\<rparr>)" "paired (db\<lparr>lg_jobs := map ?g (lg_jobs db)\<rparr>)"
    using assms(1) g by (auto simp only: ledger_wf_def intro!: jobs_wf_map paired_same_done)
  with assms(1) show ?thesis by (simp add: ledger_wf_def update_where_def)
qed

lemma enqueue_wf:
  assumes "\<And>i w. oj_id (mk i w) = i \<and> oj_status (mk i w) = Pending"
  shows "insert_windows mk ws db = (ids, db') \<Longrightarrow> ledger_wf db \<Longrightarrow> ledger_wf db'"
  using assms
proof (induction mk ws db arbitrary: ids rule: insert_windows.induct)
  case (2 mk w rest db)
  let ?j = "mk (lg_job_seq db) w"
  let ?db1 = "db\<lparr>lg_jobs := lg_jobs db @ [?j], lg_job_seq := lg_job_seq db + 1\<rparr>"
  show ?case
  proof (cases "job_identity ?j \<in> job_identity ` set (lg_jobs db)")
    case True
    with 2 show ?thesis by (simp add: Let_def)
  next
    case False
    have fresh: "lg_job_seq db \<notin> oj_id ` set (lg_jobs db)" "list_all (\<lambda>i. i < lg_job_seq db + 1) (map oj_id (lg_jobs db))"
      using 2(4) by (auto simp: ledger_wf_def jobs_wf_def list_all_iff)
    have "{j. (j = ?j \<or> j \<in> set (lg_jobs db)) \<and> oj_status j = Done} = {j \<in> set (lg_jobs db). oj_status j = Done}"
      using 2(5) by auto
    then have "ledger_wf ?db1"
      using 2(4,5) False fresh by (simp add: ledger_wf_def jobs_wf_def paired_def)
    with 2 False show ?thesis by (auto simp: Let_def split: prod.splits)
  qed
qed simp

lemma enqueue_outcome_jobs_wf:
  "enqueue_outcome_jobs now inst repo pr sha m base ws head db = (ids, db') \<Longrightarrow> ledger_wf db \<Longrightarrow> ledger_wf db'"
proof -
  assume "enqueue_outcome_jobs now inst repo pr sha m base ws head db = (ids, db')" and wf: "ledger_wf db"
  then have "insert_windows (\<lambda>i. new_outcome_job now i inst repo pr sha m base head) ws db = (ids, db')"
    by (simp add: enqueue_outcome_jobs_def ledger_wf_def)
  then show ?thesis by (rule enqueue_wf [OF _ _ wf, rotated]) (simp add: new_outcome_job_def)
qed

lemma claim_form:
  assumes "claim_repository locked now key db = Return (b, db')"
  obtains "b = None" "db' = db"
  | "db' = db\<lparr>lg_jobs := update_where (\<lambda>j. oj_id j \<in> oj_id ` set (claim_query locked key now db) \<and> oj_status j = Pending)
                   (claim_row now) (lg_jobs db)\<rparr>"
    and "b = Some \<lparr>cb_key = key, cb_repo_full_name = fst (repository_identity key db'),
               cb_permanently_unreachable = fst (snd (repository_identity key db')),
               cb_jobs = sort_key due_order (filter (\<lambda>j. oj_id j \<in> oj_id ` set (claim_query locked key now db)) (lg_jobs db')),
               cb_evidence = snd (snd (repository_identity key db'))\<rparr>"
    and "claim_query locked key now db \<noteq> []"
  using assms that
  by (auto simp: claim_repository_def Let_def split: if_splits prod.splits)

lemma claim_ledger_wf:
  assumes "claim_repository locked now key db = Return (b, db')" and "ledger_wf db"
  shows "ledger_wf db'"
  using assms(1)
proof (cases rule: claim_form)
  case 1
  with assms(2) show ?thesis by simp
next
  case 2
  show ?thesis unfolding 2(1)
    by (rule update_ledger_wf [OF assms(2)]) (auto simp: oj_step_def claim_row_def job_identity_def adj_row_def)
qed

lemma reclaim_ledger_wf:
  "reclaim_stalled older now db = Return (n, db') \<Longrightarrow> ledger_wf db \<Longrightarrow> ledger_wf db'"
  by (auto simp: reclaim_stalled_def lease_expired_def oj_step_def job_identity_def adj_row_def
      split: if_splits intro!: update_ledger_wf)

lemma fail_row_not_done: "oj_status (fail_row err now m j) \<noteq> Done"
  by (simp add: fail_row_def Let_def)

lemma fail_job_wf: "fail_job job err now m db = Return db' \<Longrightarrow> ledger_wf db \<Longrightarrow> ledger_wf db'"
  by (auto simp: fail_job_def fenced_write_def held_by_def fail_row_not_done split: if_splits intro!: update_ledger_wf)

lemma fail_batch_wf: "fail_batch now b err m db = Return (n, db') \<Longrightarrow> ledger_wf db \<Longrightarrow> ledger_wf db'"
proof -
  assume "fail_batch now b err m db = Return (n, db')" "ledger_wf db"
  then have "each (\<lambda>job. fail_job job err now m) (cb_jobs b) db = Return db'"
    by (auto simp: fail_batch_def split: if_splits sum.splits)
  then have "ledger_wf db \<longrightarrow> ledger_wf db'"
    by (rule each_rel [where R = "\<lambda>s s'. ledger_wf s \<longrightarrow> ledger_wf s'", rotated 3])
       (auto intro: fail_job_wf)
  with \<open>ledger_wf db\<close> show ?thesis by blast
qed

subsection \<open>What the fenced writes do when the claims are held\<close>

definition held :: "ledger \<Rightarrow> outcome_job \<Rightarrow> bool" where
  "held db job \<longleftrightarrow> (\<exists>j \<in> set (lg_jobs db). held_by job j)"

text \<open>The batch's rows are copies of rows of the ledger, as they were claimed.\<close>

definition copies :: "ledger \<Rightarrow> outcome_job list \<Rightarrow> bool" where
  "copies db jobs \<longleftrightarrow> (\<forall>job \<in> set jobs. \<exists>j \<in> set (lg_jobs db). oj_id j = oj_id job \<and> adj_row j = adj_row job)"

lemma copies_Cons: "copies db (j # js) \<longleftrightarrow> copies db [j] \<and> copies db js"
  unfolding copies_def by (simp only: list.set ball_simps) blast

lemma job_id_unique: "jobs_wf db \<Longrightarrow> j \<in> set (lg_jobs db) \<Longrightarrow> k \<in> set (lg_jobs db) \<Longrightarrow> oj_id j = oj_id k \<Longrightarrow> j = k"
  by (auto simp: jobs_wf_def distinct_map dest: inj_onD)

lemma copies_frame: "copies db jobs \<Longrightarrow> oq_frame db db' \<Longrightarrow> copies db' jobs"
proof -
  assume c: "copies db jobs" and "oq_frame db db'"
  then obtain f new where f: "lg_jobs db' = map f (lg_jobs db) @ new" "\<And>j. oj_step j (f j)"
    by (auto simp: oq_frame_def)
  show ?thesis unfolding copies_def
  proof
    fix job assume "job \<in> set jobs"
    with c obtain j where "j \<in> set (lg_jobs db)" "oj_id j = oj_id job" "adj_row j = adj_row job"
      by (auto simp: copies_def)
    with f show "\<exists>j \<in> set (lg_jobs db'). oj_id j = oj_id job \<and> adj_row j = adj_row job"
      by (intro bexI [of _ "f j"]) (auto simp: oj_step_def)
  qed
qed

lemma fenced_write_held:
  assumes "jobs_wf db" and "held db job"
  shows "fenced_write f job db =
     Return (db\<lparr>lg_jobs := map (\<lambda>j. if oj_id j = oj_id job then f j else j) (lg_jobs db)\<rparr>)"
proof -
  obtain j where j: "j \<in> set (lg_jobs db)" "held_by job j" using assms(2) by (auto simp: held_def)
  have hit: "held_by job k \<longleftrightarrow> oj_id k = oj_id job" if "k \<in> set (lg_jobs db)" for k
    using job_id_unique [OF assms(1) that j(1)] j(2) by (auto simp: held_by_def)
  have "filter (held_by job) (lg_jobs db) = filter (\<lambda>k. oj_id k = oj_id job) (lg_jobs db)"
    using hit by (auto intro: filter_cong)
  moreover have "length (filter (\<lambda>k. oj_id k = oj_id job) (lg_jobs db)) = 1"
  proof -
    have "distinct (map oj_id (filter (\<lambda>k. oj_id k = oj_id job) (lg_jobs db)))"
      using assms(1) by (simp add: jobs_wf_def distinct_map_filter)
    moreover have "set (map oj_id (filter (\<lambda>k. oj_id k = oj_id job) (lg_jobs db))) = {oj_id job}"
      using j by (auto simp: held_by_def)
    ultimately have "length (map oj_id (filter (\<lambda>k. oj_id k = oj_id job) (lg_jobs db))) = card {oj_id job}"
      by (metis distinct_card)
    then show ?thesis by simp
  qed
  moreover have "update_where (held_by job) f (lg_jobs db) = map (\<lambda>j. if oj_id j = oj_id job then f j else j) (lg_jobs db)"
    using hit by (auto simp: update_where_def)
  ultimately show ?thesis by (simp add: fenced_write_def rowcount_def)
qed

lemma each_fenced:
  assumes "jobs_wf db" and "distinct (map oj_id js)" and "\<forall>j \<in> set js. held db j"
    and g: "\<And>j r. oj_id (g j r) = oj_id r \<and> job_identity (g j r) = job_identity r"
  shows "each (\<lambda>j. fenced_write (g j) j) js db =
     Return (db\<lparr>lg_jobs := map (\<lambda>r. case List.find (\<lambda>j. oj_id j = oj_id r) js of None \<Rightarrow> r | Some j \<Rightarrow> g j r) (lg_jobs db)\<rparr>)"
  using assms(1-3)
proof (induction js arbitrary: db)
  case (Cons j js)
  let ?db1 = "db\<lparr>lg_jobs := map (\<lambda>r. if oj_id r = oj_id j then g j r else r) (lg_jobs db)\<rparr>"
  have first: "fenced_write (g j) j db = Return ?db1"
    using Cons.prems by (intro fenced_write_held) auto
  have "held ?db1 k" if "k \<in> set js" for k
  proof -
    from that Cons.prems obtain r where "r \<in> set (lg_jobs db)" "held_by k r" by (auto simp: held_def)
    moreover from that Cons.prems(2) have "oj_id k \<noteq> oj_id j" by (auto simp: image_iff)
    ultimately show ?thesis by (auto simp: held_def held_by_def intro!: bexI [of _ r])
  qed
  moreover have "jobs_wf ?db1" using Cons.prems(1) g by (intro jobs_wf_map) auto
  ultimately have IH: "each (\<lambda>j. fenced_write (g j) j) js ?db1 =
     Return (?db1\<lparr>lg_jobs := map (\<lambda>r. case List.find (\<lambda>j. oj_id j = oj_id r) js of None \<Rightarrow> r | Some j \<Rightarrow> g j r) (lg_jobs ?db1)\<rparr>)"
    using Cons.prems(2) by (intro Cons.IH) auto
  have "List.find (\<lambda>k. oj_id k = oj_id j) js = None"
    using Cons.prems(2) by (auto simp: find_None_iff image_iff)
  then have "map (\<lambda>r. case List.find (\<lambda>j. oj_id j = oj_id r) js of None \<Rightarrow> r | Some j \<Rightarrow> g j r) (lg_jobs ?db1) =
     map (\<lambda>r. case List.find (\<lambda>j. oj_id j = oj_id r) (j # js) of None \<Rightarrow> r | Some j \<Rightarrow> g j r) (lg_jobs db)"
    using g by auto
  with first IH show ?case by simp
qed simp

lemma dict_of_distinct: "distinct (map key xs) \<Longrightarrow> dict_of key xs = map (\<lambda>x. (key x, x)) xs"
  by (simp add: dict_of_def fold_dict_set)

lemma dict_of_map:
  assumes "distinct (map ident js)" and "\<And>j. j \<in> set js \<Longrightarrow> key (g j) = ident j"
  shows "dict_of key (map g js) = map (\<lambda>j. (ident j, g j)) js"
proof -
  have "map key (map g js) = map ident js" using assms(2) by simp
  then have "distinct (map key (map g js))" using assms(1) by (simp only:)
  then have "dict_of key (map g js) = map (\<lambda>x. (key x, x)) (map g js)" by (rule dict_of_distinct)
  with assms(2) show ?thesis by simp
qed

lemma map_of_keyed: "distinct (map key xs) \<Longrightarrow> x \<in> set xs \<Longrightarrow> map_of (map (\<lambda>x. (key x, x)) xs) (key x) = Some x"
  by (induction xs) (auto simp: image_iff)

lemma same_set_length:
  "distinct xs \<Longrightarrow> distinct ys \<Longrightarrow> set xs \<subseteq> set ys \<Longrightarrow> length xs = length ys \<Longrightarrow> set xs = set ys"
  by (metis List.finite_set card_subset_eq distinct_card)

lemma current_held:
  assumes wf: "jobs_wf db" and dist: "distinct (map oj_id (cb_jobs b))"
  shows "claims_are_current b db \<longleftrightarrow> (\<forall>job \<in> set (cb_jobs b). held db job)"
proof -
  let ?exp = "map (\<lambda>j. (oj_id j, oj_generation j)) (cb_jobs b)"
  let ?ids = "map oj_id (cb_jobs b)"
  let ?rows = "filter (\<lambda>j. oj_id j \<in> set ?ids) (lg_jobs db)"
  have exp: "fold (\<lambda>j. dict_set (oj_id j) (oj_generation j)) (cb_jobs b) [] = ?exp"
    using dist by (simp add: fold_dict_set)
  have look: "dict_get ?exp (oj_id job) = Some (oj_generation job)" if "job \<in> set (cb_jobs b)" for job
    using that dist by (induction "cb_jobs b") (auto simp: map_of_eq_Some_iff comp_def)
  have current: "claims_are_current b db \<longleftrightarrow> length ?rows = length ?ids \<and>
      (\<forall>j \<in> set ?rows. oj_status j = Running \<and> dict_get ?exp (oj_id j) = Some (oj_generation j))"
    unfolding claims_are_current_def exp by (simp add: Let_def list_all_iff image_image)
  have rows: "distinct (map oj_id ?rows)" using wf by (simp add: jobs_wf_def distinct_map_filter)
  show ?thesis
  proof
    assume c: "claims_are_current b db"
    then have "set (map oj_id ?rows) = set ?ids"
      using current rows dist by (intro same_set_length) auto
    show "\<forall>job \<in> set (cb_jobs b). held db job"
    proof
      fix job assume job: "job \<in> set (cb_jobs b)"
      with \<open>set (map oj_id ?rows) = set ?ids\<close> obtain j where j: "j \<in> set ?rows" "oj_id j = oj_id job"
        by (metis (no_types, lifting) imageE image_eqI list.set_map)
      with c current look [OF job] show "held db job"
        by (auto simp: held_def held_by_def intro!: bexI [of _ j])
    qed
  next
    assume h: "\<forall>job \<in> set (cb_jobs b). held db job"
    have "set ?ids \<subseteq> set (map oj_id ?rows)"
    proof
      fix i assume i: "i \<in> set ?ids"
      then obtain job where "job \<in> set (cb_jobs b)" "oj_id job = i" by auto
      with h obtain k where "k \<in> set (lg_jobs db)" "oj_id k = i" by (auto simp: held_def held_by_def)
      with i show "i \<in> set (map oj_id ?rows)" by auto
    qed
    then have "set (map oj_id ?rows) = set ?ids" by auto
    then have "length ?rows = length ?ids"
      using rows dist by (metis distinct_card length_map)
    moreover have "oj_status j = Running \<and> dict_get ?exp (oj_id j) = Some (oj_generation j)" if j: "j \<in> set ?rows" for j
    proof -
      from j obtain job where job: "job \<in> set (cb_jobs b)" "oj_id job = oj_id j" by auto
      with h obtain k where k: "k \<in> set (lg_jobs db)" "held_by job k" by (auto simp: held_def)
      moreover have "j \<in> set (lg_jobs db)" using j by simp
      ultimately have "k = j" using job_id_unique [OF wf k(1)] job(2) by (metis held_by_def)
      with k(2) look [OF job(1)] show ?thesis by (simp add: held_by_def)
    qed
    ultimately show "claims_are_current b db" by (simp add: current)
  qed
qed

text \<open>The rows a settlement appends.\<close>

fun settled_rows :: "string \<Rightarrow> instant \<Rightarrow> string \<Rightarrow> outcome list \<Rightarrow> int \<Rightarrow> outcome_row list" where
  "settled_rows name t prereg [] i = []"
| "settled_rows name t prereg (oc # ocs) i = settled_row name t prereg oc i # settled_rows name t prereg ocs (i + 1)"

definition names_job :: "outcome \<Rightarrow> outcome_job \<Rightarrow> bool" where
  "names_job oc j \<longleftrightarrow>
     (oc_installation oc, oc_repo oc, oc_pr oc, oc_merge_sha oc, oc_window_days oc) = job_identity j"

lemma settle_one_held:
  fixes name prereg :: string and t now :: instant
  assumes wf: "ledger_wf db" and held: "held db job" and copy: "copies db [job]"
    and "dict_get jobs (fst e) = Some job" and nm: "names_job (snd e) job"
  defines "db' \<equiv> db\<lparr>lg_outcomes := lg_outcomes db @ [settled_row name t prereg (snd e) (lg_outcome_seq db)],
      lg_outcome_seq := lg_outcome_seq db + 1,
      lg_jobs := map (\<lambda>j. if oj_id j = oj_id job then done_row now j else j) (lg_jobs db)\<rparr>"
  shows "settle_one name t prereg now jobs e db = Return db' \<and> ledger_wf db'"
proof -
  let ?row = "settled_row name t prereg (snd e) (lg_outcome_seq db)"
  obtain j where j: "j \<in> set (lg_jobs db)" "held_by job j" using held by (auto simp: held_def)
  then have id: "oj_id j = oj_id job" "oj_status j = Running" by (simp_all add: held_by_def)
  obtain k where k: "k \<in> set (lg_jobs db)" "oj_id k = oj_id job" "adj_row k = adj_row job"
    using copy by (auto simp: copies_def)
  have jobs_wf: "jobs_wf db" using wf by (simp add: ledger_wf_def)
  then have "k = j" using job_id_unique k(1,2) j(1) id(1) by metis
  then have ident: "job_identity j = job_identity job" using k(3) adj_row_identity by metis
  have new: "settled_identity ?row = Some (job_identity job)" using nm by (simp add: names_job_def)
  have fresh: "job_identity job \<notin> set (identities (lg_outcomes db))"
  proof
    assume "job_identity job \<in> set (identities (lg_outcomes db))"
    with wf obtain l where "l \<in> set (lg_jobs db)" "oj_status l = Done" "job_identity l = job_identity j"
      by (auto simp: ledger_wf_def paired_def ident)
    moreover from this j jobs_wf have "l = j" by (auto simp: jobs_wf_def distinct_map dest: inj_onD)
    ultimately show False using id by simp
  qed
  have "\<not> same_index ?row q" if q: "q \<in> set (lg_outcomes db)" for q
  proof
    assume "same_index ?row q"
    then have "settled_identity q = Some (job_identity job)"
      using nm
      by (cases "os_merge_sha q"; cases "os_installation q"; cases "os_github_repo q"; cases "os_window q")
         (auto simp add: same_index_def outcome_key_def settled_row_def settled_identity_def names_job_def)
    with q fresh show False by (blast dest: in_identities)
  qed
  then have ins: "insert_outcome (settled_row name t prereg (snd e)) db =
      Return (db\<lparr>lg_outcomes := lg_outcomes db @ [?row], lg_outcome_seq := lg_outcome_seq db + 1\<rparr>)"
    by (simp add: insert_outcome_def Let_def)
  have "settle_one name t prereg now jobs e db = Return db'"
    using assms(4) held jobs_wf
    by (simp add: settle_one_def ins fenced_write_held jobs_wf_def held_def db'_def)
  moreover have "jobs_wf db'"
  proof -
    have "jobs_wf (db\<lparr>lg_jobs := map (\<lambda>j. if oj_id j = oj_id job then done_row now j else j) (lg_jobs db)\<rparr>)"
      by (rule jobs_wf_map [OF jobs_wf]) (simp add: done_row_def job_identity_def)
    then show ?thesis by (simp add: jobs_wf_def db'_def)
  qed
  moreover have "paired db'"
  proof -
    have others: "oj_id l = oj_id job \<longleftrightarrow> l = j" if "l \<in> set (lg_jobs db)" for l
      using job_id_unique [OF jobs_wf that j(1)] id(1) by auto
    have "job_identity ` {l \<in> set (lg_jobs db'). oj_status l = Done} =
        insert (job_identity job) (job_identity ` {l \<in> set (lg_jobs db). oj_status l = Done})" (is "?L = insert ?i ?R")
    proof
      show "?L \<subseteq> insert ?i ?R"
        using others ident by (auto simp: db'_def done_row_def job_identity_def split: if_splits)
      have "done_row now j \<in> set (lg_jobs db')"
        using j(1) id(1) by (auto simp: db'_def intro!: image_eqI [of _ _ j])
      moreover have "oj_status (done_row now j) = Done" "job_identity (done_row now j) = ?i"
        using ident by (simp_all add: done_row_def job_identity_def)
      ultimately have "?i \<in> ?L" by (metis (mono_tags, lifting) image_eqI mem_Collect_eq)
      moreover have "?R \<subseteq> ?L"
        using others id(2) by (fastforce simp: db'_def)
      ultimately show "insert ?i ?R \<subseteq> ?L" by blast
    qed
    moreover have "lg_outcome_seq db \<notin> os_id ` set (lg_outcomes db)" and
        "list_all (\<lambda>i. i < lg_outcome_seq db + 1) (map os_id (lg_outcomes db))"
      using wf by (auto simp: ledger_wf_def paired_def list_all_iff)
    moreover have "os_id ?row = lg_outcome_seq db" by (simp add: settled_row_def)
    ultimately show ?thesis
      using wf new fresh by (simp add: ledger_wf_def paired_def db'_def job_identity_def)
  qed
  moreover have "rg_configured db'" using wf by (simp add: ledger_wf_def db'_def)
  ultimately show ?thesis by (simp add: ledger_wf_def)
qed

lemma each_settle:
  assumes "ledger_wf db" and "distinct (map oj_id js)" and "copies db js"
    and "\<forall>j \<in> set js. held db j \<and> dict_get jobs (identity j) = Some j \<and> names_job (oc j) j"
  shows "\<exists>db'. each (settle_one name t prereg now jobs) (map (\<lambda>j. (identity j, oc j)) js) db = Return db' \<and>
     ledger_wf db' \<and> lg_outcomes db' = lg_outcomes db @ settled_rows name t prereg (map oc js) (lg_outcome_seq db) \<and>
     lg_jobs db' = map (\<lambda>r. if oj_id r \<in> oj_id ` set js then done_row now r else r) (lg_jobs db)"
  using assms
proof (induction js arbitrary: db)
  case Nil
  then show ?case by simp
next
  case (Cons j js)
  let ?db1 = "db\<lparr>lg_outcomes := lg_outcomes db @ [settled_row name t prereg (oc j) (lg_outcome_seq db)],
      lg_outcome_seq := lg_outcome_seq db + 1,
      lg_jobs := map (\<lambda>r. if oj_id r = oj_id j then done_row now r else r) (lg_jobs db)\<rparr>"
  have one: "settle_one name t prereg now jobs (identity j, oc j) db = Return ?db1 \<and> ledger_wf ?db1"
    using settle_one_held [of db j jobs "(identity j, oc j)" name t prereg now] Cons.prems(1,4)
      copies_Cons [THEN iffD1, OF Cons.prems(3)] by simp
  then have "oq_frame db ?db1" using frame_settle_one by blast
  then have copies: "copies ?db1 js"
    using copies_Cons [THEN iffD1, OF Cons.prems(3)] copies_frame by blast
  have held: "held ?db1 k" if "k \<in> set js" for k
  proof -
    from that Cons.prems(4) obtain r where r: "r \<in> set (lg_jobs db)" "held_by k r" by (auto simp: held_def)
    have "oj_id k \<noteq> oj_id j" using that Cons.prems(2) by (auto simp: image_iff)
    with r show ?thesis by (auto simp: held_def held_by_def intro!: bexI [of _ r])
  qed
  obtain db' where IH: "each (settle_one name t prereg now jobs) (map (\<lambda>j. (identity j, oc j)) js) ?db1 = Return db'"
      "ledger_wf db'" "lg_outcomes db' = lg_outcomes ?db1 @ settled_rows name t prereg (map oc js) (lg_outcome_seq ?db1)"
      "lg_jobs db' = map (\<lambda>r. if oj_id r \<in> oj_id ` set js then done_row now r else r) (lg_jobs ?db1)"
    using Cons.IH [of ?db1] one copies held Cons.prems(2,4) by auto
  have "lg_jobs db' = map (\<lambda>r. if oj_id r \<in> oj_id ` set (j # js) then done_row now r else r) (lg_jobs db)"
    unfolding IH(4) by (simp add: done_row_def comp_def)
  moreover have "each (settle_one name t prereg now jobs) (map (\<lambda>j. (identity j, oc j)) (j # js)) db = Return db'"
    using one IH(1) by (simp only: list.map each.simps sum.case)
  moreover have "lg_outcomes db' = lg_outcomes db @ settled_rows name t prereg (map oc (j # js)) (lg_outcome_seq db)"
    unfolding IH(3) by simp
  ultimately show ?case using IH(2) by blast
qed

text \<open>A batch as \<open>claim_repository\<close> hands it out: copies of distinct rows of one repository.\<close>

definition batch_of :: "ledger \<Rightarrow> claimed_batch \<Rightarrow> bool" where
  "batch_of db b \<longleftrightarrow> copies db (cb_jobs b) \<and> distinct (map oj_id (cb_jobs b)) \<and>
     (\<forall>j \<in> set (cb_jobs b). job_key j = cb_key b)"

lemma batch_of_frame: "batch_of db b \<Longrightarrow> oq_frame db db' \<Longrightarrow> batch_of db' b"
  by (auto simp: batch_of_def intro: copies_frame)

lemma batch_identities:
  assumes wf: "jobs_wf db" and b: "batch_of db b"
  shows "distinct (map identity (cb_jobs b))"
proof -
  have "j = k" if jk: "j \<in> set (cb_jobs b)" "k \<in> set (cb_jobs b)" "identity j = identity k" for j k
  proof -
    have "job_key j = job_key k" using b jk by (simp add: batch_of_def)
    with jk(3) have same: "job_identity j = job_identity k"
      by (simp add: job_key_def identity_def job_identity_def)
    obtain r where r: "r \<in> set (lg_jobs db)" "oj_id r = oj_id j" "adj_row r = adj_row j"
      using b jk(1) by (auto simp: batch_of_def copies_def)
    obtain q where q: "q \<in> set (lg_jobs db)" "oj_id q = oj_id k" "adj_row q = adj_row k"
      using b jk(2) by (auto simp: batch_of_def copies_def)
    have "job_identity r = job_identity q" using same r(3) q(3) adj_row_identity by metis
    with wf r(1) q(1) have "r = q" by (auto simp: jobs_wf_def distinct_map dest: inj_onD)
    with r(2) q(2) have "oj_id j = oj_id k" by simp
    with b jk(1,2) show "j = k" by (auto simp: batch_of_def distinct_map dest: inj_onD)
  qed
  with b show ?thesis by (auto simp: batch_of_def distinct_map inj_on_def)
qed

lemma claim_batch:
  assumes "ledger_wf db" and claim: "claim_repository locked now key db = Return (Some b, db')"
  shows "batch_of db' b \<and> (\<forall>j \<in> set (cb_jobs b). held db' j \<and> j \<in> set (lg_jobs db'))"
  using claim
proof (cases rule: claim_form)
  case 2
  let ?ids = "oj_id ` set (claim_query locked key now db)"
  let ?hit = "\<lambda>j. oj_id j \<in> ?ids \<and> oj_status j = Pending"
  have wf: "jobs_wf db" "jobs_wf db'"
    using assms(1) claim_ledger_wf [OF claim assms(1)] by (auto simp: ledger_wf_def)
  have jobs: "cb_key b = key" "set (cb_jobs b) = {j \<in> set (lg_jobs db'). oj_id j \<in> ?ids}"
    using 2(2) by auto
  have row: "oj_status j = Running \<and> job_key j = key" if j: "j \<in> set (cb_jobs b)" for j
  proof -
    have up: "lg_jobs db' = update_where ?hit (claim_row now) (lg_jobs db)" by (simp add: 2(1))
    have "j \<in> set (update_where ?hit (claim_row now) (lg_jobs db))" "oj_id j \<in> ?ids"
      using j jobs(2) unfolding up by blast+
    then obtain r where r: "r \<in> set (lg_jobs db)" "j = (if ?hit r then claim_row now r else r)" "oj_id j \<in> ?ids"
      by (auto simp only: in_update_where)
    then have "oj_id r = oj_id j" by (simp add: claim_row_def)
    with r(3) obtain q where q: "q \<in> set (lg_jobs db)" "oj_id q = oj_id r" "oj_status q = Pending" "job_key q = key"
      by (auto simp: claim_query_def is_due_def)
    then have "q = r" using job_id_unique [OF wf(1)] r(1) by blast
    have "?hit r"
    proof -
      have "oj_id r \<in> ?ids" using r(3) unfolding \<open>oj_id r = oj_id j\<close> .
      with q(3) show ?thesis unfolding \<open>q = r\<close> by simp
    qed
    then have "j = claim_row now r" using r(2) by simp
    with q(4) \<open>q = r\<close> show ?thesis by (simp add: claim_row_def job_key_def)
  qed
  have "distinct (map oj_id (cb_jobs b))"
  proof -
    have "distinct (lg_jobs db')" using wf(2) by (auto simp: jobs_wf_def distinct_map)
    then have "distinct (cb_jobs b)" using 2(2) by simp
    moreover have "inj_on oj_id (set (cb_jobs b))"
      using wf(2) jobs by (auto simp: jobs_wf_def distinct_map intro: inj_on_subset)
    ultimately show ?thesis by (simp add: distinct_map)
  qed
  then show ?thesis
    using row jobs by (auto simp: batch_of_def copies_def held_def held_by_def)
qed auto

lemma lefts_map: "lefts (map f js) = map (\<lambda>j. projl (f j)) (filter (\<lambda>j. isl (f j)) js)"
  and rights_map: "rights (map f js) = map (\<lambda>j. projr (f j)) (filter (\<lambda>j. \<not> isl (f j)) js)"
  by (induction js; simp split: sum.splits add: lefts_def rights_def)+

lemma result_of_projl: "isl (result_of row rm br j) \<Longrightarrow> fst (projl (result_of row rm br j)) = j"
  by (auto simp: result_of_def Let_def split: sum.splits)

lemma result_of_projr:
  "\<not> isl (result_of adj_row rm br j) \<Longrightarrow> names_job (projr (result_of adj_row rm br j)) j \<and>
     outcome_identity (projr (result_of adj_row rm br j)) = identity j"
  by (auto simp: result_of_def Let_def names_job_def job_identity_def outcome_identity_def identity_def adj_row_def
      split: sum.splits)

text \<open>What one settled batch makes of a row.\<close>

definition settled_job ::
    "(label_error \<Rightarrow> string) \<Rightarrow> instant \<Rightarrow> (int \<times> commit) list \<Rightarrow> string option \<Rightarrow> claimed_batch \<Rightarrow> outcome_job \<Rightarrow> outcome_job" where
  "settled_job why now rm br b r =
     (case List.find (\<lambda>j. oj_id j = oj_id r) (cb_jobs b) of
        None \<Rightarrow> r
      | Some j \<Rightarrow> (case result_of adj_row rm br j of
                    Inr oc \<Rightarrow> done_row now r
                  | Inl (j', e) \<Rightarrow> fail_row (why e) now MAX_ATTEMPTS r))"

text \<open>The three dictionaries of a settlement, for the adjudication of the batch's own rows.\<close>

lemma adjudication_dicts:
  fixes rm :: "(int \<times> commit) list" and br :: "string option"
  assumes dist: "distinct (map identity js)"
  defines "R \<equiv> result_of adj_row rm br" and "adj \<equiv> adjudicate adj_row js rm br"
  defines "ok \<equiv> filter (\<lambda>j. \<not> isl (R j)) js" and "bad \<equiv> filter (\<lambda>j. isl (R j)) js"
  shows "ad_outcomes adj = map (\<lambda>j. projr (R j)) ok" and "ad_unadjudicable adj = map (\<lambda>j. projl (R j)) bad"
    and "dict_of outcome_identity (ad_outcomes adj) = map (\<lambda>j. (identity j, projr (R j))) ok"
    and "dict_of (\<lambda>item. identity (fst item)) (ad_unadjudicable adj) = map (\<lambda>j. (identity j, projl (R j))) bad"
    and "identity ` set js = identity ` set ok \<union> identity ` set bad"
    and "identity ` set ok \<inter> identity ` set bad = {}"
proof -
  show outs: "ad_outcomes adj = map (\<lambda>j. projr (R j)) ok" and refs: "ad_unadjudicable adj = map (\<lambda>j. projl (R j)) bad"
    by (simp_all add: adj_def adjudicate_results lefts_map rights_map ok_def bad_def R_def)
  have sub: "distinct (map identity ok)" "distinct (map identity bad)"
    using dist by (simp_all add: ok_def bad_def distinct_map_filter)
  show "dict_of outcome_identity (ad_outcomes adj) = map (\<lambda>j. (identity j, projr (R j))) ok"
    unfolding outs by (rule dict_of_map [OF sub(1)]) (auto simp: ok_def R_def dest: result_of_projr)
  show "dict_of (\<lambda>item. identity (fst item)) (ad_unadjudicable adj) = map (\<lambda>j. (identity j, projl (R j))) bad"
    unfolding refs by (rule dict_of_map [OF sub(2)]) (simp add: bad_def R_def result_of_projl)
  show "identity ` set js = identity ` set ok \<union> identity ` set bad"
    by (auto simp: ok_def bad_def)
  show "identity ` set ok \<inter> identity ` set bad = {}"
    using dist by (auto simp: ok_def bad_def distinct_map dest: inj_onD)
qed

lemma settle_lost:
  assumes "rg_configured db" and "jobs_wf db" and "batch_of db b" and "\<not> claims_are_current b db"
  shows "settle_batch why now b (adjudicate adj_row (cb_jobs b) rm br) name t prereg db =
     Raise (LostClaim ''one or more outcome claims were reclaimed'')"
  using assms adjudication_dicts [OF batch_identities [OF assms(2,3)], of rm br]
    dict_of_distinct [OF batch_identities [OF assms(2,3)]]
  by (simp add: settle_batch_def Let_def image_image)

lemma settle_adjudicated:
  fixes why :: "label_error \<Rightarrow> string" and rm :: "(int \<times> commit) list" and br :: "string option"
    and name prereg :: string and t now :: instant
  assumes wf: "ledger_wf db" and b: "batch_of db b" and cur: "claims_are_current b db"
  defines "adj \<equiv> adjudicate adj_row (cb_jobs b) rm br"
  shows "\<exists>db'. settle_batch why now b adj name t prereg db =
       Return ((length (ad_outcomes adj), length (ad_unadjudicable adj)), db') \<and> ledger_wf db' \<and>
     lg_outcomes db' = lg_outcomes db @ settled_rows name t prereg (ad_outcomes adj) (lg_outcome_seq db) \<and>
     lg_jobs db' = map (settled_job why now rm br b) (lg_jobs db)"
proof -
  let ?R = "result_of adj_row rm br"
  let ?js = "cb_jobs b"
  define ok where "ok = filter (\<lambda>j. \<not> isl (?R j)) ?js"
  define bad where "bad = filter (\<lambda>j. isl (?R j)) ?js"
  have jwf: "jobs_wf db" using wf by (simp add: ledger_wf_def)
  have dist: "distinct (map oj_id ?js)" "distinct (map identity ?js)"
    using b batch_identities [OF jwf b] by (simp_all add: batch_of_def)
  have sub: "distinct (map oj_id ok)" "distinct (map oj_id bad)" "distinct (map identity ok)" "distinct (map identity bad)"
    using dist by (simp_all add: ok_def bad_def distinct_map_filter)
  have held: "\<forall>j \<in> set ?js. held db j"
    using cur current_held [OF jwf dist(1)] by simp
  note dicts = adjudication_dicts [OF dist(2), of rm br, folded adj_def ok_def bad_def]
  note outs = dicts(1) and refs = dicts(2) and jobs = dict_of_distinct [OF dist(2)] and cls = dicts(3) and ref = dicts(4)
  let ?jobs = "map (\<lambda>j. (identity j, j)) ?js"
  have ok_id: "outcome_identity (projr (?R j)) = identity j \<and> names_job (projr (?R j)) j" if "j \<in> set ok" for j
    using that result_of_projr by (auto simp: ok_def)
  have look: "dict_get ?jobs (identity j) = Some j" if "j \<in> set ?js" for j
    using map_of_keyed [OF dist(2) that] .
  have copies: "copies db ok" using b by (auto simp: batch_of_def copies_def ok_def)
  obtain db1 where one: "each (settle_one name t prereg now ?jobs) (map (\<lambda>j. (identity j, projr (?R j))) ok) db = Return db1"
      "ledger_wf db1" "lg_outcomes db1 = lg_outcomes db @ settled_rows name t prereg (map (\<lambda>j. projr (?R j)) ok) (lg_outcome_seq db)"
      "lg_jobs db1 = map (\<lambda>r. if oj_id r \<in> oj_id ` set ok then done_row now r else r) (lg_jobs db)"
    using each_settle [OF wf sub(1) copies, of ?jobs "\<lambda>j. projr (?R j)" name t prereg now] held look ok_id
    by (auto simp: ok_def)
  define g where "g j = fail_row (why (snd (projl (?R j)))) now MAX_ATTEMPTS" for j
  have apart: "oj_id k \<notin> oj_id ` set ok" if "k \<in> set bad" for k
    using that dist(1) by (auto simp: ok_def bad_def distinct_map dest: inj_onD)
  have "held db1 k" if k: "k \<in> set bad" for k
  proof -
    obtain r where r: "r \<in> set (lg_jobs db)" "held_by k r" using held k by (auto simp: held_def bad_def)
    with apart [OF k] have "r \<in> set (lg_jobs db1)"
      by (auto simp: one(4) held_by_def intro!: image_eqI [of _ _ r])
    with r(2) show ?thesis by (auto simp: held_def)
  qed
  then have two: "each (\<lambda>j. fenced_write (g j) j) bad db1 = Return (db1\<lparr>lg_jobs :=
      map (\<lambda>r. case List.find (\<lambda>j. oj_id j = oj_id r) bad of None \<Rightarrow> r | Some j \<Rightarrow> g j r) (lg_jobs db1)\<rparr>)"
      (is "_ = Return ?db2")
    using one(2) sub(2)
    by (intro each_fenced) (auto simp: g_def fail_row_def Let_def ledger_wf_def job_identity_def)
  have each_bad: "each (refuse_one why now ?jobs) (map (\<lambda>j. (identity j, projl (?R j))) xs) d = each (\<lambda>j. fenced_write (g j) j) xs d"
    if "set xs \<subseteq> set bad" for xs d
    using that
  proof (induction xs arbitrary: d)
    case (Cons x xs)
    then have "x \<in> set ?js" by (auto simp: bad_def)
    with Cons show ?case by (simp add: refuse_one_def look fail_job_def g_def split: sum.splits)
  qed simp
  have "fst ` set ?jobs = fst ` set (map (\<lambda>j. (identity j, projr (?R j))) ok) \<union> fst ` set (map (\<lambda>j. (identity j, projl (?R j))) bad)"
    and "fst ` set (map (\<lambda>j. (identity j, projr (?R j))) ok) \<inter> fst ` set (map (\<lambda>j. (identity j, projl (?R j))) bad) = {}"
    using dicts(5,6) by (simp_all add: image_image)
  then have run: "settle_batch why now b adj name t prereg db = Return ((length ok, length bad), ?db2)"
    using wf cur one(1) two each_bad [of bad db1]
    unfolding settle_batch_def jobs cls ref Let_def
    by (simp only: ledger_wf_def if_True if_False simp_thms sum.case order_refl length_map)
  moreover have "ledger_wf ?db2"
  proof -
    have "ledger_wf db1 \<longrightarrow> ledger_wf ?db2"
      by (rule each_rel [where R = "\<lambda>s s'. ledger_wf s \<longrightarrow> ledger_wf s'", OF _ _ _ two])
         (auto simp: g_def intro: fail_job_wf [unfolded fail_job_def])
    with one(2) show ?thesis by blast
  qed
  moreover have "lg_jobs ?db2 = map (settled_job why now rm br b) (lg_jobs db)"
  proof -
    have final: "(case List.find (\<lambda>j. oj_id j = oj_id r) bad of None \<Rightarrow> if oj_id r \<in> oj_id ` set ok then done_row now r else r
           | Some j \<Rightarrow> g j (if oj_id r \<in> oj_id ` set ok then done_row now r else r)) = settled_job why now rm br b r" for r
    proof (cases "List.find (\<lambda>j. oj_id j = oj_id r) ?js")
      case None
      then have "oj_id r \<notin> oj_id ` set ?js" by (auto simp: find_None_iff)
      then have "List.find (\<lambda>j. oj_id j = oj_id r) bad = None" "oj_id r \<notin> oj_id ` set ok"
        by (auto simp: find_None_iff ok_def bad_def image_iff)
      with None show ?thesis by (simp add: settled_job_def)
    next
      case (Some j)
      then have j: "j \<in> set ?js" "oj_id j = oj_id r" by (auto dest: find_some_iff_filter)
      have uniq: "k = j" if "k \<in> set ?js" "oj_id k = oj_id r" for k
        using that j dist(1) unfolding distinct_map by (metis inj_onD)
      show ?thesis
      proof (cases "isl (?R j)")
        case True
        then have bad: "j \<in> set bad" using j(1) by (simp add: bad_def)
        have "List.find (\<lambda>j. oj_id j = oj_id r) bad = Some j"
          by (rule find_unique [where x = j]) (use bad j(2) uniq in \<open>auto simp: bad_def\<close>)
        moreover have "oj_id r \<notin> oj_id ` set ok" using apart [OF bad] unfolding j(2) .
        ultimately show ?thesis
          using Some True by (auto simp: settled_job_def g_def split: sum.splits)
      next
        case False
        then have "List.find (\<lambda>j. oj_id j = oj_id r) bad = None"
          using uniq by (auto simp: find_None_iff bad_def)
        moreover have "j \<in> set ok" using False j(1) by (simp add: ok_def)
        then have "oj_id r \<in> oj_id ` set ok" by (intro image_eqI [where x = j]) (simp_all add: j(2))
        ultimately show ?thesis
          using Some False by (auto simp: settled_job_def split: sum.splits)
      qed
    qed
    have "oj_id (if oj_id r \<in> oj_id ` set ok then done_row now r else r) = oj_id r" for r
      by (simp add: done_row_def)
    then have "lg_jobs ?db2 = lg_jobs (db1\<lparr>lg_jobs := map (settled_job why now rm br b) (lg_jobs db)\<rparr>)"
      by (simp only: one(4) list.map_comp comp_def final)
    then show ?thesis by simp
  qed
  ultimately show ?thesis
    by (intro exI [of _ ?db2]) (simp add: outs refs one(3))
qed

subsection \<open>The steps of the ledger, and the lease contract\<close>

text \<open>
  Every caller of \<open>fail_batch\<close> leaves the cap at its default; the drain settles a claimed batch with
  the adjudication of its own rows. The last rule is every writer of the other tables: the registry
  webhooks, the reviews.
\<close>

inductive oq_step :: "ledger \<Rightarrow> ledger \<Rightarrow> bool" where
  enqueue: "enqueue_outcome_jobs now inst repo pr sha m base windows head db = (ids, db') \<Longrightarrow> oq_step db db'"
| claim: "claim_repository locked now key db = Return (b, db') \<Longrightarrow> oq_step db db'"
| reclaim: "reclaim_stalled older now db = Return (n, db') \<Longrightarrow> oq_step db db'"
| fail: "fail_batch now b err MAX_ATTEMPTS db = Return (n, db') \<Longrightarrow> oq_step db db'"
| settle: "batch_of db b \<Longrightarrow>
    settle_batch why now b (adjudicate adj_row (cb_jobs b) rm br) name t prereg db = Return (c, db') \<Longrightarrow> oq_step db db'"
| other: "lg_jobs db' = lg_jobs db \<Longrightarrow> lg_job_seq db' = lg_job_seq db \<Longrightarrow> lg_outcomes db' = lg_outcomes db \<Longrightarrow>
    lg_outcome_seq db' = lg_outcome_seq db \<Longrightarrow> rg_configured db' = rg_configured db \<Longrightarrow> oq_step db db'"

inductive_cases oq_stepE: "oq_step db db'"

text \<open>A ledger before its first merge: only outcomes from before the rows carried ids.\<close>

definition oq_start :: "ledger \<Rightarrow> bool" where
  "oq_start db \<longleftrightarrow> rg_configured db \<and> lg_jobs db = [] \<and> distinct (map os_id (lg_outcomes db)) \<and>
     list_all (\<lambda>i. i < lg_outcome_seq db) (map os_id (lg_outcomes db)) \<and>
     list_all (\<lambda>r. os_github_repo r = None) (lg_outcomes db)"

lemma oq_step_frame: "oq_step db db' \<Longrightarrow> oq_frame db db'"
  by (erule oq_stepE)
     (blast intro: frame_enqueue frame_claim_batch frame_reclaim_leases frame_fail_batch frame_settle oq_frame_outcomes)+

lemma settle_current: "settle_batch why now b adj name t prereg db = Return x \<Longrightarrow> claims_are_current b db"
  by (auto simp: settle_batch_def Let_def split: if_splits)

lemma oq_step_wf:
  assumes "oq_step db db'" and wf: "ledger_wf db"
  shows "ledger_wf db'"
  using assms(1)
proof cases
  case (settle b why now rm br name t prereg c)
  from settle_adjudicated [OF wf settle(1) settle_current [OF settle(2)], of why now rm br name t prereg] settle(2)
  show ?thesis by auto
next
  case other
  with wf show ?thesis by (simp add: ledger_wf_def jobs_wf_def paired_def)
next
  case enqueue
  with wf show ?thesis by (rule enqueue_outcome_jobs_wf [rotated])
next
  case claim
  with wf show ?thesis by (rule claim_ledger_wf [rotated])
next
  case reclaim
  with wf show ?thesis by (rule reclaim_ledger_wf [rotated])
next
  case fail
  with wf show ?thesis by (rule fail_batch_wf [rotated])
qed

lemma oq_run_frame: "oq_step\<^sup>*\<^sup>* db db' \<Longrightarrow> oq_frame db db'"
  by (induction rule: rtranclp_induct) (auto intro: oq_frame_trans oq_step_frame)

lemma oq_run_wf: "oq_step\<^sup>*\<^sup>* db db' \<Longrightarrow> ledger_wf db \<Longrightarrow> ledger_wf db'"
  by (induction rule: rtranclp_induct) (auto intro: oq_step_wf)

lemma oq_start_wf: "oq_start db \<Longrightarrow> ledger_wf db"
proof -
  assume s: "oq_start db"
  have "identities rows = []" if "list_all (\<lambda>r. os_github_repo r = None) rows" for rows
    using that by (induction rows) (auto simp: settled_identity_def split: option.splits)
  with s show ?thesis by (auto simp: oq_start_def ledger_wf_def jobs_wf_def paired_def list_all_iff)
qed

definition oq_generation :: "ledger \<Rightarrow> int \<Rightarrow> nat option" where
  "oq_generation db i = map_option oj_generation (row_by oj_id i (lg_jobs db))"

definition oq_running :: "ledger \<Rightarrow> int \<Rightarrow> bool" where
  "oq_running db i \<longleftrightarrow> map_option oj_status (row_by oj_id i (lg_jobs db)) = Some Running"

lemma oq_frame_row:
  assumes "oq_frame db db'" and "row_by oj_id i (lg_jobs db) = Some j"
  shows "\<exists>j'. row_by oj_id i (lg_jobs db') = Some j' \<and> oj_step j j'"
proof -
  obtain f new where f: "lg_jobs db' = map f (lg_jobs db) @ new" "\<And>j. oj_step j (f j)"
    using assms(1) by (auto simp: oq_frame_def)
  then have "\<And>j. oj_id (f j) = oj_id j" by (simp add: oj_step_def)
  with f assms(2) show ?thesis by (simp add: row_simps)
qed

lemma frame_lease:
  assumes "oq_frame s t" and "oq_generation s i = Some g"
  shows "\<exists>g'. oq_generation t i = Some g' \<and> g \<le> g' \<and> (\<not> oq_running s i \<and> oq_running t i \<longrightarrow> g < g')"
proof -
  from assms(2) obtain j where j: "row_by oj_id i (lg_jobs s) = Some j" "oj_generation j = g"
    by (auto simp: oq_generation_def)
  obtain j' where "row_by oj_id i (lg_jobs t) = Some j'" "oj_step j j'"
    using oq_frame_row [OF assms(1) j(1)] by blast
  with j show ?thesis by (auto simp: oq_generation_def oq_running_def oj_step_def)
qed

interpretation oq: fenced_lease oq_step oq_generation oq_running
  by unfold_locales (blast dest: oq_step_frame frame_lease)+

lemma held_lease:
  assumes "jobs_wf db"
  shows "held db job \<longleftrightarrow> oq_running db (oj_id job) \<and> oq_generation db (oj_id job) = Some (oj_generation job)"
proof
  assume "held db job"
  then obtain j where "j \<in> set (lg_jobs db)" "held_by job j" by (auto simp: held_def)
  moreover from this assms row_by_in [of oj_id "lg_jobs db" j]
  have "row_by oj_id (oj_id job) (lg_jobs db) = Some j" by (simp add: jobs_wf_def held_by_def)
  ultimately show "oq_running db (oj_id job) \<and> oq_generation db (oj_id job) = Some (oj_generation job)"
    by (simp add: oq_running_def oq_generation_def held_by_def)
next
  assume "oq_running db (oj_id job) \<and> oq_generation db (oj_id job) = Some (oj_generation job)"
  then show "held db job"
    by (auto simp: held_def held_by_def oq_running_def oq_generation_def dest: row_by_Some_in)
qed

subsection \<open>Properties\<close>


text \<open>
  C6. Settlement accounts for every claimed job: while a claim is still current, settling its batch
  with the adjudicator's result never fails. Every job whose revert evidence could be read becomes
  done with one appended outcome row, in job order; every refused job spends one attempt and records
  the reason; all other rows keep their values.
\<close>
theorem settlement_accounts_for_every_job:
  assumes "ledger_wf s" and "claim_repository locked t0 key s = Return (Some b, s1)" and "oq_step\<^sup>*\<^sup>* s1 db"
    and "claims_are_current b db" and "adj = adjudicate adj_row (cb_jobs b) rm br"
  shows "\<exists>db'. settle_batch why now b adj name t prereg db =
       Return ((length (ad_outcomes adj), length (ad_unadjudicable adj)), db') \<and>
     lg_outcomes db' = lg_outcomes db @ settled_rows name t prereg (ad_outcomes adj) (lg_outcome_seq db) \<and>
     lg_jobs db' = map (\<lambda>r. case List.find (\<lambda>j. oj_id j = oj_id r) (cb_jobs b) of
        None \<Rightarrow> r
      | Some j \<Rightarrow> (case result_of adj_row rm br j of
                    Inr oc \<Rightarrow> done_row now r
                  | Inl (j', e) \<Rightarrow> fail_row (why e) now MAX_ATTEMPTS r)) (lg_jobs db)"
proof -
  have "batch_of db b"
    using claim_batch [OF assms(1,2)] batch_of_frame oq_run_frame [OF assms(3)] by blast
  moreover have "ledger_wf db" using oq_run_wf [OF assms(3) claim_ledger_wf [OF assms(2,1)]] .
  ultimately show ?thesis
    using settle_adjudicated [of db b, OF _ _ assms(4), of why now rm br name t prereg] assms(5)
    by (auto simp: settled_job_def fun_eq_iff)
qed

text \<open>
  C18. A batch that lost a claim never writes again: once any of its rows was reclaimed or settled by
  somebody else, then in every later state both settling and failing the batch raise LostClaim, and
  so leave the ledger as it is.
\<close>
theorem stale_batch_never_settles:
  assumes "ledger_wf s" and "claim_repository locked t0 key s = Return (Some b, s1)" and "oq_step\<^sup>*\<^sup>* s1 s2"
    and lost: "\<not> claims_are_current b s2" and "oq_step\<^sup>*\<^sup>* s2 s3"
  shows "settle_batch why now b (adjudicate adj_row (cb_jobs b) rm br) name t prereg s3 =
           Raise (LostClaim ''one or more outcome claims were reclaimed'') \<and>
         fail_batch now b err cap s3 = Raise (LostClaim ''one or more outcome claims were reclaimed'')"
proof -
  have wf1: "ledger_wf s1" using claim_ledger_wf [OF assms(2,1)] .
  then have wf2: "ledger_wf s2" and wf3: "ledger_wf s3" using oq_run_wf assms(3,5) by blast+
  have b: "batch_of s1 b" and held1: "\<forall>j \<in> set (cb_jobs b). held s1 j"
    using claim_batch [OF assms(1,2)] by auto
  have dist: "distinct (map oj_id (cb_jobs b))" using b by (simp add: batch_of_def)
  have jwf: "jobs_wf s1" "jobs_wf s2" "jobs_wf s3" using wf1 wf2 wf3 by (simp_all add: ledger_wf_def)
  obtain j where j: "j \<in> set (cb_jobs b)" "\<not> held s2 j"
    using lost current_held [OF jwf(2) dist] by blast
  have "oq_generation s1 (oj_id j) = Some (oj_generation j)"
    using held1 j(1) held_lease [OF jwf(1)] by blast
  then obtain g' where g': "oq_generation s2 (oj_id j) = Some g'" "oj_generation j \<le> g'"
    using oq.generation_mono_run [OF assms(3)] by blast
  have "\<not> held s3 j"
    using oq.lost_forever [OF assms(5) g'] j(2) held_lease [OF jwf(2)] held_lease [OF jwf(3)] by blast
  then have gone: "\<not> claims_are_current b s3" using j(1) current_held [OF jwf(3) dist] by blast
  have "batch_of s3 b"
    using b batch_of_frame oq_run_frame [OF assms(3)] oq_run_frame [OF assms(5)] by blast
  then show ?thesis
    using wf3 gone settle_lost [OF _ jwf(3) _ gone] by (simp add: fail_batch_def ledger_wf_def)
qed

lemma repository_identity_spec:
  assumes "registry_wf db" and "repository_identity (inst, repo) db = (name, permanent, evidence)"
    and "durable = ((\<exists>r \<in> set (rg_installs db). in_installation r = inst \<and> in_state r = ''deleted'') \<or>
                    (\<exists>r \<in> set (rg_repos db). repo_is inst repo r \<and> ip_state r \<noteq> ''active''))"
  shows "(permanent \<longleftrightarrow> durable \<and> (\<forall>r \<in> set (rg_repos db). ip_repo r = repo \<longrightarrow> \<not> covers_live db r)) \<and>
         (evidence \<noteq> None \<longleftrightarrow> durable \<and> \<not> permanent) \<and>
         (\<forall>successor. evidence = Some successor \<longrightarrow> successor \<noteq> inst \<and>
            (\<exists>r \<in> set (rg_repos db). ip_installation r = successor \<and> ip_repo r = repo \<and> covers_live db r \<and>
               name = Some (ip_full_name r) \<and>
               (\<forall>q \<in> set (rg_repos db). ip_repo q = repo \<and> covers_live db q \<longrightarrow> newest_key r \<le> newest_key q)))"
proof -
  let ?live = "filter (\<lambda>r. ip_repo r = repo \<and> covers_live db r) (rg_repos db)"
  let ?state = "map_option in_state (row_by in_installation inst (rg_installs db))"
  have installs: "(\<exists>r \<in> set (rg_installs db). in_installation r = inst \<and> in_state r = st) \<longleftrightarrow> ?state = Some st" for st
  proof
    assume "\<exists>r \<in> set (rg_installs db). in_installation r = inst \<and> in_state r = st"
    then obtain r where r: "r \<in> set (rg_installs db)" "in_installation r = inst" "in_state r = st" by blast
    with assms(1) row_by_in [of in_installation "rg_installs db" r] show "?state = Some st"
      by (simp add: registry_wf_def)
  qed (auto dest: row_by_Some_in)
  have regs: "(\<exists>r \<in> set (rg_repos db). repo_is inst repo r \<and> ip_state r \<noteq> ''active'') \<longleftrightarrow>
      (case registration db inst repo of None \<Rightarrow> False | Some r \<Rightarrow> ip_state r \<noteq> ''active'')"
    (is "?L \<longleftrightarrow> ?R")
  proof
    assume ?L
    then obtain r where "r \<in> set (rg_repos db)" "repo_is inst repo r" "ip_state r \<noteq> ''active''" by blast
    with registration_in [OF assms(1)] show ?R by (auto simp: repo_is_def)
  next
    assume ?R
    then show ?L by (auto simp: repo_is_def dest: registration_some split: option.splits)
  qed
  define perm where "perm \<longleftrightarrow> ?state = Some ''deleted'' \<or>
      (case registration db inst repo of None \<Rightarrow> False | Some r \<Rightarrow> ip_state r \<noteq> ''active'')"
  have durable: "durable \<longleftrightarrow> perm" unfolding assms(3) installs regs perm_def ..
  have own: "ip_installation r \<noteq> inst" if "perm" "r \<in> set ?live" for r
  proof
    assume r: "ip_installation r = inst"
    from that(2) have mem: "r \<in> set (rg_repos db)" "ip_repo r = repo" "ip_state r = ''active''" "?state = Some ''active''"
      using installs [of "''active''"] by (auto simp: covers_live_def installation_active_def r)
    with registration_in [OF assms(1) mem(1)] r have "registration db inst repo = Some r" by simp
    with mem(3,4) that(1) show False by (auto simp: perm_def)
  qed
  show ?thesis
  proof (cases "first_by newest_key ?live")
    case None
    then have "\<forall>r \<in> set (rg_repos db). ip_repo r = repo \<longrightarrow> \<not> covers_live db r" by (auto simp: filter_empty_conv)
    moreover have "permanent = perm \<and> evidence = None"
      using assms(2) None
      by (auto simp: repository_identity_def live_registration_def perm_def Let_def split: option.splits if_splits)
    ultimately show ?thesis using durable by simp
  next
    case (Some r)
    note r = first_by_Some [OF Some]
    have out: "(name, permanent, evidence) =
        (if perm then (Some (ip_full_name r), False, Some (ip_installation r)) else (name, False, None))"
      using assms(2) Some own [OF _ conjunct1 [OF r]]
      by (auto simp: repository_identity_def live_registration_def perm_def Let_def split: option.splits if_splits)
    have "\<not> (\<forall>r \<in> set (rg_repos db). ip_repo r = repo \<longrightarrow> \<not> covers_live db r)" using r by auto
    with out durable own [OF _ conjunct1 [OF r]] r show ?thesis
      by (auto split: if_splits)
  qed
qed

text \<open>
  Only durable evidence censors, and a transfer is not evidence: a claimed batch is permanently
  unreachable exactly when its installation is deleted or its registration no longer active, and no
  live registration covers the repository; when one does, the batch is read through the newest live
  registration, another installation's, under the name that one knows the repository by.
\<close>
theorem unreachable_needs_durable_evidence:
  assumes "registry_wf db" and "repository_identity (inst, repo) db = (name, permanent, evidence)"
    and "durable = ((\<exists>r \<in> set (rg_installs db). in_installation r = inst \<and> in_state r = ''deleted'') \<or>
                    (\<exists>r \<in> set (rg_repos db). repo_is inst repo r \<and> ip_state r \<noteq> ''active''))"
  shows "(permanent \<longleftrightarrow> durable \<and> (\<forall>r \<in> set (rg_repos db). ip_repo r = repo \<longrightarrow> \<not> covers_live db r)) \<and>
         (evidence \<noteq> None \<longleftrightarrow> durable \<and> \<not> permanent) \<and>
         (\<forall>successor. evidence = Some successor \<longrightarrow> successor \<noteq> inst \<and>
            (\<exists>r \<in> set (rg_repos db). ip_installation r = successor \<and> ip_repo r = repo \<and> covers_live db r \<and>
               name = Some (ip_full_name r) \<and>
               (\<forall>q \<in> set (rg_repos db). ip_repo q = repo \<and> covers_live db q \<longrightarrow> newest_key r \<le> newest_key q)))"
  using assms by (rule repository_identity_spec)

subsection \<open>Witnesses\<close>

text \<open>One merge, then a transfer: installation 7 is deleted and installation 8 holds the repository.\<close>

definition ex_ledger :: "outcome_job list \<Rightarrow> ledger" where
  "ex_ledger jobs = \<lparr>rg_configured = True,
     rg_installs =
       [\<lparr>in_id = 1, in_installation = 7, in_login = ''acme'', in_type = ''User'', in_state = ''deleted'',
         in_updated_at = 9, in_installer = None\<rparr>,
        \<lparr>in_id = 2, in_installation = 8, in_login = ''corp'', in_type = ''Organization'', in_state = ''active'',
         in_updated_at = 9, in_installer = None\<rparr>],
     rg_repos = [new_registration 9 7 100 ''acme/app'' ''removed'' 1, new_registration 9 8 100 ''corp/app'' ''active'' 2],
     rg_install_seq = 3, rg_repo_seq = 3,
     lg_jobs = jobs, lg_job_seq = 5, lg_outcomes = [], lg_outcome_seq = 1, lg_verdicts = []\<rparr>"

definition ex_row :: outcome_job where
  "ex_row = new_outcome_job 0 5 7 100 3 ''aaaaaaaa'' (days 100, Some 0) ''main'' None 14"

definition ex_pending :: ledger where
  "ex_pending = (ex_ledger [ex_row])\<lparr>lg_job_seq := 6\<rparr>"

definition ex_claimed :: ledger where
  "ex_claimed = (ex_ledger [claim_row (days 200) ex_row])\<lparr>lg_job_seq := 6\<rparr>"

definition ex_batch :: claimed_batch where
  "ex_batch = \<lparr>cb_key = (7, 100), cb_repo_full_name = Some ''corp/app'', cb_permanently_unreachable = False,
     cb_jobs = [claim_row (days 200) ex_row], cb_evidence = Some 8\<rparr>"

definition ex_reclaimed :: ledger where
  "ex_reclaimed = (ex_ledger [(claim_row (days 200) ex_row)\<lparr>oj_status := Pending, oj_started_at := None\<rparr>])\<lparr>lg_job_seq := 6\<rparr>"

lemmas ex_defs = ex_ledger_def ex_row_def ex_pending_def ex_claimed_def ex_batch_def ex_reclaimed_def
  new_outcome_job_def new_registration_def days_def seconds_def as_utc_def

lemma ex_start: "oq_start (ex_ledger [])"
  by (simp add: oq_start_def ex_defs)

lemma ex_enqueue: "oq_step (ex_ledger []) ex_pending"
proof -
  have "enqueue_outcome_jobs 0 7 100 3 ''aaaaaaaa'' (days 100, Some 0) ''main'' [14] None (ex_ledger []) = ([(14, 5)], ex_pending)"
    by (simp add: enqueue_outcome_jobs_def ex_defs Let_def)
  then show ?thesis by (rule oq_step.enqueue)
qed

lemma ex_pending_wf: "ledger_wf ex_pending"
  using oq_step_wf [OF ex_enqueue oq_start_wf [OF ex_start]] .

lemma ex_identity: "repository_identity (7, 100) db = (Some ''corp/app'', False, Some 8)"
  if "rg_installs db = rg_installs (ex_ledger [])" and "rg_repos db = rg_repos (ex_ledger [])"
  using that
  by (simp add: repository_identity_def registration_def repo_is_def live_registration_def covers_live_def
      installation_active_def newest_key_def ex_defs Let_def)

lemma ex_claim_batch: "claim_repository [] (days 200) (7, 100) ex_pending = Return (Some ex_batch, ex_claimed)"
  by (simp add: claim_repository_def claim_query_def is_due_def job_key_def rowcount_def ex_identity Let_def ex_defs claim_row_def)

lemma ex_current: "claims_are_current ex_batch ex_claimed" "\<not> claims_are_current ex_batch ex_reclaimed"
  by (simp_all add: claims_are_current_def ex_defs claim_row_def Let_def)

lemma ex_reclaim: "oq_step\<^sup>*\<^sup>* ex_claimed ex_reclaimed"
proof -
  have "reclaim_stalled 7200 (days 201) ex_claimed = Return (1, ex_reclaimed)"
    by (simp add: reclaim_stalled_def lease_expired_def rowcount_def ex_defs claim_row_def)
  then show ?thesis using oq_step.reclaim by blast
qed


theorem settlement_accounts_for_every_job_witness:
  "\<exists>db'. settle_batch (\<lambda>e. ''bad date'') 0 ex_batch (adjudicate adj_row (cb_jobs ex_batch) [] (Some ''main''))
      ''corp/app'' 0 ''hash'' ex_claimed = Return ((1, 0), db')"
  using settlement_accounts_for_every_job [OF ex_pending_wf ex_claim_batch rtranclp.rtrancl_refl ex_current(1) refl,
      of "\<lambda>e. ''bad date''" 0 "[]" "Some ''main''" "''corp/app''" 0 "''hash''"]
  by (auto simp: adjudicate_def ex_batch_def revert_instant_of_def)

theorem stale_batch_never_settles_witness:
  "fail_batch 0 ex_batch ''boom'' 10 ex_reclaimed = Raise (LostClaim ''one or more outcome claims were reclaimed'')"
  using stale_batch_never_settles [OF ex_pending_wf ex_claim_batch ex_reclaim ex_current(2) rtranclp.rtrancl_refl] by blast

theorem unreachable_needs_durable_evidence_witness:
  "registry_wf ex_pending \<and> repository_identity (7, 100) ex_pending = (Some ''corp/app'', False, Some 8)"
proof -
  have wf: "registry_wf ex_pending" by (simp add: registry_wf_def ex_defs)
  obtain name permanent evidence where out: "repository_identity (7, 100) ex_pending = (name, permanent, evidence)"
    by (metis prod_cases3)
  have "evidence = Some 8 \<and> name = Some ''corp/app'' \<and> \<not> permanent"
    using unreachable_needs_durable_evidence [OF wf out refl]
    by (auto simp: ex_defs covers_live_def installation_active_def repo_is_def)
  with wf out show ?thesis by simp
qed

end
