(* ===== verification/Outcome_Worker.thy ===== *)
theory Outcome_Worker
  imports Outcome_Queue
begin

text \<open>
  One scheduled execution of the outcome loop, \<open>api/doug/outcome_worker.py\<close>: reclaim expired leases,
  snapshot the due repositories, then claim, read the evidence and settle each once. GitHub and git
  are the fields of \<open>outside\<close>; so are the clock of each transaction and the rows others have locked.
  An exception ends the loop but not the transactions already committed, so it carries the ledger.
\<close>

text \<open>
  What reading the evidence may raise: \<open>Transient\<close> names the three exception classes the loop
  catches (a GitHub request, a git process that failed or timed out), \<open>Systemic\<close> everything else.
\<close>

datatype evidence_error = Transient string | Systemic string

datatype drain_error = PreregMissing | AppDisabled | EvidenceEscaped string | LedgerEscaped ledger_error

record outside =
  ow_mint :: "int \<Rightarrow> (evidence_error, string) result"
  ow_default_branch :: "int \<Rightarrow> string \<Rightarrow> string \<Rightarrow> (evidence_error, string) result"
  ow_git_log :: "repository_key \<Rightarrow> string \<Rightarrow> string \<Rightarrow> string \<Rightarrow> (evidence_error, string) result"
  ow_locked :: "repository_key \<Rightarrow> int list"
  ow_claim_at :: "repository_key \<Rightarrow> instant"
  ow_settle_at :: "repository_key \<Rightarrow> instant"
  ow_observed_at :: "repository_key \<Rightarrow> instant"
  ow_error_text :: "label_error \<Rightarrow> string"

record summary =
  sm_repositories :: nat
  sm_done :: nat
  sm_retried :: nat
  sm_failed_repositories :: nat
  sm_reclaimed :: nat

definition owner_and_repo :: "string \<Rightarrow> (evidence_error, string \<times> string) result" where
  "owner_and_repo name =
     (case str_partition name ''/'' of (owner, found, repo) \<Rightarrow>
        if \<not> found \<or> owner = [] \<or> repo = [] then Raise (Systemic ''invalid repository full name'')
        else Return (owner, repo))"

definition github_context :: "outside \<Rightarrow> int \<Rightarrow> string \<Rightarrow> (evidence_error, string \<times> string) result" where
  "github_context w inst name =
     (case owner_and_repo name of
        Inl e \<Rightarrow> Raise e
      | Inr (owner, repo) \<Rightarrow>
          (case ow_mint w inst of
             Inl e \<Rightarrow> Raise e
           | Inr token \<Rightarrow>
               (case ow_default_branch w inst owner repo of
                  Inl e \<Rightarrow> Raise e
                | Inr branch \<Rightarrow>
                    if token = [] \<or> branch = []
                    then Raise (Systemic ''GitHub returned an empty installation token or default branch'')
                    else Return (token, branch))))"

definition repository_evidence ::
    "outside \<Rightarrow> claimed_batch \<Rightarrow> (evidence_error, (int \<times> commit) list \<times> string) result" where
  "repository_evidence w b =
     (case cb_repo_full_name b of
        None \<Rightarrow> Raise (Systemic ''repository identity is unavailable'')
      | Some name \<Rightarrow>
          (case owner_and_repo name of
             Inl e \<Rightarrow> Raise e
           | Inr (owner, repo) \<Rightarrow>
               (case github_context w (reader_installation_id b) name of
                  Inl e \<Rightarrow> Raise e
                | Inr (token, branch) \<Rightarrow>
                    (case ow_git_log w (cb_key b) owner repo token of
                       Inl e \<Rightarrow> Raise e
                     | Inr printed \<Rightarrow>
                         (case find_reverted_prs_evidenced printed of
                            Inl e \<Rightarrow> Raise (Systemic (ow_error_text w e))
                          | Inr revert_map \<Rightarrow> Return (revert_map, branch))))))"

text \<open>The attempt the failure line reports: one past the highest the batch was claimed with.\<close>

definition logged_attempt :: "claimed_batch \<Rightarrow> nat" where
  "logged_attempt b = Max (set (map oj_attempts (cb_jobs b))) + 1"

definition fail_repository ::
    "outside \<Rightarrow> claimed_batch \<Rightarrow> string \<Rightarrow> ledger \<Rightarrow> (ledger_error, nat \<times> ledger) result" where
  "fail_repository w b err db = fail_batch (ow_settle_at w (cb_key b)) b err MAX_ATTEMPTS db"

definition safe_repository_error :: "string \<Rightarrow> string" where
  "safe_repository_error cls = ''repository evidence failed ('' @ cls @ '')''"

text \<open>One pass of the loop body.\<close>

definition visit ::
    "outside \<Rightarrow> string \<Rightarrow> repository_key \<Rightarrow> summary \<times> ledger \<Rightarrow>
     (drain_error \<times> summary \<times> ledger, summary \<times> ledger) result" where
  "visit w prereg key st =
     (case st of (sm, db) \<Rightarrow>
      (case claim_repository (ow_locked w key) (ow_claim_at w key) key db of
         Inl e \<Rightarrow> Raise (LedgerEscaped e, sm, db)
       | Inr (None, db1) \<Rightarrow> Return (sm, db1)
       | Inr (Some b, db1) \<Rightarrow>
           (let sm1 = sm\<lparr>sm_repositories := sm_repositories sm + 1\<rparr>;
                give_up = (\<lambda>err. case fail_repository w b err db1 of
                    Inl e \<Rightarrow> Raise (LedgerEscaped e, sm1, db1)
                  | Inr (moved, db2) \<Rightarrow>
                      Return (sm1\<lparr>sm_retried := sm_retried sm1 + moved,
                                   sm_failed_repositories := sm_failed_repositories sm1 + 1\<rparr>, db2));
                settle = (\<lambda>name revert_map branch.
                  case settle_batch (ow_error_text w) (ow_settle_at w key) b
                         (adjudicate adj_row (cb_jobs b) revert_map branch) name (ow_observed_at w key) prereg db1 of
                    Inl e \<Rightarrow> Raise (LedgerEscaped e, sm1, db1)
                  | Inr ((settled, refused), db2) \<Rightarrow>
                      Return (sm1\<lparr>sm_done := sm_done sm1 + settled, sm_retried := sm_retried sm1 + refused\<rparr>, db2))
            in case cb_repo_full_name b of
                 None \<Rightarrow> give_up ''repository identity unavailable''
               | Some name \<Rightarrow>
                   if cb_permanently_unreachable b then settle name [] None
                   else (case repository_evidence w b of
                           Inl (Transient cls) \<Rightarrow> give_up (safe_repository_error cls)
                         | Inl (Systemic msg) \<Rightarrow> Raise (EvidenceEscaped msg, sm1, db1)
                         | Inr (revert_map, branch) \<Rightarrow> settle name revert_map (Some branch)))))"

definition is_sha256 :: "string \<Rightarrow> bool" where
  "is_sha256 s \<longleftrightarrow> length s = 64 \<and> list_all (\<lambda>c. digit_char c \<or> c \<in> set ''abcdef'') s"

definition drain ::
    "outside \<Rightarrow> instant \<Rightarrow> instant \<Rightarrow> bool \<Rightarrow> string option \<Rightarrow> ledger \<Rightarrow>
     (drain_error \<times> summary \<times> ledger, summary \<times> ledger) result" where
  "drain w reclaim_at snapshot_at app_enabled prereg db =
     (let zero = \<lparr>sm_repositories = 0, sm_done = 0, sm_retried = 0, sm_failed_repositories = 0, sm_reclaimed = 0\<rparr>
      in case reclaim_stalled STALL_LEASE_SECONDS reclaim_at db of
           Inl e \<Rightarrow> Raise (LedgerEscaped e, zero, db)
         | Inr (reclaimed, db1) \<Rightarrow>
             (case due_repositories snapshot_at db1 of
                Inl e \<Rightarrow> Raise (LedgerEscaped e, zero, db1)
              | Inr keys \<Rightarrow>
                  if keys = [] then Return (zero\<lparr>sm_reclaimed := reclaimed\<rparr>, db1)
                  else if (case prereg of None \<Rightarrow> True | Some h \<Rightarrow> \<not> is_sha256 h) then Raise (PreregMissing, zero, db1)
                  else if \<not> app_enabled then Raise (AppDisabled, zero, db1)
                  else each (visit w (the prereg)) keys (zero\<lparr>sm_reclaimed := reclaimed\<rparr>, db1)))"

subsection \<open>What one visit does\<close>

text \<open>A row after a visit that did not raise: finished, or one attempt further.\<close>

definition moved_on :: "outcome_job \<Rightarrow> outcome_job \<Rightarrow> bool" where
  "moved_on j j' \<longleftrightarrow> oj_id j' = oj_id j \<and> job_key j' = job_key j \<and>
     (oj_status j' = Done \<or> (oj_attempts j' = oj_attempts j + 1 \<and> oj_status j' \<in> {Pending, Failed} \<and> oj_error j' \<noteq> None))"

lemma fail_batch_held:
  assumes wf: "ledger_wf db" and b: "batch_of db b" and cur: "claims_are_current b db"
  shows "fail_batch now b err m db = Return (length (cb_jobs b), db\<lparr>lg_jobs :=
     map (\<lambda>r. if oj_id r \<in> oj_id ` set (cb_jobs b) then fail_row err now m r else r) (lg_jobs db)\<rparr>)"
proof -
  have jwf: "jobs_wf db" and dist: "distinct (map oj_id (cb_jobs b))"
    using wf b by (simp_all add: ledger_wf_def batch_of_def)
  have "each (\<lambda>j. fenced_write (fail_row err now m) j) (cb_jobs b) db = Return (db\<lparr>lg_jobs :=
      map (\<lambda>r. case List.find (\<lambda>j. oj_id j = oj_id r) (cb_jobs b) of None \<Rightarrow> r | Some j \<Rightarrow> fail_row err now m r) (lg_jobs db)\<rparr>)"
    using current_held [OF jwf dist] cur
    by (intro each_fenced [OF jwf dist]) (auto simp: fail_row_def Let_def job_identity_def)
  moreover have "(case List.find (\<lambda>j. oj_id j = oj_id r) (cb_jobs b) of None \<Rightarrow> r | Some j \<Rightarrow> fail_row err now m r) =
      (if oj_id r \<in> oj_id ` set (cb_jobs b) then fail_row err now m r else r)" for r
  proof (cases "List.find (\<lambda>j. oj_id j = oj_id r) (cb_jobs b)")
    case None
    then have "oj_id r \<notin> oj_id ` set (cb_jobs b)" by (auto simp: find_None_iff image_iff)
    with None show ?thesis by simp
  next
    case (Some j)
    then have "oj_id r \<in> oj_id ` set (cb_jobs b)"
      using find_some_iff_filter [OF Some] by (metis imageI)
    with Some show ?thesis by simp
  qed
  ultimately show ?thesis
    using wf cur by (simp add: fail_batch_def fail_job_def ledger_wf_def)
qed

text \<open>A claimed row: what the claim made of the pending row it came from.\<close>

lemma claim_rows:
  assumes wf: "ledger_wf db" and claim: "claim_repository locked now key db = Return (Some b, db1)"
    and j: "j \<in> set (lg_jobs db)"
  shows "(if job_key j = key \<and> is_due now j \<and> oj_id j \<notin> set locked
          then claim_row now j \<in> set (cb_jobs b) \<and> claim_row now j \<in> set (lg_jobs db1)
          else j \<in> set (lg_jobs db1) \<and> oj_id j \<notin> oj_id ` set (cb_jobs b))"
  using claim
proof (cases rule: claim_form)
  case 2
  have jwf: "jobs_wf db" using wf by (simp add: ledger_wf_def)
  let ?hit = "\<lambda>j. oj_id j \<in> oj_id ` set (claim_query locked key now db) \<and> oj_status j = Pending"
  have asked: "oj_id j \<in> oj_id ` set (claim_query locked key now db) \<longleftrightarrow>
      job_key j = key \<and> is_due now j \<and> oj_id j \<notin> set locked"
  proof
    assume "oj_id j \<in> oj_id ` set (claim_query locked key now db)"
    then obtain q where q: "q \<in> set (lg_jobs db)" "oj_id q = oj_id j" "job_key q = key" "is_due now q" "oj_id q \<notin> set locked"
      by (auto simp: claim_query_def)
    then have "q = j" using job_id_unique [OF jwf q(1) j] by blast
    with q show "job_key j = key \<and> is_due now j \<and> oj_id j \<notin> set locked" by simp
  next
    assume "job_key j = key \<and> is_due now j \<and> oj_id j \<notin> set locked"
    with j show "oj_id j \<in> oj_id ` set (claim_query locked key now db)" by (auto simp: claim_query_def)
  qed
  have up: "lg_jobs db1 = update_where ?hit (claim_row now) (lg_jobs db)" by (simp add: 2(1))
  have jobs: "set (cb_jobs b) = {r \<in> set (lg_jobs db1). oj_id r \<in> oj_id ` set (claim_query locked key now db)}"
    using 2(2) by simp
  show ?thesis
  proof (cases "job_key j = key \<and> is_due now j \<and> oj_id j \<notin> set locked")
    case True
    then have "?hit j" using asked by (simp add: is_due_def)
    then have "claim_row now j \<in> set (lg_jobs db1)"
      using update_where_mem [OF j, of ?hit "claim_row now"] unfolding up by (simp only: if_True simp_thms)
    moreover have "oj_id (claim_row now j) = oj_id j" by (simp add: claim_row_def)
    moreover have "oj_id j \<in> oj_id ` set (claim_query locked key now db)" using True asked by blast
    ultimately have "claim_row now j \<in> set (cb_jobs b)" unfolding jobs by simp
    then show ?thesis using \<open>claim_row now j \<in> set (lg_jobs db1)\<close> by (simp only: if_P [OF True] simp_thms)
  next
    case False
    then have no: "oj_id j \<notin> oj_id ` set (claim_query locked key now db)" using asked by blast
    then have "\<not> ?hit j" by blast
    then have "j \<in> set (lg_jobs db1)"
      using update_where_mem [OF j, of ?hit "claim_row now"] unfolding up by (simp only: if_False simp_thms)
    moreover have "oj_id j \<notin> oj_id ` set (cb_jobs b)"
    proof
      assume "oj_id j \<in> oj_id ` set (cb_jobs b)"
      then obtain r where "oj_id j = oj_id r" "r \<in> set (cb_jobs b)" by (rule imageE)
      with no show False unfolding jobs by simp
    qed
    ultimately show ?thesis by (simp only: if_not_P [OF False] simp_thms)
  qed
qed simp

text \<open>Under the locks of its own SELECT a claim finds every row it asked for.\<close>

lemma claim_succeeds:
  assumes "ledger_wf db"
  shows "\<exists>b db'. claim_repository locked now key db = Return (b, db')"
proof -
  have jwf: "jobs_wf db" using assms by (simp add: ledger_wf_def)
  let ?hit = "\<lambda>j. oj_id j \<in> set (map oj_id (claim_query locked key now db)) \<and> oj_status j = Pending"
  let ?ask = "\<lambda>j. job_key j = key \<and> is_due now j \<and> oj_id j \<notin> set locked"
  have "?hit j \<longleftrightarrow> ?ask j" if j: "j \<in> set (lg_jobs db)" for j
  proof
    assume "?hit j"
    then obtain q where q: "q \<in> set (lg_jobs db)" "oj_id q = oj_id j" "?ask q"
      by (auto simp: claim_query_def)
    then have "q = j" using job_id_unique [OF jwf q(1) j] by blast
    with q(3) show "?ask j" by simp
  qed (use j in \<open>auto simp: claim_query_def is_due_def\<close>)
  then have "filter ?hit (lg_jobs db) = filter ?ask (lg_jobs db)" by (rule filter_cong [OF refl])
  then have "rowcount ?hit (lg_jobs db) = length (map oj_id (claim_query locked key now db))"
    by (simp add: rowcount_def claim_query_def)
  with assms show ?thesis
    by (simp add: claim_repository_def ledger_wf_def Let_def split: prod.split)
qed

definition claimable :: "outside \<Rightarrow> repository_key \<Rightarrow> outcome_job \<Rightarrow> bool" where
  "claimable w key j \<longleftrightarrow> job_key j = key \<and> is_due (ow_claim_at w key) j \<and> oj_id j \<notin> set (ow_locked w key)"

text \<open>The two endings of a visit, from the ledger right after the claim.\<close>

lemma claimed_facts:
  assumes "ledger_wf db" and "claim_repository locked now key db = Return (Some b, db1)"
  shows "ledger_wf db1" and "batch_of db1 b" and "claims_are_current b db1" and "lg_outcomes db1 = lg_outcomes db"
proof -
  show wf: "ledger_wf db1" using claim_ledger_wf [OF assms(2,1)] .
  note batch = claim_batch [OF assms]
  then show "batch_of db1 b" by blast
  then have "distinct (map oj_id (cb_jobs b))" by (simp add: batch_of_def)
  with batch wf show "claims_are_current b db1" by (simp add: current_held ledger_wf_def)
  show "lg_outcomes db1 = lg_outcomes db" using assms(2) by (cases rule: claim_form) simp_all
qed

lemma after_settle:
  fixes why :: "label_error \<Rightarrow> string" and rm :: "(int \<times> commit) list" and br :: "string option"
    and name prereg :: string and t now' :: instant
  assumes wf: "ledger_wf db" and claim: "claim_repository locked now key db = Return (Some b, db1)"
    and settle: "settle_batch why now' b (adjudicate adj_row (cb_jobs b) rm br) name t prereg db1 = Return ((n, m), db2)"
    and j: "j \<in> set (lg_jobs db)"
  shows "if job_key j = key \<and> is_due now j \<and> oj_id j \<notin> set locked
         then \<exists>j' \<in> set (lg_jobs db2). moved_on j j' else j \<in> set (lg_jobs db2)"
proof -
  note facts = claimed_facts [OF wf claim]
  have jobs: "lg_jobs db2 = map (settled_job why now' rm br b) (lg_jobs db1)"
    using settle_adjudicated [OF facts(1-3), of why now' rm br name t prereg] settle by auto
  have dist: "distinct (map oj_id (cb_jobs b))" using facts(2) by (simp add: batch_of_def)
  show ?thesis
  proof (cases "job_key j = key \<and> is_due now j \<and> oj_id j \<notin> set locked")
    case True
    let ?c = "claim_row now j"
    have c: "?c \<in> set (cb_jobs b)" "?c \<in> set (lg_jobs db1)"
      using claim_rows [OF wf claim j] unfolding if_P [OF True] by blast+
    have "List.find (\<lambda>q. oj_id q = oj_id ?c) (cb_jobs b) = Some ?c"
    proof (rule find_unique [OF c(1) refl])
      fix y assume "y \<in> set (cb_jobs b)" "oj_id y = oj_id ?c"
      with c(1) dist show "y = ?c" unfolding distinct_map by (metis inj_onD)
    qed
    then have row: "settled_job why now' rm br b ?c = (case result_of adj_row rm br ?c of
        Inr oc \<Rightarrow> done_row now' ?c | Inl (j', e) \<Rightarrow> fail_row (why e) now' MAX_ATTEMPTS ?c)"
      by (simp only: settled_job_def option.case)
    have moved: "moved_on j (done_row now' (claim_row now j))" "moved_on j (fail_row err now' m (claim_row now j))" for err m
      unfolding moved_on_def done_row_def fail_row_def claim_row_def Let_def job_key_def by simp_all
    have "moved_on j (settled_job why now' rm br b ?c)"
      unfolding row using moved by (cases "result_of adj_row rm br ?c") (simp_all add: case_prod_beta)
    moreover have "settled_job why now' rm br b ?c \<in> set (lg_jobs db2)"
      unfolding jobs by (rule map_mem [OF c(2) refl])
    ultimately show ?thesis unfolding if_P [OF True] by blast
  next
    case False
    have out: "j \<in> set (lg_jobs db1)" "oj_id j \<notin> oj_id ` set (cb_jobs b)"
      using claim_rows [OF wf claim j] unfolding if_not_P [OF False] by blast+
    have "List.find (\<lambda>q. oj_id q = oj_id j) (cb_jobs b) = None" using out(2) by (rule find_key_None)
    then have "settled_job why now' rm br b j = j" by (simp add: settled_job_def)
    then have "j \<in> set (lg_jobs db2)" unfolding jobs by (rule map_mem [OF out(1)])
    then show ?thesis unfolding if_not_P [OF False] .
  qed
qed

lemma after_failure:
  assumes wf: "ledger_wf db" and claim: "claim_repository locked now key db = Return (Some b, db1)"
    and fail: "fail_batch now' b err m db1 = Return (n, db2)" and j: "j \<in> set (lg_jobs db)"
  shows "if job_key j = key \<and> is_due now j \<and> oj_id j \<notin> set locked
         then \<exists>j' \<in> set (lg_jobs db2). moved_on j j' else j \<in> set (lg_jobs db2)"
proof -
  note facts = claimed_facts [OF wf claim]
  have jobs: "lg_jobs db2 = map (\<lambda>r. if oj_id r \<in> oj_id ` set (cb_jobs b) then fail_row err now' m r else r) (lg_jobs db1)"
    using fail_batch_held [OF facts(1-3), of now' err m] fail by auto
  show ?thesis
  proof (cases "job_key j = key \<and> is_due now j \<and> oj_id j \<notin> set locked")
    case True
    let ?c = "claim_row now j"
    have c: "?c \<in> set (cb_jobs b)" "?c \<in> set (lg_jobs db1)"
      using claim_rows [OF wf claim j] unfolding if_P [OF True] by blast+
    have "oj_id ?c \<in> oj_id ` set (cb_jobs b)" using c(1) by (rule imageI)
    then have "fail_row err now' m ?c \<in> set (lg_jobs db2)"
      unfolding jobs by (rule map_mem [OF c(2) if_P])
    moreover have "moved_on j (fail_row err now' m ?c)"
      by (auto simp: moved_on_def fail_row_def claim_row_def Let_def job_key_def)
    ultimately show ?thesis unfolding if_P [OF True] by blast
  next
    case False
    have out: "j \<in> set (lg_jobs db1)" "oj_id j \<notin> oj_id ` set (cb_jobs b)"
      using claim_rows [OF wf claim j] unfolding if_not_P [OF False] by blast+
    have "j \<in> set (lg_jobs db2)" unfolding jobs using out(2) by (intro map_mem [OF out(1)] if_not_P)
    then show ?thesis unfolding if_not_P [OF False] .
  qed
qed

lemma length_settled_rows [simp]: "length (settled_rows name t prereg ocs i) = length ocs"
  by (induction ocs arbitrary: i) auto

text \<open>One visit: it raises only on systemic evidence, and otherwise moves every claimable row on.\<close>

definition visited :: "outside \<Rightarrow> repository_key \<Rightarrow> summary \<times> ledger \<Rightarrow> summary \<times> ledger \<Rightarrow> bool" where
  "visited w key st st' \<longleftrightarrow>
     (\<forall>j \<in> set (lg_jobs (snd st)). if claimable w key j then \<exists>j' \<in> set (lg_jobs (snd st')). moved_on j j'
        else j \<in> set (lg_jobs (snd st'))) \<and>
     length (lg_outcomes (snd st')) + sm_done (fst st) = length (lg_outcomes (snd st)) + sm_done (fst st')"

lemma visit_effect:
  assumes wf: "ledger_wf db"
  shows "(\<exists>st'. visit w prereg key (sm, db) = Return st' \<and> ledger_wf (snd st') \<and> visited w key (sm, db) st') \<or>
         (\<exists>msg sm' db'. visit w prereg key (sm, db) = Raise (EvidenceEscaped msg, sm', db') \<and> ledger_wf db')"
proof -
  obtain out db1 where claim: "claim_repository (ow_locked w key) (ow_claim_at w key) key db = Return (out, db1)"
    using claim_succeeds [OF wf] by blast
  show ?thesis
  proof (cases out)
    case None
    then have "claim_query (ow_locked w key) key (ow_claim_at w key) db = []" "db1 = db"
      using claim by (auto simp: claim_repository_def Let_def split: if_splits prod.splits)
    then have "\<forall>j \<in> set (lg_jobs db). \<not> claimable w key j"
      by (auto simp: claim_query_def claimable_def filter_empty_conv dest: arg_cong [of "sort_key _ _" "[]" length])
    with None claim \<open>db1 = db\<close> wf show ?thesis by (simp add: visit_def visited_def)
  next
    case (Some b)
    with claim have some: "claim_repository (ow_locked w key) (ow_claim_at w key) key db = Return (Some b, db1)" by simp
    note facts = claimed_facts [OF wf some]
    have failed: "\<exists>db2. fail_repository w b err db1 = Return (length (cb_jobs b), db2) \<and> ledger_wf db2 \<and>
        lg_outcomes db2 = lg_outcomes db \<and>
        (\<forall>j \<in> set (lg_jobs db). if claimable w key j then \<exists>j' \<in> set (lg_jobs db2). moved_on j j' else j \<in> set (lg_jobs db2))" for err
    proof -
      let ?now = "ow_settle_at w (cb_key b)"
      obtain db2 where db2: "fail_batch ?now b err MAX_ATTEMPTS db1 = Return (length (cb_jobs b), db2)"
          "lg_outcomes db2 = lg_outcomes db1"
        using fail_batch_held [OF facts(1-3), of ?now err MAX_ATTEMPTS] by auto
      then show ?thesis
        using fail_batch_wf [OF db2(1) facts(1)] after_failure [OF wf some db2(1)] facts(4)
        by (auto simp: fail_repository_def claimable_def)
    qed
    have settled: "\<exists>db2. settle_batch (ow_error_text w) (ow_settle_at w key) b (adjudicate adj_row (cb_jobs b) rm br) name
          (ow_observed_at w key) prereg db1 =
        Return ((length (ad_outcomes (adjudicate adj_row (cb_jobs b) rm br)),
                 length (ad_unadjudicable (adjudicate adj_row (cb_jobs b) rm br))), db2) \<and> ledger_wf db2 \<and>
        length (lg_outcomes db2) = length (lg_outcomes db) + length (ad_outcomes (adjudicate adj_row (cb_jobs b) rm br)) \<and>
        (\<forall>j \<in> set (lg_jobs db). if claimable w key j then \<exists>j' \<in> set (lg_jobs db2). moved_on j j' else j \<in> set (lg_jobs db2))" for rm br name
    proof -
      obtain db2 where db2: "settle_batch (ow_error_text w) (ow_settle_at w key) b (adjudicate adj_row (cb_jobs b) rm br) name
          (ow_observed_at w key) prereg db1 =
          Return ((length (ad_outcomes (adjudicate adj_row (cb_jobs b) rm br)),
                   length (ad_unadjudicable (adjudicate adj_row (cb_jobs b) rm br))), db2)" "ledger_wf db2"
          "length (lg_outcomes db2) = length (lg_outcomes db1) + length (ad_outcomes (adjudicate adj_row (cb_jobs b) rm br))"
        using settle_adjudicated [OF facts(1-3), of "ow_error_text w" "ow_settle_at w key" rm br name "ow_observed_at w key" prereg]
        by auto
      then show ?thesis
        using after_settle [OF wf some db2(1)] facts(4) by (auto simp: claimable_def)
    qed
    show ?thesis
    proof (cases "cb_repo_full_name b")
      case None
      with some failed [of "''repository identity unavailable''"] show ?thesis
        by (auto simp: visit_def visited_def Let_def)
    next
      case name: (Some name)
      show ?thesis
      proof (cases "cb_permanently_unreachable b")
        case True
        with some name settled [of "[]" None name] show ?thesis
          by (auto simp: visit_def visited_def Let_def)
      next
        case False
        show ?thesis
        proof (cases "repository_evidence w b")
          case (Inl e)
          show ?thesis
          proof (cases e)
            case (Transient cls)
            with some name False Inl failed [of "safe_repository_error cls"] show ?thesis
              by (auto simp: visit_def visited_def Let_def)
          next
            case (Systemic msg)
            with some name False Inl facts(1) show ?thesis by (simp add: visit_def Let_def)
          qed
        next
          case (Inr p)
          with some name False settled [of "fst p" "Some (snd p)" name] show ?thesis
            by (cases p) (auto simp: visit_def visited_def Let_def)
        qed
      qed
    qed
  qed
qed

lemma visited_loop:
  assumes "ledger_wf db" and "distinct keys"
  shows "(\<exists>st'. each (visit w prereg) keys (sm, db) = Return st' \<and> ledger_wf (snd st') \<and>
            (\<forall>j \<in> set (lg_jobs db). if \<exists>k \<in> set keys. claimable w k j then \<exists>j' \<in> set (lg_jobs (snd st')). moved_on j j'
               else j \<in> set (lg_jobs (snd st'))) \<and>
            length (lg_outcomes (snd st')) + sm_done sm = length (lg_outcomes db) + sm_done (fst st')) \<or>
         (\<exists>msg sm' db'. each (visit w prereg) keys (sm, db) = Raise (EvidenceEscaped msg, sm', db') \<and> ledger_wf db')"
  using assms
proof (induction keys arbitrary: sm db)
  case Nil
  then show ?case by simp
next
  case (Cons k keys)
  from visit_effect [OF Cons.prems(1), of w prereg k sm] show ?case
  proof
    assume "\<exists>st'. visit w prereg k (sm, db) = Return st' \<and> ledger_wf (snd st') \<and> visited w k (sm, db) st'"
    then obtain sm1 db1 where one: "visit w prereg k (sm, db) = Return (sm1, db1)" "ledger_wf db1" "visited w k (sm, db) (sm1, db1)"
      by force
    from Cons.IH [OF one(2), of sm1] Cons.prems(2)
    consider st' where "each (visit w prereg) keys (sm1, db1) = Return st'" "ledger_wf (snd st')"
        "\<forall>j \<in> set (lg_jobs db1). if \<exists>k \<in> set keys. claimable w k j then \<exists>j' \<in> set (lg_jobs (snd st')). moved_on j j'
           else j \<in> set (lg_jobs (snd st'))"
        "length (lg_outcomes (snd st')) + sm_done sm1 = length (lg_outcomes db1) + sm_done (fst st')"
      | msg sm' db' where "each (visit w prereg) keys (sm1, db1) = Raise (EvidenceEscaped msg, sm', db')" "ledger_wf db'"
      by auto
    then show ?case
    proof cases
      case (1 st')
      have "if \<exists>q \<in> set (k # keys). claimable w q j then \<exists>j' \<in> set (lg_jobs (snd st')). moved_on j j'
          else j \<in> set (lg_jobs (snd st'))" if j: "j \<in> set (lg_jobs db)" for j
      proof (cases "claimable w k j")
        case True
        then obtain j1 where j1: "j1 \<in> set (lg_jobs db1)" "moved_on j j1"
          using one(3) j by (fastforce simp: visited_def)
        have "\<not> claimable w q j1" if "q \<in> set keys" for q
          using that True j1(2) Cons.prems(2) by (auto simp: claimable_def moved_on_def)
        with 1(3) j1(1) have "j1 \<in> set (lg_jobs (snd st'))" by auto
        with True j1(2) show ?thesis by auto
      next
        case False
        then have "j \<in> set (lg_jobs db1)" using one(3) j by (fastforce simp: visited_def)
        with 1(3) False show ?thesis by auto
      qed
      moreover have "length (lg_outcomes (snd st')) + sm_done sm = length (lg_outcomes db) + sm_done (fst st')"
        using 1(4) one(3) by (simp add: visited_def)
      ultimately show ?thesis using 1(1,2) one(1) by auto
    next
      case 2
      with one(1) show ?thesis by auto
    qed
  qed auto
qed

subsection \<open>Properties\<close>

text \<open>
  C27. One execution moves every due row on: whatever GitHub and git answer for the single
  repositories, a drain over a well-formed ledger either ends with every row that was due at the
  snapshot done or one attempt further with its error recorded, and exactly as many new outcome rows
  as it reports done; or it is ended by evidence that is neither readable nor a caught failure,
  never by a lost claim or an accounting error, and what it committed is still well formed.
\<close>
theorem drain_moves_every_due_row_on:
  assumes "ledger_wf db" and "reclaim_stalled STALL_LEASE_SECONDS reclaim_at db = Return (n, db1)"
    and "is_sha256 h" and "\<forall>k. snapshot_at \<le> ow_claim_at w k \<and> ow_locked w k = []"
  shows "case drain w reclaim_at snapshot_at True (Some h) db of
      Inr (sm, db') \<Rightarrow>
        ledger_wf db' \<and> length (lg_outcomes db') = length (lg_outcomes db) + sm_done sm \<and>
        (\<forall>j \<in> set (lg_jobs db1). is_due snapshot_at j \<longrightarrow> (\<exists>j' \<in> set (lg_jobs db'). moved_on j j'))
    | Inl (e, sm, db') \<Rightarrow> (\<exists>msg. e = EvidenceEscaped msg) \<and> ledger_wf db'"
proof -
  have wf1: "ledger_wf db1" using reclaim_ledger_wf [OF assms(2,1)] .
  have outs: "lg_outcomes db1 = lg_outcomes db"
    using assms(2) by (auto simp: reclaim_stalled_def split: if_splits)
  define keys where "keys = sort_key (\<lambda>k. (first_due snapshot_at db1 k, fst k))
      (fromkeys (map job_key (filter (is_due snapshot_at) (lg_jobs db1))))"
  have due: "due_repositories snapshot_at db1 = Return keys"
    using wf1 by (simp add: due_repositories_def ledger_wf_def keys_def)
  have "set keys = job_key ` set (filter (is_due snapshot_at) (lg_jobs db1))" by (simp add: keys_def)
  then have mem: "is_due snapshot_at j \<Longrightarrow> j \<in> set (lg_jobs db1) \<Longrightarrow> job_key j \<in> set keys" for j by auto
  have reach: "\<exists>k \<in> set keys. claimable w k j" if "is_due snapshot_at j" "j \<in> set (lg_jobs db1)" for j
  proof (rule bexI [OF _ mem [OF that]])
    have "oj_due_at j \<le> ow_claim_at w (job_key j)" using that(1) assms(4) by (meson is_due_def order_trans)
    moreover have "ow_locked w (job_key j) = []" using assms(4) by blast
    ultimately show "claimable w (job_key j) j" using that(1) by (simp add: claimable_def is_due_def)
  qed
  show ?thesis
  proof (cases "keys = []")
    case True
    with mem wf1 outs show ?thesis
      using assms(2) due by (auto simp: drain_def Let_def)
  next
    case False
    have run: "drain w reclaim_at snapshot_at True (Some h) db = each (visit w h) keys
        (\<lparr>sm_repositories = 0, sm_done = 0, sm_retried = 0, sm_failed_repositories = 0, sm_reclaimed = n\<rparr>, db1)"
      using assms(2,3) due False by (simp add: drain_def Let_def)
    have "distinct keys" by (simp add: keys_def)
    from visited_loop [OF wf1 this, of w h
        "\<lparr>sm_repositories = 0, sm_done = 0, sm_retried = 0, sm_failed_repositories = 0, sm_reclaimed = n\<rparr>"]
    show ?thesis unfolding run using outs reach by (auto split: sum.split prod.split)
  qed
qed

definition ex_outside :: outside where
  "ex_outside = \<lparr>ow_mint = (\<lambda>i. Return ''token''), ow_default_branch = (\<lambda>i q r. Return ''main''),
     ow_git_log = (\<lambda>k q r t. Return []), ow_locked = (\<lambda>k. []), ow_claim_at = (\<lambda>k. days 200),
     ow_settle_at = (\<lambda>k. days 200), ow_observed_at = (\<lambda>k. days 200), ow_error_text = (\<lambda>e. ''bad date'')\<rparr>"

definition ex_hash :: string where
  "ex_hash = replicate 64 (CHR ''a'')"

theorem drain_moves_every_due_row_on_witness:
  "case drain ex_outside (days 200) (days 200) True (Some ex_hash) ex_pending of
      Inr (sm, db') \<Rightarrow> ledger_wf db' \<and> (\<exists>j' \<in> set (lg_jobs db'). moved_on ex_row j')
    | Inl (e, sm, db') \<Rightarrow> ledger_wf db'"
proof -
  have r: "reclaim_stalled STALL_LEASE_SECONDS (days 200) ex_pending = Return (0, ex_pending)"
    by (simp add: reclaim_stalled_def lease_expired_def rowcount_def ex_defs)
  have h: "is_sha256 ex_hash" by (simp add: is_sha256_def ex_hash_def list_all_iff)
  have c: "\<forall>k. days 200 \<le> ow_claim_at ex_outside k \<and> ow_locked ex_outside k = []"
    by (simp add: ex_outside_def)
  have due: "ex_row \<in> set (lg_jobs ex_pending)" "is_due (days 200) ex_row"
    by (simp_all add: ex_defs is_due_def)
  show ?thesis
  proof (cases "drain ex_outside (days 200) (days 200) True (Some ex_hash) ex_pending")
    case (Inl x)
    with drain_moves_every_due_row_on [OF ex_pending_wf r h c] show ?thesis by (cases x) simp
  next
    case (Inr x)
    with drain_moves_every_due_row_on [OF ex_pending_wf r h c] due show ?thesis by (cases x) simp
  qed
qed

end
