(* ===== verification/Transfer_Repair.thy ===== *)
theory Transfer_Repair
  imports Outcome_Queue "HOL-Library.Multiset"
begin

text \<open>
  \<open>api/doug/transfer_repair.py\<close>: find the censorings a repository transfer caused, take them out of
  the ledger and requeue their jobs, and put them back. The manifest file is part of the state. Its
  rows are the deleted rows; the one temporal column is text there, either the ISO form of an
  instant or something else. Whether the database accepts the writes of a transaction is an argument.
\<close>

datatype iso_text = Iso instant | NotIso string

record manifest_row =
  mf_row :: outcome_row
  mf_observed_at :: iso_text

type_synonym manifest_file = "manifest_row list option"

datatype repair_error =
    ManifestExists
  | WrongCount nat nat
  | ManifestMissing
  | NotIso8601 int string
  | NullColumn
  | Database ledger_error

record repair_row =
  rr_outcome_id :: int
  rr_installation :: int
  rr_repo :: int
  rr_pr :: int
  rr_window :: int
  rr_successor :: int
  rr_job_id :: "int option"

definition report_jobs :: "repair_row list \<Rightarrow> nat" where
  "report_jobs rows = length (filter (\<lambda>r. rr_job_id r \<noteq> None) rows)"

definition report_prs :: "repair_row list \<Rightarrow> nat" where
  "report_prs rows = card ((\<lambda>r. (rr_repo r, rr_pr r)) ` set rows)"

subsection \<open>Inspection\<close>

definition censor_reason_of :: "stored_detail option \<Rightarrow> censor_reason option" where
  "censor_reason_of d = (case d of Some (Detail od prereg) \<Rightarrow> od_censor_reason od | _ \<Rightarrow> None)"

text \<open>Ascending order and plain overwriting: the newest active registration wins.\<close>

definition live_installations :: "int list \<Rightarrow> ('a registry_scheme) \<Rightarrow> (int \<times> int) list" where
  "live_installations repos db =
     (if repos = [] then []
      else fold (\<lambda>r. dict_set (ip_repo r) (ip_installation r))
             (sort_key (\<lambda>r. (ip_updated_at r, ip_id r))
                (filter (\<lambda>r. ip_repo r \<in> set repos \<and> covers_live db r) (rg_repos db))) [])"

definition candidates :: "ledger \<Rightarrow> outcome_row list" where
  "candidates db =
     sort_key (\<lambda>r. (the (os_github_repo r), os_pr r))
       (filter (\<lambda>r. os_kind r = ''censored'' \<and> os_github_repo r \<noteq> None \<and> os_installation r \<noteq> None) (lg_outcomes db))"

definition job_of_outcome :: "outcome_row \<Rightarrow> outcome_job \<Rightarrow> bool" where
  "job_of_outcome r j \<longleftrightarrow> os_installation r = Some (oj_installation j) \<and> os_github_repo r = Some (oj_repo j) \<and>
     os_pr r = oj_pr j \<and> os_window r = Some (oj_window j)"

definition repair_successor :: "(int \<times> int) list \<Rightarrow> outcome_row \<Rightarrow> int option" where
  "repair_successor live r =
     (case dict_get live (the (os_github_repo r)) of
        None \<Rightarrow> None
      | Some successor \<Rightarrow>
          if successor = the (os_installation r) then None
          else if censor_reason_of (os_detail r) \<noteq> Some Unreachable then None
          else Some successor)"

fun inspect_rows ::
    "(int \<times> int) list \<Rightarrow> outcome_job list \<Rightarrow> outcome_row list \<Rightarrow> (repair_error, repair_row list) result" where
  "inspect_rows live jobs [] = Return []"
| "inspect_rows live jobs (r # rs) =
     (case repair_successor live r of
        None \<Rightarrow> inspect_rows live jobs rs
      | Some successor \<Rightarrow>
          let found = filter (job_of_outcome r) jobs
          in if length found > 1 then Raise (Database MultipleRows)
             else (case os_window r of
                None \<Rightarrow> Raise NullColumn
              | Some w \<Rightarrow>
                  (case inspect_rows live jobs rs of
                     Inl e \<Rightarrow> Raise e
                   | Inr rows \<Rightarrow> Return (\<lparr>rr_outcome_id = os_id r, rr_installation = the (os_installation r),
                       rr_repo = the (os_github_repo r), rr_pr = os_pr r, rr_window = w, rr_successor = successor,
                       rr_job_id = (case found of [] \<Rightarrow> None | j # js \<Rightarrow> Some (oj_id j))\<rparr> # rows))))"

definition inspect :: "ledger \<Rightarrow> (repair_error, repair_row list) result" where
  "inspect db =
     (let rows = candidates db
      in if rows = [] then Return []
         else inspect_rows (live_installations (map (\<lambda>r. the (os_github_repo r)) rows) db) (lg_jobs db) rows)"

subsection \<open>Apply and rollback\<close>

definition serialise :: "outcome_row \<Rightarrow> manifest_row" where
  "serialise r = \<lparr>mf_row = r, mf_observed_at = Iso (os_observed_at r)\<rparr>"

definition repend :: "outcome_job \<Rightarrow> outcome_job" where
  "repend j = j\<lparr>oj_status := Pending, oj_started_at := None, oj_finished_at := None, oj_error := None\<rparr>"

text \<open>
  The manifest is written before the delete. When the transaction then fails the file is removed on
  the way out, so a failure leaves the ledger and the file system as they were.
\<close>

definition apply_repair ::
    "bool \<Rightarrow> nat \<Rightarrow> manifest_file \<Rightarrow> ledger \<Rightarrow>
     (repair_error, repair_row list) result \<times> manifest_file \<times> ledger" where
  "apply_repair commits expect file db =
     (if file \<noteq> None then (Raise ManifestExists, file, db)
      else case inspect db of
        Inl e \<Rightarrow> (Raise e, file, db)
      | Inr rows \<Rightarrow>
          if length rows \<noteq> expect then (Raise (WrongCount expect (length rows)), file, db)
          else if rows = [] then (Return [], Some [], db)
          else let ids = map rr_outcome_id rows;
                   deleted = filter (\<lambda>r. os_id r \<in> set ids) (lg_outcomes db);
                   job_ids = concat (map (\<lambda>r. case rr_job_id r of None \<Rightarrow> [] | Some i \<Rightarrow> [i]) rows)
               in if \<not> commits then (Raise (Database NoEngine), None, db)
                  else (Return rows, Some (map serialise deleted),
                        db\<lparr>lg_outcomes := filter (\<lambda>r. os_id r \<notin> set ids) (lg_outcomes db),
                           lg_jobs := update_where (\<lambda>j. oj_id j \<in> set job_ids) repend (lg_jobs db)\<rparr>))"

fun parse_rows :: "manifest_row list \<Rightarrow> (repair_error, outcome_row list) result" where
  "parse_rows [] = Return []"
| "parse_rows (m # ms) =
     (case mf_observed_at m of
        NotIso s \<Rightarrow> Raise (NotIso8601 (os_id (mf_row m)) s)
      | Iso t \<Rightarrow>
          (case parse_rows ms of
             Inl e \<Rightarrow> Raise e
           | Inr rows \<Rightarrow> Return ((mf_row m)\<lparr>os_observed_at := t\<rparr> # rows)))"

fun insert_rows :: "outcome_row list \<Rightarrow> outcome_row list \<Rightarrow> (repair_error, outcome_row list) result" where
  "insert_rows [] rows = Return rows"
| "insert_rows (r # rs) rows =
     (if \<exists>q \<in> set rows. same_index r q \<or> os_id q = os_id r then Raise (Database UniqueViolation)
      else insert_rows rs (rows @ [r]))"

definition rollback_repair ::
    "nat \<Rightarrow> manifest_file \<Rightarrow> ledger \<Rightarrow> (repair_error, nat \<times> ledger) result" where
  "rollback_repair expect file db =
     (case file of
        None \<Rightarrow> Raise ManifestMissing
      | Some ms \<Rightarrow>
          if length ms \<noteq> expect then Raise (WrongCount expect (length ms))
          else if ms = [] then Return (0, db)
          else (case parse_rows ms of
             Inl e \<Rightarrow> Raise e
           | Inr restored \<Rightarrow>
               let present = filter (\<lambda>r. os_id r \<in> os_id ` set restored) (lg_outcomes db);
                   missing = filter (\<lambda>r. os_id r \<notin> os_id ` set present) restored
               in case insert_rows missing (lg_outcomes db) of
                    Inl e \<Rightarrow> Raise e
                  | Inr outs \<Rightarrow>
                      Return (length missing, db\<lparr>lg_outcomes := outs,
                        lg_jobs := update_where
                          (\<lambda>j. \<exists>r \<in> set outs. job_of_outcome r j \<and> os_id r \<in> os_id ` set restored)
                          (\<lambda>j. j\<lparr>oj_status := Done\<rparr>) (lg_jobs db)\<rparr>)))"

subsection \<open>The two readings of the registry agree\<close>

lemma fold_last_write:
  "dict_get (fold (\<lambda>r. dict_set (k r) (v r)) rs d) x =
     (case filter (\<lambda>r. k r = x) rs of [] \<Rightarrow> dict_get d x | y # ys \<Rightarrow> Some (v (last (y # ys))))"
proof (induction rs arbitrary: d)
  case (Cons r rs)
  then show ?case by (auto split: list.splits)
qed simp

lemma filter_sort_key: "filter p (sort_key f xs) = sort_key f (filter p xs)"
  by (simp add: filter_sort)

lemma sorted_last: "sorted (map f xs) \<Longrightarrow> x \<in> set xs \<Longrightarrow> f x \<le> f (last xs)"
  by (induction xs) (auto split: if_splits)

lemma last_of_sort:
  fixes rs :: "repo_row list"
  assumes "distinct (map ip_id rs)" and "rs \<noteq> []"
  shows "first_by newest_key rs = Some (last (sort_key (\<lambda>r. (ip_updated_at r, ip_id r)) rs))"
proof -
  let ?f = "\<lambda>r. (ip_updated_at r, ip_id r)"
  let ?s = "sort_key ?f rs"
  obtain m where m: "first_by newest_key rs = Some m" using assms(2) by (cases "first_by newest_key rs") auto
  note least = first_by_Some [OF m]
  have "?s \<noteq> []" using assms(2) by (metis length_0_conv length_sort)
  then have last: "last ?s \<in> set rs" by (metis last_in_set set_sort)
  have "sorted (map ?f ?s)" by simp
  moreover have "m \<in> set ?s" using least by simp
  ultimately have "?f m \<le> ?f (last ?s)"
    by (rule sorted_last)
  moreover have "newest_key m \<le> newest_key (last ?s)" using least last by blast
  ultimately have "ip_id m = ip_id (last ?s)"
    by (auto simp: newest_key_def less_eq_prod_def)
  with assms(1) least last have "m = last ?s" by (auto simp: distinct_map dest: inj_onD)
  with m show ?thesis by simp
qed

lemma live_agrees:
  assumes wf: "registry_wf db" and "repo \<in> set repos"
  shows "dict_get (live_installations repos db) repo = map_option fst (live_registration db repo)"
proof -
  let ?f = "\<lambda>r. (ip_updated_at r, ip_id r)"
  let ?all = "filter (\<lambda>r. ip_repo r \<in> set repos \<and> covers_live db r) (rg_repos db)"
  let ?one = "filter (\<lambda>r. ip_repo r = repo \<and> covers_live db r) (rg_repos db)"
  have one: "filter (\<lambda>r. ip_repo r = repo) (sort_key ?f ?all) = sort_key ?f ?one"
    using assms(2) by (simp add: filter_sort_key) (rule arg_cong [of _ _ "sort_key ?f"], rule filter_cong, auto)
  have dist: "distinct (map ip_id ?one)" using wf by (simp add: registry_wf_def distinct_map_filter)
  have "repos \<noteq> []" using assms(2) by auto
  then have "dict_get (live_installations repos db) repo =
      (case sort_key ?f ?one of [] \<Rightarrow> None | y # ys \<Rightarrow> Some (ip_installation (last (y # ys))))"
    by (simp add: live_installations_def fold_last_write one split: list.split)
  also have "\<dots> = map_option fst (live_registration db repo)"
  proof (cases "?one = []")
    case True
    then show ?thesis by (simp add: live_registration_def)
  next
    case False
    have "sort_key ?f ?one \<noteq> []" using False by (metis length_0_conv length_sort)
    then obtain y ys where "sort_key ?f ?one = y # ys" by (cases "sort_key ?f ?one") auto
    with last_of_sort [OF dist False] show ?thesis by (simp add: live_registration_def)
  qed
  finally show ?thesis .
qed

subsection \<open>What inspection finds\<close>

text \<open>The three conditions of the module, in terms of the registry's own look-up.\<close>

definition transfer_censored :: "ledger \<Rightarrow> outcome_row \<Rightarrow> bool" where
  "transfer_censored db r \<longleftrightarrow>
     os_kind r = ''censored'' \<and> censor_reason_of (os_detail r) = Some Unreachable \<and>
     (\<exists>inst repo successor name. os_installation r = Some inst \<and> os_github_repo r = Some repo \<and>
        live_registration db repo = Some (successor, name) \<and> successor \<noteq> inst)"

lemma inspect_rows_ids:
  "inspect_rows live jobs rs = Return rows \<Longrightarrow>
   map rr_outcome_id rows = map os_id (filter (\<lambda>r. repair_successor live r \<noteq> None) rs)"
  by (induction rs arbitrary: rows) (auto simp: Let_def split: option.splits if_splits sum.splits)

lemma inspect_rows_jobs:
  "inspect_rows live jobs rs = Return rows \<Longrightarrow>
   {i. Some i \<in> rr_job_id ` set rows} =
     oj_id ` {j \<in> set jobs. \<exists>r \<in> set rs. repair_successor live r \<noteq> None \<and> job_of_outcome r j}"
proof (induction rs arbitrary: rows)
  case (Cons r rs)
  show ?case
  proof (cases "repair_successor live r")
    case None
    with Cons show ?thesis by simp
  next
    case (Some successor)
    let ?found = "filter (job_of_outcome r) jobs"
    obtain rows' where rest: "inspect_rows live jobs rs = Return rows'" "length ?found \<le> 1"
        "set (map rr_job_id rows) = insert (case ?found of [] \<Rightarrow> None | j # js \<Rightarrow> Some (oj_id j)) (set (map rr_job_id rows'))"
      using Cons.prems Some by (auto simp: Let_def split: if_splits option.splits sum.splits)
    have "{i. Some i = (case ?found of [] \<Rightarrow> None | j # js \<Rightarrow> Some (oj_id j))} = oj_id ` set ?found"
      using rest(2) by (cases ?found) auto
    moreover have "{i. Some i \<in> rr_job_id ` set rows} =
        {i. Some i = (case ?found of [] \<Rightarrow> None | j # js \<Rightarrow> Some (oj_id j))} \<union> {i. Some i \<in> rr_job_id ` set rows'}"
      using rest(3) by auto
    moreover have "{j \<in> set jobs. \<exists>q \<in> set (r # rs). repair_successor live q \<noteq> None \<and> job_of_outcome q j} =
        set ?found \<union> {j \<in> set jobs. \<exists>q \<in> set rs. repair_successor live q \<noteq> None \<and> job_of_outcome q j}"
      using Some by auto
    ultimately show ?thesis using Cons.IH [OF rest(1)] by (simp only: image_Un)
  qed
qed simp

lemma repair_successor_iff:
  assumes "registry_wf db" and "r \<in> set (candidates db)"
  shows "repair_successor (live_installations (map (\<lambda>r. the (os_github_repo r)) (candidates db)) db) r \<noteq> None \<longleftrightarrow>
         transfer_censored db r"
proof -
  obtain repo inst where r: "os_github_repo r = Some repo" "os_installation r = Some inst" "os_kind r = ''censored''"
    using assms(2) by (auto simp: candidates_def)
  then have "repo \<in> set (map (\<lambda>r. the (os_github_repo r)) (candidates db))"
    using map_mem [OF assms(2), of "\<lambda>r. the (os_github_repo r)" repo] by simp
  from live_agrees [OF assms(1) this] r show ?thesis
    by (auto simp: repair_successor_def transfer_censored_def split: option.splits)
qed

lemma inspect_finds:
  assumes "registry_wf db" and "inspect db = Return rows"
  shows "set (map rr_outcome_id rows) = os_id ` {r \<in> set (lg_outcomes db). transfer_censored db r}"
    and "{i. Some i \<in> rr_job_id ` set rows} =
      oj_id ` {j \<in> set (lg_jobs db). \<exists>r \<in> set (lg_outcomes db). transfer_censored db r \<and> job_of_outcome r j}"
proof -
  have cand: "r \<in> set (candidates db) \<and> transfer_censored db r \<longleftrightarrow> r \<in> set (lg_outcomes db) \<and> transfer_censored db r" for r
    by (auto simp: candidates_def transfer_censored_def)
  show "set (map rr_outcome_id rows) = os_id ` {r \<in> set (lg_outcomes db). transfer_censored db r}"
  proof (cases "candidates db = []")
    case True
    with assms(2) cand show ?thesis by (auto simp: inspect_def)
  next
    case False
    with assms(2) have "inspect_rows (live_installations (map (\<lambda>r. the (os_github_repo r)) (candidates db)) db) (lg_jobs db) (candidates db) = Return rows"
      by (simp add: inspect_def Let_def)
    from inspect_rows_ids [OF this] have "set (map rr_outcome_id rows) = os_id ` {r \<in> set (candidates db).
        repair_successor (live_installations (map (\<lambda>r. the (os_github_repo r)) (candidates db)) db) r \<noteq> None}"
      by (metis set_filter set_map)
    also have "\<dots> = os_id ` {r \<in> set (lg_outcomes db). transfer_censored db r}"
      using repair_successor_iff [OF assms(1)] cand by (metis (no_types, lifting))
    finally show ?thesis .
  qed
  show "{i. Some i \<in> rr_job_id ` set rows} =
      oj_id ` {j \<in> set (lg_jobs db). \<exists>r \<in> set (lg_outcomes db). transfer_censored db r \<and> job_of_outcome r j}"
  proof (cases "candidates db = []")
    case True
    with assms(2) cand show ?thesis by (auto simp: inspect_def)
  next
    case False
    with assms(2) have "inspect_rows (live_installations (map (\<lambda>r. the (os_github_repo r)) (candidates db)) db) (lg_jobs db) (candidates db) = Return rows"
      by (simp add: inspect_def Let_def)
    note found = inspect_rows_jobs [OF this]
    have "(\<exists>r \<in> set (candidates db). repair_successor
          (live_installations (map (\<lambda>r. the (os_github_repo r)) (candidates db)) db) r \<noteq> None \<and> job_of_outcome r j) \<longleftrightarrow>
        (\<exists>r \<in> set (lg_outcomes db). transfer_censored db r \<and> job_of_outcome r j)" for j
      using repair_successor_iff [OF assms(1)] cand by blast
    then show ?thesis unfolding found by simp
  qed
qed

lemma inspect_rows_unique:
  "inspect_rows live jobs rs = Return rows \<Longrightarrow> r \<in> set rs \<Longrightarrow> repair_successor live r \<noteq> None \<Longrightarrow>
   length (filter (job_of_outcome r) jobs) \<le> 1"
  by (induction rs arbitrary: rows) (auto simp: Let_def split: option.splits if_splits sum.splits)

lemma inspect_unique:
  assumes "registry_wf db" and "inspect db = Return rows" and "r \<in> set (lg_outcomes db)" and "transfer_censored db r"
  shows "length (filter (job_of_outcome r) (lg_jobs db)) \<le> 1"
proof -
  have r: "r \<in> set (candidates db)" using assms(3,4) by (auto simp: candidates_def transfer_censored_def)
  then have "candidates db \<noteq> []" by auto
  then have "inspect_rows (live_installations (map (\<lambda>r. the (os_github_repo r)) (candidates db)) db) (lg_jobs db) (candidates db) = Return rows"
    using assms(2) by (simp add: inspect_def Let_def)
  from inspect_rows_unique [OF this r] repair_successor_iff [OF assms(1) r] assms(4) show ?thesis by blast
qed

lemma inspect_length:
  assumes "registry_wf db" and "ledger_wf db" and "inspect db = Return rows"
  shows "length rows = length (filter (transfer_censored db) (lg_outcomes db))"
proof (cases "candidates db = []")
  case True
  moreover have "filter (transfer_censored db) (lg_outcomes db) = []"
  proof -
    have "set (candidates db) = {}" using True by simp
    then show ?thesis by (auto simp: candidates_def transfer_censored_def filter_empty_conv)
  qed
  ultimately show ?thesis using assms(3) by (simp add: inspect_def)
next
  case False
  let ?live = "live_installations (map (\<lambda>r. the (os_github_repo r)) (candidates db)) db"
  have "inspect_rows ?live (lg_jobs db) (candidates db) = Return rows"
    using assms(3) False by (simp add: inspect_def Let_def)
  then have "length rows = length (filter (\<lambda>r. repair_successor ?live r \<noteq> None) (candidates db))"
    by (metis inspect_rows_ids length_map)
  also have "filter (\<lambda>r. repair_successor ?live r \<noteq> None) (candidates db) = filter (transfer_censored db) (candidates db)"
    by (rule filter_cong [OF refl]) (rule repair_successor_iff [OF assms(1)])
  also have "length \<dots> = length (filter (transfer_censored db) (lg_outcomes db))"
  proof -
    have "filter (transfer_censored db) (candidates db) = sort_key (\<lambda>r. (the (os_github_repo r), os_pr r))
        (filter (transfer_censored db) (lg_outcomes db))"
      unfolding candidates_def filter_sort_key filter_filter
      by (rule arg_cong [of _ _ "sort_key _"], rule filter_cong) (auto simp: transfer_censored_def)
    then show ?thesis by simp
  qed
  finally show ?thesis .
qed

subsection \<open>What the pairing says about the repaired rows\<close>

lemma identities_filter: "set (identities (filter p rows)) = {i. \<exists>r \<in> set rows. p r \<and> settled_identity r = Some i}"
  by (induction rows) (auto split: option.splits)

lemma identities_inj:
  "distinct (identities rows) \<Longrightarrow> r \<in> set rows \<Longrightarrow> q \<in> set rows \<Longrightarrow> settled_identity r = Some i \<Longrightarrow>
   settled_identity q = Some i \<Longrightarrow> r = q"
  by (induction rows) (auto dest: in_identities split: option.splits)

lemma distinct_identities_filter: "distinct (identities rows) \<Longrightarrow> distinct (identities (filter p rows))"
proof (induction rows)
  case (Cons r rows)
  have "set (identities (filter p rows)) \<subseteq> set (identities rows)"
    unfolding identities_filter by (auto intro: in_identities)
  with Cons show ?case by (auto split: option.splits)
qed simp

text \<open>A censored row's job: the one the query without the merge commit finds.\<close>

lemma outcome_job:
  assumes wf: "ledger_wf db" and r: "r \<in> set (lg_outcomes db)" and repo: "os_github_repo r \<noteq> None"
    and one: "length (filter (job_of_outcome r) (lg_jobs db)) \<le> 1"
  shows "\<exists>j. j \<in> set (lg_jobs db) \<and> oj_status j = Done \<and> settled_identity r = Some (job_identity j) \<and>
     (\<forall>k \<in> set (lg_jobs db). job_of_outcome r k \<longleftrightarrow> k = j)"
proof -
  obtain i where i: "settled_identity r = Some i"
    using wf r repo by (auto simp: ledger_wf_def paired_def list_all_iff)
  with r have "i \<in> set (identities (lg_outcomes db))" by (rule in_identities)
  then obtain j where j: "j \<in> set (lg_jobs db)" "oj_status j = Done" "i = job_identity j"
    using wf by (auto simp: ledger_wf_def paired_def)
  have "job_of_outcome r j"
    using i j(3) by (auto simp: settled_identity_def job_of_outcome_def job_identity_def split: option.splits)
  moreover have "k = j" if "k \<in> set (lg_jobs db)" "job_of_outcome r k" for k
  proof -
    have "j \<in> set (filter (job_of_outcome r) (lg_jobs db))" "k \<in> set (filter (job_of_outcome r) (lg_jobs db))"
      using that j(1) \<open>job_of_outcome r j\<close> by auto
    with one show ?thesis by (cases "filter (job_of_outcome r) (lg_jobs db)") auto
  qed
  ultimately show ?thesis using i j by blast
qed

definition repaired_job :: "ledger \<Rightarrow> outcome_job \<Rightarrow> bool" where
  "repaired_job db j \<longleftrightarrow>
     (\<exists>r \<in> set (lg_outcomes db). transfer_censored db r \<and> settled_identity r = Some (job_identity j))"

definition repaired :: "ledger \<Rightarrow> ledger" where
  "repaired db = db\<lparr>lg_outcomes := filter (\<lambda>r. \<not> transfer_censored db r) (lg_outcomes db),
     lg_jobs := map (\<lambda>j. if repaired_job db j then repend j else j) (lg_jobs db)\<rparr>"

lemma apply_effect:
  assumes wf: "ledger_wf db" and reg: "registry_wf db"
    and app: "apply_repair True n None db = (Return rows, file, db')"
  shows "length (filter (transfer_censored db) (lg_outcomes db)) = n" and "length rows = n"
    and "file = Some (map serialise (filter (transfer_censored db) (lg_outcomes db)))"
    and "db' = repaired db"
    and "\<And>r. r \<in> set (lg_outcomes db) \<Longrightarrow> transfer_censored db r \<Longrightarrow> length (filter (job_of_outcome r) (lg_jobs db)) \<le> 1"
proof -
  obtain rows' where ins: "inspect db = Return rows'" using app
    by (cases "inspect db") (auto simp: apply_repair_def split: if_splits)
  with app have n: "length rows' = n" and rows: "rows = rows'"
    by (auto simp: apply_repair_def Let_def split: if_splits)
  note len = inspect_length [OF reg wf ins]
  show uniq: "length (filter (job_of_outcome r) (lg_jobs db)) \<le> 1"
    if "r \<in> set (lg_outcomes db)" "transfer_censored db r" for r
    using inspect_unique [OF reg ins that] .
  show "length (filter (transfer_censored db) (lg_outcomes db)) = n" "length rows = n"
    using len n rows by simp_all
  let ?ids = "map rr_outcome_id rows'"
  let ?job_ids = "concat (map (\<lambda>r. case rr_job_id r of None \<Rightarrow> [] | Some i \<Rightarrow> [i]) rows')"
  have ids: "os_id r \<in> set ?ids \<longleftrightarrow> transfer_censored db r" if r: "r \<in> set (lg_outcomes db)" for r
  proof
    assume "os_id r \<in> set ?ids"
    then obtain q where q: "q \<in> set (lg_outcomes db)" "transfer_censored db q" "os_id q = os_id r"
      unfolding inspect_finds(1) [OF reg ins] by auto
    moreover have "inj_on os_id (set (lg_outcomes db))" using wf by (simp add: ledger_wf_def paired_def distinct_map)
    ultimately have "q = r" using r by (meson inj_onD)
    with q(2) show "transfer_censored db r" by simp
  next
    assume "transfer_censored db r"
    then show "os_id r \<in> set ?ids" unfolding inspect_finds(1) [OF reg ins] using r by blast
  qed
  have "set ?job_ids = {i. Some i \<in> rr_job_id ` set rows'}"
    by (force split: option.splits)
  then have jobs: "set ?job_ids = oj_id ` {j \<in> set (lg_jobs db). \<exists>r \<in> set (lg_outcomes db). transfer_censored db r \<and> job_of_outcome r j}"
    by (simp only: inspect_finds(2) [OF reg ins])
  have job_id: "oj_id j \<in> set ?job_ids \<longleftrightarrow> repaired_job db j" if j: "j \<in> set (lg_jobs db)" for j
  proof -
    have "oj_id j \<in> set ?job_ids \<longleftrightarrow> (\<exists>r \<in> set (lg_outcomes db). transfer_censored db r \<and> job_of_outcome r j)"
    proof
      assume "oj_id j \<in> set ?job_ids"
      then obtain k where k: "oj_id j = oj_id k" "k \<in> {j \<in> set (lg_jobs db). \<exists>r \<in> set (lg_outcomes db). transfer_censored db r \<and> job_of_outcome r j}"
        unfolding jobs by (rule imageE)
      then have "j = k" using job_id_unique [of db j k] j wf by (simp add: ledger_wf_def)
      with k(2) show "\<exists>r \<in> set (lg_outcomes db). transfer_censored db r \<and> job_of_outcome r j" by simp
    qed (use j jobs in blast)
    also have "\<dots> \<longleftrightarrow> repaired_job db j"
      unfolding repaired_job_def
    proof (rule bex_cong [OF refl])
      fix r assume r: "r \<in> set (lg_outcomes db)"
      show "transfer_censored db r \<and> job_of_outcome r j \<longleftrightarrow> transfer_censored db r \<and> settled_identity r = Some (job_identity j)"
      proof (rule conj_cong [OF refl])
        assume c: "transfer_censored db r"
        then obtain k where k: "k \<in> set (lg_jobs db)" "settled_identity r = Some (job_identity k)"
            "\<forall>l \<in> set (lg_jobs db). job_of_outcome r l \<longleftrightarrow> l = k"
          using outcome_job [OF wf r _ uniq [OF r c]] by (auto simp: transfer_censored_def)
        moreover have "inj_on job_identity (set (lg_jobs db))" using wf by (simp add: ledger_wf_def jobs_wf_def distinct_map)
        ultimately show "job_of_outcome r j \<longleftrightarrow> settled_identity r = Some (job_identity j)"
          using j by (metis inj_onD option.inject)
      qed
    qed
    finally show ?thesis .
  qed
  have "filter (\<lambda>r. os_id r \<in> set ?ids) (lg_outcomes db) = filter (transfer_censored db) (lg_outcomes db)"
    by (rule filter_cong [OF refl ids])
  moreover have "filter (\<lambda>r. os_id r \<notin> set ?ids) (lg_outcomes db) = filter (\<lambda>r. \<not> transfer_censored db r) (lg_outcomes db)"
    by (rule filter_cong [OF refl]) (simp only: ids)
  moreover have "update_where (\<lambda>j. oj_id j \<in> set ?job_ids) repend (lg_jobs db) =
      map (\<lambda>j. if repaired_job db j then repend j else j) (lg_jobs db)"
    unfolding update_where_def by (rule map_cong [OF refl]) (simp only: job_id)
  moreover have "filter (transfer_censored db) (lg_outcomes db) = []" if "rows' = []"
    using len that by simp
  moreover have "map (\<lambda>j. if repaired_job db j then repend j else j) (lg_jobs db) = lg_jobs db" if "rows' = []"
    using len that by (auto simp: repaired_job_def filter_empty_conv intro!: map_idI)
  moreover have "filter (\<lambda>r. \<not> transfer_censored db r) (lg_outcomes db) = lg_outcomes db" if "rows' = []"
    using len that by (auto simp: filter_empty_conv filter_id_conv)
  ultimately show "file = Some (map serialise (filter (transfer_censored db) (lg_outcomes db)))" "db' = repaired db"
    using app ins n by (auto simp: apply_repair_def repaired_def Let_def split: if_splits)
qed

lemma repaired_wf:
  assumes wf: "ledger_wf db"
  shows "ledger_wf (repaired db)"
proof -
  have jwf: "jobs_wf db" and pw: "paired db" using wf by (simp_all add: ledger_wf_def)
  let ?f = "\<lambda>j. if repaired_job db j then repend j else j"
  have f: "oj_id (?f j) = oj_id j" "job_identity (?f j) = job_identity j" for j
    by (simp_all add: repend_def job_identity_def)
  have "jobs_wf (repaired db)"
    using jobs_wf_map [OF jwf, of ?f] f by (simp add: repaired_def jobs_wf_def)
  moreover have "paired (repaired db)"
  proof -
    let ?outs = "filter (\<lambda>r. \<not> transfer_censored db r) (lg_outcomes db)"
    have "set (identities ?outs) = job_identity ` {j \<in> set (map ?f (lg_jobs db)). oj_status j = Done}" (is "?L = ?R")
    proof
      show "?L \<subseteq> ?R"
      proof
        fix i assume "i \<in> ?L"
        then obtain r where r: "r \<in> set (lg_outcomes db)" "\<not> transfer_censored db r" "settled_identity r = Some i"
          unfolding identities_filter by blast
        then have "i \<in> set (identities (lg_outcomes db))" by (blast intro: in_identities)
        then obtain j where j: "j \<in> set (lg_jobs db)" "oj_status j = Done" "i = job_identity j"
          using pw by (auto simp: paired_def)
        have "\<not> repaired_job db j"
          using r j(3) pw by (auto simp: repaired_job_def paired_def dest: identities_inj)
        then have "j \<in> set (map ?f (lg_jobs db))" by (intro map_mem [OF j(1)]) simp
        with j(2,3) show "i \<in> ?R" by blast
      qed
      show "?R \<subseteq> ?L"
      proof
        fix i assume "i \<in> ?R"
        then obtain j where j: "j \<in> set (lg_jobs db)" "oj_status (?f j) = Done" "i = job_identity (?f j)" by auto
        then have nr: "\<not> repaired_job db j" by (auto simp: repend_def split: if_splits)
        with j have "i \<in> set (identities (lg_outcomes db))" using pw by (auto simp: paired_def)
        then obtain r where "r \<in> set (lg_outcomes db)" "settled_identity r = Some i"
          using identities_filter [of "\<lambda>r. True" "lg_outcomes db"] by auto
        moreover have "i = job_identity j" using j(3) f(2) by simp
        ultimately have "\<not> transfer_censored db r" using nr by (auto simp: repaired_job_def)
        with \<open>r \<in> set (lg_outcomes db)\<close> \<open>settled_identity r = Some i\<close> show "i \<in> ?L"
          unfolding identities_filter by blast
      qed
    qed
    then show ?thesis
      using pw by (simp add: paired_def repaired_def distinct_map_filter distinct_identities_filter list_all_iff)
  qed
  moreover have "rg_configured (repaired db)" using wf by (simp add: ledger_wf_def repaired_def)
  ultimately show ?thesis by (simp add: ledger_wf_def)
qed

subsection \<open>Rollback\<close>

lemma parse_serialised: "parse_rows (map serialise rows) = Return rows"
  by (induction rows) (simp_all add: serialise_def)

lemma insert_rows_fresh:
  "(\<forall>r \<in> set rs. \<forall>q \<in> set rows. \<not> same_index r q \<and> os_id q \<noteq> os_id r) \<Longrightarrow> distinct (map os_id rs) \<Longrightarrow>
   (\<forall>r \<in> set rs. \<forall>q \<in> set rs. same_index r q \<longrightarrow> r = q) \<Longrightarrow> insert_rows rs rows = Return (rows @ rs)"
proof (induction rs arbitrary: rows)
  case (Cons r rs)
  have "\<forall>x \<in> set rs. \<forall>q \<in> set (rows @ [r]). \<not> same_index x q \<and> os_id q \<noteq> os_id x"
    using Cons.prems by (auto simp: image_iff)
  moreover have "\<not> (\<exists>q \<in> set rows. same_index r q \<or> os_id q = os_id r)" using Cons.prems(1) by auto
  ultimately show ?case using Cons.IH [of "rows @ [r]"] Cons.prems(2,3) by simp
qed simp

lemma same_index_identity:
  "same_index r q \<Longrightarrow> \<exists>i. settled_identity r = Some i \<and> settled_identity q = Some i"
  by (cases "os_merge_sha q"; cases "os_installation q"; cases "os_github_repo q"; cases "os_window q")
     (auto simp: same_index_def outcome_key_def settled_identity_def)

lemma rollback_of_repair:
  assumes wf: "ledger_wf db"
    and uniq: "\<And>r. r \<in> set (lg_outcomes db) \<Longrightarrow> transfer_censored db r \<Longrightarrow> length (filter (job_of_outcome r) (lg_jobs db)) \<le> 1"
  defines "bad \<equiv> filter (transfer_censored db) (lg_outcomes db)"
  shows "rollback_repair (length bad) (Some (map serialise bad)) (repaired db) =
     Return (length bad, (repaired db)\<lparr>lg_outcomes := lg_outcomes (repaired db) @ bad,
       lg_jobs := map (\<lambda>j. if repaired_job db j then (repend j)\<lparr>oj_status := Done\<rparr> else j) (lg_jobs db)\<rparr>)"
proof (cases "bad = []")
  case True
  then have "\<And>j. \<not> repaired_job db j" by (auto simp: repaired_job_def bad_def filter_empty_conv)
  with True show ?thesis by (simp add: rollback_repair_def repaired_def)
next
  case False
  have pw: "paired db" using wf by (simp add: ledger_wf_def)
  have inj: "r = q" if "r \<in> set (lg_outcomes db)" "q \<in> set (lg_outcomes db)" "os_id r = os_id q" for r q
    using pw that by (auto simp: paired_def distinct_map dest: inj_onD)
  have idx: "r = q" if rq: "r \<in> set (lg_outcomes db)" "q \<in> set (lg_outcomes db)" "same_index r q" for r q
  proof -
    obtain i where "settled_identity r = Some i" "settled_identity q = Some i"
      using same_index_identity [OF rq(3)] by blast
    then show ?thesis using identities_inj rq(1,2) pw unfolding paired_def by blast
  qed
  let ?outs = "filter (\<lambda>r. \<not> transfer_censored db r) (lg_outcomes db)"
  have outs: "lg_outcomes (repaired db) = ?outs" by (simp add: repaired_def)
  have present: "filter (\<lambda>r. os_id r \<in> os_id ` set bad) ?outs = []"
    using inj by (auto simp: filter_empty_conv bad_def)
  have ins: "insert_rows bad ?outs = Return (?outs @ bad)"
  proof (rule insert_rows_fresh)
    show "\<forall>r \<in> set bad. \<forall>q \<in> set ?outs. \<not> same_index r q \<and> os_id q \<noteq> os_id r"
      using inj idx by (fastforce simp: bad_def)
    show "distinct (map os_id bad)" using pw by (simp add: bad_def paired_def distinct_map_filter)
    show "\<forall>r \<in> set bad. \<forall>q \<in> set bad. same_index r q \<longrightarrow> r = q" using idx by (auto simp: bad_def)
  qed
  have hit: "(\<exists>r \<in> set (?outs @ bad). job_of_outcome r (if repaired_job db j then repend j else j) \<and> os_id r \<in> os_id ` set bad) \<longleftrightarrow>
      repaired_job db j" if j: "j \<in> set (lg_jobs db)" for j
  proof -
    have "job_of_outcome r (if repaired_job db j then repend j else j) = job_of_outcome r j" for r
      by (simp add: job_of_outcome_def repend_def)
    moreover have "r \<in> set (?outs @ bad) \<and> os_id r \<in> os_id ` set bad \<longleftrightarrow> r \<in> set bad" for r
      using inj by (auto simp: bad_def)
    moreover have "(\<exists>r \<in> set bad. job_of_outcome r j) \<longleftrightarrow> repaired_job db j"
    proof -
      have "job_of_outcome r j \<longleftrightarrow> settled_identity r = Some (job_identity j)"
        if r: "r \<in> set (lg_outcomes db)" "transfer_censored db r" for r
      proof -
        obtain k where k: "k \<in> set (lg_jobs db)" "settled_identity r = Some (job_identity k)"
            "\<forall>l \<in> set (lg_jobs db). job_of_outcome r l \<longleftrightarrow> l = k"
          using outcome_job [OF wf r(1) _ uniq [OF r]] r(2) by (auto simp: transfer_censored_def)
        moreover have "inj_on job_identity (set (lg_jobs db))" using wf by (simp add: ledger_wf_def jobs_wf_def distinct_map)
        ultimately show ?thesis using j by (metis inj_onD option.inject)
      qed
      then show ?thesis by (auto simp: repaired_job_def bad_def)
    qed
    ultimately show ?thesis by blast
  qed
  have jobs: "lg_jobs (repaired db) = map (\<lambda>j. if repaired_job db j then repend j else j) (lg_jobs db)"
    by (simp add: repaired_def)
  have up: "update_where (\<lambda>j. \<exists>r \<in> set (?outs @ bad). job_of_outcome r j \<and> os_id r \<in> os_id ` set bad)
      (\<lambda>j. j\<lparr>oj_status := Done\<rparr>) (lg_jobs (repaired db)) =
    map (\<lambda>j. if repaired_job db j then (repend j)\<lparr>oj_status := Done\<rparr> else j) (lg_jobs db)"
    unfolding update_where_def jobs list.map_comp comp_def
    by (rule map_cong [OF refl]) (simp only: hit, simp)
  have missing: "filter (\<lambda>r. os_id r \<notin> os_id ` set []) bad = bad" by simp
  show ?thesis
    using False
    unfolding rollback_repair_def option.case length_map parse_serialised sum.case Let_def outs present missing ins up
    by simp
qed

subsection \<open>Properties\<close>

text \<open>
  The repair and the queue read the registry alike: for every repository asked about, the
  installation the repair takes to cover it now is the one the outcome queue would read it through.
\<close>
theorem repair_reads_the_registry_as_the_queue_does:
  assumes "registry_wf db" and "repo \<in> set repos"
  shows "dict_get (live_installations repos db) repo = map_option fst (live_registration db repo)"
  using assms by (rule live_agrees)

text \<open>
  The repair undoes exactly the censorings a transfer caused: when it succeeds, the rows it took
  out are those censored as unreachable whose repository another installation covers now, as many as
  the operator expected, and the manifest holds them whole; base-ref censorings, labels and every
  other row stay in place. The jobs of the removed rows, and no others, are pending again with their
  attempts and generations untouched, and outcomes still pair with done jobs.
\<close>
theorem repair_undoes_exactly_the_transfer_censorings:
  assumes "ledger_wf db" and "registry_wf db" and "apply_repair True n None db = (Return rows, file, db')"
  shows "lg_outcomes db' = filter (\<lambda>r. \<not> transfer_censored db r) (lg_outcomes db) \<and>
         file = Some (map serialise (filter (transfer_censored db) (lg_outcomes db))) \<and>
         length (filter (transfer_censored db) (lg_outcomes db)) = n \<and>
         lg_jobs db' = map (\<lambda>j. if \<exists>r \<in> set (lg_outcomes db). transfer_censored db r \<and> settled_identity r = Some (job_identity j)
                             then j\<lparr>oj_status := Pending, oj_started_at := None, oj_finished_at := None, oj_error := None\<rparr>
                             else j) (lg_jobs db) \<and>
         ledger_wf db'"
  using apply_effect [OF assms] repaired_wf [OF assms(1)]
  by (simp add: repaired_def repaired_job_def repend_def cong: if_cong)

text \<open>
  C28. Rolling a repair back restores the ledger: after a successful apply, rollback with the same
  count puts the deleted rows back, no row more or less, and every job has its identity, status,
  attempts and generation of before, so outcomes and done jobs pair as they did.
\<close>
theorem rollback_restores_the_ledger:
  assumes "ledger_wf db" and "registry_wf db" and "apply_repair True n None db = (Return rows, file, db')"
  shows "\<exists>db''. rollback_repair n file db' = Return (n, db'') \<and>
           mset (lg_outcomes db'') = mset (lg_outcomes db) \<and>
           map (\<lambda>j. (oj_id j, job_identity j, oj_status j, oj_attempts j, oj_generation j)) (lg_jobs db'') =
           map (\<lambda>j. (oj_id j, job_identity j, oj_status j, oj_attempts j, oj_generation j)) (lg_jobs db)"
proof -
  note app = apply_effect [OF assms]
  have done_before: "oj_status j = Done" if j: "j \<in> set (lg_jobs db)" "repaired_job db j" for j
  proof -
    obtain r where r: "r \<in> set (lg_outcomes db)" "settled_identity r = Some (job_identity j)"
      using j(2) by (auto simp: repaired_job_def)
    then have "job_identity j \<in> set (identities (lg_outcomes db))" by (rule in_identities)
    then obtain k where "k \<in> set (lg_jobs db)" "oj_status k = Done" "job_identity k = job_identity j"
      using assms(1) by (auto simp: ledger_wf_def paired_def)
    moreover have "inj_on job_identity (set (lg_jobs db))" using assms(1) by (simp add: ledger_wf_def jobs_wf_def distinct_map)
    ultimately show ?thesis using j(1) by (metis inj_onD)
  qed
  have "mset (filter (\<lambda>r. \<not> transfer_censored db r) (lg_outcomes db) @ filter (transfer_censored db) (lg_outcomes db)) =
      mset (lg_outcomes db)"
    by (metis mset_append mset_filter multiset_partition union_commute)
  then show ?thesis
    using rollback_of_repair [OF assms(1) app(5)] app(1) done_before
    by (auto simp: app(3,4) repaired_def repend_def job_identity_def)
qed

text \<open>
  A repair that fails leaves no trace: whatever stops it (an existing manifest, a changed count,
  an ambiguous job, a transaction the database refuses after the manifest was written), the ledger
  and the manifest file are what they were, so the retry is not blocked.
\<close>
theorem failed_repair_leaves_no_trace:
  assumes "apply_repair commits n file db = (Raise e, file', db')"
  shows "file' = file \<and> db' = db"
  using assms by (auto simp: apply_repair_def Let_def split: if_splits sum.splits)

text \<open>
  A repaired job is not censored again for the same reason: in the repaired ledger the claim of
  its repository is not permanently unreachable, and is read through a live registration.
\<close>
theorem repaired_jobs_are_readable_again:
  assumes "ledger_wf db" and "registry_wf db" and "apply_repair True n None db = (Return rows, file, db')"
    and "j \<in> set (lg_jobs db)" and "repaired_job db j" and "repository_identity (job_key j) db' = (name, permanent, evidence)"
  shows "\<not> permanent"
proof -
  have db': "db' = repaired db" using apply_effect [OF assms(1-3)] by simp
  obtain r successor repo inst nm where r: "settled_identity r = Some (job_identity j)" "os_installation r = Some inst"
      "os_github_repo r = Some repo" "live_registration db repo = Some (successor, nm)"
    using assms(5) by (auto simp: repaired_job_def transfer_censored_def)
  then have key: "job_key j = (inst, repo)"
    by (auto simp: settled_identity_def job_identity_def job_key_def split: option.splits)
  obtain q where q: "q \<in> set (rg_repos db)" "ip_repo q = repo" "covers_live db q"
    using r(4) by (auto simp: live_registration_def dest!: first_by_Some)
  have "registry_wf db'" using assms(2) by (simp add: db' repaired_def registry_wf_def)
  from repository_identity_spec [OF this assms(6) [unfolded key] refl] q show ?thesis
    by (auto simp: db' repaired_def covers_live_def installation_active_def)
qed

subsection \<open>Witnesses\<close>

text \<open>The job of the transferred repository settled as unreachable under its old installation.\<close>

definition ex_censored :: ledger where
  "ex_censored = (ex_ledger [done_row (days 200) (claim_row (days 200) ex_row)])
     \<lparr>lg_job_seq := 6, lg_outcome_seq := 2,
      lg_outcomes := [settled_row ''acme/app'' 0 ''hash'' (classify (adj_row ex_row) None None None) 1]\<rparr>"

lemmas censored_defs = ex_censored_def ex_ledger_def ex_row_def new_outcome_job_def done_row_def claim_row_def
  new_registration_def days_def as_utc_def settled_row_def

lemma ex_detail: "od_censor_reason (oc_detail (classify (adj_row ex_row) None None None)) = Some Unreachable"
  "oc_kind (classify (adj_row ex_row) None None None) = Censored"
  by (simp_all add: disposition_def)

lemma ex_censored_wf: "ledger_wf ex_censored" "registry_wf ex_censored"
proof -
  let ?j = "done_row (days 200) (claim_row (days 200) ex_row)"
  let ?r = "settled_row ''acme/app'' 0 ''hash'' (classify (adj_row ex_row) None None None) 1"
  have jobs: "lg_jobs ex_censored = [?j]" and outs: "lg_outcomes ex_censored = [?r]"
    and seqs: "lg_job_seq ex_censored = 6" "lg_outcome_seq ex_censored = 2" "rg_configured ex_censored"
    by (simp_all add: ex_censored_def ex_ledger_def)
  have "{j \<in> set (lg_jobs ex_censored). oj_status j = Done} = {?j}"
    unfolding jobs by (auto simp: done_row_def)
  moreover have "oj_id ?j = 5" "os_id ?r = 1" by (simp_all add: censored_defs)
  moreover have "settled_identity ?r = Some (job_identity ?j)"
    by (simp add: job_identity_def adj_row_def done_row_def claim_row_def)
  ultimately show "ledger_wf ex_censored"
    by (simp add: ledger_wf_def jobs_wf_def paired_def jobs outs seqs job_identity_def del: settled_row_identity)
  show "registry_wf ex_censored" by (simp add: registry_wf_def censored_defs)
qed

lemma ex_live: "live_registration ex_censored 100 = Some (8, ''corp/app'')"
  by (simp add: live_registration_def covers_live_def installation_active_def newest_key_def censored_defs)

lemma ex_transfer: "r \<in> set (lg_outcomes ex_censored) \<Longrightarrow> transfer_censored ex_censored r"
proof -
  assume "r \<in> set (lg_outcomes ex_censored)"
  then have "r = settled_row ''acme/app'' 0 ''hash'' (classify (adj_row ex_row) None None None) 1"
    by (simp add: ex_censored_def)
  then show ?thesis
    using ex_live ex_detail
    by (simp add: transfer_censored_def settled_row_def kind_value_def censor_reason_of_def) (simp add: adj_row_def ex_row_def new_outcome_job_def)
qed

lemma ex_inspect: "\<exists>rows. inspect ex_censored = Return rows \<and> length rows = 1"
proof -
  have cand: "candidates ex_censored = lg_outcomes ex_censored"
    using ex_detail by (simp add: candidates_def ex_censored_def ex_ledger_def settled_row_def kind_value_def)
  have row: "\<exists>r w. lg_outcomes ex_censored = [r] \<and> os_window r = Some w"
    by (simp add: ex_censored_def settled_row_def)
  have "length (filter (job_of_outcome r) (lg_jobs ex_censored)) \<le> 1" for r
    using length_filter_le [of "job_of_outcome r" "lg_jobs ex_censored"] by (simp add: ex_censored_def ex_ledger_def)
  then show ?thesis
    using row repair_successor_iff [OF ex_censored_wf(2), unfolded cand] ex_transfer
    by (auto simp: inspect_def Let_def cand split: option.splits) (meson not_less Suc_leI)
qed

lemma ex_apply: "\<exists>rows file db'. apply_repair True 1 None ex_censored = (Return rows, file, db')"
  using ex_inspect by (auto simp: apply_repair_def Let_def)

theorem repair_reads_the_registry_as_the_queue_does_witness:
  "dict_get (live_installations [100] ex_censored) 100 = Some 8"
  using repair_reads_the_registry_as_the_queue_does [OF ex_censored_wf(2), of 100 "[100]"] ex_live by simp

theorem repair_undoes_exactly_the_transfer_censorings_witness:
  "\<exists>rows file db'. apply_repair True 1 None ex_censored = (Return rows, file, db') \<and> lg_outcomes db' = []"
  using ex_apply repair_undoes_exactly_the_transfer_censorings [OF ex_censored_wf] ex_transfer
  by (metis (no_types, lifting) filter_False)

theorem rollback_restores_the_ledger_witness:
  "\<exists>rows file db' db''. apply_repair True 1 None ex_censored = (Return rows, file, db') \<and>
     rollback_repair 1 file db' = Return (1, db'') \<and> mset (lg_outcomes db'') = mset (lg_outcomes ex_censored)"
  using ex_apply rollback_restores_the_ledger [OF ex_censored_wf] by blast

theorem failed_repair_leaves_no_trace_witness:
  "fst (snd (apply_repair True 1 (Some []) ex_censored)) = Some []"
  using failed_repair_leaves_no_trace [of True 1 "Some []" ex_censored ManifestExists "Some []" ex_censored]
  by (simp add: apply_repair_def)

theorem repaired_jobs_are_readable_again_witness:
  "\<exists>rows file db' name evidence. apply_repair True 1 None ex_censored = (Return rows, file, db') \<and>
     repository_identity (7, 100) db' = (name, False, evidence)"
proof -
  obtain rows manifest db' where app: "apply_repair True 1 None ex_censored = (Return rows, manifest, db')"
    using ex_apply by blast
  let ?j = "done_row (days 200) (claim_row (days 200) ex_row)"
  have j: "?j \<in> set (lg_jobs ex_censored)" and key: "job_key ?j = (7, 100)"
    by (simp_all add: censored_defs job_key_def)
  have "settled_identity (settled_row ''acme/app'' 0 ''hash'' (classify (adj_row ex_row) None None None) 1) = Some (job_identity ?j)"
    by (simp add: job_identity_def adj_row_def done_row_def claim_row_def)
  then have "repaired_job ex_censored ?j"
    using ex_transfer by (auto simp: repaired_job_def ex_censored_def)
  from repaired_jobs_are_readable_again [OF ex_censored_wf app j this] key app show ?thesis
    by (metis (full_types) prod_cases3)
qed

end
