(* ===== verification/Patterns.thy ===== *)
theory Patterns
  imports Prelude
begin

text \<open>
  The grouping key of findings, \<open>api/doug/patterns.py\<close>: one spelling for a free-form slug and the
  hand-kept merges of synonyms.
\<close>

definition SLUG_MERGES :: "(string \<times> string) list" where
  "SLUG_MERGES =
    [(''missing-error-handling'', ''error-handling-gap''),
     (''unhandled-exception'', ''error-handling-gap''),
     (''unhandled-io-error'', ''error-handling-gap''),
     (''behavior-regression'', ''behavior-change''),
     (''circular-import'', ''import-cycle''),
     (''import-cycle-risk'', ''import-cycle''),
     (''metric-cardinality'', ''metrics-cardinality''),
     (''unchecked-type-conversion'', ''type-coercion''),
     (''unsafe-type-coercion'', ''type-coercion''),
     (''dead-reference-after-module-removal'', ''dead-reference'')]"

definition RULE_PREFIX :: string where
  "RULE_PREFIX = ''reader:''"

definition slug_char :: "char \<Rightarrow> bool" where
  "slug_char c \<longleftrightarrow> lower_ascii c \<or> digit_char c"

text \<open>\<open>_NOT_SLUG.sub("-", s)\<close>: every longest run of other characters becomes one dash.\<close>

fun dash_runs :: "bool \<Rightarrow> string \<Rightarrow> string" where
  "dash_runs in_run [] = []"
| "dash_runs in_run (c # s) =
     (if slug_char c then c # dash_runs False s
      else if in_run then dash_runs True s
      else CHR ''-'' # dash_runs True s)"

definition slugify :: "string \<Rightarrow> string" where
  "slugify raw =
     (let folded = strip_char (CHR ''-'') (dash_runs False (lower (strip raw)))
      in if folded \<noteq> [] then folded else if strip raw \<noteq> [] then strip raw else raw)"

definition normalize :: "string \<Rightarrow> string" where
  "normalize slug =
     (let folded = slugify slug
      in case dict_get SLUG_MERGES folded of None \<Rightarrow> folded | Some canonical \<Rightarrow> canonical)"

definition from_rule :: "string \<Rightarrow> string option" where
  "from_rule rule =
     (if startswith rule RULE_PREFIX then Some (normalize (drop (length RULE_PREFIX) rule)) else None)"

subsection \<open>Trimming\<close>

lemma trim_fixed:
  "xs = [] \<or> (\<not> P (hd xs) \<and> \<not> P (last xs)) \<Longrightarrow> dropWhile P (rev (dropWhile P (rev xs))) = xs"
proof (cases "xs = []")
  case False
  assume "xs = [] \<or> (\<not> P (hd xs) \<and> \<not> P (last xs))"
  with False have "dropWhile P (rev xs) = rev xs" "dropWhile P xs = xs"
    by (simp_all add: dropWhile_eq_self_iff hd_rev)
  then show ?thesis by simp
qed simp

lemma trim_ends:
  "dropWhile P (rev (dropWhile P (rev xs))) = ys \<Longrightarrow> ys = [] \<or> (\<not> P (hd ys) \<and> \<not> P (last ys))"
proof (cases "ys = []")
  case False
  assume ys: "dropWhile P (rev (dropWhile P (rev xs))) = ys"
  let ?zs = "rev (dropWhile P (rev xs))"
  have "\<not> P (hd ys)" using hd_dropWhile [of P ?zs] False ys by blast
  moreover have "last ys = last ?zs"
    using ys False by (metis append_is_Nil_conv last_appendR takeWhile_dropWhile_id)
  moreover have "dropWhile P (rev xs) \<noteq> []" using ys False by force
  then have "\<not> P (last ?zs)" by (simp add: last_rev hd_dropWhile)
  ultimately show ?thesis by simp
qed simp

lemma strip_as_trim: "strip s = dropWhile space_char (rev (dropWhile space_char (rev s)))"
  by (simp add: strip_def lstrip_def rstrip_def)

lemma strip_char_as_trim: "strip_char c s = dropWhile (\<lambda>x. x = c) (rev (dropWhile (\<lambda>x. x = c) (rev s)))"
  by (simp add: strip_char_def rstrip_char_def)

lemma strip_idem [simp]: "strip (strip s) = strip s"
  unfolding strip_as_trim by (rule trim_fixed) (rule trim_ends, rule refl)

lemma strip_char_idem [simp]: "strip_char c (strip_char c s) = strip_char c s"
  unfolding strip_char_as_trim by (rule trim_fixed) (rule trim_ends, rule refl)

lemma strip_no_space: "\<forall>c \<in> set s. \<not> space_char c \<Longrightarrow> strip s = s"
  unfolding strip_as_trim by (rule trim_fixed) (cases s, auto)

lemma set_strip_char: "set (strip_char c s) \<subseteq> set s"
proof
  fix x
  assume "x \<in> set (strip_char c s)"
  then have "x \<in> set (rev (dropWhile (\<lambda>x. x = c) (rev s)))"
    unfolding strip_char_as_trim by (rule set_dropWhileD)
  then have "x \<in> set (dropWhile (\<lambda>x. x = c) (rev s))" by simp
  then have "x \<in> set (rev s)" by (rule set_dropWhileD)
  then show "x \<in> set s" by simp
qed

subsection \<open>The folded spelling\<close>

text \<open>Slug characters and single dashes; after a dash no other one follows.\<close>

fun tidy :: "bool \<Rightarrow> string \<Rightarrow> bool" where
  "tidy after_dash [] = True"
| "tidy after_dash (c # s) = (if slug_char c then tidy False s else c = CHR ''-'' \<and> \<not> after_dash \<and> tidy True s)"

lemma dash_not_slug [simp]: "\<not> slug_char (CHR ''-'')"
  by (simp add: slug_char_def lower_ascii_def digit_char_def)

lemma slug_not_space: "slug_char c \<or> c = CHR ''-'' \<Longrightarrow> \<not> space_char c"
  by (auto simp: slug_char_def lower_ascii_def digit_char_def space_char_def)

lemma slug_lower: "slug_char c \<or> c = CHR ''-'' \<Longrightarrow> lower_char c = c"
  by (auto simp: slug_char_def lower_ascii_def digit_char_def lower_char_def upper_ascii_def)

lemma tidy_runs: "tidy b (dash_runs b s)"
proof -
  have "tidy False (dash_runs False s) \<and> tidy True (dash_runs True s)" by (induction s) auto
  then show ?thesis by (cases b) auto
qed

lemma tidy_fixed: "tidy b s \<Longrightarrow> dash_runs b s = s"
  by (induction b s rule: tidy.induct) (auto split: if_splits)

lemma tidy_weaken: "tidy b s \<Longrightarrow> tidy False s"
  by (cases s) (auto split: if_splits)

lemma tidy_chars: "tidy b s \<Longrightarrow> c \<in> set s \<Longrightarrow> slug_char c \<or> c = CHR ''-''"
  by (induction b s rule: tidy.induct) (auto split: if_splits)

lemma tidy_dropWhile: "tidy False s \<Longrightarrow> tidy False (dropWhile P s)"
  by (induction s) (auto split: if_splits intro: tidy_weaken)

lemma tidy_prefix: "tidy b (xs @ ys) \<Longrightarrow> tidy b xs"
  by (induction b xs rule: tidy.induct) (auto split: if_splits)

lemma tidy_strip: "tidy False s \<Longrightarrow> tidy False (strip_char c s)"
proof -
  assume "tidy False s"
  moreover have "s = rev (dropWhile (\<lambda>x. x = c) (rev s)) @ rev (takeWhile (\<lambda>x. x = c) (rev s))"
    by (metis rev_append rev_rev_ident takeWhile_dropWhile_id)
  ultimately have "tidy False (rev (dropWhile (\<lambda>x. x = c) (rev s)))" by (metis tidy_prefix)
  then show ?thesis unfolding strip_char_as_trim by (rule tidy_dropWhile)
qed

text \<open>A tidy, dash-trimmed spelling folds to itself.\<close>

lemma slugify_fixed:
  assumes "tidy False s" and "strip_char (CHR ''-'') s = s" and "s \<noteq> []"
  shows "slugify s = s"
proof -
  have chars: "slug_char c \<or> c = CHR ''-''" if "c \<in> set s" for c
    using tidy_chars [OF assms(1) that] .
  then have "\<forall>c \<in> set s. \<not> space_char c" using slug_not_space by blast
  then have "strip s = s" by (rule strip_no_space)
  moreover have "lower s = s"
    unfolding lower_def by (rule map_idI) (rule slug_lower [OF chars])
  ultimately show ?thesis using assms by (simp add: slugify_def tidy_fixed)
qed

lemma slugify_idem: "slugify (slugify raw) = slugify raw"
proof -
  let ?folded = "\<lambda>r. strip_char (CHR ''-'') (dash_runs False (lower (strip r)))"
  show ?thesis
  proof (cases "?folded raw = []")
    case False
    then have "slugify raw = ?folded raw" by (simp add: slugify_def)
    moreover have "slugify (?folded raw) = ?folded raw"
      using False by (intro slugify_fixed tidy_strip tidy_runs) simp_all
    ultimately show ?thesis by simp
  next
    case True
    then show ?thesis by (cases "strip raw = []") (auto simp: slugify_def)
  qed
qed

lemma merge_targets:
  "dict_get SLUG_MERGES s = Some t \<Longrightarrow> slugify t = t \<and> dict_get SLUG_MERGES t = None"
proof -
  assume "dict_get SLUG_MERGES s = Some t"
  then have "(s, t) \<in> set SLUG_MERGES" by (rule map_of_SomeD)
  moreover have "list_all (\<lambda>(k, t). slugify t = t \<and> dict_get SLUG_MERGES t = None) SLUG_MERGES"
    by code_simp
  ultimately show ?thesis by (auto simp: list_all_iff)
qed

subsection \<open>Properties\<close>

text \<open>
  One name per pattern: normalising is idempotent, so a canonical name is its own canonical
  name, every merge leads to a name that is not merged further, and two spellings that differ in
  case, edge blanks, edge dashes or the kind and length of their separators are one pattern.
\<close>
theorem canonical_names_are_fixed:
  "normalize (normalize slug) = normalize slug"
proof (cases "dict_get SLUG_MERGES (slugify slug)")
  case None
  then show ?thesis by (simp add: normalize_def slugify_idem)
next
  case (Some t)
  with merge_targets [OF this] show ?thesis by (simp add: normalize_def)
qed

end
