(* ===== verification/Hunks.thy ===== *)
theory Hunks
  imports Prelude
begin

text \<open>
  The content-hash index over unified diff hunks, \<open>api/doug/hunks.py\<close>. The digest of the standard
  library, \<open>hashlib.sha256(...).hexdigest()\<close>, is a parameter \<open>sha256\<close>; what is shown here needs
  no law of it.
\<close>

abbreviation newline :: string where "newline \<equiv> [CHR 0x0A]"

subsection \<open>The index\<close>

text \<open>One line of the loop of \<open>split_hunks\<close>: the open hunk, if any, and the closed ones.\<close>

definition hunk_line :: "string list option \<times> string list list \<Rightarrow> string \<Rightarrow> string list option \<times> string list list" where
  "hunk_line st line =
     (case st of (current, out) \<Rightarrow>
        if startswith line ''@@''
        then (Some [line], case current of None \<Rightarrow> out | Some h \<Rightarrow> out @ [h])
        else case current of None \<Rightarrow> (None, out) | Some h \<Rightarrow> (Some (h @ [line]), out))"

definition hunk_blocks :: "string list \<Rightarrow> string list list" where
  "hunk_blocks lns =
     (case foldl hunk_line (None, []) lns of (current, out) \<Rightarrow>
        case current of None \<Rightarrow> out | Some h \<Rightarrow> out @ [h])"

definition split_hunks :: "string \<Rightarrow> string list" where
  "split_hunks patch = map (join newline) (hunk_blocks (splitlines patch))"

definition changed_line :: "string \<Rightarrow> bool" where
  "changed_line line \<longleftrightarrow>
     (startswith line ''+'' \<or> startswith line ''-'') \<and> \<not> startswith line ''@@''"

definition hash_hunk :: "(string \<Rightarrow> string) \<Rightarrow> string \<Rightarrow> string" where
  "hash_hunk sha256 hunk = sha256 (join newline (filter changed_line (splitlines hunk)))"

definition index_from_patches ::
  "(string \<Rightarrow> string) \<Rightarrow> (string \<times> string) list \<Rightarrow> (string \<times> string list) list" where
  "index_from_patches sha256 patches =
     map (\<lambda>(path, patch). (path, map (hash_hunk sha256) (split_hunks patch))) patches"

subsection \<open>The loop, without its accumulators\<close>

text \<open>A hunk is its header line and the lines up to the next header.\<close>

function hunks_of :: "string list \<Rightarrow> string list list" where
  "hunks_of [] = []"
| "hunks_of (l # ls) =
     (if startswith l ''@@''
      then (l # takeWhile (\<lambda>x. \<not> startswith x ''@@'') ls)
             # hunks_of (dropWhile (\<lambda>x. \<not> startswith x ''@@'') ls)
      else hunks_of ls)"
  by pat_completeness auto
termination
  by (relation "measure length") (auto simp: le_imp_less_Suc length_dropWhile_le)

abbreviation hunk_header :: "string \<Rightarrow> bool" where
  "hunk_header l \<equiv> startswith l ''@@''"

definition close_hunk :: "string list option \<times> string list list \<Rightarrow> string list list" where
  "close_hunk st = (case st of (current, out) \<Rightarrow> case current of None \<Rightarrow> out | Some h \<Rightarrow> out @ [h])"

lemma hunk_line_simps:
  "hunk_header l \<Longrightarrow> hunk_line (Some h, out) l = (Some [l], out @ [h])"
  "hunk_header l \<Longrightarrow> hunk_line (None, out) l = (Some [l], out)"
  "\<not> hunk_header l \<Longrightarrow> hunk_line (Some h, out) l = (Some (h @ [l]), out)"
  "\<not> hunk_header l \<Longrightarrow> hunk_line (None, out) l = (None, out)"
  by (simp_all add: hunk_line_def)

lemma close_open:
  "close_hunk (foldl hunk_line (Some h, out) ls) =
     out @ (h @ takeWhile (\<lambda>x. \<not> hunk_header x) ls) # hunks_of (dropWhile (\<lambda>x. \<not> hunk_header x) ls)"
proof (induction ls arbitrary: h out)
  case Nil
  then show ?case by (simp add: close_hunk_def)
next
  case (Cons l ls)
  then show ?case by (cases "hunk_header l") (simp_all add: hunk_line_simps)
qed

lemma close_none: "close_hunk (foldl hunk_line (None, out) ls) = out @ hunks_of ls"
proof (induction ls arbitrary: out)
  case Nil
  then show ?case by (simp add: close_hunk_def)
next
  case (Cons l ls)
  then show ?case by (cases "hunk_header l") (simp_all add: hunk_line_simps close_open)
qed

lemma hunk_blocks_eq: "hunk_blocks ls = hunks_of ls"
proof -
  have "hunk_blocks ls = close_hunk (foldl hunk_line (None, []) ls)"
    by (simp add: hunk_blocks_def close_hunk_def)
  then show ?thesis by (simp add: close_none)
qed

subsection \<open>Splitting a joined hunk again\<close>

definition one_line :: "string \<Rightarrow> bool" where
  "one_line l \<longleftrightarrow> (\<forall>c \<in> set l. \<not> line_break c)"

lemma break_cr: "line_break (CHR 0x0D)" and break_lf: "line_break (CHR 0x0A)"
  by (simp_all add: line_break_def)

lemma lines_from_one_line:
  "l \<in> set (lines_from acc s) \<Longrightarrow> one_line acc \<Longrightarrow> one_line l"
proof (induction acc s rule: lines_from.induct)
  case (1 acc)
  then show ?case by (auto simp: one_line_def split: if_splits)
next
  case (2 acc c s)
  have nil: "one_line []" by (simp add: one_line_def)
  have rev: "one_line (rev acc)" using 2(6) by (simp add: one_line_def)
  show ?case
  proof (cases "c = CHR 0x0D")
    case True
    show ?thesis
    proof (cases s)
      case Nil
      with True 2(5) rev show ?thesis by simp
    next
      case (Cons d s')
      show ?thesis
      proof (cases "d = CHR 0x0A")
        case lf: True
        with Cons True 2(5) have "l = rev acc \<or> l \<in> set (lines_from [] s')" by auto
        with 2(1) [OF True Cons lf] nil rev show ?thesis by blast
      next
        case False
        with Cons True 2(5) have "l = rev acc \<or> l \<in> set (lines_from [] s)" by auto
        with 2(2) [OF True Cons False] nil rev show ?thesis by blast
      qed
    qed
  next
    case cr: False
    show ?thesis
    proof (cases "line_break c")
      case True
      with cr 2(5) have "l = rev acc \<or> l \<in> set (lines_from [] s)" by simp
      with 2(3) [OF cr True] nil rev show ?thesis by blast
    next
      case False
      with 2(6) have "one_line (c # acc)" by (simp add: one_line_def)
      moreover have "l \<in> set (lines_from (c # acc) s)" using cr False 2(5) by simp
      ultimately show ?thesis using 2(4) [OF cr False] by blast
    qed
  qed
qed

lemma splitlines_one_line: "l \<in> set (splitlines s) \<Longrightarrow> one_line l"
  using lines_from_one_line [of l "[]" s] by (simp add: splitlines_def one_line_def)

lemma lines_from_word: "one_line l \<Longrightarrow> lines_from acc (l @ s) = lines_from (rev l @ acc) s"
proof (induction l arbitrary: acc)
  case (Cons c l)
  then have "c \<noteq> CHR 0x0D" "\<not> line_break c" using break_cr by (auto simp: one_line_def)
  with Cons show ?case by (simp add: one_line_def)
qed simp

lemma lines_from_newline: "lines_from acc (CHR 0x0A # s) = rev acc # lines_from [] s"
  by (simp add: break_lf)

text \<open>Joining lines and splitting them again loses at most empty lines at the end.\<close>

lemma split_joined:
  "list_all one_line ls \<Longrightarrow>
   splitlines (join newline ls) = (if ls \<noteq> [] \<and> last ls = [] then butlast ls else ls)"
proof (induction ls)
  case Nil
  then show ?case by (simp add: splitlines_def)
next
  case (Cons l ls)
  show ?case
  proof (cases ls)
    case Nil
    with Cons.prems lines_from_word [of l "[]" "[]"] show ?thesis by (simp add: splitlines_def)
  next
    case (Cons m ms)
    then have "join newline (l # ls) = l @ CHR 0x0A # join newline ls" by simp
    with Cons.prems have "splitlines (join newline (l # ls)) = l # splitlines (join newline ls)"
      by (simp add: splitlines_def lines_from_word lines_from_newline del: join_Cons2 lines_from.simps(2))
    with Cons.IH Cons.prems Cons show ?thesis by simp
  qed
qed

lemma filter_butlast_empty:
  "\<not> p (last ls) \<Longrightarrow> ls \<noteq> [] \<Longrightarrow> filter p (butlast ls) = filter p ls"
  by (induction ls) (auto split: if_splits)

lemma changed_of_joined:
  assumes "list_all one_line ls"
  shows "filter changed_line (splitlines (join newline ls)) = filter changed_line ls"
proof (cases "ls \<noteq> [] \<and> last ls = []")
  case True
  then have "\<not> changed_line (last ls)" by (simp add: changed_line_def startswith_def)
  with True assms show ?thesis by (simp add: split_joined filter_butlast_empty)
next
  case False
  then have "splitlines (join newline ls) = ls" using split_joined [OF assms] by (auto split: if_splits)
  then show ?thesis by simp
qed

lemma hunks_of_lines: "h \<in> set (hunks_of ls) \<Longrightarrow> set h \<subseteq> set ls"
proof (induction ls rule: hunks_of.induct)
  case (2 l ls)
  then show ?case by (auto split: if_splits dest: set_takeWhileD set_dropWhileD)
qed simp

lemma split_hunks_changed:
  "map (\<lambda>h. filter changed_line (splitlines h)) (split_hunks patch) =
   map (filter changed_line) (hunks_of (splitlines patch))"
proof -
  have "filter changed_line (splitlines (join newline h)) = filter changed_line h"
    if "h \<in> set (hunks_of (splitlines patch))" for h
  proof -
    from hunks_of_lines [OF that] have "list_all one_line h"
      by (auto simp: list_all_iff intro: splitlines_one_line)
    then show ?thesis by (rule changed_of_joined)
  qed
  then show ?thesis by (simp add: split_hunks_def hunk_blocks_eq)
qed

subsection \<open>What the index depends on\<close>

text \<open>
  The content of a patch: from its first hunk header on, the changed lines in order, with a bare
  mark where a hunk begins.
\<close>

definition erase_line :: "string \<Rightarrow> string option" where
  "erase_line l = (if hunk_header l then Some ''@@'' else if changed_line l then Some l else None)"

definition patch_delta :: "string \<Rightarrow> string list" where
  "patch_delta patch =
     List.map_filter erase_line (dropWhile (\<lambda>x. \<not> hunk_header x) (splitlines patch))"

lemma hunks_of_preamble: "hunks_of (dropWhile (\<lambda>x. \<not> hunk_header x) ls) = hunks_of ls"
  by (induction ls) auto

lemma bare_header: "hunk_header ''@@''" "\<not> changed_line ''@@''"
  by (simp_all add: startswith_def changed_line_def)

lemma header_unchanged: "hunk_header l \<Longrightarrow> \<not> changed_line l"
  by (simp add: changed_line_def)

lemma erase_take:
  "takeWhile (\<lambda>x. \<not> hunk_header x) (List.map_filter erase_line ls) =
   filter changed_line (takeWhile (\<lambda>x. \<not> hunk_header x) ls)"
  by (induction ls) (simp_all add: erase_line_def bare_header)

lemma erase_drop:
  "dropWhile (\<lambda>x. \<not> hunk_header x) (List.map_filter erase_line ls) =
   List.map_filter erase_line (dropWhile (\<lambda>x. \<not> hunk_header x) ls)"
  by (induction ls) (simp_all add: erase_line_def bare_header)

lemma hunks_of_erased:
  "map (filter changed_line) (hunks_of (List.map_filter erase_line ls)) =
   map (filter changed_line) (hunks_of ls)"
proof (induction ls rule: hunks_of.induct)
  case 1
  then show ?case by (simp add: List.map_filter_def)
next
  case (2 l ls)
  show ?case
  proof (cases "hunk_header l")
    case True
    with 2(1) header_unchanged [OF True] show ?thesis
      by (simp add: erase_line_def [of l] erase_take erase_drop bare_header)
  next
    case False
    with 2(2) show ?thesis by (simp add: erase_line_def [of l])
  qed
qed

lemma hash_hunks:
  "map (hash_hunk sha256) (split_hunks patch) =
   map (\<lambda>h. sha256 (join newline h)) (map (filter changed_line) (hunks_of (splitlines patch)))"
proof -
  have "map (hash_hunk sha256) (split_hunks patch) =
    map (\<lambda>h. sha256 (join newline h)) (map (\<lambda>h. filter changed_line (splitlines h)) (split_hunks patch))"
    by (simp add: hash_hunk_def)
  then show ?thesis by (simp only: split_hunks_changed)
qed

lemma index_of_deltas:
  assumes "patch_delta a = patch_delta b"
  shows "index_from_patches sha256 [(path, a)] = index_from_patches sha256 [(path, b)]"
proof -
  have "map (filter changed_line) (hunks_of (splitlines p)) =
    map (filter changed_line) (hunks_of (patch_delta p))" for p
    unfolding patch_delta_def hunks_of_erased hunks_of_preamble ..
  then have "map (hash_hunk sha256) (split_hunks a) = map (hash_hunk sha256) (split_hunks b)"
    unfolding hash_hunks using assms by simp
  then show ?thesis by (simp add: index_from_patches_def)
qed

subsection \<open>Properties\<close>

text \<open>
  A file's index depends on its changed lines and on nothing else: two patches with the same
  changed lines in the same hunks have the same hash lists, whatever their preambles, the numbers
  and headings of their hunk headers, their context lines and their end-of-file markers say.
\<close>
theorem index_of_equal_deltas:
  assumes "patch_delta a = patch_delta b"
  shows "index_from_patches sha256 [(path, a)] = index_from_patches sha256 [(path, b)]"
  using assms by (rule index_of_deltas)

definition ex_patch :: string where
  "ex_patch = join newline [''@@ -1,3 +1,3 @@ def f'', '' a'', ''-b'', ''+c'', ''@@ -9 +9 @@'', ''+d'']"

definition ex_rebased :: string where
  "ex_rebased = join newline [''--- x'', ''+++ x'', ''@@ -7,2 +7,2 @@'', ''-b'', ''+c'', ''@@ -20 +20 @@'', '' z'', ''+d'', '''']"

theorem index_of_equal_deltas_witness:
  "index_from_patches rev [(''f'', ex_patch)] = index_from_patches rev [(''f'', ex_rebased)]"
  by (rule index_of_equal_deltas) code_simp

end
