(* ===== verification/Convergence.thy ===== *)
theory Convergence
  imports Complex_Main Patterns Hunks "HOL-Library.Multiset"
begin

text \<open>
  The finding-diff between two verdicts on one pull request, \<open>api/doug/convergence.py\<close>: which
  prior findings persist, which are unknown and why, which later ones are new.
\<close>

subsection \<open>Rows\<close>

text \<open>
  A \<open>findings\<close> row (its rule, label, file and validated attribution) and a \<open>reads\<close> row (what the
  reader was not shown, and the hunk index of what it was). Null columns are \<open>None\<close>.
\<close>

type_synonym hunk_index = "(string \<times> string list) list"

record finding =
  f_rule :: string
  f_label :: "string option"
  f_path :: "string option"
  f_hunks :: "string list option"

record read_row =
  files_unseen :: "string list option"
  files_dropped :: "string list option"
  file_cut :: "string option"
  r_hunks :: "hunk_index option"

datatype side = Prior | Later

datatype unknown_reason =
  Identity_Incomplete | File_Uncovered | Settled | No_Hunk_Index | Left_Diff | Not_Reconfirmed
  | Edited_Not_Verified

datatype fate = Persisted | Resolved | New | Unknown | Excluded | Matched

datatype basis = By_Construction | Attributed_Surviving

datatype pair_delta = Pair_Unchanged | Changed_Elsewhere

record classification =
  c_side :: side
  c_finding :: finding
  c_state :: fate
  c_reason :: "unknown_reason option"
  c_basis :: "basis option"
  c_delta :: "pair_delta option"
  c_changed :: "bool option"

text \<open>\<open>Classification(side, row, state)\<close> with every other field at its default.\<close>

definition entry :: "side \<Rightarrow> finding \<Rightarrow> fate \<Rightarrow> classification" where
  "entry s row st =
     \<lparr>c_side = s, c_finding = row, c_state = st, c_reason = None, c_basis = None, c_delta = None,
      c_changed = None\<rparr>"

definition unknown :: "side \<Rightarrow> finding \<Rightarrow> unknown_reason \<Rightarrow> classification" where
  "unknown s row why = (entry s row Unknown)\<lparr>c_reason := Some why\<rparr>"

subsection \<open>The notices of settled findings\<close>

definition SETTLEMENT_RULES :: "string list" where
  "SETTLEMENT_RULES =
     [''settled-missing-import'', ''settled-schema-dependency'', ''settled-ci-green'',
      ''settled-syntax-error'']"

text \<open>A blank, an em dash in UTF-8, a blank.\<close>

definition NOTICE_HEADER_SEP :: string where
  "NOTICE_HEADER_SEP = [CHR '' '', CHR 0xE2, CHR 0x80, CHR 0x94, CHR '' '']"

definition NOTICE_SEGMENT_SEP :: string where
  "NOTICE_SEGMENT_SEP = ''; ''"

definition notice_segment :: "string \<Rightarrow> (string \<times> string) option" where
  "notice_segment segment =
     (case str_partition segment '': '' of (path, found, rest) \<Rightarrow>
        if \<not> found then None
        else case str_partition rest '' ('' of (slug, found', _) \<Rightarrow>
          if \<not> found' then None else Some (path, removeprefix slug ''reader:''))"

definition notice_segments :: "string \<Rightarrow> (string \<times> string) list" where
  "notice_segments label =
     (case str_partition label NOTICE_HEADER_SEP of (_, found, segments) \<Rightarrow>
        if \<not> found then [] else List.map_filter notice_segment (split_on NOTICE_SEGMENT_SEP segments))"

subsection \<open>Matching\<close>

definition identity :: "finding \<Rightarrow> (string \<times> string) option" where
  "identity row =
     (case from_rule (f_rule row) of None \<Rightarrow> None
      | Some pattern \<Rightarrow> map_option (Pair pattern) (f_path row))"

text \<open>\<open>_identity_counts\<close> as the function a \<open>Counter\<close> is: absent keys count zero.\<close>

definition identity_counts :: "finding list \<Rightarrow> string \<times> string \<Rightarrow> nat" where
  "identity_counts rows = count_list (List.map_filter identity rows)"

definition unmatchable :: "side \<Rightarrow> finding \<Rightarrow> classification" where
  "unmatchable s row =
     (if from_rule (f_rule row) = None then entry s row Excluded
      else unknown s row Identity_Incomplete)"

definition uncovered :: "string \<Rightarrow> read_row option \<Rightarrow> bool" where
  "uncovered path later_read =
     (case later_read of None \<Rightarrow> True
      | Some r \<Rightarrow>
          if path \<in> set (case files_unseen r of None \<Rightarrow> [] | Some fs \<Rightarrow> fs) then True
          else if path \<in> set (case files_dropped r of None \<Rightarrow> [] | Some fs \<Rightarrow> fs) then True
          else file_cut r = Some path)"

definition settled :: "string \<times> string \<Rightarrow> finding list \<Rightarrow> bool" where
  "settled i later_reasons =
     (case i of (pattern, path) \<Rightarrow>
        list_ex (\<lambda>row. f_rule row \<in> set SETTLEMENT_RULES \<and>
          list_ex (\<lambda>(noticed_file, noticed_slug). noticed_file = path \<and> normalize noticed_slug = pattern)
            (notice_segments (case f_label row of None \<Rightarrow> [] | Some l \<Rightarrow> l))) later_reasons)"

definition abstention ::
  "string \<times> string \<Rightarrow> finding list \<Rightarrow> read_row option \<Rightarrow> unknown_reason option" where
  "abstention i later_reasons later_read =
     (if uncovered (snd i) later_read then Some File_Uncovered
      else if settled i later_reasons then Some Settled
      else None)"

subsection \<open>The hunk indexes\<close>

definition index_of :: "read_row option \<Rightarrow> hunk_index option" where
  "index_of r = (case r of None \<Rightarrow> None | Some row \<Rightarrow> r_hunks row)"

text \<open>\<open>d1 == d2\<close> on dictionaries ignores the order of the keys.\<close>

definition dict_eq :: "('k \<times> 'v) list \<Rightarrow> ('k \<times> 'v) list \<Rightarrow> bool" where
  "dict_eq a b = list_all (\<lambda>k. dict_get a k = dict_get b k) (map fst a @ map fst b)"

definition hashes_at :: "hunk_index \<Rightarrow> string \<Rightarrow> string multiset" where
  "hashes_at ix path = mset (case dict_get ix path of None \<Rightarrow> [] | Some hs \<Rightarrow> hs)"

definition rule5 ::
  "finding \<Rightarrow> string \<Rightarrow> read_row option \<Rightarrow> read_row option \<Rightarrow> classification" where
  "rule5 row path prior_read later_read =
     (case index_of prior_read of None \<Rightarrow> unknown Prior row No_Hunk_Index
      | Some prior_index \<Rightarrow>
     (case index_of later_read of None \<Rightarrow> unknown Prior row No_Hunk_Index
      | Some later_index \<Rightarrow>
     (case dict_get prior_index path of None \<Rightarrow> unknown Prior row File_Uncovered
      | Some hs \<Rightarrow>
     (let prior_hashes = mset hs; later_hashes = hashes_at later_index path in
      if prior_hashes = later_hashes
      then (entry Prior row Persisted)
             \<lparr>c_basis := Some By_Construction,
              c_delta := Some (if dict_eq prior_index later_index then Pair_Unchanged
                               else Changed_Elsewhere)\<rparr>
      else if size (prior_hashes \<inter># later_hashes) = 0
      then (if later_hashes \<noteq> {#} then unknown Prior row Edited_Not_Verified
            else unknown Prior row Left_Diff)
      else case f_hunks row of
          Some (a # as) \<Rightarrow>
            (let att = mset (a # as) in
             if att - prior_hashes = {#}
             then if att - later_hashes = {#}
                  then (entry Prior row Persisted)\<lparr>c_basis := Some Attributed_Surviving\<rparr>
                  else if size (att \<inter># later_hashes) = 0
                  then unknown Prior row Edited_Not_Verified
                  else unknown Prior row Not_Reconfirmed
             else unknown Prior row Not_Reconfirmed)
        | _ \<Rightarrow> unknown Prior row Not_Reconfirmed))))"

definition code_changed :: "string \<Rightarrow> read_row option \<Rightarrow> read_row option \<Rightarrow> bool option" where
  "code_changed path prior_read later_read =
     (case index_of prior_read of None \<Rightarrow> None
      | Some prior_index \<Rightarrow>
     (case index_of later_read of None \<Rightarrow> None
      | Some later_index \<Rightarrow> Some (hashes_at prior_index path \<noteq> hashes_at later_index path)))"

subsection \<open>Classification\<close>

text \<open>The two loops of \<open>classify\<close>, each with the budget it spends.\<close>

fun classify_prior ::
  "(string \<times> string \<Rightarrow> nat) \<Rightarrow> finding list \<Rightarrow> read_row option \<Rightarrow> read_row option \<Rightarrow> finding list
   \<Rightarrow> classification list" where
  "classify_prior persisting reasons later_read prior_read [] = []"
| "classify_prior persisting reasons later_read prior_read (row # rows) =
     (case identity row of
        None \<Rightarrow> unmatchable Prior row # classify_prior persisting reasons later_read prior_read rows
      | Some i \<Rightarrow>
          if 0 < persisting i
          then entry Prior row Persisted
                 # classify_prior (persisting(i := persisting i - 1)) reasons later_read prior_read rows
          else (case abstention i reasons later_read of
                  Some why \<Rightarrow> unknown Prior row why
                | None \<Rightarrow> rule5 row (snd i) prior_read later_read)
               # classify_prior persisting reasons later_read prior_read rows)"

fun classify_later ::
  "(string \<times> string \<Rightarrow> nat) \<Rightarrow> read_row option \<Rightarrow> read_row option \<Rightarrow> finding list
   \<Rightarrow> classification list" where
  "classify_later matching later_read prior_read [] = []"
| "classify_later matching later_read prior_read (row # rows) =
     (case identity row of
        None \<Rightarrow> unmatchable Later row # classify_later matching later_read prior_read rows
      | Some i \<Rightarrow>
          if 0 < matching i
          then entry Later row Matched
                 # classify_later (matching(i := matching i - 1)) later_read prior_read rows
          else (entry Later row New)\<lparr>c_changed := code_changed (snd i) prior_read later_read\<rparr>
               # classify_later matching later_read prior_read rows)"

definition classify ::
  "finding list \<Rightarrow> finding list \<Rightarrow> finding list \<Rightarrow> read_row option \<Rightarrow> read_row option
   \<Rightarrow> classification list" where
  "classify prior_findings later_findings later_reasons later_read prior_read =
     (let prior_counts = identity_counts prior_findings;
          later_counts = identity_counts later_findings
      in classify_prior (\<lambda>i. min (prior_counts i) (later_counts i)) later_reasons later_read prior_read
           prior_findings
         @ classify_later (\<lambda>i. min (later_counts i) (prior_counts i)) later_read prior_read
             later_findings)"

record convergence_report =
  n_resolved :: nat
  n_persisted :: nat
  n_new :: nat
  n_unknown :: "(unknown_reason \<times> nat) list"

definition bump :: "'k \<Rightarrow> ('k \<times> nat) list \<Rightarrow> ('k \<times> nat) list" where
  "bump k d = dict_set k (Suc (case dict_get d k of None \<Rightarrow> 0 | Some n \<Rightarrow> n)) d"

definition compare ::
  "finding list \<Rightarrow> finding list \<Rightarrow> finding list \<Rightarrow> read_row option \<Rightarrow> read_row option
   \<Rightarrow> convergence_report" where
  "compare prior_findings later_findings later_reasons later_read prior_read =
     (let entries = classify prior_findings later_findings later_reasons later_read prior_read;
          states = map c_state entries
      in \<lparr>n_resolved = count_list states Resolved, n_persisted = count_list states Persisted,
          n_new = count_list states New,
          n_unknown = fold bump (List.map_filter c_reason (filter (\<lambda>e. c_state e = Unknown) entries)) []\<rparr>)"

definition unknown_total :: "convergence_report \<Rightarrow> nat" where
  "unknown_total r = sum_list (map snd (n_unknown r))"

definition ratio :: "convergence_report \<Rightarrow> rat option" where
  "ratio r =
     (let decided = n_resolved r + n_persisted r
      in if decided = 0 then None else Some (of_nat (n_resolved r) / of_nat decided))"

subsection \<open>Entries and rows\<close>

named_theorems entry_simps \<open>fields of the classification constructors\<close>

lemma entry_fields [entry_simps]:
  "c_side (entry s row st) = s" "c_finding (entry s row st) = row" "c_state (entry s row st) = st"
  "c_reason (entry s row st) = None" "c_basis (entry s row st) = None"
  "c_side (unknown s row why) = s" "c_finding (unknown s row why) = row"
  "c_state (unknown s row why) = Unknown" "c_reason (unknown s row why) = Some why"
  "c_basis (unknown s row why) = None"
  by (simp_all add: entry_def unknown_def)

lemma unmatchable_fields [entry_simps]:
  "c_side (unmatchable s row) = s" "c_finding (unmatchable s row) = row"
  "c_state (unmatchable s row) = (if from_rule (f_rule row) = None then Excluded else Unknown)"
  "c_basis (unmatchable s row) = None"
  by (simp_all add: unmatchable_def entry_simps)

text \<open>What the replaced rule 5 can answer, and on which evidence.\<close>

lemma rule5_cases:
  obtains (Unk) why where "rule5 row path pr lr = unknown Prior row why"
  | (Same) d pix hs lix where "rule5 row path pr lr =
        (entry Prior row Persisted)\<lparr>c_basis := Some By_Construction, c_delta := Some d\<rparr>"
      "index_of pr = Some pix" "index_of lr = Some lix" "dict_get pix path = Some hs"
      "mset hs = hashes_at lix path"
  | (Attr) att pix hs lix where "rule5 row path pr lr =
        (entry Prior row Persisted)\<lparr>c_basis := Some Attributed_Surviving\<rparr>"
      "index_of pr = Some pix" "index_of lr = Some lix" "dict_get pix path = Some hs"
      "f_hunks row = Some att" "att \<noteq> []" "mset att \<subseteq># mset hs" "mset att \<subseteq># hashes_at lix path"
proof (cases "index_of pr")
  case None
  then show thesis by (intro Unk) (simp add: rule5_def)
next
  case pr: (Some pix)
  show thesis
  proof (cases "index_of lr")
    case None
    with pr show thesis by (intro Unk) (simp add: rule5_def)
  next
    case lr: (Some lix)
    show thesis
    proof (cases "dict_get pix path")
      case None
      with pr lr show thesis by (intro Unk) (simp add: rule5_def)
    next
      case hs: (Some hs)
      show thesis
      proof (cases "mset hs = hashes_at lix path")
        case True
        with pr lr hs show thesis by (intro Same) (simp_all add: rule5_def Let_def)
      next
        case differ: False
        show thesis
        proof (cases "\<exists>a as. f_hunks row = Some (a # as) \<and> mset (a # as) - mset hs = {#}
            \<and> mset (a # as) - hashes_at lix path = {#} \<and> size (mset hs \<inter># hashes_at lix path) \<noteq> 0")
          case True
          then obtain a as where "f_hunks row = Some (a # as)" "mset (a # as) - mset hs = {#}"
            "mset (a # as) - hashes_at lix path = {#}" "size (mset hs \<inter># hashes_at lix path) \<noteq> 0"
            by (elim exE conjE) (rule that)
          with pr lr hs differ show thesis
            by (intro Attr [where att = "a # as" and pix = pix and hs = hs and lix = lix])
              (simp_all add: rule5_def Let_def Diff_eq_empty_iff_mset)
        next
          case False
          with pr lr hs differ show thesis
            by (intro Unk [of "case rule5 row path pr lr of e \<Rightarrow> the (c_reason e)"])
              (auto simp: rule5_def Let_def entry_simps split: option.splits list.splits if_splits)
        qed
      qed
    qed
  qed
qed

lemma rule5_fields [entry_simps]:
  "c_side (rule5 row path pr lr) = Prior" "c_finding (rule5 row path pr lr) = row"
  "c_state (rule5 row path pr lr) \<noteq> Resolved" "c_state (rule5 row path pr lr) \<noteq> Excluded"
  "c_state (rule5 row path pr lr) \<noteq> Matched" "c_state (rule5 row path pr lr) \<noteq> New"
  "c_state (rule5 row path pr lr) = Persisted \<Longrightarrow> c_basis (rule5 row path pr lr) \<noteq> None"
  by (rule rule5_cases [of row path pr lr]; simp add: entry_simps)+

definition reason_set :: "classification \<Rightarrow> bool" where
  "reason_set e \<longleftrightarrow> (c_state e = Unknown \<longrightarrow> c_reason e \<noteq> None)"

lemma rule5_reason: "reason_set (rule5 row path pr lr)"
  by (rule rule5_cases [of row path pr lr]) (simp_all add: entry_simps reason_set_def)

lemma prior_rows:
  "map (\<lambda>e. (c_side e, c_finding e)) (classify_prior b reasons lr pr rows) = map (Pair Prior) rows"
  by (induction rows arbitrary: b) (auto simp: entry_simps split: option.splits)

lemma later_rows:
  "map (\<lambda>e. (c_side e, c_finding e)) (classify_later b lr pr rows) = map (Pair Later) rows"
  by (induction rows arbitrary: b) (auto simp: entry_simps split: option.splits)

subsection \<open>Budgets\<close>

lemma map_filter_Cons_simps [simp]:
  "f x = None \<Longrightarrow> List.map_filter f (x # xs) = List.map_filter f xs"
  "f x = Some y \<Longrightarrow> List.map_filter f (x # xs) = y # List.map_filter f xs"
  by (simp_all add: List.map_filter_def)

lemma identity_counts_Nil [simp]: "identity_counts [] i = 0"
  by (simp add: identity_counts_def List.map_filter_def)

lemma identity_counts_Cons:
  "identity_counts (row # rows) i = (if identity row = Some i then 1 else 0) + identity_counts rows i"
  by (cases "identity row") (auto simp: identity_counts_def)

lemma identity_counts_pos:
  "0 < identity_counts rows i \<Longrightarrow> \<exists>row \<in> set rows. identity row = Some i"
  by (induction rows) (auto simp: identity_counts_Cons split: if_splits)

definition kept_for :: "string \<times> string \<Rightarrow> classification \<Rightarrow> bool" where
  "kept_for i e \<longleftrightarrow>
     c_side e = Prior \<and> c_state e = Persisted \<and> c_basis e = None \<and> identity (c_finding e) = Some i"

definition matched_for :: "string \<times> string \<Rightarrow> classification \<Rightarrow> bool" where
  "matched_for i e \<longleftrightarrow> c_side e = Later \<and> c_state e = Matched \<and> identity (c_finding e) = Some i"

lemma kept_spent:
  "b i \<le> identity_counts rows i \<Longrightarrow>
   length (filter (kept_for i) (classify_prior b reasons lr pr rows)) = b i"
proof (induction rows arbitrary: b)
  case (Cons row rows)
  show ?case
  proof (cases "identity row")
    case None
    with Cons show ?thesis by (simp add: kept_for_def entry_simps identity_counts_Cons)
  next
    case (Some j)
    show ?thesis
    proof (cases "0 < b j")
      case True
      define b' where "b' = b(j := b j - 1)"
      have b': "b' i = (if i = j then b j - 1 else b i)" by (simp add: b'_def)
      with True Some Cons.prems have "b' i \<le> identity_counts rows i"
        by (auto simp: identity_counts_Cons split: if_splits)
      then have len: "length (filter (kept_for i) (classify_prior b' reasons lr pr rows)) = b' i" by (rule Cons.IH)
      have "kept_for i (entry Prior row Persisted) \<longleftrightarrow> i = j" using Some by (auto simp: kept_for_def entry_simps)
      with True Some len b' show ?thesis by (cases "i = j") (simp_all add: b'_def [symmetric] del: One_nat_def)
    next
      case False
      with Some Cons.prems have "b i \<le> identity_counts rows i"
        by (auto simp: identity_counts_Cons split: if_splits)
      from Cons.IH [of b, OF this] False Some show ?thesis
        by (auto simp: kept_for_def entry_simps split: option.splits)
    qed
  qed
qed simp

lemma matched_spent:
  "b i \<le> identity_counts rows i \<Longrightarrow>
   length (filter (matched_for i) (classify_later b lr pr rows)) = b i"
proof (induction rows arbitrary: b)
  case (Cons row rows)
  show ?case
  proof (cases "identity row")
    case None
    with Cons show ?thesis by (simp add: matched_for_def entry_simps identity_counts_Cons)
  next
    case (Some j)
    show ?thesis
    proof (cases "0 < b j")
      case True
      define b' where "b' = b(j := b j - 1)"
      have b': "b' i = (if i = j then b j - 1 else b i)" by (simp add: b'_def)
      with True Some Cons.prems have "b' i \<le> identity_counts rows i"
        by (auto simp: identity_counts_Cons split: if_splits)
      then have len: "length (filter (matched_for i) (classify_later b' lr pr rows)) = b' i" by (rule Cons.IH)
      have "matched_for i (entry Later row Matched) \<longleftrightarrow> i = j" using Some by (auto simp: matched_for_def entry_simps)
      with True Some len b' show ?thesis by (cases "i = j") (simp_all add: b'_def [symmetric] del: One_nat_def)
    next
      case False
      with Some Cons.prems have "b i \<le> identity_counts rows i"
        by (auto simp: identity_counts_Cons split: if_splits)
      from Cons.IH [of b, OF this] False Some show ?thesis
        by (auto simp: matched_for_def entry_simps)
    qed
  qed
qed simp

lemma prior_not_matched: "e \<in> set (classify_prior b reasons lr pr rows) \<Longrightarrow> c_side e = Prior"
  using prior_rows [of b reasons lr pr rows] by (metis (mono_tags, lifting) fst_conv image_iff list.set_map)

lemma later_not_prior: "e \<in> set (classify_later b lr pr rows) \<Longrightarrow> c_side e = Later"
  using later_rows [of b lr pr rows] by (metis (mono_tags, lifting) fst_conv image_iff list.set_map)

subsection \<open>What an entry rests on\<close>

text \<open>
  The evidence behind a persisted entry: the finding was reported again; or its own file's delta is
  the same multiset of hunks in both reads; or the hunks it was attributed to are in both.
\<close>

definition evidence :: "finding list \<Rightarrow> read_row option \<Rightarrow> read_row option \<Rightarrow> classification \<Rightarrow> bool" where
  "evidence later_findings later_read prior_read e =
     (case c_basis e of
        None \<Rightarrow> identity (c_finding e) \<noteq> None \<and>
          list_ex (\<lambda>row. identity row = identity (c_finding e)) later_findings
      | Some By_Construction \<Rightarrow>
          (case (f_path (c_finding e), index_of prior_read, index_of later_read) of
             (Some path, Some pix, Some lix) \<Rightarrow>
               dict_get pix path \<noteq> None \<and> hashes_at pix path = hashes_at lix path
           | _ \<Rightarrow> False)
      | Some Attributed_Surviving \<Rightarrow>
          (case (f_path (c_finding e), f_hunks (c_finding e), index_of prior_read, index_of later_read) of
             (Some path, Some att, Some pix, Some lix) \<Rightarrow>
               att \<noteq> [] \<and> mset att \<subseteq># hashes_at pix path \<and> mset att \<subseteq># hashes_at lix path
           | _ \<Rightarrow> False))"

lemma identity_path: "identity row = Some i \<Longrightarrow> f_path row = Some (snd i)"
  by (auto simp: identity_def split: option.splits)

lemma rule5_evidence:
  assumes "identity row = Some i" and "c_state (rule5 row (snd i) pr lr) = Persisted"
  shows "evidence laters lr pr (rule5 row (snd i) pr lr)"
  by (rule rule5_cases [of row "snd i" pr lr])
    (use assms identity_path [OF assms(1)] in
      \<open>simp_all add: entry_simps evidence_def hashes_at_def\<close>)

lemma prior_evidence:
  "e \<in> set (classify_prior b reasons lr pr rows) \<Longrightarrow> c_state e = Persisted \<Longrightarrow>
   (\<And>i. 0 < b i \<Longrightarrow> 0 < identity_counts laters i) \<Longrightarrow> evidence laters lr pr e"
proof (induction rows arbitrary: b)
  case (Cons row rows)
  show ?case
  proof (cases "identity row")
    case None
    with Cons.prems(1,2) have "e \<in> set (classify_prior b reasons lr pr rows)"
      by (auto simp: entry_simps split: if_splits)
    with Cons.IH Cons.prems show ?thesis by blast
  next
    case (Some i)
    show ?thesis
    proof (cases "0 < b i")
      case True
      have ev: "evidence laters lr pr (entry Prior row Persisted)"
        using identity_counts_pos [OF Cons.prems(3) [OF True]] Some
        by (auto simp: evidence_def entry_simps list_ex_iff)
      from True Some Cons.prems(1) have "e = entry Prior row Persisted \<or>
        e \<in> set (classify_prior (b(i := b i - 1)) reasons lr pr rows)" by simp
      moreover have "0 < identity_counts laters j" if "0 < (b(i := b i - 1)) j" for j
        using that Cons.prems(3) by (auto split: if_splits)
      ultimately show ?thesis using ev Cons.IH Cons.prems(2) by blast
    next
      case False
      from False Some Cons.prems(1,2) have "e = rule5 row (snd i) pr lr \<or>
        e \<in> set (classify_prior b reasons lr pr rows)"
        by (auto simp: entry_simps split: option.splits)
      then show ?thesis using rule5_evidence [OF Some] Cons.IH Cons.prems(2,3) by blast
    qed
  qed
qed simp

lemma later_states: "e \<in> set (classify_later b lr pr rows) \<Longrightarrow>
  c_state e \<in> {Matched, New, Unknown, Excluded} \<and> reason_set e"
  by (induction rows arbitrary: b)
    (auto simp: entry_simps reason_set_def unmatchable_def split: option.splits if_splits)

lemma prior_states: "e \<in> set (classify_prior b reasons lr pr rows) \<Longrightarrow>
  c_state e \<in> {Persisted, Unknown, Excluded} \<and> reason_set e"
proof (induction rows arbitrary: b)
  case (Cons row rows)
  have r5: "c_state (rule5 row p pr lr) \<in> {Persisted, Unknown, Excluded} \<and>
    reason_set (rule5 row p pr lr)" for p
    using rule5_reason by (cases "c_state (rule5 row p pr lr)") (simp_all add: entry_simps)
  have un: "reason_set (unmatchable Prior row)" "reason_set (unknown Prior row why)"
    "reason_set (entry Prior row Persisted)" for why
    by (simp_all add: entry_simps reason_set_def unmatchable_def)
  from Cons r5 un show ?case by (auto simp: entry_simps split: option.splits if_splits)
qed simp

subsection \<open>Counting the report\<close>

lemma sum_bump: "sum_list (map snd (bump k d)) = Suc (sum_list (map snd d))"
proof -
  have "sum_list (map snd (dict_set k v d)) + (case dict_get d k of None \<Rightarrow> 0 | Some n \<Rightarrow> n) =
    v + sum_list (map snd d)" for v :: nat
    by (induction d) (auto split: if_splits)
  from this [of "Suc (case dict_get d k of None \<Rightarrow> 0 | Some n \<Rightarrow> n)"] show ?thesis
    by (simp add: bump_def)
qed

lemma sum_fold_bump: "sum_list (map snd (fold bump ks d)) = length ks + sum_list (map snd d)"
  by (induction ks arbitrary: d) (simp_all add: sum_bump)

lemma count_list_map: "count_list (map f xs) v = length (filter (\<lambda>x. f x = v) xs)"
  by (induction xs) auto

lemma length_map_filter: "(\<And>x. x \<in> set xs \<Longrightarrow> f x \<noteq> None) \<Longrightarrow> length (List.map_filter f xs) = length xs"
  by (induction xs) (auto simp: List.map_filter_def)

lemma states_partition:
  "list_all (\<lambda>e. c_state e \<noteq> Resolved) es \<Longrightarrow>
   length (filter (\<lambda>e. c_state e = Persisted) es) + length (filter (\<lambda>e. c_state e = New) es) +
   length (filter (\<lambda>e. c_state e = Unknown) es) + length (filter (\<lambda>e. c_state e = Excluded) es) +
   length (filter (\<lambda>e. c_state e = Matched) es) = length es"
proof (induction es)
  case (Cons e es)
  then show ?case by (cases "c_state e") simp_all
qed simp

lemma classify_split:
  "classify priors laters reasons later_read prior_read =
     classify_prior (\<lambda>i. min (identity_counts priors i) (identity_counts laters i)) reasons later_read
       prior_read priors
     @ classify_later (\<lambda>i. min (identity_counts laters i) (identity_counts priors i)) later_read
         prior_read laters"
  by (simp only: classify_def Let_def)

lemma classify_entry:
  assumes "e \<in> set (classify priors laters reasons later_read prior_read)"
  obtains "c_state e \<in> {Persisted, Unknown, Excluded}" "reason_set e"
  | "c_state e \<in> {Matched, New, Unknown, Excluded}" "reason_set e"
  using assms unfolding classify_split set_append by (blast dest: prior_states later_states)

lemma classify_rows:
  "map (\<lambda>e. (c_side e, c_finding e)) (classify priors laters reasons later_read prior_read) =
     map (Pair Prior) priors @ map (Pair Later) laters"
  by (simp add: classify_split prior_rows later_rows)

lemma classify_no_resolved:
  "filter (\<lambda>e. c_state e = Resolved) (classify priors laters reasons later_read prior_read) = []"
proof -
  have "c_state e \<noteq> Resolved"
    if "e \<in> set (classify priors laters reasons later_read prior_read)" for e
    using that by (rule classify_entry) auto
  then show ?thesis unfolding filter_empty_conv by blast
qed

text \<open>A prior finding that was not reported again is decided by rules 3, 4 and 5, in that order.\<close>

lemma absent_entry:
  "e \<in> set (classify_prior b reasons lr pr rows) \<Longrightarrow> identity (c_finding e) = Some i \<Longrightarrow> b i = 0 \<Longrightarrow>
   e = (case abstention i reasons lr of Some why \<Rightarrow> unknown Prior (c_finding e) why
        | None \<Rightarrow> rule5 (c_finding e) (snd i) pr lr)"
proof (induction rows arbitrary: b)
  case (Cons row rows)
  show ?case
  proof (cases "identity row")
    case None
    with Cons.prems(1,2) have "e \<in> set (classify_prior b reasons lr pr rows)"
      by (auto simp: entry_simps)
    with Cons.IH Cons.prems(2,3) show ?thesis by blast
  next
    case (Some j)
    show ?thesis
    proof (cases "0 < b j")
      case True
      with Some Cons.prems have "e \<in> set (classify_prior (b(j := b j - 1)) reasons lr pr rows)"
        by (auto simp: entry_simps)
      moreover have "(b(j := b j - 1)) i = 0" using Cons.prems(3) by auto
      ultimately show ?thesis using Cons.IH Cons.prems(2) by blast
    next
      case False
      with Some Cons.prems(1) consider "e = (case abstention j reasons lr of
          Some why \<Rightarrow> unknown Prior row why | None \<Rightarrow> rule5 row (snd j) pr lr)"
        | "e \<in> set (classify_prior b reasons lr pr rows)"
        by auto
      then show ?thesis
      proof cases
        case 1
        then have fe: "c_finding e = row" by (auto simp: entry_simps split: option.splits)
        with Some Cons.prems(2) have "j = i" by simp
        with 1 show ?thesis unfolding fe by (simp only:)
      next
        case 2
        with Cons.IH Cons.prems(2,3) show ?thesis by blast
      qed
    qed
  qed
qed simp

lemma absent_classified:
  assumes "e \<in> set (classify priors laters reasons lr pr)" and "c_side e = Prior"
    and "identity (c_finding e) = Some i" and "identity_counts laters i = 0"
  shows "e = (case abstention i reasons lr of Some why \<Rightarrow> unknown Prior (c_finding e) why
        | None \<Rightarrow> rule5 (c_finding e) (snd i) pr lr)"
proof -
  from assms(1,2) have "e \<in> set (classify_prior
      (\<lambda>i. min (identity_counts priors i) (identity_counts laters i)) reasons lr pr priors)"
    unfolding classify_split set_append using later_not_prior by (metis Un_iff side.distinct(1))
  then show ?thesis using assms(3) by (rule absent_entry) (simp add: assms(4))
qed

lemma index_get:
  "dict_get (index_from_patches sha256 ps) path =
     map_option (\<lambda>p. map (hash_hunk sha256) (split_hunks p)) (dict_get ps path)"
  by (induction ps) (auto simp: index_from_patches_def)

lemma delta_hashes:
  "patch_delta a = patch_delta b \<Longrightarrow>
   map (hash_hunk sha256) (split_hunks a) = map (hash_hunk sha256) (split_hunks b)"
  using index_of_deltas [of a b sha256 "[]"] by (simp add: index_from_patches_def)

subsection \<open>Properties\<close>

text \<open>
  Every row gets one entry: the entries are the prior rows in order and then the later rows in
  order, none dropped and none repeated, and no entry is ever called resolved.
\<close>
theorem classify_covers_every_row:
  "map (\<lambda>e. (c_side e, c_finding e)) (classify priors laters reasons later_read prior_read) =
     map (Pair Prior) priors @ map (Pair Later) laters
   \<and> filter (\<lambda>e. c_state e = Resolved) (classify priors laters reasons later_read prior_read) = []"
  by (simp only: classify_rows classify_no_resolved)

text \<open>
  C11. Occurrences are paired by count: of \<open>p\<close> prior and \<open>l\<close> later rows of one identity, exactly the
  smaller number persist by being reported again, and the same number of later rows are matched, so
  that a finding is never counted as both new and persisting.
\<close>
theorem occurrences_pair_by_count:
  "length (filter (kept_for i) (classify priors laters reasons later_read prior_read)) =
     min (identity_counts priors i) (identity_counts laters i)
   \<and> length (filter (matched_for i) (classify priors laters reasons later_read prior_read)) =
     min (identity_counts priors i) (identity_counts laters i)"
proof -
  let ?b = "\<lambda>i. min (identity_counts priors i) (identity_counts laters i)"
  let ?b' = "\<lambda>i. min (identity_counts laters i) (identity_counts priors i)"
  let ?p = "classify_prior ?b reasons later_read prior_read priors"
  let ?l = "classify_later ?b' later_read prior_read laters"
  have es: "classify priors laters reasons later_read prior_read = ?p @ ?l"
    by (rule classify_split)
  have "filter (kept_for i) ?l = []" "filter (matched_for i) ?p = []"
    using later_not_prior prior_not_matched unfolding filter_empty_conv kept_for_def matched_for_def
    by (metis side.distinct(1))+
  moreover have "length (filter (kept_for i) ?p) = ?b i" by (rule kept_spent) simp
  moreover have "length (filter (matched_for i) ?l) = ?b' i" by (rule matched_spent) simp
  ultimately show ?thesis unfolding es filter_append length_append by (simp add: min.commute)
qed

text \<open>
  C25. A finding is carried forward only on evidence: it was reported again, or the two stored hunk
  indexes show its file's hunks, or the hunks it is attributed to, unchanged. The reader's silence
  alone never makes it persist.
\<close>
theorem persisted_has_evidence:
  assumes "e \<in> set (classify priors laters reasons later_read prior_read)"
    and "c_state e = Persisted"
  shows "evidence laters later_read prior_read e"
proof -
  from assms(1) consider "e \<in> set (classify_prior
      (\<lambda>i. min (identity_counts priors i) (identity_counts laters i)) reasons later_read prior_read priors)"
    | "e \<in> set (classify_later
      (\<lambda>i. min (identity_counts laters i) (identity_counts priors i)) later_read prior_read laters)"
    unfolding classify_split by auto
  then show ?thesis
  proof cases
    case 1
    then show ?thesis using assms(2) by (rule prior_evidence) simp
  next
    case 2
    from later_states [OF this] assms(2) show ?thesis by simp
  qed
qed

definition ex_finding :: finding where
  "ex_finding = \<lparr>f_rule = ''reader:Dead Reference'', f_label = None, f_path = Some ''f'', f_hunks = None\<rparr>"

definition ex_read :: "string \<Rightarrow> read_row" where
  "ex_read patch =
     \<lparr>files_unseen = None, files_dropped = Some [], file_cut = None,
      r_hunks = Some (index_from_patches rev [(''f'', patch)])\<rparr>"

definition ex_entries :: "classification list" where
  "ex_entries = classify [ex_finding] [] [] (Some (ex_read ex_rebased)) (Some (ex_read ex_patch))"

lemma ex_entry: "hd ex_entries \<in> set ex_entries \<and> c_state (hd ex_entries) = Persisted \<and> c_side (hd ex_entries) = Prior"
  by code_simp

theorem persisted_has_evidence_witness:
  "evidence [] (Some (ex_read ex_rebased)) (Some (ex_read ex_patch)) (hd ex_entries)"
  by (rule persisted_has_evidence [where priors = "[ex_finding]" and reasons = "[]"])
    (use ex_entry in \<open>simp_all add: ex_entries_def\<close>)

text \<open>
  The report adds up: the counts it gives, together with the excluded rows and the later rows
  that matched a prior one, are all the rows; unknown rows are counted once each under their reason
  and never enter the ratio, which is absent when nothing is decided and zero otherwise, because this
  version resolves nothing.
\<close>
theorem report_adds_up:
  "let es = classify priors laters reasons later_read prior_read;
       r = compare priors laters reasons later_read prior_read
   in n_persisted r + n_new r + unknown_total r
        + length (filter (\<lambda>e. c_state e = Excluded) es) + length (filter (\<lambda>e. c_state e = Matched) es)
        = length priors + length laters
      \<and> ratio r = (if n_persisted r = 0 then None else Some 0)"
proof -
  define es where "es = classify priors laters reasons later_read prior_read"
  define r where "r = compare priors laters reasons later_read prior_read"
  have none: "filter (\<lambda>e. c_state e = Resolved) es = []"
    using classify_no_resolved by (simp add: es_def)
  then have "list_all (\<lambda>e. c_state e \<noteq> Resolved) es" by (simp add: list_all_iff filter_empty_conv)
  note parts = states_partition [OF this]
  have "reason_set e" if "e \<in> set es" for e
    using that unfolding es_def by (rule classify_entry)
  then have "length (List.map_filter c_reason (filter (\<lambda>e. c_state e = Unknown) es)) =
    length (filter (\<lambda>e. c_state e = Unknown) es)"
    by (intro length_map_filter) (simp add: reason_set_def)
  moreover have "length es = length priors + length laters"
    using classify_rows [of priors laters reasons later_read prior_read]
    by (metis es_def length_append length_map)
  moreover have "n_resolved r = 0"
    unfolding r_def compare_def Let_def es_def [symmetric] by (simp add: count_list_map none)
  ultimately show ?thesis
    using parts unfolding es_def [symmetric] r_def [symmetric] Let_def
    by (simp add: ratio_def unknown_total_def r_def compare_def es_def [symmetric] count_list_map sum_fold_bump)
qed

text \<open>
  A rebase carries a finding forward: when the later read covers the finding's file, no notice
  settled the finding, and the file's patch kept its changed lines (only line numbers, headings and
  context moved), a finding that is not reported again persists by construction.
\<close>
theorem rebase_carries_forward:
  assumes "e \<in> set (classify priors laters reasons later_read prior_read)" and "c_side e = Prior"
    and "identity (c_finding e) = Some (pattern, path)"
    and "identity_counts laters (pattern, path) = 0"
    and "abstention (pattern, path) reasons later_read = None"
    and "index_of prior_read = Some (index_from_patches sha256 old_patches)"
    and "index_of later_read = Some (index_from_patches sha256 new_patches)"
    and "dict_get old_patches path = Some old" and "dict_get new_patches path = Some new"
    and "patch_delta old = patch_delta new"
  shows "c_state e = Persisted \<and> c_basis e = Some By_Construction"
proof -
  from absent_classified [OF assms(1-4)] assms(5)
  have "e = rule5 (c_finding e) path prior_read later_read" by simp
  moreover have "c_state (rule5 row path prior_read later_read) = Persisted \<and>
    c_basis (rule5 row path prior_read later_read) = Some By_Construction" for row
    using assms(6-9) delta_hashes [OF assms(10)]
    by (simp add: rule5_def index_get hashes_at_def entry_def)
  ultimately show ?thesis by metis
qed

theorem rebase_carries_forward_witness:
  "c_state (hd ex_entries) = Persisted \<and> c_basis (hd ex_entries) = Some By_Construction"
  by (rule rebase_carries_forward [where priors = "[ex_finding]" and laters = "[]" and reasons = "[]"
        and later_read = "Some (ex_read ex_rebased)" and prior_read = "Some (ex_read ex_patch)"
        and pattern = "''dead-reference''" and path = "''f''" and ?sha256.0 = rev
        and old_patches = "[(''f'', ex_patch)]" and new_patches = "[(''f'', ex_rebased)]"
        and old = ex_patch and new = ex_rebased])
    (use ex_entry in \<open>simp add: ex_entries_def\<close>, use ex_entry in simp, code_simp+)

end
