(* ===== verification/Text_Units.thy ===== *)
theory Text_Units
  imports Regex
begin

text \<open>
  Lengths, slices and numbers in text. Python counts code points; a string here is UTF-8, so a
  length counts the bytes that begin a code point and a slice keeps the continuation bytes of the
  last code point it takes. Numbers print in decimal. Last, the JSON values some columns and
  responses carry.
\<close>

subsection \<open>Code points\<close>

definition cont_byte :: "char \<Rightarrow> bool" where
  "cont_byte c \<longleftrightarrow> 128 \<le> (of_char c :: nat) \<and> (of_char c :: nat) < 192"

lemma cont_byte_code [code]: "cont_byte (Char b0 b1 b2 b3 b4 b5 b6 b7) \<longleftrightarrow> b7 \<and> \<not> b6"
  unfolding cont_byte_def char_bits by (cases b7; cases b6; cases b5; simp)

text \<open>\<open>len(s)\<close>, \<open>s[:n]\<close> and \<open>s[n:]\<close> for a non-negative \<open>n\<close>.\<close>

definition cp_len :: "string \<Rightarrow> nat" where
  "cp_len s = length (filter (\<lambda>c. \<not> cont_byte c) s)"

fun cp_take :: "nat \<Rightarrow> string \<Rightarrow> string" where
  "cp_take n [] = []"
| "cp_take n (c # s) =
     (if cont_byte c then c # cp_take n s
      else case n of 0 \<Rightarrow> [] | Suc m \<Rightarrow> c # cp_take m s)"

fun cp_drop :: "nat \<Rightarrow> string \<Rightarrow> string" where
  "cp_drop n [] = []"
| "cp_drop n (c # s) =
     (if cont_byte c then cp_drop n s
      else case n of 0 \<Rightarrow> c # s | Suc m \<Rightarrow> cp_drop m s)"

lemma cp_len_Nil [simp]: "cp_len [] = 0"
  and cp_len_append [simp]: "cp_len (s @ t) = cp_len s + cp_len t"
  and cp_len_Cons: "cp_len (c # s) = (if cont_byte c then 0 else 1) + cp_len s"
  by (simp_all add: cp_len_def)

lemma cp_len_take: "cp_len (cp_take n s) \<le> n"
  by (induction n s rule: cp_take.induct) (auto simp: cp_len_Cons split: nat.splits)

lemma cp_take_drop: "cp_take n s @ cp_drop n s = s"
  by (induction n s rule: cp_take.induct) (auto split: nat.splits)

lemma cp_take_all: "cp_len s \<le> n \<Longrightarrow> cp_take n s = s"
  by (induction n s rule: cp_take.induct) (auto simp: cp_len_Cons split: nat.splits if_splits)

lemma cp_len_take_min: "cp_len (cp_take n s) = min n (cp_len s)"
  by (induction n s rule: cp_take.induct) (auto simp: cp_len_Cons split: nat.splits)

text \<open>A text that begins with a whole code point.\<close>

definition text_start :: "string \<Rightarrow> bool" where
  "text_start s \<longleftrightarrow> (case s of [] \<Rightarrow> True | c # _ \<Rightarrow> \<not> cont_byte c)"

lemma text_start_simps [simp]: "text_start []" "text_start (c # s) \<longleftrightarrow> \<not> cont_byte c"
  by (simp_all add: text_start_def)

lemma cp_take_prefix: "text_start t \<Longrightarrow> cp_take (cp_len s) (s @ t) = s"
proof (induction s)
  case Nil
  then show ?case by (cases t) auto
qed (simp add: cp_len_Cons)

lemma cp_drop_prefix: "text_start t \<Longrightarrow> cp_drop (cp_len s) (s @ t) = t"
  by (metis append_eq_append_conv cp_take_drop cp_take_prefix)

lemma not_cont_ascii: "(of_char c :: nat) < 128 \<Longrightarrow> \<not> cont_byte c"
  by (simp add: cont_byte_def)

text \<open>\<open>s[a:b]\<close> for \<open>0 \<le> a\<close> and \<open>0 \<le> b\<close>.\<close>

definition cp_slice :: "nat \<Rightarrow> nat \<Rightarrow> string \<Rightarrow> string" where
  "cp_slice a b s = cp_drop a (cp_take b s)"

lemma cp_slice_middle:
  "text_start t \<Longrightarrow> text_start u \<Longrightarrow>
   cp_slice (cp_len s) (cp_len s + cp_len t) (s @ t @ u) = t"
  using cp_take_prefix [of u "s @ t"] cp_drop_prefix [of t s] by (simp add: cp_slice_def)

subsection \<open>Numbers\<close>

definition digit_of :: "nat \<Rightarrow> char" where
  "digit_of n = char_of (48 + n)"

text \<open>\<open>str(n)\<close> for a natural number, and for an integer.\<close>

fun dec :: "nat \<Rightarrow> string" where
  "dec n = (if n < 10 then [digit_of n] else dec (n div 10) @ [digit_of (n mod 10)])"

declare dec.simps [simp del]

definition dec_int :: "int \<Rightarrow> string" where
  "dec_int i = (if i < 0 then CHR ''-'' # dec (nat (- i)) else dec (nat i))"

lemma digit_of_value: "n < 10 \<Longrightarrow> (of_char (digit_of n) :: nat) = 48 + n"
  by (simp add: digit_of_def)

lemma digit_of_digit: "n < 10 \<Longrightarrow> digit_char (digit_of n)"
  by (simp add: digit_char_def digit_of_value)

lemma dec_ne [simp]: "dec n \<noteq> []"
  by (subst dec.simps) simp

lemma dec_digits: "c \<in> set (dec n) \<Longrightarrow> digit_char c"
proof (induction n rule: dec.induct)
  case (1 n)
  show ?case
  proof (cases "n < 10")
    case True
    with 1(2) show ?thesis by (subst (asm) dec.simps) (simp add: digit_of_digit)
  next
    case False
    with 1(2) have "c \<in> set (dec (n div 10)) \<or> c = digit_of (n mod 10)"
      by (subst (asm) dec.simps) auto
    with 1(1) False show ?thesis by (auto simp: digit_of_digit)
  qed
qed

lemma int_of_digits_snoc: "int_of_digits (s @ [c]) = 10 * int_of_digits s + (int (of_char c) - 48)"
  by (simp add: int_of_digits_def)

lemma int_of_digits_dec [simp]: "int_of_digits (dec n) = int n"
proof (induction n rule: dec.induct)
  case (1 n)
  show ?case
  proof (cases "n < 10")
    case True
    then show ?thesis by (subst dec.simps) (simp add: int_of_digits_def digit_of_value)
  next
    case False
    have "int (10 * (n div 10) + n mod 10) = int n" by simp
    then have "10 * int (n div 10) + int (n mod 10) = int n" by (simp only: of_nat_add of_nat_mult of_nat_numeral)
    with 1 False show ?thesis
      by (subst dec.simps) (simp add: int_of_digits_snoc digit_of_value)
  qed
qed

lemma dec_inj: "dec m = dec n \<Longrightarrow> m = n"
  by (metis int_of_digits_dec of_nat_eq_iff)

subsection \<open>Words of a text, and occurrences\<close>

text \<open>\<open>s.split()\<close>.\<close>

fun words_from :: "string \<Rightarrow> string \<Rightarrow> string list" where
  "words_from acc [] = (if acc = [] then [] else [rev acc])"
| "words_from acc (c # s) =
     (if space_char c then (if acc = [] then words_from [] s else rev acc # words_from [] s)
      else words_from (c # acc) s)"

definition words :: "string \<Rightarrow> string list" where
  "words s = words_from [] s"

text \<open>\<open>sub in s\<close> and \<open>s.count(sub)\<close> for a non-empty \<open>sub\<close>.\<close>

definition contains :: "string \<Rightarrow> string \<Rightarrow> bool" where
  "contains s sub = fst (snd (str_partition s sub))"

definition count_sub :: "string \<Rightarrow> string \<Rightarrow> nat" where
  "count_sub s sub = length (split_on sub s) - 1"

lemma split_on_append_char:
  "split_on [c] (a @ c # b) = split_on [c] a @ split_on [c] b"
proof (induction a rule: length_induct)
  case (1 a)
  show ?case
  proof (cases "c \<in> set a")
    case False
    then show ?thesis by (simp add: split_on_char split_on_char_none)
  next
    case True
    then obtain u v where a: "a = u @ c # v" and u: "c \<notin> set u" by (metis split_list_first)
    with 1 have ih: "split_on [c] (v @ c # b) = split_on [c] v @ split_on [c] b" by simp
    show ?thesis unfolding a by (simp add: split_on_char [OF u] ih)
  qed
qed

subsection \<open>JSON values\<close>

datatype json =
    JNull
  | JBool bool
  | JNum int
  | JStr string
  | JArr "json list"
  | JObj "(string \<times> json) list"

text \<open>\<open>d.get(key)\<close> on a decoded object: an absent key and a null are both \<open>JNull\<close>.\<close>

definition jget :: "(string \<times> json) list \<Rightarrow> string \<Rightarrow> json" where
  "jget d k = (case dict_get d k of None \<Rightarrow> JNull | Some v \<Rightarrow> v)"

end
