(* ===== verification/Reader_Coverage.thy ===== *)
theory Reader_Coverage
  imports Text_Units Hunks
begin

text \<open>
  What a read of a diff saw, from \<open>api/doug/reader.py\<close>: the cut at the budget, the coverage record
  derived from the same cut, the tags it puts on findings and the sentence it puts on a verdict.
  Positions and lengths are in code points. The iteration order of a Python set is a parameter, and
  so is the rendering of a float as a percentage.
\<close>

subsection \<open>Assembling and cutting the diff\<close>

definition DIFF_BUDGET :: nat where
  "DIFF_BUDGET = 100000"

definition sent_slice :: "string \<Rightarrow> nat option \<Rightarrow> string" where
  "sent_slice diff budget = cp_take (case budget of None \<Rightarrow> DIFF_BUDGET | Some b \<Rightarrow> b) diff"

definition diff_chunk :: "string \<Rightarrow> string \<Rightarrow> int \<Rightarrow> int \<Rightarrow> string \<Rightarrow> string" where
  "diff_chunk filename status additions deletions patch =
     ''### '' @ filename @ '' ('' @ status @ '', +'' @ dec_int additions @ ''/-'' @ dec_int deletions
       @ '')'' @ newline @ patch"

definition CHUNK_SEPARATOR :: string where
  "CHUNK_SEPARATOR = newline @ newline"

text \<open>
  \<open>_FILE_HEADER\<close> on one line, \<open>^### (.+) \([a-z]+, \+\d+/-\d+\)$\<close>. Every part after the name is a
  run of one character class between fixed signs outside the class, so reading from the right finds
  the only split there is.
\<close>

definition header_name :: "string \<Rightarrow> string option" where
  "header_name line =
     (if \<not> startswith line ''### '' then None
      else case rev (drop 4 line) of
        [] \<Rightarrow> None
      | c # r \<Rightarrow>
          if c \<noteq> CHR '')'' then None
          else let dels = takeWhile digit_char r; r1 = dropWhile digit_char r in
          if dels = [] \<or> \<not> startswith r1 ''-/'' then None
          else let adds = takeWhile digit_char (drop 2 r1); r2 = dropWhile digit_char (drop 2 r1) in
          if adds = [] \<or> \<not> startswith r2 ''+ ,'' then None
          else let status = takeWhile lower_ascii (drop 3 r2); r3 = dropWhile lower_ascii (drop 3 r2) in
          if status = [] \<or> \<not> startswith r3 ''( '' then None
          else let name = rev (drop 2 r3) in if name = [] then None else Some name)"

text \<open>A match of the pattern: the name, and where the line starts and ends in the diff.\<close>

record header =
  h_name :: string
  h_start :: nat
  h_end :: nat

fun find_headers :: "nat \<Rightarrow> string list \<Rightarrow> header list" where
  "find_headers at [] = []"
| "find_headers at (line # lines) =
     (case header_name line of
        None \<Rightarrow> find_headers (at + cp_len line + 1) lines
      | Some name \<Rightarrow>
          \<lparr>h_name = name, h_start = at, h_end = at + cp_len line\<rparr>
            # find_headers (at + cp_len line + 1) lines)"

definition file_headers :: "string \<Rightarrow> header list" where
  "file_headers diff = find_headers 0 (split_on newline diff)"

subsection \<open>Coverage\<close>

record coverage =
  diff_chars :: nat
  sent_chars :: nat
  files_sent :: nat
  cov_unseen :: "string list"
  cov_cut :: "string option"
  changed_files :: "nat option"
  cov_dropped :: "string list"
  cov_hunks :: "(string \<times> string list) list option"

definition complete_read :: "coverage \<Rightarrow> bool" where
  "complete_read cov \<longleftrightarrow> diff_chars cov \<le> sent_chars cov \<and> cov_dropped cov = []"

definition chunk_content_end :: "header list \<Rightarrow> nat \<Rightarrow> nat \<Rightarrow> int" where
  "chunk_content_end matches pos diff_len =
     (if pos + 1 < length matches
      then int (h_start (matches ! (pos + 1))) - int (cp_len CHUNK_SEPARATOR)
      else int diff_len)"

definition chunk_patch :: "string \<Rightarrow> header list \<Rightarrow> nat \<Rightarrow> nat \<Rightarrow> string option" where
  "chunk_patch diff matches pos sent_len =
     (let m = matches ! pos; content_end = chunk_content_end matches pos (cp_len diff) in
      if int sent_len < content_end then None
      else if int (h_end m) + 1 \<le> content_end
      then Some (cp_slice (h_end m + 1) (nat content_end) diff)
      else Some [])"

definition hash_list :: "(string \<Rightarrow> string) \<Rightarrow> string \<Rightarrow> string list" where
  "hash_list sha256 patch = map (hash_hunk sha256) (split_hunks patch)"

text \<open>The file the budget landed inside.\<close>

definition cut_file :: "string \<Rightarrow> header list \<Rightarrow> nat \<Rightarrow> string option" where
  "cut_file diff matches sent_len =
     (let seen = filter (\<lambda>m. h_end m \<le> sent_len) matches in
      if sent_len < cp_len diff \<and> seen \<noteq> []
      then let next_start = (if length seen < length matches then h_start (matches ! length seen)
                             else cp_len diff)
           in if int (cp_len CHUNK_SEPARATOR) < int next_start - int sent_len
              then Some (h_name (last seen)) else None
      else None)"

definition sent_index ::
  "(string \<Rightarrow> string) \<Rightarrow> string \<Rightarrow> header list \<Rightarrow> nat \<Rightarrow> (string \<times> string list) list" where
  "sent_index sha256 diff matches sent_len =
     fold (\<lambda>pos index. case chunk_patch diff matches pos sent_len of
             None \<Rightarrow> index
           | Some patch \<Rightarrow> dict_set (h_name (matches ! pos)) (hash_list sha256 patch) index)
       [0..<length matches] []"

definition coverage_of ::
  "(string \<Rightarrow> string) \<Rightarrow> string \<Rightarrow> nat option \<Rightarrow> string list option \<Rightarrow> nat option \<Rightarrow> coverage" where
  "coverage_of sha256 diff changed dropped budget =
     (let sent_len = cp_len (sent_slice diff budget);
          matches = file_headers diff;
          seen = filter (\<lambda>m. h_end m \<le> sent_len) matches;
          seen_names = map h_name seen
      in \<lparr>diff_chars = cp_len diff, sent_chars = sent_len, files_sent = length seen,
          cov_unseen = filter (\<lambda>f. f \<notin> set seen_names) (map h_name matches),
          cov_cut = cut_file diff matches sent_len,
          changed_files = changed,
          cov_dropped = (case dropped of None \<Rightarrow> [] | Some fs \<Rightarrow> fs),
          cov_hunks = Some (sent_index sha256 diff matches sent_len)\<rparr>)"

definition hunk_index ::
  "(string \<Rightarrow> string) \<Rightarrow> string \<Rightarrow> nat option \<Rightarrow> (string \<times> string list) list option" where
  "hunk_index sha256 diff budget = cov_hunks (coverage_of sha256 diff None None budget)"

text \<open>\<open>_sent_file_patches\<close>: the patches of the files that arrived whole, or \<open>None\<close> on drift.\<close>

definition sent_patches :: "string \<Rightarrow> coverage \<Rightarrow> (string \<times> string list) list \<Rightarrow> (string \<times> string) list" where
  "sent_patches diff cov index =
     (let matches = file_headers diff in
      fold (\<lambda>pos patches.
              if dict_get index (h_name (matches ! pos)) = None then patches
              else case chunk_patch diff matches pos (sent_chars cov) of
                     None \<Rightarrow> patches
                   | Some patch \<Rightarrow> dict_set (h_name (matches ! pos)) patch patches)
        [0..<length matches] [])"

definition sent_file_patches ::
  "(string \<Rightarrow> string) \<Rightarrow> string \<Rightarrow> coverage \<Rightarrow> (string \<times> string) list option" where
  "sent_file_patches sha256 diff cov =
     (case cov_hunks cov of None \<Rightarrow> None
      | Some index \<Rightarrow>
          let patches = sent_patches diff cov index in
          if list_ex (\<lambda>(name, patch). Some (hash_list sha256 patch) \<noteq> dict_get index name) patches then None
          else if fst ` set patches \<noteq> fst ` set index then None
          else Some patches)"

subsection \<open>What the read held of a file\<close>

datatype held = Whole | Partial | Unread

definition known_paths :: "coverage \<Rightarrow> (string \<times> string list) list \<Rightarrow> string list" where
  "known_paths cov index =
     fromkeys (map fst index @ cov_unseen cov @ cov_dropped cov
       @ (case cov_cut cov of None \<Rightarrow> [] | Some f \<Rightarrow> if f = [] then [] else [f]))"

text \<open>\<open>iter\<close> lists a set in the order the interpreter happens to iterate it.\<close>

definition same_path :: "string \<Rightarrow> string \<Rightarrow> bool" where
  "same_path path k \<longleftrightarrow> endswith k (CHR ''/'' # path) \<or> endswith path (CHR ''/'' # k)"

definition read_of :: "(string list \<Rightarrow> string list) \<Rightarrow> coverage \<Rightarrow> string \<Rightarrow> held option" where
  "read_of iter cov path =
     (case cov_hunks cov of None \<Rightarrow> None
      | Some index \<Rightarrow>
          let known = known_paths cov index in
          case (if path \<in> set known then Some path else List.find (same_path path) (iter known)) of
            None \<Rightarrow> Some Unread
          | Some match \<Rightarrow>
              if dict_get index match \<noteq> None then Some Whole
              else if Some match = cov_cut cov then Some Partial
              else Some Unread)"

subsection \<open>Findings of a read\<close>

datatype evidence_class = Diff | Head_Cited | Partial_Read | Outside_Read

record citation =
  cite_path :: string
  cite_head :: string
  cite_start :: int
  cite_end :: int
  cite_sha :: string

record reader_finding =
  category_slug :: string
  description :: string
  rf_file :: string
  severity :: string
  evidence :: evidence_class
  citations :: "citation list"

record reader_verdict =
  risk_score :: int
  rationale :: string
  findings :: "reader_finding list"

definition tag_finding ::
  "(string list \<Rightarrow> string list) \<Rightarrow> coverage \<Rightarrow> reader_finding \<Rightarrow> reader_finding" where
  "tag_finding iter cov f =
     (if evidence f \<noteq> Diff then f
      else case read_of iter cov (rf_file f) of
             Some Partial \<Rightarrow> f\<lparr>evidence := Partial_Read\<rparr>
           | Some Unread \<Rightarrow> f\<lparr>evidence := Outside_Read\<rparr>
           | _ \<Rightarrow> f)"

definition classify_by_coverage ::
  "(string list \<Rightarrow> string list) \<Rightarrow> reader_verdict \<Rightarrow> coverage \<Rightarrow> reader_verdict" where
  "classify_by_coverage iter rv cov = rv\<lparr>findings := map (tag_finding iter cov) (findings rv)\<rparr>"

subsection \<open>The sentence of a partial read\<close>

text \<open>\<open>f"{n:,}"\<close>.\<close>

fun group_digits :: "string \<Rightarrow> string" where
  "group_digits (a # b # c # d # ds) = a # b # c # CHR '','' # group_digits (d # ds)"
| "group_digits ds = ds"

definition commas :: "nat \<Rightarrow> string" where
  "commas n = rev (group_digits (rev (dec n)))"

text \<open>\<open>percent sent total\<close> renders the fraction read, as the format \<open>.0%\<close> does.\<close>

definition truncation_label :: "(nat \<Rightarrow> nat \<Rightarrow> string) \<Rightarrow> coverage \<Rightarrow> string" where
  "truncation_label percent cov =
     (let unseen = take 3 (cov_unseen cov);
          tail = (if 3 < length (cov_unseen cov)
                  then '' (+'' @ dec (length (cov_unseen cov) - 3) @ '' more)'' else [])
      in ''Partial read: '' @ percent (sent_chars cov) (diff_chars cov) @ '' of the diff (''
         @ commas (sent_chars cov) @ '' of '' @ commas (diff_chars cov) @ '' chars).''
         @ (case cov_cut cov of None \<Rightarrow> []
            | Some f \<Rightarrow> if f = [] then [] else '' Cut inside '' @ f @ ''.'')
         @ (if unseen = [] then [] else '' Never sent: '' @ join '', '' unseen @ tail @ ''.'')
         @ (if cov_dropped cov = [] then [] else '' Never fetched: '' @ join '', '' (cov_dropped cov) @ ''.'')
         @ '' Findings below cover only what was sent; a clear is not evidence about the rest.'')"

definition truncation_reason :: "(nat \<Rightarrow> nat \<Rightarrow> string) \<Rightarrow> coverage \<Rightarrow> (string \<times> string) option" where
  "truncation_reason percent cov =
     (if complete_read cov then None else Some (''read-truncated'', truncation_label percent cov))"

subsection \<open>Assembled diffs\<close>

text \<open>
  The shape \<open>fetch_pr\<close> sends: one block per file, joined by the separator. A file name is one line,
  the status is lower-case letters, and no line of a patch looks like a file header (patch lines begin
  with a blank, a sign, a backslash or an at sign).
\<close>

record chunk =
  ch_name :: string
  ch_status :: string
  ch_adds :: nat
  ch_dels :: nat
  ch_patch :: string

definition chunk_head :: "chunk \<Rightarrow> string" where
  "chunk_head c =
     ''### '' @ ch_name c @ '' ('' @ ch_status c @ '', +'' @ dec (ch_adds c) @ ''/-'' @ dec (ch_dels c) @ '')''"

definition chunk_text :: "chunk \<Rightarrow> string" where
  "chunk_text c = diff_chunk (ch_name c) (ch_status c) (int (ch_adds c)) (int (ch_dels c)) (ch_patch c)"

definition assembled :: "chunk list \<Rightarrow> string" where
  "assembled cs = join CHUNK_SEPARATOR (map chunk_text cs)"

definition chunk_ok :: "chunk \<Rightarrow> bool" where
  "chunk_ok c \<longleftrightarrow>
     ch_name c \<noteq> [] \<and> CHR 0x0A \<notin> set (ch_name c) \<and>
     ch_status c \<noteq> [] \<and> list_all lower_ascii (ch_status c) \<and>
     text_start (ch_patch c) \<and> list_all (\<lambda>l. header_name l = None) (split_on newline (ch_patch c))"

lemma chunk_text_head: "chunk_text c = chunk_head c @ CHR 0x0A # ch_patch c"
  by (simp add: chunk_text_def diff_chunk_def chunk_head_def dec_int_def)

lemma takeWhile_run:
  "list_all P xs \<Longrightarrow> \<not> P y \<Longrightarrow> takeWhile P (xs @ y # ys) = xs \<and> dropWhile P (xs @ y # ys) = y # ys"
  by (induction xs) auto

lemma rev_all: "list_all P (rev xs) = list_all P xs"
  by (simp add: list_all_iff)

lemma dec_all_digits: "list_all digit_char (dec n)"
  by (simp add: list_all_iff dec_digits)

lemma header_of_chunk:
  assumes "chunk_ok c"
  shows "header_name (chunk_head c) = Some (ch_name c)"
proof -
  have r: "rev (drop 4 (chunk_head c)) =
    CHR '')'' # rev (dec (ch_dels c)) @ CHR ''-'' # CHR ''/'' # rev (dec (ch_adds c)) @ CHR ''+'' # CHR '' '' # CHR '',''
      # rev (ch_status c) @ CHR ''('' # CHR '' '' # rev (ch_name c)"
    by (simp add: chunk_head_def)
  have s: "startswith (chunk_head c) ''### ''" by (simp add: chunk_head_def startswith_def)
  have d: "takeWhile digit_char (rev (dec n) @ CHR ''-'' # ys) = rev (dec n)"
    "dropWhile digit_char (rev (dec n) @ CHR ''-'' # ys) = CHR ''-'' # ys"
    "takeWhile digit_char (rev (dec n) @ CHR ''+'' # ys) = rev (dec n)"
    "dropWhile digit_char (rev (dec n) @ CHR ''+'' # ys) = CHR ''+'' # ys" for n ys
    using takeWhile_run [of digit_char "rev (dec n)" "CHR ''-''" ys]
      takeWhile_run [of digit_char "rev (dec n)" "CHR ''+''" ys]
    by (simp_all add: rev_all dec_all_digits digit_char_def)
  have l: "takeWhile lower_ascii (rev (ch_status c) @ CHR ''('' # ys) = rev (ch_status c)"
    "dropWhile lower_ascii (rev (ch_status c) @ CHR ''('' # ys) = CHR ''('' # ys" for ys
    using takeWhile_run [of lower_ascii "rev (ch_status c)" "CHR ''(''" ys] assms
    by (simp_all add: rev_all chunk_ok_def lower_ascii_def)
  have ne: "ch_name c \<noteq> []" "ch_status c \<noteq> []" using assms by (simp_all add: chunk_ok_def)
  have p: "startswith (CHR ''-'' # CHR ''/'' # ys) ''-/''"
    "startswith (CHR ''+'' # CHR '' '' # CHR '','' # ys) ''+ ,''"
    "startswith (CHR ''('' # CHR '' '' # ys) ''( ''" for ys
    by (simp_all add: startswith_def)
  show ?thesis by (simp add: header_name_def r s d l p ne Let_def)
qed

lemma lines_total: "sum_list (map (\<lambda>l. cp_len l + 1) (split_on newline s)) = cp_len s + 1"
proof (induction s rule: length_induct)
  case (1 s)
  show ?case
  proof (cases "CHR 0x0A \<in> set s")
    case True
    then obtain u v where s: "s = u @ CHR 0x0A # v" and u: "CHR 0x0A \<notin> set u"
      by (metis split_list_first)
    with 1 have "sum_list (map (\<lambda>l. cp_len l + 1) (split_on newline v)) = cp_len v + 1" by simp
    then show ?thesis by (simp add: s split_on_char [OF u] cp_len_Cons cont_byte_def)
  next
    case False
    then show ?thesis by (simp add: split_on_char_none)
  qed
qed

lemma find_headers_append:
  "find_headers at (xs @ ys) =
     find_headers at xs @ find_headers (at + sum_list (map (\<lambda>l. cp_len l + 1) xs)) ys"
  by (induction at xs rule: find_headers.induct) (auto split: option.splits simp: add.assoc)

lemma find_headers_none: "list_all (\<lambda>l. header_name l = None) ls \<Longrightarrow> find_headers at ls = []"
  by (induction at ls rule: find_headers.induct) auto

lemma head_one_line: "chunk_ok c \<Longrightarrow> CHR 0x0A \<notin> set (chunk_head c)"
proof -
  assume ok: "chunk_ok c"
  have "CHR 0x0A \<notin> set (dec n)" for n using dec_digits by (fastforce simp: digit_char_def)
  with ok show ?thesis by (auto simp: chunk_ok_def chunk_head_def list_all_iff lower_ascii_def)
qed

text \<open>Where each block of an assembled diff starts.\<close>

definition chunk_at :: "chunk list \<Rightarrow> nat \<Rightarrow> nat" where
  "chunk_at cs i = sum_list (map (\<lambda>c. cp_len (chunk_text c) + 2) (take i cs))"

fun headers_at :: "nat \<Rightarrow> chunk list \<Rightarrow> header list" where
  "headers_at at [] = []"
| "headers_at at (c # cs) =
     \<lparr>h_name = ch_name c, h_start = at, h_end = at + cp_len (chunk_head c)\<rparr>
       # headers_at (at + cp_len (chunk_text c) + 2) cs"

lemma cp_len_newline [simp]: "cp_len (CHR 0x0A # s) = Suc (cp_len s)"
  by (simp add: cp_len_Cons cont_byte_def)

lemma find_headers_assembled:
  "list_all chunk_ok cs \<Longrightarrow> find_headers at (split_on newline (assembled cs)) = headers_at at cs"
proof (induction cs arbitrary: at)
  case Nil
  then show ?case by (simp add: assembled_def split_on_char_none header_name_def startswith_def)
next
  case (Cons c cs)
  then have ok: "chunk_ok c" by simp
  note head = head_one_line [OF ok] header_of_chunk [OF ok]
  have none: "find_headers k (split_on newline (ch_patch c)) = []" for k
    using ok by (intro find_headers_none) (simp add: chunk_ok_def)
  have empty: "header_name [] = None" by (simp add: header_name_def startswith_def)
  show ?case
  proof (cases cs)
    case Nil
    then show ?thesis
      using head none by (simp add: assembled_def chunk_text_head split_on_char)
  next
    case (Cons d ds)
    then have asm: "assembled (c # cs) =
        chunk_head c @ CHR 0x0A # (ch_patch c @ CHR 0x0A # (CHR 0x0A # assembled cs))"
      by (simp add: assembled_def chunk_text_head CHUNK_SEPARATOR_def)
    have blank: "split_on newline (CHR 0x0A # s) = [] # split_on newline s" for s
      using split_on_char [of "CHR 0x0A" "[]" s] by simp
    have lines: "split_on newline (assembled (c # cs)) =
      chunk_head c # split_on newline (ch_patch c) @ [] # split_on newline (assembled cs)"
      unfolding asm split_on_char [OF head(1)] split_on_append_char [of "CHR 0x0A" "ch_patch c"] blank ..
    have ih: "find_headers k (split_on newline (assembled cs)) = headers_at k cs" for k
      using Cons.IH Cons.prems by simp
    have "find_headers at (split_on newline (assembled (c # cs))) =
      \<lparr>h_name = ch_name c, h_start = at, h_end = at + cp_len (chunk_head c)\<rparr> #
      headers_at (at + cp_len (chunk_head c) + 1 + (cp_len (ch_patch c) + 1) + 1) cs"
      unfolding lines
      by (simp add: head(2) find_headers_append none lines_total [of "ch_patch c", simplified] empty ih)
    then show ?thesis by (simp add: chunk_text_head add.assoc)
  qed
qed

lemma headers_at_length [simp]: "length (headers_at at cs) = length cs"
  by (induction at cs rule: headers_at.induct) auto

lemma headers_at_names [simp]: "map h_name (headers_at at cs) = map ch_name cs"
  by (induction at cs rule: headers_at.induct) auto

lemma headers_at_nth:
  "i < length cs \<Longrightarrow> headers_at at cs ! i =
     \<lparr>h_name = ch_name (cs ! i), h_start = at + chunk_at cs i,
      h_end = at + chunk_at cs i + cp_len (chunk_head (cs ! i))\<rparr>"
proof (induction at cs arbitrary: i rule: headers_at.induct)
  case (2 at c cs)
  then show ?case by (cases i) (simp_all add: chunk_at_def)
qed simp

lemma chunk_at_Suc: "i < length cs \<Longrightarrow> chunk_at cs (Suc i) = chunk_at cs i + cp_len (chunk_text (cs ! i)) + 2"
  by (simp add: chunk_at_def take_Suc_conv_app_nth)

lemma chunk_at_mono: "i \<le> j \<Longrightarrow> chunk_at cs i \<le> chunk_at cs j"
proof -
  assume "i \<le> j"
  then obtain d where "j = i + d" using le_Suc_ex by blast
  then show ?thesis by (simp add: chunk_at_def take_add)
qed

text \<open>The end of a block, and the length of the whole.\<close>

definition chunk_end :: "chunk list \<Rightarrow> nat \<Rightarrow> nat" where
  "chunk_end cs i = chunk_at cs i + cp_len (chunk_text (cs ! i))"

definition head_end :: "chunk list \<Rightarrow> nat \<Rightarrow> nat" where
  "head_end cs i = chunk_at cs i + cp_len (chunk_head (cs ! i))"

lemma head_before_end: "head_end cs i < chunk_end cs i"
  by (simp add: head_end_def chunk_end_def chunk_text_head)

lemma chunk_at_next: "i < length cs \<Longrightarrow> chunk_at cs (Suc i) = chunk_end cs i + 2"
  by (simp add: chunk_at_Suc chunk_end_def)

lemma assembled_Cons:
  "cs \<noteq> [] \<Longrightarrow> assembled (c # cs) = chunk_text c @ CHUNK_SEPARATOR @ assembled cs"
  by (simp add: assembled_def join_Cons)

lemma cp_len_separator [simp]: "cp_len CHUNK_SEPARATOR = 2"
  by (simp add: CHUNK_SEPARATOR_def)

lemma assembled_split:
  "i < length cs \<Longrightarrow>
   \<exists>pre post. assembled cs = pre @ chunk_text (cs ! i) @ post \<and> cp_len pre = chunk_at cs i
     \<and> text_start post \<and> (post = [] \<longleftrightarrow> Suc i = length cs)"
proof (induction cs arbitrary: i)
  case (Cons c cs)
  show ?case
  proof (cases i)
    case 0
    show ?thesis
    proof (cases "cs = []")
      case True
      with 0 show ?thesis by (intro exI [of _ "[]"]) (simp add: assembled_def chunk_at_def)
    next
      case False
      with 0 show ?thesis
        by (intro exI [of _ "[]"] exI [of _ "CHUNK_SEPARATOR @ assembled cs"])
          (simp add: assembled_Cons chunk_at_def CHUNK_SEPARATOR_def cont_byte_def)
    qed
  next
    case (Suc j)
    with Cons.prems have j: "j < length cs" and ne: "cs \<noteq> []" by auto
    from Cons.IH [OF j] obtain pre post where
      "assembled cs = pre @ chunk_text (cs ! j) @ post" "cp_len pre = chunk_at cs j"
      "text_start post" "post = [] \<longleftrightarrow> Suc j = length cs" by blast
    with Suc ne show ?thesis
      by (intro exI [of _ "chunk_text c @ CHUNK_SEPARATOR @ pre"] exI [of _ post])
        (simp add: assembled_Cons chunk_at_def)
  qed
qed simp

lemma assembled_length: "i < length cs \<Longrightarrow> Suc i = length cs \<Longrightarrow> cp_len (assembled cs) = chunk_end cs i"
  using assembled_split [of i cs] by (auto simp: chunk_end_def)

lemma chunk_end_le: "i < length cs \<Longrightarrow> chunk_end cs i \<le> cp_len (assembled cs)"
  using assembled_split [of i cs] by (auto simp: chunk_end_def)

lemma content_end_assembled:
  assumes "list_all chunk_ok cs" and "i < length cs"
  shows "chunk_content_end (file_headers (assembled cs)) i (cp_len (assembled cs)) = int (chunk_end cs i)"
proof -
  have ms: "file_headers (assembled cs) = headers_at 0 cs"
    using find_headers_assembled [OF assms(1)] by (simp add: file_headers_def)
  show ?thesis
  proof (cases "Suc i < length cs")
    case True
    then show ?thesis
      using chunk_at_next [OF assms(2)] by (simp add: chunk_content_end_def ms headers_at_nth)
  next
    case False
    with assms(2) have "Suc i = length cs" by simp
    then show ?thesis
      using assembled_length [OF assms(2)] by (simp add: chunk_content_end_def ms)
  qed
qed

lemma chunk_patch_assembled:
  assumes "list_all chunk_ok cs" and "i < length cs"
  shows "chunk_patch (assembled cs) (file_headers (assembled cs)) i sent_len =
    (if sent_len < chunk_end cs i then None else Some (ch_patch (cs ! i)))"
proof -
  have ms: "file_headers (assembled cs) = headers_at 0 cs"
    using find_headers_assembled [OF assms(1)] by (simp add: file_headers_def)
  obtain pre post where split: "assembled cs = pre @ chunk_text (cs ! i) @ post"
      and pre: "cp_len pre = chunk_at cs i" and post: "text_start post"
    using assembled_split [OF assms(2)] by blast
  have ts: "text_start (ch_patch (cs ! i))"
    using assms by (auto simp: list_all_iff chunk_ok_def)
  have len: "cp_len (pre @ chunk_head (cs ! i) @ newline) = Suc (head_end cs i)"
    by (simp add: pre head_end_def)
  have "cp_slice (Suc (head_end cs i)) (chunk_end cs i) (assembled cs) = ch_patch (cs ! i)"
    using cp_slice_middle [OF ts post, of "pre @ chunk_head (cs ! i) @ newline", unfolded len]
    by (simp add: split chunk_text_head chunk_end_def pre head_end_def add.assoc)
  then show ?thesis
    using head_before_end [of cs i] content_end_assembled [OF assms]
    by (simp add: chunk_patch_def Let_def ms headers_at_nth assms(2) head_end_def)
qed

subsection \<open>Dictionaries filled by position\<close>

definition fill :: "(nat \<Rightarrow> 'k) \<Rightarrow> (nat \<Rightarrow> 'v option) \<Rightarrow> nat \<Rightarrow> ('k \<times> 'v) list" where
  "fill k g n = fold (\<lambda>i d. case g i of None \<Rightarrow> d | Some v \<Rightarrow> dict_set (k i) v d) [0..<n] []"

lemma fill_Suc: "fill k g (Suc n) = (case g n of None \<Rightarrow> fill k g n | Some v \<Rightarrow> dict_set (k n) v (fill k g n))"
  by (cases "g n") (simp_all add: fill_def)

lemma fill_absent: "\<forall>i < n. k i \<noteq> x \<Longrightarrow> dict_get (fill k g n) x = None"
proof (induction n)
  case (Suc n)
  then have "dict_get (fill k g n) x = None" "k n \<noteq> x" by auto
  then show ?case unfolding fill_Suc by (cases "g n") auto
qed (simp add: fill_def)

lemma fill_get: "i < n \<Longrightarrow> inj_on k {..<n} \<Longrightarrow> dict_get (fill k g n) (k i) = g i"
proof (induction n)
  case (Suc n)
  have inj: "inj_on k {..<n}" using Suc.prems(2) by (rule inj_on_subset) auto
  have other: "k j \<noteq> k n" if "j < n" for j
    using inj_onD [OF Suc.prems(2), of j n] that by auto
  show ?case
  proof (cases "i = n")
    case True
    have "dict_get (fill k g n) (k n) = None" using other by (intro fill_absent) auto
    then show ?thesis unfolding True fill_Suc by (cases "g n") simp_all
  next
    case False
    with Suc.prems(1) have "i < n" by simp
    with Suc.IH inj other [OF this] show ?thesis unfolding fill_Suc by (cases "g n") simp_all
  qed
qed simp

lemma sent_index_fill:
  "sent_index sha256 diff matches s =
     fill (\<lambda>i. h_name (matches ! i)) (\<lambda>i. map_option (hash_list sha256) (chunk_patch diff matches i s))
       (length matches)"
proof -
  have "(case chunk_patch diff matches i s of None \<Rightarrow> d
      | Some patch \<Rightarrow> dict_set (h_name (matches ! i)) (hash_list sha256 patch) d) =
    (case map_option (hash_list sha256) (chunk_patch diff matches i s) of None \<Rightarrow> d
      | Some v \<Rightarrow> dict_set (h_name (matches ! i)) v d)" for i d
    by (simp split: option.split)
  then show ?thesis by (simp add: sent_index_def fill_def)
qed

subsection \<open>Every file of an assembled diff\<close>

lemma assembled_headers: "list_all chunk_ok cs \<Longrightarrow> file_headers (assembled cs) = headers_at 0 cs"
  using find_headers_assembled [of cs 0] by (simp add: file_headers_def)

lemma name_inj: "distinct (map ch_name cs) \<Longrightarrow> inj_on (\<lambda>i. ch_name (cs ! i)) {..<length cs}"
  by (auto simp: inj_on_def distinct_conv_nth)

lemma index_at:
  assumes "list_all chunk_ok cs" and "distinct (map ch_name cs)" and "i < length cs"
  shows "dict_get (sent_index sha256 (assembled cs) (file_headers (assembled cs)) s) (ch_name (cs ! i)) =
    (if chunk_end cs i \<le> s then Some (hash_list sha256 (ch_patch (cs ! i))) else None)"
proof -
  let ?ms = "file_headers (assembled cs)"
  have ms: "?ms = headers_at 0 cs" by (rule assembled_headers [OF assms(1)])
  have k: "h_name (?ms ! j) = ch_name (cs ! j)" if "j < length cs" for j
    using that by (simp add: ms headers_at_nth)
  have "inj_on (\<lambda>j. h_name (?ms ! j)) {..<length cs}"
    using name_inj [OF assms(2)] k by (simp add: inj_on_def)
  from fill_get [OF assms(3) this]
  have "dict_get (sent_index sha256 (assembled cs) ?ms s) (h_name (?ms ! i)) =
    map_option (hash_list sha256) (chunk_patch (assembled cs) ?ms i s)"
    unfolding sent_index_fill by (simp add: ms)
  then show ?thesis by (simp add: chunk_patch_assembled [OF assms(1,3)] k [OF assms(3)])
qed

text \<open>The headers that arrived are the first ones.\<close>

lemma head_end_mono: "i < j \<Longrightarrow> j < length cs \<Longrightarrow> head_end cs i < head_end cs j"
  using head_before_end [of cs i] chunk_at_next [of i cs] chunk_at_mono [of "Suc i" j cs]
  by (simp add: head_end_def)

lemma filter_prefix:
  "(\<And>i j. i < j \<Longrightarrow> j < length xs \<Longrightarrow> P (xs ! j) \<Longrightarrow> P (xs ! i)) \<Longrightarrow>
   \<exists>k \<le> length xs. filter P xs = take k xs \<and> (\<forall>i < length xs. P (xs ! i) \<longleftrightarrow> i < k)"
proof (induction xs)
  case (Cons x xs)
  show ?case
  proof (cases "P x")
    case True
    have tail: "P (xs ! i)" if "i < j" "j < length xs" "P (xs ! j)" for i j
      using Cons.prems [of "Suc i" "Suc j"] that by simp
    have "\<exists>k \<le> length xs. filter P xs = take k xs \<and> (\<forall>i < length xs. P (xs ! i) \<longleftrightarrow> i < k)"
      by (rule Cons.IH) (rule tail)
    then obtain k where
      k: "k \<le> length xs \<and> filter P xs = take k xs \<and> (\<forall>i < length xs. P (xs ! i) \<longleftrightarrow> i < k)"
      by (elim exE)
    have "P ((x # xs) ! i) \<longleftrightarrow> i < Suc k" if "i < length (x # xs)" for i
      using that k True by (cases i) simp_all
    with True k show ?thesis by (intro exI [of _ "Suc k"]) simp
  next
    case False
    have none: "\<not> P ((x # xs) ! i)" if "i < length (x # xs)" for i
      using Cons.prems [of 0 i] that False by (cases i) auto
    then have "filter P (x # xs) = []" unfolding filter_empty_conv by (metis in_set_conv_nth)
    with none show ?thesis by (intro exI [of _ 0]) simp
  qed
qed simp

lemma seen_headers:
  assumes "list_all chunk_ok cs"
  obtains k where "k \<le> length cs"
    "filter (\<lambda>m. h_end m \<le> s) (file_headers (assembled cs)) = take k (headers_at 0 cs)"
    "\<And>i. i < length cs \<Longrightarrow> head_end cs i \<le> s \<longleftrightarrow> i < k"
proof -
  have e: "h_end (headers_at 0 cs ! i) = head_end cs i" if "i < length cs" for i
    using that by (simp add: headers_at_nth head_end_def)
  have "\<exists>k \<le> length (headers_at 0 cs). filter (\<lambda>m. h_end m \<le> s) (headers_at 0 cs) = take k (headers_at 0 cs)
    \<and> (\<forall>i < length (headers_at 0 cs). h_end (headers_at 0 cs ! i) \<le> s \<longleftrightarrow> i < k)"
    by (rule filter_prefix) (use head_end_mono [of _ _ cs] e in fastforce)
  with e that show thesis by (auto simp: assembled_headers [OF assms])
qed

lemma unseen_at:
  assumes "list_all chunk_ok cs" and "distinct (map ch_name cs)" and "i < length cs"
  shows "ch_name (cs ! i) \<in> set (cov_unseen (coverage_of sha256 (assembled cs) changed dropped budget))
    \<longleftrightarrow> cp_len (sent_slice (assembled cs) budget) < head_end cs i"
proof -
  define s where "s = cp_len (sent_slice (assembled cs) budget)"
  obtain k where k: "k \<le> length cs"
    "filter (\<lambda>m. h_end m \<le> s) (file_headers (assembled cs)) = take k (headers_at 0 cs)"
    "\<And>i. i < length cs \<Longrightarrow> head_end cs i \<le> s \<longleftrightarrow> i < k"
    using seen_headers [OF assms(1)] by blast
  have names: "map h_name (take k (headers_at 0 cs)) = take k (map ch_name cs)"
    by (metis headers_at_names take_map)
  have mem: "ch_name (cs ! i) \<in> set (take k (map ch_name cs)) \<longleftrightarrow> i < k"
  proof
    assume "ch_name (cs ! i) \<in> set (take k (map ch_name cs))"
    then obtain j where "j < k" "j < length cs" "ch_name (cs ! j) = ch_name (cs ! i)"
      by (auto simp: in_set_conv_nth)
    with name_inj [OF assms(2)] assms(3) show "i < k" by (auto dest: inj_onD)
  next
    assume "i < k"
    with assms(3) show "ch_name (cs ! i) \<in> set (take k (map ch_name cs))"
      by (auto simp: in_set_conv_nth intro: exI [of _ i])
  qed
  have "ch_name (cs ! i) \<in> set (cov_unseen (coverage_of sha256 (assembled cs) changed dropped budget))
    \<longleftrightarrow> \<not> i < k"
    using assms(3) mem k(2)
    by (simp add: coverage_of_def Let_def s_def [symmetric] assembled_headers [OF assms(1)] names
        del: set_filter set_map) simp
  with k(3) [OF assms(3)] show ?thesis by (simp add: s_def linorder_not_le [symmetric])
qed

lemma sent_within: "cp_len (sent_slice diff budget) \<le> cp_len diff"
  by (simp add: sent_slice_def cp_len_take_min)

lemma cut_at:
  assumes "list_all chunk_ok cs" and "distinct (map ch_name cs)" and "i < length cs"
    and "s \<le> cp_len (assembled cs)"
  shows "cut_file (assembled cs) (file_headers (assembled cs)) s = Some (ch_name (cs ! i)) \<longleftrightarrow>
    head_end cs i \<le> s \<and> s < chunk_end cs i \<and> (Suc i < length cs \<or> s + 2 < chunk_end cs i)"
    (is "?cut = _ \<longleftrightarrow> ?rhs")
proof -
  obtain k where k: "k \<le> length cs"
    "filter (\<lambda>m. h_end m \<le> s) (file_headers (assembled cs)) = take k (headers_at 0 cs)"
    "\<And>i. i < length cs \<Longrightarrow> head_end cs i \<le> s \<longleftrightarrow> i < k"
    using seen_headers [OF assms(1)] by blast
  define next_start where
    "next_start = (if k < length cs then chunk_at cs k else cp_len (assembled cs))"
  have cut: "?cut = (if s < cp_len (assembled cs) \<and> 0 < k \<and> s + 2 < next_start
    then Some (ch_name (cs ! (k - 1))) else None)"
  proof -
    have emp: "take k (headers_at 0 cs) = [] \<longleftrightarrow> k = 0"
      using k(1) by (metis headers_at_length length_0_conv length_take min.absorb2 take_0)
    have last: "h_name (last (take k (headers_at 0 cs))) = ch_name (cs ! (k - 1))" if "0 < k"
    proof -
      have "last (take k (headers_at 0 cs)) = take k (headers_at 0 cs) ! (k - 1)"
        using that k(1) emp by (simp add: last_conv_nth min_def)
      then show ?thesis using that k(1) by (simp add: headers_at_nth)
    qed
    have "\<exists>seen. filter (\<lambda>m. h_end m \<le> s) (headers_at 0 cs) = seen \<and> (seen = [] \<longleftrightarrow> k = 0) \<and>
      length seen = k \<and> (0 < k \<longrightarrow> h_name (last seen) = ch_name (cs ! (k - 1)))"
      using k(1,2) emp last
      by (intro exI [of _ "take k (headers_at 0 cs)"]) (simp add: assembled_headers [OF assms(1)])
    then obtain seen where "filter (\<lambda>m. h_end m \<le> s) (headers_at 0 cs) = seen" "seen = [] \<longleftrightarrow> k = 0"
      "length seen = k" "0 < k \<Longrightarrow> h_name (last seen) = ch_name (cs ! (k - 1))" by blast
    then show ?thesis
      by (cases "0 < k")
        (auto simp: cut_file_def Let_def assembled_headers [OF assms(1)] next_start_def headers_at_nth)
  qed
  have nxt: "next_start = (if k < length cs then chunk_end cs (k - 1) + 2 else chunk_end cs (k - 1))"
    if "0 < k"
    using that k(1) chunk_at_next [of "k - 1" cs] assembled_length [of "k - 1" cs]
    by (auto simp: next_start_def)
  show ?thesis
  proof
    assume "?cut = Some (ch_name (cs ! i))"
    then have c: "s < cp_len (assembled cs)" "0 < k" "s + 2 < next_start"
      "ch_name (cs ! (k - 1)) = ch_name (cs ! i)"
      unfolding cut by (auto split: if_splits)
    moreover have "k - 1 < length cs" using c(2) k(1) by simp
    ultimately have i: "i = k - 1" using name_inj [OF assms(2)] assms(3) by (auto dest: inj_onD)
    with c(2) k(3) [OF assms(3)] have "head_end cs i \<le> s" by simp
    moreover have "s < chunk_end cs i \<and> (Suc i < length cs \<or> s + 2 < chunk_end cs i)"
      using c(2,3) nxt i by (cases "k < length cs") auto
    ultimately show ?rhs by blast
  next
    assume r: ?rhs
    with k(3) [OF assms(3)] have "i < k" by blast
    have "\<not> Suc i < k"
    proof
      assume "Suc i < k"
      with k(1,3) have "head_end cs (Suc i) \<le> s" by simp
      then have "chunk_at cs (Suc i) \<le> s" by (simp add: head_end_def)
      with chunk_at_next [OF assms(3)] r show False by simp
    qed
    with \<open>i < k\<close> have i: "i = k - 1" "0 < k" by auto
    have "s + 2 < next_start" using nxt [OF i(2)] r i k(1) by (auto split: if_splits)
    moreover have "s < cp_len (assembled cs)" using chunk_end_le [OF assms(3)] r by simp
    ultimately show "?cut = Some (ch_name (cs ! i))" unfolding cut using i by simp
  qed
qed

lemma coverage_at:
  assumes "list_all chunk_ok cs" and "distinct (map ch_name cs)" and "i < length cs"
    and "cov = coverage_of sha256 (assembled cs) changed dropped budget"
  shows "dict_get (the (cov_hunks cov)) (ch_name (cs ! i)) =
      (if chunk_end cs i \<le> sent_chars cov then Some (hash_list sha256 (ch_patch (cs ! i))) else None)"
    and "ch_name (cs ! i) \<in> set (cov_unseen cov) \<longleftrightarrow> sent_chars cov < head_end cs i"
    and "cov_cut cov = Some (ch_name (cs ! i)) \<longleftrightarrow>
      head_end cs i \<le> sent_chars cov \<and> sent_chars cov < chunk_end cs i \<and>
      (Suc i < length cs \<or> sent_chars cov + 2 < chunk_end cs i)"
proof -
  define s where "s = cp_len (sent_slice (assembled cs) budget)"
  have s: "s \<le> cp_len (assembled cs)" by (simp add: s_def sent_within)
  have sel: "sent_chars cov = s"
    "cov_hunks cov = Some (sent_index sha256 (assembled cs) (file_headers (assembled cs)) s)"
    "cov_cut cov = cut_file (assembled cs) (file_headers (assembled cs)) s"
    by (simp_all add: assms(4) coverage_of_def Let_def s_def)
  show "dict_get (the (cov_hunks cov)) (ch_name (cs ! i)) =
      (if chunk_end cs i \<le> sent_chars cov then Some (hash_list sha256 (ch_patch (cs ! i))) else None)"
    by (simp add: sel index_at [OF assms(1-3)])
  show "ch_name (cs ! i) \<in> set (cov_unseen cov) \<longleftrightarrow> sent_chars cov < head_end cs i"
    unfolding assms(4) unseen_at [OF assms(1-3)] by (simp add: coverage_of_def Let_def)
  show "cov_cut cov = Some (ch_name (cs ! i)) \<longleftrightarrow>
      head_end cs i \<le> sent_chars cov \<and> sent_chars cov < chunk_end cs i \<and>
      (Suc i < length cs \<or> sent_chars cov + 2 < chunk_end cs i)"
    unfolding sel by (rule cut_at [OF assms(1-3) s])
qed

subsection \<open>The patches behind an index\<close>

lemma fill_keys: "fst ` set (fill k g n) = k ` {i. i < n \<and> g i \<noteq> None}"
proof (induction n)
  case (Suc n)
  have "{i. i < Suc n \<and> g i \<noteq> None} =
    (if g n = None then {i. i < n \<and> g i \<noteq> None} else insert n {i. i < n \<and> g i \<noteq> None})"
    by (auto simp: less_Suc_eq)
  with Suc show ?case unfolding fill_Suc by (cases "g n") (simp_all add: keys_dict_set)
qed (simp add: fill_def)

lemma fill_distinct: "distinct (map fst (fill k g n))"
  by (induction n) (auto simp: fill_def distinct_dict_set split: option.splits)

lemma fill_cong: "(\<And>i. i < n \<Longrightarrow> g i = h i) \<Longrightarrow> fill k g n = fill k h n"
proof (induction n)
  case (Suc n)
  then have "fill k g n = fill k h n" "g n = h n" by simp_all
  then show ?case unfolding fill_Suc by (simp only:)
qed (simp add: fill_def)

lemma sent_patches_fill:
  assumes "inj_on (\<lambda>i. h_name (file_headers diff ! i)) {..<length (file_headers diff)}"
  shows "sent_patches diff cov (sent_index sha256 diff (file_headers diff) (sent_chars cov)) =
    fill (\<lambda>i. h_name (file_headers diff ! i)) (\<lambda>i. chunk_patch diff (file_headers diff) i (sent_chars cov))
      (length (file_headers diff))"
    (is "_ = fill ?k ?p ?n")
proof -
  let ?ix = "sent_index sha256 diff (file_headers diff) (sent_chars cov)"
  let ?g = "\<lambda>i. if dict_get ?ix (?k i) = None then None else ?p i"
  have "sent_patches diff cov ?ix = fill ?k ?g ?n"
    unfolding sent_patches_def fill_def Let_def
    by (rule arg_cong2 [where f = "\<lambda>f xs. fold f xs []"]) (auto intro!: ext split: option.split)
  also have "\<dots> = fill ?k ?p ?n"
  proof (rule fill_cong)
    fix i
    assume "i < ?n"
    then have "dict_get ?ix (?k i) = map_option (hash_list sha256) (?p i)"
      unfolding sent_index_fill by (rule fill_get [OF _ assms])
    then show "?g i = ?p i" by (cases "?p i") simp_all
  qed
  finally show ?thesis .
qed

subsection \<open>Looking a path up\<close>

lemma known_path_found:
  "path \<in> set (known_paths cov index) \<Longrightarrow> cov_hunks cov = Some index \<Longrightarrow>
   read_of iter cov path =
     Some (if dict_get index path \<noteq> None then Whole else if Some path = cov_cut cov then Partial else Unread)"
  by (simp add: read_of_def)

lemma find_only:
  "set xs = set ys \<Longrightarrow> (\<And>x y. x \<in> set xs \<Longrightarrow> y \<in> set xs \<Longrightarrow> P x \<Longrightarrow> P y \<Longrightarrow> x = y) \<Longrightarrow>
   List.find P xs = List.find P ys"
proof (cases "List.find P xs")
  case None
  then show "set xs = set ys \<Longrightarrow> ?thesis" by (metis find_None_iff)
next
  case (Some x)
  then have x: "x \<in> set xs \<and> P x" by (rule find_some_iff_filter)
  assume "set xs = set ys" "\<And>x y. x \<in> set xs \<Longrightarrow> y \<in> set xs \<Longrightarrow> P x \<Longrightarrow> P y \<Longrightarrow> x = y"
  with x have "List.find P ys = Some x" by (intro find_unique) auto
  with Some show ?thesis by simp
qed

subsection \<open>Properties\<close>


definition ex_chunks :: "chunk list" where
  "ex_chunks =
     [\<lparr>ch_name = ''a'', ch_status = ''m'', ch_adds = 1, ch_dels = 2, ch_patch = ''@@''\<rparr>,
      \<lparr>ch_name = ''b'', ch_status = ''m'', ch_adds = 1, ch_dels = 0, ch_patch = ''+y''\<rparr>]"

lemma ex_chunks_ok: "list_all chunk_ok ex_chunks" "distinct (map ch_name ex_chunks)" "1 < length ex_chunks"
  by code_simp+


lemma ex_budget:
  "length ex_chunks = 2 \<and> chunk_end ex_chunks 1 = 40 \<and> head_end ex_chunks 1 = 37 \<and>
   sent_chars (coverage_of rev (assembled ex_chunks) None None (Some 39)) = 39"
  by code_simp

text \<open>
  A file can vanish from the record: when one or two characters of the last file are missing, the
  file is not indexed, not unseen and not cut, so nothing names the incomplete file although the read
  as a whole counts as partial; asked about the file, the read answers that it was not read.
\<close>
theorem last_file_can_vanish:
  assumes "list_all chunk_ok cs" and "distinct (map ch_name cs)" and "Suc i = length cs"
    and "cov = coverage_of sha256 (assembled cs) changed dropped budget"
    and "sent_chars cov < chunk_end cs i" and "chunk_end cs i \<le> sent_chars cov + 2"
    and "head_end cs i \<le> sent_chars cov"
  shows "dict_get (the (cov_hunks cov)) (ch_name (cs ! i)) = None
    \<and> ch_name (cs ! i) \<notin> set (cov_unseen cov) \<and> cov_cut cov \<noteq> Some (ch_name (cs ! i))
    \<and> \<not> complete_read cov"
proof -
  have i: "i < length cs" using assms(3) by simp
  note at = coverage_at [OF assms(1,2) i assms(4)]
  have "\<not> complete_read cov"
    using assms(5) chunk_end_le [OF i]
    by (simp add: complete_read_def assms(4) coverage_of_def Let_def)
  with at assms(3,5-7) show ?thesis by (simp add: linorder_not_less)
qed

theorem last_file_can_vanish_witness:
  "let cov = coverage_of rev (assembled ex_chunks) None None (Some 39) in
   dict_get (the (cov_hunks cov)) (ch_name (ex_chunks ! 1)) = None
    \<and> ch_name (ex_chunks ! 1) \<notin> set (cov_unseen cov) \<and> cov_cut cov \<noteq> Some (ch_name (ex_chunks ! 1))
    \<and> \<not> complete_read cov"
  unfolding Let_def
  by (rule last_file_can_vanish [OF ex_chunks_ok(1,2) _ refl]) (use ex_budget in simp_all)

text \<open>
  The passes that number hunks describe the index they were stored with: for the coverage of a
  diff whose headers name different files, the self-check never reports drift, and hashing the
  patches it returns gives back the index.
\<close>
theorem sent_patches_match_the_index:
  assumes "distinct (map h_name (file_headers diff))"
    and "cov = coverage_of sha256 diff changed dropped budget"
  shows "\<exists>patches. sent_file_patches sha256 diff cov = Some patches
    \<and> map (\<lambda>(name, patch). (name, Some (hash_list sha256 patch))) patches =
        map (\<lambda>(name, patch). (name, dict_get (the (cov_hunks cov)) name)) patches
    \<and> fst ` set patches = fst ` set (the (cov_hunks cov))"
proof -
  let ?ms = "file_headers diff"
  let ?k = "\<lambda>i. h_name (?ms ! i)" and ?p = "\<lambda>i. chunk_patch diff ?ms i (sent_chars cov)"
  let ?n = "length ?ms"
  have inj: "inj_on ?k {..<?n}" using assms(1) by (auto simp: inj_on_def distinct_conv_nth)
  have ix: "cov_hunks cov = Some (sent_index sha256 diff ?ms (sent_chars cov))"
    by (simp add: assms(2) coverage_of_def Let_def)
  have ixf: "sent_index sha256 diff ?ms (sent_chars cov) = fill ?k (\<lambda>i. map_option (hash_list sha256) (?p i)) ?n"
    by (rule sent_index_fill)
  have keys: "fst ` set (fill ?k ?p ?n) = fst ` set (fill ?k (\<lambda>i. map_option (hash_list sha256) (?p i)) ?n)"
    by (simp add: fill_keys)
  have hash: "dict_get (fill ?k (\<lambda>i. map_option (hash_list sha256) (?p i)) ?n) name = Some (hash_list sha256 patch)"
    if "(name, patch) \<in> set (fill ?k ?p ?n)" for name patch
  proof -
    have "name \<in> fst ` set (fill ?k ?p ?n)" using imageI [OF that, of fst] by simp
    then have "name \<in> ?k ` {i. i < ?n \<and> ?p i \<noteq> None}" unfolding fill_keys .
    then obtain i where i: "i < ?n" "?k i = name" by blast
    have "dict_get (fill ?k ?p ?n) name = Some patch"
      by (rule map_of_is_SomeI [OF fill_distinct that])
    then have "?p i = Some patch"
      unfolding i(2) [symmetric] using fill_get [of i ?n ?k ?p, OF i(1) inj] by simp
    then show ?thesis
      unfolding i(2) [symmetric]
      using fill_get [of i ?n ?k "\<lambda>i. map_option (hash_list sha256) (?p i)", OF i(1) inj] by simp
  qed
  have "sent_file_patches sha256 diff cov = Some (fill ?k ?p ?n)"
  proof -
    have "\<not> list_ex (\<lambda>(name, patch). Some (hash_list sha256 patch) \<noteq>
        dict_get (fill ?k (\<lambda>i. map_option (hash_list sha256) (?p i)) ?n) name) (fill ?k ?p ?n)"
      using hash by (auto simp: list_ex_iff)
    then show ?thesis
      unfolding sent_file_patches_def ix option.case Let_def sent_patches_fill [OF inj]
      unfolding ixf using keys by simp
  qed
  moreover have "map (\<lambda>(name, patch). (name, Some (hash_list sha256 patch))) (fill ?k ?p ?n) =
      map (\<lambda>(name, patch). (name, dict_get (the (cov_hunks cov)) name)) (fill ?k ?p ?n)"
    unfolding ix option.sel ixf using hash by (intro map_cong) auto
  moreover have "fst ` set (fill ?k ?p ?n) = fst ` set (the (cov_hunks cov))"
    unfolding ix option.sel ixf by (rule keys)
  ultimately show ?thesis by blast
qed

definition ex_unread :: reader_finding where
  "ex_unread = \<lparr>category_slug = ''dead-reference'', description = ''d'', rf_file = ''b'', severity = ''low'',
     evidence = Diff, citations = []\<rparr>"

lemma ex_unread_name: "rf_file ex_unread = ch_name (ex_chunks ! 1)" "evidence ex_unread = Diff"
  by code_simp+

lemma ex_budget30: "sent_chars (coverage_of rev (assembled ex_chunks) None None (Some 30)) = 30"
  by code_simp

theorem sent_patches_match_the_index_witness:
  "sent_file_patches rev (assembled ex_chunks) (coverage_of rev (assembled ex_chunks) None None (Some 39))
     \<noteq> None"
  using sent_patches_match_the_index [of "assembled ex_chunks"
      "coverage_of rev (assembled ex_chunks) None None (Some 39)" rev None None "Some 39"]
    assembled_headers [OF ex_chunks_ok(1)] ex_chunks_ok(2) by auto

text \<open>
  A finding's evidence tag says what was read: a finding the model based on the diff keeps that
  tag exactly when the file it names was sent whole, is tagged partial exactly when the budget cut
  that file, and outside otherwise, whatever order the interpreter iterates its set in.
\<close>
theorem finding_tag_says_what_was_read:
  assumes "list_all chunk_ok cs" and "distinct (map ch_name cs)" and "i < length cs"
    and "cov = coverage_of sha256 (assembled cs) changed dropped budget"
    and "Suc i < length cs \<or> sent_chars cov < head_end cs i \<or> chunk_end cs i \<le> sent_chars cov
      \<or> sent_chars cov + 2 < chunk_end cs i"
    and "rf_file f = ch_name (cs ! i)" and "evidence f = Diff" and "f \<in> set (findings rv)"
  shows "f\<lparr>evidence :=
      if chunk_end cs i \<le> sent_chars cov then Diff
      else if head_end cs i \<le> sent_chars cov then Partial_Read else Outside_Read\<rparr>
    \<in> set (findings (classify_by_coverage iter rv cov))"
proof -
  note at = coverage_at [OF assms(1-4)]
  obtain ix where ix: "cov_hunks cov = Some ix" by (simp add: assms(4) coverage_of_def Let_def)
  have "ch_name (cs ! i) \<noteq> []" using assms(1,3) by (auto simp: list_all_iff chunk_ok_def)
  then have known: "ch_name (cs ! i) \<in> set (known_paths cov ix)"
  proof -
    assume ne: "ch_name (cs ! i) \<noteq> []"
    consider "chunk_end cs i \<le> sent_chars cov" | "sent_chars cov < head_end cs i"
      | "cov_cut cov = Some (ch_name (cs ! i))"
      using at(3) assms(5) by linarith
    then show ?thesis
    proof cases
      case 1
      with at(1) ix have "dict_get ix (ch_name (cs ! i)) \<noteq> None" by simp
      then have "ch_name (cs ! i) \<in> fst ` set ix" by (auto simp: map_of_eq_None_iff)
      then show ?thesis by (simp add: known_paths_def)
    next
      case 2
      with at(2) show ?thesis by (simp add: known_paths_def)
    next
      case 3
      with ne show ?thesis by (simp add: known_paths_def)
    qed
  qed
  have held: "read_of iter cov (rf_file f) = Some (if chunk_end cs i \<le> sent_chars cov then Whole
    else if head_end cs i \<le> sent_chars cov then Partial else Unread)"
    unfolding assms(6) known_path_found [OF known ix]
    using at(1,3) ix assms(5) by (auto simp: eq_commute [of "Some (ch_name (cs ! i))"])
  have "tag_finding iter cov f = f\<lparr>evidence :=
      if chunk_end cs i \<le> sent_chars cov then Diff
      else if head_end cs i \<le> sent_chars cov then Partial_Read else Outside_Read\<rparr>"
    unfolding tag_finding_def held using assms(7) by simp
  from map_mem [of f "findings rv" "tag_finding iter cov", OF assms(8) this] show ?thesis
    by (simp add: classify_by_coverage_def)
qed

theorem finding_tag_says_what_was_read_witness:
  "ex_unread\<lparr>evidence := Outside_Read\<rparr> \<in> set (findings (classify_by_coverage rev
     \<lparr>risk_score = 10, rationale = [], findings = [ex_unread]\<rparr>
     (coverage_of rev (assembled ex_chunks) None None (Some 30))))"
  using finding_tag_says_what_was_read [OF ex_chunks_ok refl [of
        "coverage_of rev (assembled ex_chunks) None None (Some 30)"], of ex_unread
        "\<lparr>risk_score = 10, rationale = [], findings = [ex_unread]\<rparr>" rev]
    ex_budget ex_budget30 ex_unread_name
  by simp

text \<open>
  A shortened path is looked up among the known ones by suffix, in the order a set happens to be
  iterated. The answer does not depend on that order when at most one known path matches.
\<close>

lemma read_of_order_free:
  assumes "\<And>xs. set (iter xs) = set xs" and "\<And>xs. set (iter' xs) = set xs"
    and "\<And>index x y. cov_hunks cov = Some index \<Longrightarrow> x \<in> set (known_paths cov index) \<Longrightarrow>
      y \<in> set (known_paths cov index) \<Longrightarrow> same_path path x \<Longrightarrow> same_path path y \<Longrightarrow> x = y"
  shows "read_of iter cov path = read_of iter' cov path"
proof (cases "cov_hunks cov")
  case (Some index)
  have "List.find (same_path path) (iter (known_paths cov index)) =
    List.find (same_path path) (iter' (known_paths cov index))"
    by (rule find_only) (use assms(1,2) assms(3) [OF Some] in auto)
  then show ?thesis by (simp add: read_of_def Some Let_def)
qed (simp add: read_of_def)

text \<open>With two matches it does: the same read of the same diff can be called whole or unread.\<close>

lemma shortened_path_depends_on_set_order:
  "\<exists>cov. read_of id cov ''x.py'' = Some Whole \<and> read_of rev cov ''x.py'' = Some Unread"
  by (rule exI [of _ "\<lparr>diff_chars = 9, sent_chars = 5, files_sent = 1, cov_unseen = [''b/x.py''],
        cov_cut = None, changed_files = None, cov_dropped = [], cov_hunks = Some [(''a/x.py'', [])]\<rparr>"])
    (simp add: read_of_def known_paths_def same_path_def endswith_def)

end
