(* ===== verification/Check_Run_Text.thy ===== *)
theory Check_Run_Text
  imports Text_Units "HOL-Library.Sublist"
begin

text \<open>
  The text layer of the check run, \<open>api/doug/check_run.py\<close>: the one place where model-authored text
  is made inert, the code spans and links built from it, and the cut that keeps a summary under
  GitHub's limit without hiding how much it removed.
\<close>

abbreviation nl :: string where "nl \<equiv> [CHR 0x0A]"

subsection \<open>Neutralising model text\<close>

text \<open>The zero-width space, in UTF-8.\<close>

definition ZWSP :: string where
  "ZWSP = [CHR 0xE2, CHR 0x80, CHR 0x8B]"

definition next_is :: "(char \<Rightarrow> bool) \<Rightarrow> string \<Rightarrow> bool" where
  "next_is P s = (case s of [] \<Rightarrow> False | c # _ \<Rightarrow> P c)"

text \<open>\<open>_MENTION_RE.sub\<close>: an at sign between a character that is no word character and one that is.\<close>

fun sub_mention :: "char option \<Rightarrow> string \<Rightarrow> string" where
  "sub_mention before [] = []"
| "sub_mention before (c # s) =
     (if c = CHR ''@'' \<and> \<not> at_word before \<and> next_is word_char s
      then c # ZWSP @ sub_mention (Some c) s
      else c # sub_mention (Some c) s)"

text \<open>
  The other four substitutions: a zero-width space after the character \<open>p\<close> wherever the text after
  it satisfies \<open>q\<close>. Where the pattern consumes that text too, it holds no further \<open>p\<close>.
\<close>

fun defuse :: "char \<Rightarrow> (string \<Rightarrow> bool) \<Rightarrow> string \<Rightarrow> string" where
  "defuse p q [] = []"
| "defuse p q (c # s) = (if c = p \<and> q s then c # ZWSP @ defuse p q s else c # defuse p q s)"

definition tag_start :: "char \<Rightarrow> bool" where
  "tag_start c \<longleftrightarrow> upper_ascii c \<or> lower_ascii c \<or> c = CHR ''/'' \<or> c = CHR ''!'' \<or> c = CHR ''?''"

definition sub_ref :: "string \<Rightarrow> string" where
  "sub_ref = defuse (CHR ''#'') (next_is digit_char)"

definition sub_tag :: "string \<Rightarrow> string" where
  "sub_tag = defuse (CHR ''<'') (next_is tag_start)"

definition sub_link :: "string \<Rightarrow> string" where
  "sub_link = defuse (CHR '']'') (next_is (\<lambda>c. c = CHR ''(''))"

definition sub_url :: "string \<Rightarrow> string" where
  "sub_url = defuse (CHR '':'') (\<lambda>s. startswith s ''//'')"

definition oneline :: "string \<Rightarrow> string" where
  "oneline txt = sub_url (sub_link (sub_tag (sub_ref (sub_mention None (join '' '' (words txt))))))"

definition rule_span :: "string \<Rightarrow> string" where
  "rule_span rule = oneline (filter (\<lambda>c. c \<noteq> CHR ''`'') rule)"

definition path_span :: "string \<Rightarrow> string" where
  "path_span path = oneline (filter (\<lambda>c. c \<noteq> CHR '']'') (filter (\<lambda>c. c \<noteq> CHR ''`'') path))"

subsection \<open>Links\<close>

record source =
  src_owner :: string
  src_repo :: string
  src_head :: string

definition control_char :: "char \<Rightarrow> bool" where
  "control_char c \<longleftrightarrow> (of_char c :: nat) < 32 \<or> (of_char c :: nat) = 127"

text \<open>
  \<open>_UNLINKABLE_PATH.search\<close>: an absolute path, a parent segment, a control character, a scheme, or a
  character the visible span drops.
\<close>

definition unlinkable_path :: "string \<Rightarrow> bool" where
  "unlinkable_path path \<longleftrightarrow>
     startswith path ''/'' \<or> ''..'' \<in> set (split_on ''/'' path) \<or> list_ex control_char path
     \<or> contains path ''://'' \<or> list_ex (\<lambda>c. c = CHR ''`'' \<or> c = CHR '']'') path"

definition PATH_LIMIT :: nat where
  "PATH_LIMIT = 400"

text \<open>\<open>urllib.parse.quote(path, safe='/')\<close>, on the bytes of the text.\<close>

definition hex_digit :: "nat \<Rightarrow> char" where
  "hex_digit n = (if n < 10 then char_of (48 + n) else char_of (55 + n))"

definition unreserved :: "char \<Rightarrow> bool" where
  "unreserved c \<longleftrightarrow> word_char c \<or> c \<in> {CHR ''.'', CHR ''-'', CHR ''~''}"

definition quote_char :: "string \<Rightarrow> char \<Rightarrow> string" where
  "quote_char safe c =
     (if unreserved c \<or> c \<in> set safe then [c]
      else [CHR ''%'', hex_digit ((of_char c :: nat) div 16), hex_digit ((of_char c :: nat) mod 16)])"

definition url_quote :: "string \<Rightarrow> string \<Rightarrow> string" where
  "url_quote safe s = concat (map (quote_char safe) s)"

definition file_link :: "string option \<Rightarrow> source option \<Rightarrow> string option" where
  "file_link path src =
     (case (path, src) of
        (Some p, Some s) \<Rightarrow>
          if p = [] then None
          else if PATH_LIMIT < cp_len p \<or> unlinkable_path p then None
          else Some (''[`'' @ path_span p @ ''`](https://github.com/'' @ src_owner s @ ''/'' @ src_repo s
                 @ ''/blob/'' @ cp_take 12 (src_head s) @ ''/'' @ url_quote ''/'' p @ '')'')
      | _ \<Rightarrow> None)"

subsection \<open>The cut\<close>

definition SUMMARY_LIMIT :: nat where
  "SUMMARY_LIMIT = 60000"

definition TITLE_LIMIT :: nat where
  "TITLE_LIMIT = 255"

definition TRUNCATION_LEAD :: string where
  "TRUNCATION_LEAD = ''Truncated: this check run exceeded GitHub's summary limit.''"

definition TRUNCATION_NOTICE :: string where
  "TRUNCATION_NOTICE = nl @ nl @ ''_'' @ TRUNCATION_LEAD @ ''_''"

definition truncation_notice :: "nat \<Rightarrow> nat \<Rightarrow> string" where
  "truncation_notice dropped emitted =
     (if dropped = 0 then TRUNCATION_NOTICE
      else nl @ nl @ ''_'' @ TRUNCATION_LEAD @ '' '' @ dec dropped @ '' of '' @ dec emitted @ '' findings ''
        @ (if dropped = 1 then ''is'' else ''are'') @ '' missing from the list above._'')"

definition DETAILS_CLOSE :: string where
  "DETAILS_CLOSE = nl @ ''</details>''"

text \<open>\<open>s.rfind(sub)\<close>, as the text before the last occurrence and the text from it on.\<close>

fun last_occurrence :: "string \<Rightarrow> string \<Rightarrow> (string \<times> string) option" where
  "last_occurrence sub [] = None"
| "last_occurrence sub (c # s) =
     (case last_occurrence sub s of
        Some (a, b) \<Rightarrow> Some (c # a, b)
      | None \<Rightarrow> if startswith (c # s) sub then Some ([], c # s) else None)"

definition trim_empty_fold :: "string \<Rightarrow> string" where
  "trim_empty_fold kept =
     (case last_occurrence (nl @ ''<details>'') kept of
        None \<Rightarrow> kept
      | Some (before, tail) \<Rightarrow>
          if contains tail ''</details>'' then kept
          else case str_partition tail ''</summary>'' of (_, _, body) \<Rightarrow>
            if strip body \<noteq> [] then kept else rstrip_char (CHR 0x0A) before)"

definition close_details :: "string \<Rightarrow> string" where
  "close_details kept =
     concat (replicate (count_sub kept ''<details>'' - count_sub kept ''</details>'') DETAILS_CLOSE)"

definition whole_lines :: "string \<Rightarrow> nat \<Rightarrow> string" where
  "whole_lines body room =
     (if cp_len body \<le> room then body
      else let kept = cp_take room body in
        if startswith (cp_drop room body) nl then kept
        else case last_occurrence nl kept of None \<Rightarrow> kept | Some (a, _) \<Rightarrow> a)"

fun shown_from :: "string list \<Rightarrow> string list \<Rightarrow> nat" where
  "shown_from lines [] = 0"
| "shown_from lines (b # bs) =
     (case dropWhile (\<lambda>l. l \<noteq> b) lines of [] \<Rightarrow> 0 | _ # rest \<Rightarrow> Suc (shown_from rest bs))"

definition shown_findings :: "string \<Rightarrow> string list \<Rightarrow> nat" where
  "shown_findings kept bullets = shown_from (split_on nl kept) bullets"

text \<open>The tail of \<open>render\<close>: what a body over the limit is cut to, and the sentence that says so.\<close>

definition reserved_for :: "string \<Rightarrow> nat \<Rightarrow> nat" where
  "reserved_for body emitted =
     max (cp_len TRUNCATION_NOTICE) (cp_len (truncation_notice emitted emitted))
       + count_sub body ''<details>'' * cp_len DETAILS_CLOSE"

definition limit_summary :: "string \<Rightarrow> string \<Rightarrow> string list \<Rightarrow> string" where
  "limit_summary body foot counted =
     (if cp_len (body @ foot) \<le> SUMMARY_LIMIT then body @ foot
      else let emitted = length counted;
               room = SUMMARY_LIMIT - reserved_for body emitted - cp_len foot;
               trimmed = trim_empty_fold (whole_lines body room);
               kept = trimmed @ close_details trimmed;
               shortfall = emitted - shown_findings kept counted
           in kept @ truncation_notice shortfall emitted @ foot)"

subsection \<open>What the substitutions leave\<close>

text \<open>A place where the renderer would act: a character \<open>p\<close> followed by text that satisfies \<open>q\<close>.\<close>

fun live_at :: "char \<Rightarrow> (string \<Rightarrow> bool) \<Rightarrow> string \<Rightarrow> bool" where
  "live_at p q [] = False"
| "live_at p q (c # s) \<longleftrightarrow> c = p \<and> q s \<or> live_at p q s"

fun live_mention :: "char option \<Rightarrow> string \<Rightarrow> bool" where
  "live_mention before [] = False"
| "live_mention before (c # s) \<longleftrightarrow>
     c = CHR ''@'' \<and> \<not> at_word before \<and> next_is word_char s \<or> live_mention (Some c) s"

definition inert :: "string \<Rightarrow> bool" where
  "inert s \<longleftrightarrow>
     \<not> live_mention None s \<and> \<not> live_at (CHR ''#'') (next_is digit_char) s
     \<and> \<not> live_at (CHR ''<'') (next_is tag_start) s \<and> \<not> live_at (CHR '']'') (next_is (\<lambda>c. c = CHR ''('')) s
     \<and> \<not> live_at (CHR '':'') (\<lambda>t. startswith t ''//'') s"

lemma next_is_simps [simp]: "next_is P [] = False" "next_is P (c # s) = P c"
  by (simp_all add: next_is_def)

lemma zwsp_chars: "ZWSP = [CHR 0xE2, CHR 0x80, CHR 0x8B]"
  by (rule ZWSP_def)

lemma live_at_zwsp [simp]:
  "p \<notin> set ZWSP \<Longrightarrow> live_at p q (ZWSP @ s) = live_at p q s"
  by (auto simp: ZWSP_def)

lemma next_defuse [simp]: "next_is P (defuse p q s) = next_is P s"
  by (cases s) simp_all

lemma slashes_defuse: "p \<noteq> CHR ''/'' \<Longrightarrow> startswith (defuse p q s) ''//'' = startswith s ''//''"
proof (cases s)
  case (Cons c t)
  then show "p \<noteq> CHR ''/'' \<Longrightarrow> ?thesis"
    by (cases t) (auto simp: startswith_def ZWSP_def)
qed simp

text \<open>A substitution removes its own triggers and adds none to another one's.\<close>

lemma defuse_clears:
  assumes "\<And>s. q (defuse p q s) = q s" and "\<And>s. \<not> q (ZWSP @ s)" and "p \<notin> set ZWSP"
  shows "\<not> live_at p q (defuse p q s)"
  using assms by (induction s) auto

lemma defuse_keeps:
  assumes "\<And>s. q (defuse p' q' s) = q s" and "p \<notin> set ZWSP" and "p \<noteq> p'"
  shows "live_at p q (defuse p' q' s) = live_at p q s"
  using assms by (induction s) auto

lemma live_mention_before:
  "\<not> next_is (\<lambda>c. c = CHR ''@'') s \<Longrightarrow> live_mention b s = live_mention b' s"
  by (cases s) auto

lemma live_mention_zwsp:
  "\<not> next_is (\<lambda>c. c = CHR ''@'') s \<Longrightarrow> live_mention b (ZWSP @ s) = live_mention b' s"
  using live_mention_before [of s "Some (CHR 0x8B)" b'] by (simp add: ZWSP_def)

lemma next_mention: "next_is P (sub_mention b s) = next_is P s"
  by (cases s) simp_all

lemma mention_cleared: "\<not> live_mention b (sub_mention b s)"
proof (induction s arbitrary: b)
  case (Cons c s)
  show ?case
  proof (cases "c = CHR ''@'' \<and> \<not> at_word b \<and> next_is word_char s")
    case True
    then have "\<not> next_is (\<lambda>c. c = CHR ''@'') (sub_mention (Some c) s)"
      by (cases s) (auto simp: next_mention word_char_def upper_ascii_def lower_ascii_def digit_char_def)
    from live_mention_zwsp [OF this, of "Some c" "Some c"] Cons.IH True show ?thesis
      by (simp add: ZWSP_def word_char_def upper_ascii_def lower_ascii_def digit_char_def)
  next
    case False
    with Cons.IH show ?thesis by (auto simp: next_mention)
  qed
qed simp

lemma mention_kept:
  assumes "p \<noteq> CHR ''@''" and "\<And>s. q s \<Longrightarrow> \<not> next_is (\<lambda>c. c = CHR ''@'') s"
  shows "live_mention b (defuse p q s) = live_mention b s"
proof (induction s arbitrary: b)
  case (Cons c s)
  show ?case
  proof (cases "c = p \<and> q s")
    case True
    with assms(2) have "\<not> next_is (\<lambda>c. c = CHR ''@'') (defuse p q s)" by simp
    from live_mention_zwsp [OF this, of "Some c" "Some c"] Cons.IH True assms(1) show ?thesis by simp
  next
    case False
    with Cons.IH show ?thesis by auto
  qed
qed simp

lemma oneline_inert: "inert (oneline t)"
proof -
  have q: "\<not> next_is digit_char (ZWSP @ s)" "\<not> next_is tag_start (ZWSP @ s)"
    "\<not> next_is (\<lambda>c. c = CHR ''('') (ZWSP @ s)" "\<not> startswith (ZWSP @ s) ''//''" for s
    by (simp_all add: ZWSP_def digit_char_def tag_start_def upper_ascii_def lower_ascii_def startswith_def)
  have at: "next_is digit_char s \<Longrightarrow> \<not> next_is (\<lambda>c. c = CHR ''@'') s"
    "next_is tag_start s \<Longrightarrow> \<not> next_is (\<lambda>c. c = CHR ''@'') s"
    "next_is (\<lambda>c. c = CHR ''('') s \<Longrightarrow> \<not> next_is (\<lambda>c. c = CHR ''@'') s"
    "startswith s ''//'' \<Longrightarrow> \<not> next_is (\<lambda>c. c = CHR ''@'') s" for s
    by (cases s; auto simp: digit_char_def tag_start_def upper_ascii_def lower_ascii_def startswith_def)+
  define a where "a = sub_mention None (join '' '' (words t))"
  have "\<not> live_mention None a" unfolding a_def by (rule mention_cleared)
  moreover have "live_mention None (oneline t) = live_mention None a"
    unfolding oneline_def a_def [symmetric] sub_url_def sub_link_def sub_tag_def sub_ref_def
    by (simp add: mention_kept at)
  moreover have "\<not> live_at (CHR ''#'') (next_is digit_char) (sub_ref a)"
    unfolding sub_ref_def by (rule defuse_clears) (simp_all add: q, simp add: ZWSP_def)
  moreover have "\<not> live_at (CHR ''<'') (next_is tag_start) (sub_tag s)" for s
    unfolding sub_tag_def by (rule defuse_clears) (simp_all add: q, simp add: ZWSP_def)
  moreover have "\<not> live_at (CHR '']'') (next_is (\<lambda>c. c = CHR ''('')) (sub_link s)" for s
    unfolding sub_link_def by (rule defuse_clears) (simp_all add: q, simp add: ZWSP_def)
  moreover have "\<not> live_at (CHR '':'') (\<lambda>s. startswith s ''//'') (sub_url s)" for s
    unfolding sub_url_def by (rule defuse_clears) (simp_all add: q slashes_defuse, simp add: ZWSP_def)
  moreover have "live_at p (next_is P) (sub_url s) = live_at p (next_is P) s"
    if "p \<notin> set ZWSP" "p \<noteq> CHR '':''" for p P s
    unfolding sub_url_def by (rule defuse_keeps) (simp_all add: that)
  moreover have "live_at p (next_is P) (sub_link s) = live_at p (next_is P) s"
    if "p \<notin> set ZWSP" "p \<noteq> CHR '']''" for p P s
    unfolding sub_link_def by (rule defuse_keeps) (simp_all add: that)
  moreover have "live_at p (next_is P) (sub_tag s) = live_at p (next_is P) s"
    if "p \<notin> set ZWSP" "p \<noteq> CHR ''<''" for p P s
    unfolding sub_tag_def by (rule defuse_keeps) (simp_all add: that)
  ultimately show ?thesis
    by (simp add: inert_def oneline_def a_def [symmetric] ZWSP_def)
qed

text \<open>One physical line: the only white space left is the blank.\<close>

lemma words_no_space: "w \<in> set (words_from acc s) \<Longrightarrow> c \<in> set w \<Longrightarrow> list_all (\<lambda>x. \<not> space_char x) acc \<Longrightarrow>
  \<not> space_char c"
  by (induction acc s rule: words_from.induct) (auto simp: list_all_iff split: if_splits)

lemma set_join: "set (join sep xs) \<subseteq> set sep \<union> \<Union> (set ` set xs)"
proof (induction xs)
  case (Cons x xs)
  then show ?case by (cases xs) auto
qed simp

lemma set_defuse: "set (defuse p q s) \<subseteq> set s \<union> set ZWSP"
  by (induction s) auto

lemma set_sub_mention: "set (sub_mention b s) \<subseteq> set s \<union> set ZWSP"
  by (induction b s rule: sub_mention.induct) auto

lemma oneline_chars: "c \<in> set (oneline t) \<Longrightarrow> space_char c \<Longrightarrow> c = CHR '' ''"
proof -
  assume c: "c \<in> set (oneline t)" and sp: "space_char c"
  have z: "c \<notin> set ZWSP" using sp by (auto simp: ZWSP_def space_char_def)
  with c have "c \<in> set (join '' '' (words t))"
    unfolding oneline_def sub_url_def sub_link_def sub_tag_def sub_ref_def
    using set_defuse set_sub_mention by blast
  then have "c = CHR '' '' \<or> (\<exists>w \<in> set (words t). c \<in> set w)" using set_join by fastforce
  then show ?thesis using sp words_no_space [of _ "[]" t c] by (auto simp: words_def)
qed

lemma oneline_from: "c \<in> set (oneline t) \<Longrightarrow> c \<in> set t \<or> c \<in> set ZWSP \<or> c = CHR '' ''"
proof -
  assume c: "c \<in> set (oneline t)"
  have w: "w \<in> set (words_from acc s) \<Longrightarrow> c \<in> set w \<Longrightarrow> c \<in> set acc \<or> c \<in> set s" for w acc s
    by (induction acc s rule: words_from.induct) (auto split: if_splits)
  from c have "c \<in> set (join '' '' (words t)) \<or> c \<in> set ZWSP"
    unfolding oneline_def sub_url_def sub_link_def sub_tag_def sub_ref_def
    using set_defuse set_sub_mention by blast
  then show ?thesis using set_join [of "'' ''" "words t"] w [of _ "[]" t] by (fastforce simp: words_def)
qed

subsection \<open>What the cut keeps\<close>

lemma last_occurrence_split: "last_occurrence sub s = Some (a, b) \<Longrightarrow> s = a @ b"
  by (induction s arbitrary: a b) (auto split: option.splits if_splits)

lemma whole_lines_prefix: "prefix (whole_lines body room) body"
proof -
  have p: "prefix (cp_take room body) body" by (metis cp_take_drop prefixI)
  show ?thesis
  proof (cases "last_occurrence nl (cp_take room body)")
    case None
    with p show ?thesis by (simp add: whole_lines_def Let_def)
  next
    case (Some ab)
    then obtain a b where ab: "last_occurrence nl (cp_take room body) = Some (a, b)" by (cases ab) auto
    from last_occurrence_split [OF this] have "prefix a (cp_take room body)" by (metis prefixI)
    with p ab show ?thesis by (auto simp: whole_lines_def Let_def intro: prefix_order.trans)
  qed
qed

lemma cp_len_prefix: "prefix a b \<Longrightarrow> cp_len a \<le> cp_len b"
  by (auto simp: prefix_def)

lemma whole_lines_length: "cp_len (whole_lines body room) \<le> room"
proof (cases "cp_len body \<le> room")
  case False
  have "prefix (whole_lines body room) (cp_take room body)"
  proof (cases "last_occurrence nl (cp_take room body)")
    case None
    with False show ?thesis by (simp add: whole_lines_def Let_def)
  next
    case (Some ab)
    then obtain a b where ab: "last_occurrence nl (cp_take room body) = Some (a, b)" by (cases ab) auto
    from last_occurrence_split [OF this] have "prefix a (cp_take room body)" by (metis prefixI)
    with ab False show ?thesis by (simp add: whole_lines_def Let_def)
  qed
  from cp_len_prefix [OF this] cp_len_take [of room body] show ?thesis by linarith
qed (simp add: whole_lines_def)

lemma rstrip_char_prefix: "prefix (rstrip_char c s) s"
proof -
  have "s = rev (dropWhile (\<lambda>x. x = c) (rev s)) @ rev (takeWhile (\<lambda>x. x = c) (rev s))"
    by (metis rev_append rev_rev_ident takeWhile_dropWhile_id)
  then show ?thesis unfolding rstrip_char_def by (metis prefixI)
qed

lemma trim_empty_fold_prefix: "prefix (trim_empty_fold kept) kept"
proof (cases "last_occurrence (nl @ ''<details>'') kept")
  case (Some ab)
  then obtain a b where ab: "last_occurrence (nl @ ''<details>'') kept = Some (a, b)" by (cases ab) auto
  from last_occurrence_split [OF this] have "prefix a kept" by (metis prefixI)
  with rstrip_char_prefix [of "CHR 0x0A" a] have "prefix (rstrip_char (CHR 0x0A) a) kept"
    by (rule prefix_order.trans)
  with ab show ?thesis by (simp add: trim_empty_fold_def split: prod.split)
qed (simp add: trim_empty_fold_def)

text \<open>Counting occurrences, and a prefix has no more of them.\<close>

lemma partition_prefix:
  "str_partition a sep = (x, True, y) \<Longrightarrow> str_partition (a @ b) sep = (x, True, y @ b)"
proof (induction a arbitrary: x y)
  case (Cons c a)
  show ?case
  proof (cases "startswith (c # a) sep")
    case True
    then obtain t where t: "c # a = sep @ t" by (auto simp: startswith_prefix)
    then have t': "c # (a @ b) = sep @ t @ b" by (metis append_Cons append_assoc)
    have "x = [] \<and> y = drop (length sep) (c # a)" using Cons.prems True by simp
    then have "x = [] \<and> y = t" unfolding t by simp
    moreover have "startswith (c # (a @ b)) sep" unfolding t' by simp
    moreover have "drop (length sep) (c # (a @ b)) = t @ b" unfolding t' by simp
    ultimately show ?thesis by simp
  next
    case False
    with Cons.prems obtain x' where x': "str_partition a sep = (x', True, y)" "x = c # x'"
      by (auto split: prod.splits)
    then have "length sep \<le> length (c # a)" using str_partition_found [OF x'(1)] by simp
    then have "take (length sep) (c # a @ b) = take (length sep) (c # a)"
      by (metis append_Cons diff_is_0_eq' take_append take_0 append_Nil2)
    with False have "\<not> startswith (c # a @ b) sep" by (simp add: startswith_def)
    with Cons.IH [OF x'(1)] x'(2) show ?thesis by simp
  qed
next
  case Nil
  then show ?case by (cases b) (auto simp: startswith_def split: if_splits)
qed

lemma count_prefix:
  assumes "sep \<noteq> []"
  shows "prefix a b \<Longrightarrow> length (split_on sep a) \<le> length (split_on sep b)"
proof (induction sep a arbitrary: b rule: split_on.induct)
  case (1 sep a)
  obtain t where b: "b = a @ t" using 1(2) by (auto simp: prefix_def)
  obtain x f y where p: "str_partition a sep = (x, f, y)" by (cases "str_partition a sep") auto
  show ?case
  proof (cases "sep \<noteq> [] \<and> f")
    case True
    with p have p': "str_partition a sep = (x, True, y)" and ne: "sep \<noteq> []" by auto
    have a: "split_on sep a = x # split_on sep y" using p' ne by (subst split_on.simps) simp
    have bb: "split_on sep b = x # split_on sep (y @ t)"
      using partition_prefix [OF p', of t] ne unfolding b by (subst split_on.simps) simp
    have "length (split_on sep y) \<le> length (split_on sep (y @ t))"
      by (rule 1(1) [OF ne p [symmetric] refl]) (use True in \<open>auto simp: prefix_def\<close>)
    then show ?thesis unfolding a bb by simp
  next
    case False
    then have "length (split_on sep a) = 1" using p by (subst split_on.simps) auto
    moreover have "0 < length (split_on sep b)" using split_on_ne by blast
    ultimately show ?thesis by linarith
  qed
qed

lemma count_sub_prefix: "sep \<noteq> [] \<Longrightarrow> prefix a b \<Longrightarrow> count_sub a sep \<le> count_sub b sep"
  using count_prefix [of sep a b] by (simp add: count_sub_def)

lemma cp_len_replicate: "cp_len (concat (replicate n s)) = n * cp_len s"
  by (induction n) simp_all

subsection \<open>The notice fits its reserve\<close>

lemma cp_len_digits: "list_all digit_char s \<Longrightarrow> cp_len s = length s"
  by (induction s) (auto simp: cp_len_Cons digit_char_def cont_byte_def)

lemma length_dec_mono: "m \<le> n \<Longrightarrow> length (dec m) \<le> length (dec n)"
proof (induction n arbitrary: m rule: dec.induct)
  case (1 n)
  have one: "length (dec k) = 1" if "k < 10" for k using that by (subst dec.simps) simp
  have step: "length (dec k) = Suc (length (dec (k div 10)))" if "\<not> k < 10" for k
    using that by (subst dec.simps) simp
  show ?case
  proof (cases "n < 10")
    case True
    with 1(2) one show ?thesis by simp
  next
    case n: False
    show ?thesis
    proof (cases "m < 10")
      case True
      with n one [of m] step [of n] show ?thesis by simp
    next
      case False
      from 1(1) [OF n, of "m div 10"] 1(2) have "length (dec (m div 10)) \<le> length (dec (n div 10))"
        by (simp add: div_le_mono)
      with False n step show ?thesis by simp
    qed
  qed
qed

lemma cp_len_dec: "cp_len (dec n) = length (dec n)"
  by (rule cp_len_digits) (simp add: list_all_iff dec_digits)

lemma notice_within_reserve:
  assumes "dropped \<le> emitted"
  shows "cp_len (truncation_notice dropped emitted)
    \<le> max (cp_len TRUNCATION_NOTICE) (cp_len (truncation_notice emitted emitted))"
proof (cases "dropped = 0")
  case False
  have form: "truncation_notice k emitted =
      (nl @ nl @ ''_'' @ TRUNCATION_LEAD @ '' '') @ dec k @ ('' of '' @ dec emitted @ '' findings '') @
      (if k = 1 then ''is'' else ''are'') @ '' missing from the list above._''" if "k \<noteq> 0" for k
    using that by (simp add: truncation_notice_def)
  have ne: "emitted \<noteq> 0" using False assms by simp
  have "cp_len (dec dropped) \<le> cp_len (dec emitted)"
    using length_dec_mono [OF assms] by (simp add: cp_len_dec)
  moreover have "cp_len (if dropped = 1 then ''is'' else ''are'') \<le> cp_len (if emitted = 1 then ''is'' else ''are'')"
    using False assms by (auto simp: cp_len_def cont_byte_def)
  ultimately have "cp_len (truncation_notice dropped emitted) \<le> cp_len (truncation_notice emitted emitted)"
    unfolding form [OF False] form [OF ne] cp_len_append by linarith
  then show ?thesis by simp
qed (simp add: truncation_notice_def)

lemma shown_le: "shown_from lines bs \<le> length bs"
  by (induction lines bs rule: shown_from.induct) (auto split: list.splits)

text \<open>The scan finds the longest run of bullets, from the first, that are whole lines in order.\<close>

lemma subseq_step:
  "subseq (b # bs) lines = (case dropWhile (\<lambda>l. l \<noteq> b) lines of [] \<Rightarrow> False | _ # rest \<Rightarrow> subseq bs rest)"
  by (induction lines) (auto simp: subseq_Cons2_iff)

lemma shown_iff_subseq:
  "k \<le> length bs \<Longrightarrow> k \<le> shown_from lines bs \<longleftrightarrow> subseq (take k bs) lines"
proof (induction lines bs arbitrary: k rule: shown_from.induct)
  case (2 lines b bs)
  show ?case
  proof (cases k)
    case (Suc j)
    show ?thesis
    proof (cases "dropWhile (\<lambda>l. l \<noteq> b) lines")
      case Nil
      show ?thesis unfolding Suc take_Suc_Cons subseq_step shown_from.simps Nil by simp
    next
      case (Cons x rest)
      from 2(1) [OF Cons, of j] 2(2) Suc show ?thesis
        unfolding Suc take_Suc_Cons subseq_step shown_from.simps Cons by simp
    qed
  qed simp
qed simp

lemma filter_upt_le: "m \<le> n \<Longrightarrow> filter (\<lambda>k. k \<le> m) [0..<Suc n] = [0..<Suc m]"
proof (induction n)
  case (Suc n)
  show ?case
  proof (cases "m = Suc n")
    case True
    have "filter (\<lambda>k. k \<le> m) [0..<Suc (Suc n)] = [0..<Suc (Suc n)]"
      unfolding filter_id_conv True by auto
    with True show ?thesis by simp
  next
    case False
    with Suc show ?thesis by (simp del: upt_Suc add: upt_Suc [of 0 "Suc n"])
  qed
qed simp

lemma cut_facts:
  assumes "SUMMARY_LIMIT < cp_len (body @ foot)"
    and "reserved_for body (length counted) + cp_len foot \<le> SUMMARY_LIMIT"
  shows "\<exists>kept shown. limit_summary body foot counted
        = kept @ truncation_notice (length counted - shown) (length counted) @ foot
      \<and> shown \<le> length counted \<and> cp_len (limit_summary body foot counted) \<le> SUMMARY_LIMIT
      \<and> filter (\<lambda>k. subseq (take k counted) (split_on nl kept)) [0..<Suc (length counted)] = [0..<Suc shown]"
proof -
  define room where "room = SUMMARY_LIMIT - reserved_for body (length counted) - cp_len foot"
  define trimmed where "trimmed = trim_empty_fold (whole_lines body room)"
  define kept where "kept = trimmed @ close_details trimmed"
  define shown where "shown = shown_findings kept counted"
  have le: "shown \<le> length counted" unfolding shown_def shown_findings_def by (rule shown_le)
  have eq: "limit_summary body foot counted =
    kept @ truncation_notice (length counted - shown) (length counted) @ foot"
    using assms(1)
    by (simp add: limit_summary_def Let_def room_def trimmed_def kept_def shown_def)
  have p: "prefix trimmed (whole_lines body room)" unfolding trimmed_def by (rule trim_empty_fold_prefix)
  have "cp_len trimmed \<le> room" using cp_len_prefix [OF p] whole_lines_length [of body room] by linarith
  moreover have "count_sub trimmed ''<details>'' \<le> count_sub body ''<details>''"
    by (rule count_sub_prefix [OF _ prefix_order.trans [OF p whole_lines_prefix]]) simp
  then have "cp_len (close_details trimmed) \<le> count_sub body ''<details>'' * cp_len DETAILS_CLOSE"
    by (auto simp: close_details_def cp_len_replicate intro: order_trans [OF diff_le_self])
  moreover have "cp_len (truncation_notice (length counted - shown) (length counted))
    \<le> max (cp_len TRUNCATION_NOTICE) (cp_len (truncation_notice (length counted) (length counted)))"
    by (rule notice_within_reserve) simp
  ultimately have "cp_len (limit_summary body foot counted) \<le> SUMMARY_LIMIT"
    using assms(2) by (simp add: eq kept_def room_def reserved_for_def)
  moreover have "filter (\<lambda>k. subseq (take k counted) (split_on nl kept)) [0..<Suc (length counted)] = [0..<Suc shown]"
  proof -
    have "filter (\<lambda>k. subseq (take k counted) (split_on nl kept)) [0..<Suc (length counted)] =
      filter (\<lambda>k. k \<le> shown) [0..<Suc (length counted)]"
      using shown_iff_subseq [of _ counted "split_on nl kept"]
      by (intro filter_cong) (auto simp: shown_def shown_findings_def)
    also have "\<dots> = [0..<Suc shown]"
      using le by (metis filter_upt_le)
    finally show ?thesis .
  qed
  ultimately show ?thesis using eq le by blast
qed

lemma limit_fits:
  assumes "reserved_for body (length counted) + cp_len foot \<le> SUMMARY_LIMIT"
  shows "cp_len (limit_summary body foot counted) \<le> SUMMARY_LIMIT"
proof (cases "SUMMARY_LIMIT < cp_len (body @ foot)")
  case True
  from cut_facts [OF this assms] show ?thesis by blast
next
  case False
  then show ?thesis by (simp add: limit_summary_def)
qed

subsection \<open>Properties\<close>

text \<open>
  Model text is inert: whatever a model or a repository wrote, the text that passes the one
  chokepoint is a single line without line breaks or control white space, and holds no live mention,
  issue reference, raw HTML tag, markdown link or bare URL.
\<close>
theorem oneline_is_inert:
  "inert (oneline t) \<and> filter (\<lambda>c. space_char c \<and> c \<noteq> CHR '' '') (oneline t) = []"
  using oneline_inert oneline_chars by (auto simp: filter_empty_conv)

text \<open>
  A code span cannot be left: the rendered rule or path holds no backtick, the path no closing
  bracket, and both are inert.
\<close>
theorem spans_stay_closed:
  "filter (\<lambda>c. c = CHR ''`'') (rule_span rule) = []
   \<and> filter (\<lambda>c. c = CHR ''`'' \<or> c = CHR '']'') (path_span path) = []
   \<and> inert (rule_span rule) \<and> inert (path_span path)"
proof -
  have "CHR ''`'' \<notin> set (rule_span rule)"
    using oneline_from [of "CHR ''`''" "filter (\<lambda>c. c \<noteq> CHR ''`'') rule"]
    by (auto simp: rule_span_def ZWSP_def)
  moreover have "CHR ''`'' \<notin> set (path_span path)" "CHR '']'' \<notin> set (path_span path)"
    using oneline_from [of _ "filter (\<lambda>c. c \<noteq> CHR '']'') (filter (\<lambda>c. c \<noteq> CHR ''`'') path)"]
    by (auto simp: path_span_def ZWSP_def)
  ultimately show ?thesis
    by (auto simp: filter_empty_conv rule_span_def path_span_def oneline_inert)
qed

text \<open>
  C26. The cut tells the truth: a summary over the limit ends in a notice whose number is exactly the
  count of findings that are no longer on the page, where a finding is on the page when its bullet
  and the bullets before it are whole lines of what was kept, in order; the notice and the footer are
  never cut off, and the result fits the limit whenever the notice, the closing tags and the footer
  do.
\<close>
theorem cut_tells_the_truth:
  assumes "SUMMARY_LIMIT < cp_len (body @ foot)"
    and "reserved_for body (length counted) + cp_len foot \<le> SUMMARY_LIMIT"
  shows "\<exists>kept shown. limit_summary body foot counted
        = kept @ truncation_notice (length counted - shown) (length counted) @ foot
      \<and> shown \<le> length counted \<and> cp_len (limit_summary body foot counted) \<le> SUMMARY_LIMIT
      \<and> filter (\<lambda>k. subseq (take k counted) (split_on nl kept)) [0..<Suc (length counted)] = [0..<Suc shown]"
  using assms by (rule cut_facts)

lemma count_sub_absent: "c \<notin> set s \<Longrightarrow> count_sub s (c # sub) = 0"
proof -
  assume "c \<notin> set s"
  then have "str_partition s (c # sub) = (s, False, [])"
    by (induction s) (auto simp: startswith_def)
  then show ?thesis by (simp add: count_sub_def split_on.simps [of "c # sub" s])
qed

lemma cp_len_run: "\<not> cont_byte c \<Longrightarrow> cp_len (replicate n c) = n"
  by (induction n) (simp_all add: cp_len_Cons)

lemma ex_reserve: "max (cp_len TRUNCATION_NOTICE) (cp_len (truncation_notice 1 1)) = 110"
  by code_simp

theorem cut_tells_the_truth_witness:
  "\<exists>kept shown. limit_summary (replicate 60001 (CHR ''x'')) [] [''- a'']
        = kept @ truncation_notice (1 - shown) 1 @ []
      \<and> shown \<le> 1 \<and> cp_len (limit_summary (replicate 60001 (CHR ''x'')) [] [''- a'']) \<le> SUMMARY_LIMIT
      \<and> filter (\<lambda>k. subseq (take k [''- a'']) (split_on nl kept)) [0..<Suc 1] = [0..<Suc shown]"
proof -
  have len: "cp_len (replicate 60001 (CHR ''x'')) = 60001"
    by (rule cp_len_run) (simp add: cont_byte_def)
  have "count_sub (replicate 60001 (CHR ''x'')) ''<details>'' = 0"
    by (rule count_sub_absent) (simp only: set_replicate_conv_if, simp)
  then have "reserved_for (replicate 60001 (CHR ''x'')) 1 = 110"
    by (simp only: reserved_for_def ex_reserve)
  then show ?thesis
    using cut_tells_the_truth [of "replicate 60001 (CHR ''x'')" "[]" "[''- a'']"] len
    by (simp only: SUMMARY_LIMIT_def append_Nil2 cp_len_Nil list.size) simp
qed

end
