(* ===== verification/Models.thy ===== *)
theory Models
  imports Complex_Main Reader_Coverage
begin

text \<open>
  The records of \<open>api/doug/models.py\<close> that the scoring, settlement and rendering parts hand to one
  another. Scores and weights are rationals; the code's floats carry two decimals of them.
\<close>

datatype band = Cleared | Flagged

text \<open>A \<open>Reason\<close>. The carry decision is stored JSON, \<open>JNull\<close> where there is none.\<close>

record reason =
  r_rule :: string
  r_label :: string
  r_weight :: rat
  r_severity :: "string option"
  r_hunks :: "string list option"
  r_file :: "string option"
  r_evidence :: "evidence_class option"
  r_carry :: json

record verdict =
  v_score :: rat
  v_band :: band
  v_threshold :: rat
  v_reasons :: "reason list"

text \<open>\<open>Reason(rule=..., label=..., weight=...)\<close> with every other field at its default.\<close>

definition plain_reason :: "string \<Rightarrow> string \<Rightarrow> rat \<Rightarrow> reason" where
  "plain_reason rule label weight =
     \<lparr>r_rule = rule, r_label = label, r_weight = weight, r_severity = None, r_hunks = None,
      r_file = None, r_evidence = None, r_carry = JNull\<rparr>"

end
