(* ===== verification/Yaml_Subset.thy ===== *)
theory Yaml_Subset
  imports Text_Units
begin

text \<open>
  The YAML subset of \<open>api/doug/ci_evidence.py\<close>: block mappings and sequences, plain and quoted
  scalars, block scalars and comments. The code keeps an index into one list of lines and only moves
  forward, rewriting the line of a \<open>- key: value\<close> item in place; the model passes the lines that are
  left. The three mutually recursive routines carry fuel, and \<open>yaml_parser_returns\<close> shows that the
  fuel the entry point gives is never used up, for any text. The theorems also say what the subset
  does with two layouts YAML allows: it drops the rest of the document after a line indented deeper
  than its mapping, and refuses a sequence at its key's indent that another key follows.
\<close>

datatype yaml =
    YStr string
  | YMap "(string \<times> yaml) list"
  | YList "yaml list"

text \<open>What a parse routine gives back: a node and the lines after it, or the exception.\<close>

datatype parsed = Parsed yaml "string list" | Unparseable | Out_Of_Fuel

subsection \<open>Lines\<close>

definition indent_of :: "string \<Rightarrow> nat" where
  "indent_of line = length (takeWhile (\<lambda>c. c = CHR '' '') line)"

definition content :: "string \<Rightarrow> string option" where
  "content line =
     (let s = strip line in
      if s = [] \<or> startswith s ''#'' \<or> s = ''---'' \<or> s = ''...'' then None else Some s)"

definition key_char :: "char \<Rightarrow> bool" where
  "key_char c \<longleftrightarrow> upper_ascii c \<or> lower_ascii c \<or> digit_char c \<or> c \<in> set ''_.-''"

text \<open>\<open>_KEY_RE\<close> and \<open>_SEQ_RE\<close> on a stripped line: the key and the rest, which is empty where the
  group did not take part.\<close>

definition key_match :: "string \<Rightarrow> (string \<times> string) option" where
  "key_match s =
     (let k = takeWhile key_char s in
      if k = [] then None
      else case lstrip (dropWhile key_char s) of [] \<Rightarrow> None
        | c # t \<Rightarrow>
            if c \<noteq> CHR '':'' then None
            else if t = [] then Some (k, [])
            else if space_char (hd t) then Some (k, lstrip t) else None)"

definition seq_match :: "string \<Rightarrow> string option" where
  "seq_match s =
     (case s of [] \<Rightarrow> None
      | c # t \<Rightarrow>
          if c \<noteq> CHR ''-'' then None
          else if t = [] then Some []
          else if space_char (hd t) then Some (lstrip t) else None)"

definition quote_mark :: "char \<Rightarrow> bool" where
  "quote_mark c \<longleftrightarrow> c = CHR 0x22 \<or> c = CHR 0x27"

fun uncomment_from :: "char option \<Rightarrow> char option \<Rightarrow> string \<Rightarrow> string" where
  "uncomment_from quote before [] = []"
| "uncomment_from quote before (c # s) =
     (case quote of
        Some q \<Rightarrow> c # uncomment_from (if c = q then None else Some q) (Some c) s
      | None \<Rightarrow>
          if quote_mark c then c # uncomment_from (Some c) (Some c) s
          else if c = CHR ''#'' \<and> (before = None \<or> before = Some (CHR '' '') \<or> before = Some (CHR 0x09))
          then []
          else c # uncomment_from None (Some c) s)"

definition uncomment :: "string \<Rightarrow> string" where
  "uncomment v = strip (uncomment_from None None v)"

definition scalar :: "string \<Rightarrow> string option" where
  "scalar value =
     (let v = uncomment value in
      if 2 \<le> length v \<and> hd v = last v \<and> quote_mark (hd v) then Some (butlast (tl v))
      else if v \<noteq> [] \<and> hd v \<in> set ''&*!'' then None else Some v)"

definition skip_blank :: "string list \<Rightarrow> string list" where
  "skip_blank ls = dropWhile (\<lambda>l. content l = None) ls"

fun block_lines :: "nat \<Rightarrow> nat option \<Rightarrow> string list \<Rightarrow> string list \<times> string list" where
  "block_lines ind width [] = ([], [])"
| "block_lines ind width (l # ls) =
     (if strip l = [] then (case block_lines ind width ls of (out, after) \<Rightarrow> ([] # out, after))
      else if indent_of l \<le> ind then ([], l # ls)
      else let w = (case width of None \<Rightarrow> indent_of l | Some w \<Rightarrow> w)
           in (case block_lines ind (Some w) ls of (out, after) \<Rightarrow>
                 ((if w \<le> indent_of l then drop w l else strip l) # out, after)))"

definition block_scalar :: "string list \<Rightarrow> nat \<Rightarrow> string \<times> string list" where
  "block_scalar ls ind =
     (case block_lines ind None ls of (out, after) \<Rightarrow>
        (join [CHR 0x0A] (rev (dropWhile (\<lambda>l. l = []) (rev out))), after))"

subsection \<open>Nodes\<close>

fun parse_node :: "nat \<Rightarrow> string list \<Rightarrow> nat \<Rightarrow> parsed"
  and parse_map :: "nat \<Rightarrow> string list \<Rightarrow> nat \<Rightarrow> (string \<times> yaml) list \<Rightarrow> parsed"
  and parse_seq :: "nat \<Rightarrow> string list \<Rightarrow> nat \<Rightarrow> yaml list \<Rightarrow> parsed" where
  "parse_node 0 ls ind = Out_Of_Fuel"
| "parse_node (Suc n) ls ind =
     (case ls of [] \<Rightarrow> Unparseable
      | l # _ \<Rightarrow>
          if seq_match (strip l) \<noteq> None then parse_seq n ls ind []
          else if key_match (strip l) = None then Unparseable
          else parse_map n ls ind [])"
| "parse_map 0 ls ind node = Out_Of_Fuel"
| "parse_map (Suc n) ls ind node =
     (case skip_blank ls of [] \<Rightarrow> Parsed (YMap node) []
      | l # rest \<Rightarrow>
          if indent_of l \<noteq> ind then Parsed (YMap node) (l # rest)
          else (case key_match (strip l) of None \<Rightarrow> Unparseable
          | Some (key, v) \<Rightarrow>
              if uncomment v = [] then
                (case skip_blank rest of
                   [] \<Rightarrow> parse_map n rest ind (dict_set key (YStr []) node)
                 | l' # rest' \<Rightarrow>
                     if ind < indent_of l' then
                       (case parse_node n (l' # rest') (indent_of l') of
                          Parsed y after \<Rightarrow> parse_map n after ind (dict_set key y node)
                        | bad \<Rightarrow> bad)
                     else if indent_of l' = ind \<and> seq_match (strip l') \<noteq> None then
                       (case parse_seq n (l' # rest') ind [] of
                          Parsed y after \<Rightarrow> parse_map n after ind (dict_set key y node)
                        | bad \<Rightarrow> bad)
                     else parse_map n rest ind (dict_set key (YStr []) node))
              else if hd (lstrip v) \<in> set ''|>'' then
                (case block_scalar rest ind of
                   (t, after) \<Rightarrow> parse_map n after ind (dict_set key (YStr t) node))
              else (case scalar v of None \<Rightarrow> Unparseable
                    | Some t \<Rightarrow> parse_map n rest ind (dict_set key (YStr t) node))))"
| "parse_seq 0 ls ind items = Out_Of_Fuel"
| "parse_seq (Suc n) ls ind items =
     (case skip_blank ls of [] \<Rightarrow> Parsed (YList items) []
      | l # rest \<Rightarrow>
          if indent_of l \<noteq> ind then Parsed (YList items) (l # rest)
          else (case seq_match (strip l) of None \<Rightarrow> Unparseable
          | Some v \<Rightarrow>
              if uncomment v = [] then
                (case skip_blank rest of
                   [] \<Rightarrow> parse_seq n rest ind (items @ [YStr []])
                 | l' # rest' \<Rightarrow>
                     if ind < indent_of l' then
                       (case parse_node n (l' # rest') (indent_of l') of
                          Parsed y after \<Rightarrow> parse_seq n after ind (items @ [y])
                        | bad \<Rightarrow> bad)
                     else parse_seq n rest ind (items @ [YStr []]))
              else if key_match v \<noteq> None \<and> \<not> quote_mark (hd (lstrip v)) then
                (let inner = ind + (length (strip l) - length v)
                 in case parse_map n ((replicate inner (CHR '' '') @ v) # rest) inner [] of
                      Parsed y after \<Rightarrow> parse_seq n after ind (items @ [y])
                    | bad \<Rightarrow> bad)
              else (case scalar v of None \<Rightarrow> Unparseable
                    | Some t \<Rightarrow> parse_seq n rest ind (items @ [YStr t]))))"

definition yaml_fuel :: "string list \<Rightarrow> nat" where
  "yaml_fuel ls = 3 * length ls + 3"

text \<open>\<open>parse_yaml_subset\<close>: what follows the first node is not looked at.\<close>

definition parse_yaml_lines :: "string list \<Rightarrow> parsed" where
  "parse_yaml_lines ls =
     (case skip_blank ls of [] \<Rightarrow> Parsed (YMap []) []
      | l # rest \<Rightarrow> parse_node (yaml_fuel (l # rest)) (l # rest) (indent_of l))"

definition parse_yaml_subset :: "string \<Rightarrow> parsed" where
  "parse_yaml_subset t = parse_yaml_lines (splitlines t)"

subsection \<open>The parser returns\<close>

definition settles :: "string list \<Rightarrow> parsed \<Rightarrow> bool" where
  "settles ls r \<longleftrightarrow> r \<noteq> Out_Of_Fuel \<and> (\<forall>y after. r = Parsed y after \<longrightarrow> length after \<le> length ls)"

lemma settles_simps [simp]:
  "settles ls Unparseable" "\<not> settles ls Out_Of_Fuel"
  "settles ls (Parsed y after) \<longleftrightarrow> length after \<le> length ls"
  by (auto simp: settles_def)

lemma settles_mono: "settles ls r \<Longrightarrow> length ls \<le> length ls' \<Longrightarrow> settles ls' r"
  by (auto simp: settles_def)

lemma skip_blank_length: "length (skip_blank ls) \<le> length ls"
  by (simp add: skip_blank_def length_dropWhile_le)

lemma skip_blank_Cons: "skip_blank ls = l # rest \<Longrightarrow> length rest < length ls"
  using skip_blank_length [of ls] by simp

lemma skip_blank_idem [simp]: "skip_blank (skip_blank ls) = skip_blank ls"
  by (simp add: skip_blank_def dropWhile_idem)

lemma skip_blank_content: "content l \<noteq> None \<Longrightarrow> skip_blank (l # ls) = l # ls"
  by (auto simp: skip_blank_def)

lemma block_lines_length: "block_lines ind w ls = (out, after) \<Longrightarrow> length after \<le> length ls"
  by (induction ind w ls arbitrary: out after rule: block_lines.induct)
    (fastforce simp: Let_def split: if_splits prod.splits)+

lemma block_scalar_length: "block_scalar ls ind = (t, after) \<Longrightarrow> length after \<le> length ls"
  by (auto simp: block_scalar_def split: prod.splits dest: block_lines_length)

lemma key_char_not_space: "key_char c \<Longrightarrow> \<not> space_char c"
proof (cases c)
  case (Char b0 b1 b2 b3 b4 b5 b6 b7)
  then show "key_char c \<Longrightarrow> \<not> space_char c"
    by (auto simp: key_char_def upper_ascii_code lower_ascii_code digit_char_code space_char_code)
qed

lemma key_match_shape:
  assumes "key_match s = Some (k, v)"
  shows "\<exists>c t. s = c # t \<and> key_char c \<and> CHR '':'' \<in> set s"
proof -
  from assms have k: "takeWhile key_char s \<noteq> []"
    by (auto simp: key_match_def Let_def split: if_splits)
  then obtain c t where s: "s = c # t" "key_char c"
    by (cases s) (auto split: if_splits)
  from assms obtain u where "lstrip (dropWhile key_char s) = CHR '':'' # u"
    by (auto simp: key_match_def Let_def split: if_splits list.splits)
  then have "CHR '':'' \<in> set (lstrip (dropWhile key_char s))" by simp
  then have "CHR '':'' \<in> set s"
    unfolding lstrip_def using set_dropWhileD by metis
  with s show ?thesis by blast
qed

lemma strip_hd:
  assumes "\<not> space_char c"
  shows "\<exists>t. strip (c # s) = c # t"
proof -
  have "c \<in> set (rstrip (c # s))"
  proof -
    have "dropWhile space_char (rev s @ [c]) = dropWhile space_char (rev s) @ [c]"
      using assms by (cases "\<exists>x \<in> set (rev s). \<not> space_char x") (auto simp: dropWhile_append)
    then show ?thesis by (simp add: rstrip_def)
  qed
  moreover have "dropWhile space_char (rev s @ [c]) = dropWhile space_char (rev s) @ [c]"
    using assms by (auto simp: dropWhile_append)
  ultimately show ?thesis using assms by (simp add: strip_def rstrip_def lstrip_def)
qed

lemma strip_keeps: "c \<in> set s \<Longrightarrow> \<not> space_char c \<Longrightarrow> c \<in> set (strip s)"
proof -
  have drop: "c \<in> set xs \<Longrightarrow> \<not> space_char c \<Longrightarrow> c \<in> set (dropWhile space_char xs)" for xs
    by (induction xs) auto
  assume "c \<in> set s" "\<not> space_char c"
  then show ?thesis by (simp add: strip_def lstrip_def rstrip_def drop)
qed

lemma strip_spaces: "strip (replicate n (CHR '' '') @ s) = strip s"
proof (cases "list_all space_char s")
  case True
  have sp: "space_char (CHR '' '')" by (simp add: space_char_code)
  have a: "dropWhile space_char (rev s) = []" using True by (auto simp: list_all_iff)
  have "dropWhile space_char (rev (replicate n (CHR '' '') @ s)) = []"
    using True sp by (auto simp: list_all_iff)
  with a show ?thesis unfolding strip_def rstrip_def lstrip_def by (simp only: rev.simps)
next
  case False
  have sp: "space_char (CHR '' '')" by (simp add: space_char_code)
  from False obtain x where x: "x \<in> set (rev s)" "\<not> space_char x" by (auto simp: list_all_iff)
  have "rstrip (replicate n (CHR '' '') @ s) = replicate n (CHR '' '') @ rstrip s"
    unfolding rstrip_def rev_append
    by (simp only: dropWhile_append1 [of x "rev s" space_char, OF x]) simp
  moreover have "dropWhile space_char (replicate n (CHR '' '') @ t) = dropWhile space_char t" for t
    using sp by (induction n) auto
  ultimately show ?thesis by (simp add: strip_def lstrip_def)
qed

text \<open>The rewritten line of a \<open>- key: value\<close> item is read again as a line of its own indent.\<close>

lemma rewritten_line:
  assumes "key_match v = Some kv"
  shows "skip_blank ((replicate n (CHR '' '') @ v) # rest) = (replicate n (CHR '' '') @ v) # rest"
    and "indent_of (replicate n (CHR '' '') @ v) = n"
proof -
  obtain c t where v: "v = c # t" "key_char c" "CHR '':'' \<in> set v"
    using assms key_match_shape by (cases kv) blast
  have ns: "\<not> space_char c" using v(2) key_char_not_space by blast
  then obtain u where u: "strip v = c # u" using strip_hd v(1) by blast
  have "CHR '':'' \<in> set (strip v)" using v(3) by (rule strip_keeps) (simp add: space_char_code)
  then have "strip v \<noteq> ''---''" "strip v \<noteq> ''...''" by auto
  moreover have "c \<noteq> CHR ''#''" using v(2) by (auto simp: key_char_def upper_ascii_code
      lower_ascii_code digit_char_code)
  ultimately have "content (replicate n (CHR '' '') @ v) \<noteq> None"
    using u by (simp add: content_def strip_spaces startswith_def Let_def)
  then show "skip_blank ((replicate n (CHR '' '') @ v) # rest) = (replicate n (CHR '' '') @ v) # rest"
    by (rule skip_blank_content)
  have "c \<noteq> CHR '' ''" using ns by (auto simp: space_char_code)
  then show "indent_of (replicate n (CHR '' '') @ v) = n"
    unfolding indent_of_def v(1) by (simp add: takeWhile_append)
qed

text \<open>One round of each routine, given the routines with less fuel.\<close>

abbreviation node_ok :: "nat \<Rightarrow> bool" where
  "node_ok n \<equiv> \<forall>ls ind. 3 * length ls + 2 < n \<longrightarrow> settles ls (parse_node n ls ind)"

abbreviation map_ok :: "nat \<Rightarrow> bool" where
  "map_ok n \<equiv> \<forall>ls ind node. 3 * length ls < n \<longrightarrow> settles ls (parse_map n ls ind node) \<and>
     (\<forall>l rest. skip_blank ls = l # rest \<longrightarrow> indent_of l = ind \<longrightarrow> settles rest (parse_map n ls ind node))"

abbreviation seq_ok :: "nat \<Rightarrow> bool" where
  "seq_ok n \<equiv> \<forall>ls ind items. 3 * length ls + 1 < n \<longrightarrow> settles ls (parse_seq n ls ind items)"

lemma node_round: "map_ok n \<Longrightarrow> seq_ok n \<Longrightarrow> node_ok (Suc n)"
  by (auto split: list.splits)

lemma then_settles:
  assumes "settles ls r" and "\<And>y after. length after \<le> length ls \<Longrightarrow> settles after (k y after)"
  shows "settles ls (case r of Parsed y after \<Rightarrow> k y after | Unparseable \<Rightarrow> Unparseable
    | Out_Of_Fuel \<Rightarrow> Out_Of_Fuel)"
  using assms by (cases r) (auto intro: settles_mono)

lemma map_line:
  assumes node: "node_ok n" and map: "map_ok n" and seq: "seq_ok n"
    and n: "3 * length rest + 2 < n" and c: "skip_blank ls = l # rest" and i: "indent_of l = ind"
  shows "settles rest (parse_map (Suc n) ls ind nd)"
proof (cases "key_match (strip l)")
  case None
  with c i show ?thesis by simp
next
  case (Some kv)
  obtain key v where kv: "kv = (key, v)" by (cases kv)
  have go: "settles after (parse_map n after ind nd')" if "length after \<le> length rest" for after nd'
    using map n that by simp
  have on: "settles rest (parse_map n rest ind nd')" for nd' by (rule go) simp
  have len: "length (skip_blank rest) \<le> length rest" by (rule skip_blank_length)
  show ?thesis
  proof (cases "uncomment v = []")
    case True
    show ?thesis
    proof (cases "skip_blank rest")
      case Nil
      with c i Some kv True on show ?thesis by simp
    next
      case (Cons l' rest')
      have ok: "3 * length (l' # rest') + 2 < n" "length (l' # rest') \<le> length rest"
        using len n Cons by auto
      have a: "settles rest (case parse_node n (l' # rest') (indent_of l') of
          Parsed y after \<Rightarrow> parse_map n after ind (dict_set key y nd)
        | Unparseable \<Rightarrow> Unparseable | Out_Of_Fuel \<Rightarrow> Out_Of_Fuel)"
        by (rule then_settles, rule settles_mono [of "l' # rest'"]) (use node ok go in auto)
      have b: "settles rest (case parse_seq n (l' # rest') ind [] of
          Parsed y after \<Rightarrow> parse_map n after ind (dict_set key y nd)
        | Unparseable \<Rightarrow> Unparseable | Out_Of_Fuel \<Rightarrow> Out_Of_Fuel)"
        by (rule then_settles, rule settles_mono [of "l' # rest'"]) (use seq ok go in auto)
      from c i Some kv True Cons a b on show ?thesis by simp
    qed
  next
    case False
    obtain t after where t: "block_scalar rest ind = (t, after)" by (cases "block_scalar rest ind")
    have "settles rest (parse_map n after ind nd')" for nd'
      using go block_scalar_length [OF t] by (blast intro: settles_mono)
    with c i Some kv False on t show ?thesis by (simp split: option.split)
  qed
qed

lemma map_round:
  assumes "node_ok n" and "map_ok n" and "seq_ok n"
  shows "map_ok (Suc n)"
proof (intro allI impI)
  fix ls :: "string list" and ind nd assume n: "3 * length ls < Suc n"
  have line: "settles rest (parse_map (Suc n) ls ind nd)"
    if "skip_blank ls = l # rest" "indent_of l = ind" for l rest
    using map_line [OF assms _ that] skip_blank_Cons [OF that(1)] n by simp
  have "settles ls (parse_map (Suc n) ls ind nd)"
  proof (cases "skip_blank ls")
    case (Cons l rest)
    show ?thesis
    proof (cases "indent_of l = ind")
      case True
      show ?thesis
        using line [OF Cons True] skip_blank_Cons [OF Cons] by (auto intro: settles_mono)
    qed (use Cons skip_blank_length [of ls] in simp)
  qed simp
  with line show "settles ls (parse_map (Suc n) ls ind nd) \<and>
      (\<forall>l rest. skip_blank ls = l # rest \<longrightarrow> indent_of l = ind \<longrightarrow> settles rest (parse_map (Suc n) ls ind nd))"
    by blast
qed

lemma seq_line:
  assumes node: "node_ok n" and map: "map_ok n" and seq: "seq_ok n"
    and n: "3 * length rest + 3 < n" and c: "skip_blank ls = l # rest" and i: "indent_of l = ind"
  shows "settles rest (parse_seq (Suc n) ls ind items)"
proof (cases "seq_match (strip l)")
  case None
  with c i show ?thesis by simp
next
  case (Some v)
  have go: "settles after (parse_seq n after ind items')" if "length after \<le> length rest" for after items'
    using seq n that by simp
  have on: "settles rest (parse_seq n rest ind items')" for items' by (rule go) simp
  have len: "length (skip_blank rest) \<le> length rest" by (rule skip_blank_length)
  show ?thesis
  proof (cases "uncomment v = []")
    case True
    show ?thesis
    proof (cases "skip_blank rest")
      case Nil
      with c i Some True on show ?thesis by simp
    next
      case (Cons l' rest')
      have ok: "3 * length (l' # rest') + 2 < n" "length (l' # rest') \<le> length rest"
        using len n Cons by auto
      have "settles rest (case parse_node n (l' # rest') (indent_of l') of
          Parsed y after \<Rightarrow> parse_seq n after ind (items @ [y])
        | Unparseable \<Rightarrow> Unparseable | Out_Of_Fuel \<Rightarrow> Out_Of_Fuel)"
        by (rule then_settles, rule settles_mono [of "l' # rest'"]) (use node ok go in auto)
      with c i Some True Cons on show ?thesis by simp
    qed
  next
    case False
    show ?thesis
    proof (cases "key_match v")
      case None
      with c i Some False on show ?thesis by (simp split: option.split)
    next
      case (Some kv)
      let ?inner = "ind + (length (strip l) - length v)"
      let ?line = "replicate ?inner (CHR '' '') @ v"
      have "settles rest (parse_map n (?line # rest) ?inner [])"
        using map n rewritten_line [OF Some] by simp
      then have "settles rest (case parse_map n (?line # rest) ?inner [] of
          Parsed y after \<Rightarrow> parse_seq n after ind (items @ [y])
        | Unparseable \<Rightarrow> Unparseable | Out_Of_Fuel \<Rightarrow> Out_Of_Fuel)"
        by (rule then_settles) (rule go)
      with c i \<open>seq_match (strip l) = Some v\<close> False Some on show ?thesis
        by (simp add: Let_def split: option.split)
    qed
  qed
qed

lemma seq_round:
  assumes "node_ok n" and "map_ok n" and "seq_ok n"
  shows "seq_ok (Suc n)"
proof (intro allI impI)
  fix ls :: "string list" and ind items assume n: "3 * length ls + 1 < Suc n"
  show "settles ls (parse_seq (Suc n) ls ind items)"
  proof (cases "skip_blank ls")
    case (Cons l rest)
    note short = skip_blank_Cons [OF Cons]
    show ?thesis
    proof (cases "indent_of l = ind")
      case True
      have "settles rest (parse_seq (Suc n) ls ind items)"
        using seq_line [OF assms _ Cons True] short n by simp
      then show ?thesis using short by (auto intro: settles_mono)
    qed (use Cons skip_blank_length [of ls] in simp)
  qed simp
qed

lemma parser_settles: "node_ok n \<and> map_ok n \<and> seq_ok n"
proof (induction n)
  case (Suc n)
  then have a: "node_ok n" and b: "map_ok n" and c: "seq_ok n" by (blast, blast, blast)
  show ?case by (intro conjI node_round [OF b c] map_round [OF a b c] seq_round [OF a b c])
qed simp

text \<open>
  The YAML reader returns on every text: the recursion over lines, whose lists hold no bound on
  their depth and whose lines are rewritten on the way, always ends with a node or with the refusal,
  and a node leaves no more lines than there were.
\<close>
theorem yaml_parser_returns:
  "case parse_yaml_subset t of
     Out_Of_Fuel \<Rightarrow> False
   | Unparseable \<Rightarrow> True
   | Parsed y after \<Rightarrow> length after \<le> length (splitlines t)"
proof -
  have "settles (splitlines t) (parse_yaml_subset t)"
  proof (cases "skip_blank (splitlines t)")
    case Nil
    then show ?thesis by (simp add: parse_yaml_subset_def parse_yaml_lines_def)
  next
    case (Cons l rest)
    have "settles (l # rest) (parse_node (yaml_fuel (l # rest)) (l # rest) (indent_of l))"
      using parser_settles [of "yaml_fuel (l # rest)"] by (simp only: yaml_fuel_def)
    with Cons skip_blank_length [of "splitlines t"] show ?thesis
      by (auto simp: parse_yaml_subset_def parse_yaml_lines_def intro: settles_mono)
  qed
  then show ?thesis by (cases "parse_yaml_subset t") simp_all
qed

subsection \<open>Two layouts\<close>

text \<open>A line \<open>key: value\<close> with a plain value.\<close>

definition plain_pair :: "string \<Rightarrow> string \<Rightarrow> string \<Rightarrow> bool" where
  "plain_pair line key value \<longleftrightarrow>
     content line \<noteq> None \<and> seq_match (strip line) = None
     \<and> key_match (strip line) = Some (key, value) \<and> uncomment value \<noteq> []
     \<and> hd (lstrip value) \<notin> set ''|>'' \<and> scalar value \<noteq> None"

lemma plain_pair_line:
  assumes "plain_pair line key value" and "indent_of line = ind"
  shows "parse_map (Suc n) (line # rest) ind node =
    parse_map n rest ind (dict_set key (YStr (the (scalar value))) node)"
  using assms skip_blank_content [of line rest] by (auto simp: plain_pair_def)

text \<open>
  A line indented deeper than its mapping truncates the document: when a top-level key with a
  plain value is followed by a deeper line, which is how YAML continues a plain value, the reader
  returns the mapping up to there as if it were the whole document; every later line is dropped and
  nothing is refused.
\<close>
theorem deeper_line_truncates:
  assumes "plain_pair first key value" and "indent_of first = 0"
    and "content deeper \<noteq> None" and "0 < indent_of deeper"
  shows "parse_yaml_lines (first # deeper # rest) =
    Parsed (YMap [(key, YStr (the (scalar value)))]) (deeper # rest)"
proof -
  have c: "content first \<noteq> None" and s: "seq_match (strip first) = None"
    and k: "key_match (strip first) \<noteq> None"
    using assms(1) by (auto simp: plain_pair_def)
  obtain n where n: "yaml_fuel (first # deeper # rest) = Suc (Suc (Suc n))"
    by (auto simp: yaml_fuel_def)
  have "parse_yaml_lines (first # deeper # rest) =
      parse_map (Suc (Suc n)) (first # deeper # rest) 0 []"
    using s k assms(2) n by (simp add: parse_yaml_lines_def skip_blank_content [OF c])
  also have "\<dots> = parse_map (Suc n) (deeper # rest) 0 [(key, YStr (the (scalar value)))]"
    unfolding plain_pair_line [OF assms(1,2)] by simp
  also have "\<dots> = Parsed (YMap [(key, YStr (the (scalar value)))]) (deeper # rest)"
    using assms(4) by (simp add: skip_blank_content [OF assms(3)])
  finally show ?thesis .
qed

theorem deeper_line_truncates_witness:
  "parse_yaml_lines [''run: ruff check .'', ''  --select E'', ''working-directory: api''] =
     Parsed (YMap [(''run'', YStr ''ruff check .'')]) [''  --select E'', ''working-directory: api'']"
proof -
  have "plain_pair ''run: ruff check .'' ''run'' ''ruff check .'' \<and> indent_of ''run: ruff check .'' = 0
      \<and> content ''  --select E'' \<noteq> None \<and> 0 < indent_of ''  --select E''"
    by code_simp
  moreover have "the (scalar ''ruff check .'') = ''ruff check .''" by code_simp
  ultimately show ?thesis
    using deeper_line_truncates [of "''run: ruff check .''" "''run''" "''ruff check .''"
        "''  --select E''" "[''working-directory: api'']"] by simp
qed

text \<open>
  A sequence at its key's own indent is read only when it ends the mapping: followed by another
  key of the mapping, the whole document is refused, although YAML, and the code's own comment,
  allow the layout.
\<close>
theorem sequence_at_key_indent_then_key_is_refused:
  assumes "key_match (strip first) = Some (key, [])" and "content first \<noteq> None"
    and "seq_match (strip first) = None" and "indent_of first = 0"
    and "seq_match (strip item) = Some v" and "content item \<noteq> None" and "indent_of item = 0"
    and "uncomment v \<noteq> []" and "key_match v = None" and "scalar v \<noteq> None"
    and "content later \<noteq> None" and "seq_match (strip later) = None" and "indent_of later = 0"
  shows "parse_yaml_lines (first # item # later # rest) = Unparseable"
proof -
  obtain n where n: "yaml_fuel (first # item # later # rest) = Suc (Suc (Suc (Suc (Suc n))))"
    by (auto simp: yaml_fuel_def)
  have u: "uncomment [] = []" by code_simp
  have "parse_yaml_lines (first # item # later # rest) =
      parse_map (Suc (Suc (Suc (Suc n)))) (first # item # later # rest) 0 []"
    using assms n by (simp add: parse_yaml_lines_def skip_blank_content [OF assms(2)])
  moreover have "parse_seq (Suc (Suc (Suc n))) (item # later # rest) 0 [] = Unparseable"
    using assms(5-13) by (auto simp: skip_blank_content)
  ultimately show ?thesis
    using assms(1,4,5,7) u
    by (simp add: skip_blank_content [OF assms(2)] skip_blank_content [OF assms(6)])
qed

theorem sequence_at_key_indent_then_key_is_refused_witness:
  "parse_yaml_lines [''on:'', ''- push'', ''jobs:'', ''  lint:''] = Unparseable"
proof -
  have "key_match (strip ''on:'') = Some (''on'', []) \<and> content ''on:'' \<noteq> None
      \<and> seq_match (strip ''on:'') = None \<and> indent_of ''on:'' = 0" by code_simp
  moreover have "seq_match (strip ''- push'') = Some ''push'' \<and> content ''- push'' \<noteq> None
      \<and> indent_of ''- push'' = 0 \<and> uncomment ''push'' \<noteq> [] \<and> key_match ''push'' = None
      \<and> scalar ''push'' \<noteq> None" by code_simp
  moreover have "content ''jobs:'' \<noteq> None \<and> seq_match (strip ''jobs:'') = None
      \<and> indent_of ''jobs:'' = 0" by code_simp
  ultimately show ?thesis
    using sequence_at_key_indent_then_key_is_refused [of "''on:''" "''on''" "''- push''" "''push''"
        "''jobs:''" "[''  lint:'']"] by blast
qed

end
