(* ===== verification/Posix_Path.thy ===== *)
theory Posix_Path
  imports Text_Units
begin

text \<open>
  The part of \<open>posixpath\<close> and \<open>fnmatch\<close> that settlement and CI evidence use, on repository paths:
  \<open>dirname\<close>, \<open>basename\<close>, \<open>join\<close>, \<open>normpath\<close> and \<open>fnmatchcase\<close>. The lemmas say when the walk from a
  file to the directories above it ends: \<open>dirname\<close> shortens every relative path and leaves the root
  as it is.
\<close>

definition slash :: char where "slash = CHR ''/''"

text \<open>Everything up to and including the last slash.\<close>

definition head_part :: "string \<Rightarrow> string" where
  "head_part p = rev (dropWhile (\<lambda>c. c \<noteq> slash) (rev p))"

definition dirname :: "string \<Rightarrow> string" where
  "dirname p =
     (let head = head_part p in
      if head \<noteq> [] \<and> head \<noteq> replicate (length head) slash then rstrip_char slash head else head)"

definition basename :: "string \<Rightarrow> string" where
  "basename p = rev (takeWhile (\<lambda>c. c \<noteq> slash) (rev p))"

definition path_join :: "string \<Rightarrow> string \<Rightarrow> string" where
  "path_join a b =
     (if startswith b [slash] then b
      else if a = [] \<or> endswith a [slash] then a @ b else a @ slash # b)"

fun norm_comps :: "bool \<Rightarrow> string list \<Rightarrow> string list \<Rightarrow> string list" where
  "norm_comps rooted acc [] = rev acc"
| "norm_comps rooted acc (c # cs) =
     (if c = [] \<or> c = ''.'' then norm_comps rooted acc cs
      else if c \<noteq> ''..'' \<or> (\<not> rooted \<and> acc = []) \<or> (acc \<noteq> [] \<and> hd acc = ''..'')
      then norm_comps rooted (c # acc) cs
      else norm_comps rooted (tl acc) cs)"

definition normpath :: "string \<Rightarrow> string" where
  "normpath p =
     (if p = [] then ''.''
      else let rooted = startswith p [slash];
               double = startswith p [slash, slash] \<and> \<not> startswith p [slash, slash, slash];
               body = join [slash] (norm_comps rooted [] (split_on [slash] p));
               q = (if \<not> rooted then [] else if double then [slash, slash] else [slash]) @ body
           in if q = [] then ''.'' else q)"

subsection \<open>dirname\<close>

lemma head_part_length: "length (head_part p) \<le> length p"
  using length_dropWhile_le [of "\<lambda>c. c \<noteq> slash" "rev p"] by (simp add: head_part_def)

lemma head_part_prefix: "\<exists>t. p = head_part p @ t"
proof -
  have "rev p = takeWhile (\<lambda>c. c \<noteq> slash) (rev p) @ dropWhile (\<lambda>c. c \<noteq> slash) (rev p)" by simp
  then have "p = head_part p @ rev (takeWhile (\<lambda>c. c \<noteq> slash) (rev p))"
    unfolding head_part_def by (metis rev_append rev_rev_ident)
  then show ?thesis by blast
qed

lemma head_part_last: "head_part p \<noteq> [] \<Longrightarrow> last (head_part p) = slash"
proof -
  assume ne: "head_part p \<noteq> []"
  let ?d = "dropWhile (\<lambda>c. c \<noteq> slash) (rev p)"
  have "?d \<noteq> []" using ne by (simp add: head_part_def)
  then have "hd ?d = slash" using hd_dropWhile [of "\<lambda>c. c \<noteq> slash" "rev p"] by blast
  then show ?thesis by (simp add: head_part_def last_rev)
qed

lemma head_part_none: "slash \<notin> set p \<Longrightarrow> head_part p = []"
  by (auto simp: head_part_def dropWhile_eq_Nil_conv)

lemma rstrip_char_split: "\<exists>t. s = rstrip_char c s @ t"
proof -
  have "s = rstrip_char c s @ rev (takeWhile (\<lambda>x. x = c) (rev s))"
    unfolding rstrip_char_def by (metis rev_append rev_rev_ident takeWhile_dropWhile_id)
  then show ?thesis by blast
qed

lemma rstrip_char_shorter:
  assumes "s \<noteq> []" and "last s = c"
  shows "length (rstrip_char c s) < length s"
proof -
  from assms obtain t where "rev s = c # t" by (metis hd_rev list.collapse rev_is_Nil_conv)
  then have "length (dropWhile (\<lambda>x. x = c) (rev s)) < length (rev s)"
    using length_dropWhile_le [of "\<lambda>x. x = c" t] by simp
  then show ?thesis by (simp add: rstrip_char_def)
qed

text \<open>A relative path does not start with a slash. Its parents are relative and shorter.\<close>

definition relative :: "string \<Rightarrow> bool" where
  "relative p \<longleftrightarrow> \<not> startswith p [slash]"

lemma relative_alt: "relative p \<longleftrightarrow> p = [] \<or> hd p \<noteq> slash"
  by (cases p) (auto simp: relative_def startswith_def)

lemma dirname_prefix: "\<exists>t. p = dirname p @ t"
proof -
  obtain t where t: "p = head_part p @ t" using head_part_prefix by blast
  obtain u where u: "head_part p = rstrip_char slash (head_part p) @ u" using rstrip_char_split by blast
  have "p = rstrip_char slash (head_part p) @ u @ t" using t u by (metis append.assoc)
  then show ?thesis using t by (auto simp: dirname_def Let_def)
qed

lemma relative_dirname: "relative p \<Longrightarrow> relative (dirname p)"
  using dirname_prefix [of p] by (cases "dirname p") (auto simp: relative_alt hd_append)

lemma dirname_shorter:
  assumes "relative p" and "p \<noteq> []"
  shows "length (dirname p) < length p"
proof (cases "head_part p = []")
  case True
  with assms show ?thesis by (simp add: dirname_def)
next
  case False
  obtain t where t: "p = head_part p @ t" using head_part_prefix by blast
  have "hd (head_part p) \<noteq> slash"
    using assms False t by (metis relative_alt hd_append)
  then have ne: "head_part p \<noteq> replicate (length (head_part p)) slash"
    using False by (metis hd_replicate length_0_conv)
  have "length (rstrip_char slash (head_part p)) < length (head_part p)"
    using rstrip_char_shorter [OF False head_part_last [OF False]] .
  with ne False show ?thesis
    using head_part_length [of p] by (simp add: dirname_def Let_def)
qed

lemma dirname_root: "dirname (replicate (Suc n) slash) = replicate (Suc n) slash"
proof -
  have "head_part (replicate (Suc n) slash) = replicate (Suc n) slash"
    by (simp add: head_part_def dropWhile_append replicate_append_same)
  then show ?thesis by (simp add: dirname_def)
qed

lemma dirname_top: "slash \<notin> set p \<Longrightarrow> dirname p = []"
  by (simp add: dirname_def head_part_none)

lemma dirname_of_join:
  assumes "slash \<notin> set b"
  shows "head_part (a @ slash # b) = a @ [slash]"
proof -
  have "dropWhile (\<lambda>c. c \<noteq> slash) (rev b @ slash # rev a) = slash # rev a"
    using assms by (subst dropWhile_append2) auto
  then show ?thesis by (simp add: head_part_def)
qed

lemma dirname_in_root:
  assumes "slash \<notin> set b"
  shows "dirname (slash # b) = [slash]"
  using dirname_of_join [OF assms, of "[]"] by (simp add: dirname_def)

subsection \<open>The walk to the repository root\<close>

text \<open>The loop \<open>while True\<close> that asks each directory for an answer and goes to its parent, up to the
  empty path, where it gives \<open>at_root\<close>. A loop that does not end is \<open>None\<close>.\<close>

partial_function (option) walk_up :: "(string \<Rightarrow> 'a option) \<Rightarrow> 'a \<Rightarrow> string \<Rightarrow> 'a option" where
  "walk_up answer at_root dir =
     (case answer dir of Some a \<Rightarrow> Some a
      | None \<Rightarrow> if dir = [] then Some at_root else walk_up answer at_root (dirname dir))"

lemma walk_up_returns: "relative dir \<Longrightarrow> \<exists>a. walk_up answer at_root dir = Some a"
proof (induction "length dir" arbitrary: dir rule: less_induct)
  case less
  show ?case
  proof (cases "answer dir \<noteq> None \<or> dir = []")
    case True
    then show ?thesis by (auto simp: walk_up.simps [of answer at_root dir] split: option.split)
  next
    case False
    then have "\<exists>a. walk_up answer at_root (dirname dir) = Some a"
      using less(1) [OF dirname_shorter [OF less(2)] relative_dirname [OF less(2)]] by blast
    with False show ?thesis by (auto simp: walk_up.simps [of answer at_root dir])
  qed
qed

text \<open>An absolute path ends in a directory made of slashes, its own parent: when that directory has no
  answer, the loop runs forever.\<close>

lemma walk_up_stuck:
  assumes "answer (replicate (Suc n) slash) = None"
  shows "walk_up answer at_root (replicate (Suc n) slash) = None"
proof (rule ccontr)
  assume "walk_up answer at_root (replicate (Suc n) slash) \<noteq> None"
  then obtain a where a: "walk_up answer at_root (replicate (Suc n) slash) = Some a" by blast
  have "ans = answer \<longrightarrow> dir \<noteq> replicate (Suc n) slash"
    if "walk_up ans t dir = Some x" for ans t dir and x :: 'a
    using _ that
  proof (rule walk_up.raw_induct)
    fix walk ans t dir and x :: 'a
    assume ih: "\<And>ans t dir x. walk ans t dir = Some x \<Longrightarrow> ans = answer \<longrightarrow> dir \<noteq> replicate (Suc n) slash"
      and run: "(case ans dir of Some a \<Rightarrow> Some a
        | None \<Rightarrow> if dir = [] then Some t else walk ans t (dirname dir)) = Some x"
    show "ans = answer \<longrightarrow> dir \<noteq> replicate (Suc n) slash"
    proof (intro impI notI)
      assume "ans = answer" "dir = replicate (Suc n) slash"
      with run assms dirname_root [of n] have "walk answer t (replicate (Suc n) slash) = Some x"
        by simp
      with ih show False by blast
    qed
  qed
  from this [OF a] show False by simp
qed

lemma walk_up_first: "answer dir = Some a \<Longrightarrow> walk_up answer at_root dir = Some a"
  by (simp add: walk_up.simps)

subsection \<open>fnmatchcase\<close>

text \<open>The items of a bracket expression: a character, or a range when a dash stands between two.\<close>

fun set_items :: "string \<Rightarrow> char \<Rightarrow> bool" where
  "set_items (a # d # b # cs) c =
     (if d = CHR ''-'' then ((of_char a :: nat) \<le> of_char c \<and> (of_char c :: nat) \<le> of_char b) \<or> set_items cs c
      else c = a \<or> set_items (d # b # cs) c)"
| "set_items [a, b] c = (c = a \<or> c = b)"
| "set_items [a] c = (c = a)"
| "set_items [] c = False"

text \<open>The text of the bracket and the pattern after it: the first character, after a \<open>!\<close>, belongs to
  the bracket even when it is the closing one. An unclosed bracket is a literal.\<close>

definition bracket :: "string \<Rightarrow> (string \<times> string) option" where
  "bracket p =
     (let neg = takeWhile (\<lambda>c. c = CHR ''!'') (take 1 p);
          p1 = drop (length neg) p;
          first = take 1 p1; p2 = drop 1 p1;
          body = takeWhile (\<lambda>c. c \<noteq> CHR '']'') p2
      in if first = [] \<or> length body = length p2 then None
         else Some (neg @ first @ body, drop (Suc (length body)) p2))"

definition bracket_has :: "string \<Rightarrow> char \<Rightarrow> bool" where
  "bracket_has stuff c =
     (if startswith stuff ''!'' then \<not> set_items (drop 1 stuff) c else set_items stuff c)"

lemma bracket_shorter: "bracket p = Some (s, q) \<Longrightarrow> length q < length p"
  by (cases p) (auto simp: bracket_def Let_def split: if_splits)

function (sequential) fnmatch :: "string \<Rightarrow> string \<Rightarrow> bool" where
  "fnmatch [] s = (s = [])"
| "fnmatch (p # ps) s =
     (if p = CHR ''*'' then fnmatch ps s \<or> (case s of [] \<Rightarrow> False | _ # t \<Rightarrow> fnmatch (p # ps) t)
      else case s of [] \<Rightarrow> False
      | c # t \<Rightarrow>
          if p = CHR ''?'' then fnmatch ps t
          else if p = CHR ''['' then
            (case bracket ps of None \<Rightarrow> c = p \<and> fnmatch ps t
             | Some (stuff, qs) \<Rightarrow> bracket_has stuff c \<and> fnmatch qs t)
          else c = p \<and> fnmatch ps t)"
  by pat_completeness auto
termination
  by (relation "measure (\<lambda>(p, s). length p + length s)") (auto dest: bracket_shorter)

lemma fnmatch_literal:
  "list_all (\<lambda>c. c \<notin> set ''*?['') p \<Longrightarrow> fnmatch p s \<longleftrightarrow> s = p"
  by (induction p arbitrary: s) (auto split: list.splits)

lemma fnmatch_star_suffix:
  "list_all (\<lambda>c. c \<notin> set ''*?['') p \<Longrightarrow> fnmatch (CHR ''*'' # p) s \<longleftrightarrow> endswith s p"
proof (induction s)
  case Nil
  then show ?case by (auto simp: fnmatch_literal endswith_suffix)
next
  case (Cons c s)
  have "fnmatch (CHR ''*'' # p) (c # s) \<longleftrightarrow> c # s = p \<or> endswith s p"
    using Cons fnmatch_literal by simp
  then show ?case by (auto simp: endswith_suffix Cons_eq_append_conv)
qed

end
