(* ===== verification/Ci_Evidence.thy ===== *)
theory Ci_Evidence
  imports Yaml_Subset Posix_Path
begin

text \<open>
  Which of the repository's own gates ran green at the reviewed head, \<open>api/doug/ci_evidence.py\<close>:
  jobs and steps out of a workflow file, the falsifier kinds of a command, the directories it ran
  over, the evidence folded per kind, and whether ruff as configured reports F821 for a file. The
  files at head come through \<open>resolve_file\<close>, and \<open>tomllib.loads\<close> is a parameter: a function from
  text to the decoded table, or \<open>None\<close> where it raises.
\<close>

type_synonym table = "(string \<times> json) list"

record step =
  command :: string
  working_directory :: string

record job =
  check_name :: string
  job_steps :: "step list"
  matrix :: bool

subsection \<open>Workflows\<close>

definition norm_dir :: "string \<Rightarrow> string" where
  "norm_dir d =
     (let n = (if strip d \<noteq> [] then normpath (strip d) else ''.'')
      in if n = ''.'' \<or> n = [slash] then [] else strip_char slash n)"

fun yget :: "yaml \<Rightarrow> string \<Rightarrow> yaml option" where
  "yget (YMap m) k = dict_get m k"
| "yget (YStr s) k = None"
| "yget (YList l) k = None"

definition has_key :: "yaml \<Rightarrow> string \<Rightarrow> bool" where
  "has_key y k \<longleftrightarrow> yget y k \<noteq> None"

definition is_map :: "yaml option \<Rightarrow> bool" where
  "is_map y = (case y of Some (YMap _) \<Rightarrow> True | _ \<Rightarrow> False)"

definition run_default :: "yaml \<Rightarrow> string option" where
  "run_default node =
     (case yget node ''defaults'' of
        Some defaults \<Rightarrow>
          (case yget defaults ''run'' of
             Some run \<Rightarrow>
               (case yget run ''working-directory'' of
                  Some (YStr wd) \<Rightarrow> if wd = [] then None else Some wd
                | _ \<Rightarrow> None)
           | None \<Rightarrow> None)
      | None \<Rightarrow> None)"

definition parse_step :: "string \<Rightarrow> yaml \<Rightarrow> step option" where
  "parse_step job_wd step =
     (case yget step ''run'' of
        Some (YStr run) \<Rightarrow>
          if strip run = [] then None
          else if has_key step ''if'' \<or> has_key step ''continue-on-error'' then None
          else let wd = (case yget step ''working-directory'' of
                           Some (YStr w) \<Rightarrow> if w = [] then job_wd else w
                         | _ \<Rightarrow> job_wd)
               in if contains wd ''${{'' then None
                  else Some \<lparr>command = run, working_directory = norm_dir wd\<rparr>
      | _ \<Rightarrow> None)"

text \<open>\<open>job.get("steps") or []\<close>, iterated: a list yields its items, a mapping its keys and a string its
  characters, none of which is a mapping, so only a list contributes steps.\<close>

definition steps_of :: "yaml \<Rightarrow> yaml list" where
  "steps_of job = (case yget job ''steps'' of Some (YList l) \<Rightarrow> l | _ \<Rightarrow> [])"

definition parse_job :: "string option \<Rightarrow> string \<Rightarrow> yaml \<Rightarrow> job option" where
  "parse_job workflow_wd key job =
     (case job of
        YMap _ \<Rightarrow>
          if has_key job ''uses'' \<or> has_key job ''continue-on-error'' then None
          else (case (case yget job ''name'' of None \<Rightarrow> YStr key | Some n \<Rightarrow> n) of
                  YStr name \<Rightarrow>
                    if name = [] \<or> contains name ''${{'' then None
                    else let job_wd = (case run_default job of Some w \<Rightarrow> w
                                       | None \<Rightarrow> (case workflow_wd of Some w \<Rightarrow> w | None \<Rightarrow> []))
                         in Some \<lparr>check_name = name,
                              job_steps = List.map_filter (parse_step job_wd) (steps_of job),
                              matrix = (case yget job ''strategy'' of
                                          Some strategy \<Rightarrow> has_key strategy ''matrix''
                                        | None \<Rightarrow> False)\<rparr>
                | _ \<Rightarrow> None)
      | _ \<Rightarrow> None)"

definition parse_workflow :: "string \<Rightarrow> job list" where
  "parse_workflow t =
     (case parse_yaml_subset t of
        Parsed doc _ \<Rightarrow>
          (case yget doc ''jobs'' of
             Some (YMap jobs) \<Rightarrow>
               List.map_filter (\<lambda>(key, job). parse_job (run_default doc) key job) jobs
           | _ \<Rightarrow> [])
      | _ \<Rightarrow> [])"

subsection \<open>Falsifier kinds\<close>

definition RUFF :: string where "RUFF = ''ruff''"
definition JS_LINT :: string where "JS_LINT = ''js-lint''"
definition JS_BUILD :: string where "JS_BUILD = ''js-build''"

definition package_runner :: regex where
  "package_runner = alts (map lit [''npm'', ''pnpm'', ''yarn'', ''bun''])"

definition run_script :: "string \<Rightarrow> regex" where
  "run_script name =
     seqs [WordB, package_runner, plus wsp, opt (Seq (lit ''run'') (plus wsp)), lit name, WordB]"

definition FALSIFIERS :: "(string \<times> regex) list" where
  "FALSIFIERS =
     [(RUFF, seqs [WordB, lit ''ruff'', plus wsp, lit ''check'', WordB]),
      (JS_LINT, Alt (seqs [WordB, lit ''eslint'', WordB]) (run_script ''lint'')),
      (JS_BUILD, alts [seqs [WordB, lit ''tsc'', WordB],
         seqs [WordB, alts (map lit [''next'', ''vite'', ''nuxt'', ''astro'', ''turbo'']), plus wsp,
               lit ''build'', WordB],
         run_script ''build''])]"

definition workspace_flag :: regex where
  "workspace_flag =
     Seq (Alt (Seq (lit ''--workspace'') (one_of ''= ''))
              (seqs [NotBehind (\<lambda>x. \<not> space_char x), lit ''-w'', plus wsp]))
         (Grp 1 (plus non_space_re))"

definition filter_flag :: regex where
  "filter_flag =
     seqs [NotBehind (\<lambda>x. \<not> space_char x), lit ''--filter'', Alt (one_of ''= '') WordB]"

definition command_split :: regex where
  "command_split = alts [lit ''&&'', lit ''||'', one_of [CHR '';'', CHR ''|'', CHR 0x0A]]"

definition RUFF_HARMLESS_FLAGS :: "string list" where
  "RUFF_HARMLESS_FLAGS =
     [''--no-cache'', ''-n'', ''--quiet'', ''-q'', ''--fix'', ''--no-fix'', ''--show-fixes'',
      ''--statistics'', ''--preview'', ''--no-preview'', ''--diff'', ''--watch'',
      ''--unsafe-fixes'', ''--no-unsafe-fixes'', ''--exit-non-zero-on-fix'']"

definition kinds_of :: "string \<Rightarrow> string list" where
  "kinds_of cmd = map fst (filter (\<lambda>(kind, rx). re_found rx cmd) FALSIFIERS)"

definition tool_token :: "string \<Rightarrow> string option" where
  "tool_token kind = (if kind = RUFF then Some ''ruff'' else if kind = JS_LINT then Some ''eslint'' else None)"

text \<open>\<open>_tool_index\<close> as the tokens after the tool.\<close>

definition after_tool :: "string list \<Rightarrow> string \<Rightarrow> string list option" where
  "after_tool tokens kind =
     (case tool_token kind of None \<Rightarrow> None
      | Some tool \<Rightarrow>
          (case dropWhile (\<lambda>t. \<not> (t = tool \<or> endswith t (slash # tool))) tokens of
             [] \<Rightarrow> None | _ # rest \<Rightarrow> Some rest))"

fun positional :: "string \<Rightarrow> string list \<Rightarrow> string list option" where
  "positional kind [] = Some []"
| "positional kind (tok # toks) =
     (if startswith tok ''-'' then
        if contains tok ''='' \<or> (kind = RUFF \<and> tok \<in> set RUFF_HARMLESS_FLAGS)
        then positional kind toks else None
      else map_option (Cons tok) (positional kind toks))"

definition explicit_paths :: "string list \<Rightarrow> string \<Rightarrow> string list option" where
  "explicit_paths tokens kind =
     (case after_tool tokens kind of None \<Rightarrow> None
      | Some rest \<Rightarrow>
          if kind = RUFF then
            (case rest of c # rest' \<Rightarrow> if c = ''check'' then positional kind rest' else None
             | [] \<Rightarrow> None)
          else positional kind rest)"

definition under :: "string \<Rightarrow> string \<Rightarrow> string" where
  "under wd p = (if wd \<noteq> [] then norm_dir (path_join wd p) else norm_dir p)"

definition command_roots :: "string \<Rightarrow> string \<Rightarrow> string \<Rightarrow> string list option" where
  "command_roots wd kind cmd =
     (if re_found filter_flag cmd then None
      else let tokens = words cmd in
        if after_tool tokens kind \<noteq> None then
          (case explicit_paths tokens kind of None \<Rightarrow> None
           | Some paths \<Rightarrow> Some (map (under wd) paths @ (if paths = [] then [wd] else [])))
        else let ws = findall1 workspace_flag cmd
             in Some ((if ws = [] then [wd] else []) @ map (under wd) ws))"

fun roots_of_commands :: "string \<Rightarrow> string \<Rightarrow> string list \<Rightarrow> string list option" where
  "roots_of_commands wd kind [] = Some []"
| "roots_of_commands wd kind (cmd # cmds) =
     (if kind \<notin> set (kinds_of cmd) then roots_of_commands wd kind cmds
      else case command_roots wd kind cmd of None \<Rightarrow> None
        | Some rs \<Rightarrow> map_option ((@) rs) (roots_of_commands wd kind cmds))"

definition step_roots :: "step \<Rightarrow> string \<Rightarrow> string list option" where
  "step_roots s kind =
     roots_of_commands (working_directory s) kind (re_split command_split (command s))"

subsection \<open>Evidence\<close>

record check_result =
  cr_name :: string
  conclusion :: "string option"
  cr_app :: "string option"

text \<open>The two dictionaries of \<open>CiEvidence\<close>, kind to check names and kind to roots.\<close>

record ci_evidence =
  settled_by :: "(string \<times> string list) list"
  ev_roots :: "(string \<times> string list) list"

definition covers :: "ci_evidence \<Rightarrow> string \<Rightarrow> string \<Rightarrow> bool" where
  "covers ev kind path \<longleftrightarrow>
     dict_get (settled_by ev) kind \<noteq> None \<and>
     list_ex (\<lambda>root. root = [] \<or> path = root \<or> startswith path (root @ [slash]))
       (case dict_get (ev_roots ev) kind of None \<Rightarrow> [] | Some rs \<Rightarrow> rs)"

definition matching_checks :: "job \<Rightarrow> check_result list \<Rightarrow> check_result list" where
  "matching_checks j checks =
     filter (\<lambda>c. cr_app c = Some ''github-actions'' \<and>
       (cr_name c = check_name j \<or> (matrix j \<and> startswith (cr_name c) (check_name j @ '' ('')))) checks"

definition concluded_success :: "job \<Rightarrow> check_result list \<Rightarrow> bool" where
  "concluded_success j checks \<longleftrightarrow>
     matching_checks j checks \<noteq> [] \<and>
     list_all (\<lambda>c. conclusion c = Some ''success'') (matching_checks j checks)"

definition job_runs :: "string \<Rightarrow> job \<Rightarrow> bool" where
  "job_runs kind j = list_ex (\<lambda>s. kind \<in> set (kinds_of (command s))) (job_steps j)"

definition known_roots :: "string \<Rightarrow> step \<Rightarrow> string list" where
  "known_roots kind s =
     (if kind \<notin> set (kinds_of (command s)) then []
      else case step_roots s kind of None \<Rightarrow> [] | Some rs \<Rightarrow> rs)"

definition found_roots :: "string \<Rightarrow> job list \<Rightarrow> string list" where
  "found_roots kind js = concat (map (\<lambda>j. concat (map (known_roots kind) (job_steps j))) js)"

text \<open>The kinds come out of a set in the code, so their order in the two dictionaries is open; here
  it is the order of \<open>_FALSIFIERS\<close>, and nothing reads it.\<close>

definition green_kinds :: "job list \<Rightarrow> check_result list \<Rightarrow> string list" where
  "green_kinds jobs checks =
     filter (\<lambda>kind. list_ex (job_runs kind) jobs \<and>
       list_all (\<lambda>j. concluded_success j checks) (filter (job_runs kind) jobs))
       (map fst FALSIFIERS)"

definition evidence_of :: "job list \<Rightarrow> check_result list \<Rightarrow> ci_evidence" where
  "evidence_of jobs checks =
     \<lparr>settled_by = map (\<lambda>kind. (kind, fromkeys (map check_name (filter (job_runs kind) jobs))))
        (green_kinds jobs checks),
      ev_roots = map (\<lambda>kind. (kind, fromkeys (found_roots kind (filter (job_runs kind) jobs))))
        (green_kinds jobs checks)\<rparr>"

subsection \<open>Ruff's configuration\<close>

definition RUFF_CONFIG_FILES :: "string list" where
  "RUFF_CONFIG_FILES = [''.ruff.toml'', ''ruff.toml'', ''pyproject.toml'']"

definition RUFF_DEFAULT_SELECT :: "string list" where
  "RUFF_DEFAULT_SELECT = [''E4'', ''E7'', ''E9'', ''F'']"

definition RUFF_DEFAULT_EXCLUDE :: "string list" where
  "RUFF_DEFAULT_EXCLUDE =
     [''.bzr'', ''.direnv'', ''.eggs'', ''.git'', ''.git-rewrite'', ''.hg'',
      ''.ipynb_checkpoints'', ''.mypy_cache'', ''.nox'', ''.pants.d'', ''.pyenv'',
      ''.pytest_cache'', ''.pytype'', ''.ruff_cache'', ''.svn'', ''.tox'', ''.venv'',
      ''.vscode'', ''__pypackages__'', ''_build'', ''buck-out'', ''build'', ''dist'',
      ''node_modules'', ''site-packages'', ''venv'']"

definition rule_covers :: "string \<Rightarrow> string \<Rightarrow> bool" where
  "rule_covers code rule \<longleftrightarrow> code = ''ALL'' \<or> startswith rule code"

definition glob_matches :: "string \<Rightarrow> string \<Rightarrow> string \<Rightarrow> bool" where
  "glob_matches pattern rel path =
     (let p = strip pattern; stem = rstrip_char slash p in
      if p = [] then False
      else list_ex (\<lambda>c. fnmatch p c \<or> fnmatch stem c \<or> startswith c (stem @ [slash]))
             [rel, path, basename path])"

fun codes :: "json option \<Rightarrow> string list" where
  "codes (Some (JArr xs)) = List.map_filter (\<lambda>x. case x of JStr s \<Rightarrow> Some s | _ \<Rightarrow> None) xs"
| "codes x = []"

definition lint_get :: "table \<Rightarrow> string \<Rightarrow> json option" where
  "lint_get cfg key =
     (case (case dict_get cfg ''lint'' of Some (JObj lint) \<Rightarrow> dict_get lint key | _ \<Rightarrow> None) of
        Some v \<Rightarrow> Some v | None \<Rightarrow> dict_get cfg key)"

definition f821 :: string where "f821 = ''F821''"

definition config_reports_f821 :: "table \<Rightarrow> string \<Rightarrow> string \<Rightarrow> bool option" where
  "config_reports_f821 cfg path cfg_dir =
     (if dict_get cfg ''extend'' \<noteq> None then None
      else let get = lint_get cfg;
               selected = (case get ''select'' of None \<Rightarrow> RUFF_DEFAULT_SELECT | Some v \<Rightarrow> codes (Some v))
                 @ codes (get ''extend-select'');
               rel = (if cfg_dir \<noteq> [] \<and> startswith path (cfg_dir @ [slash])
                      then drop (length cfg_dir + 1) path else path)
           in if \<not> list_ex (\<lambda>c. rule_covers c f821) selected then Some False
              else if list_ex (\<lambda>c. rule_covers c f821) (codes (get ''ignore'') @ codes (get ''extend-ignore''))
              then Some False
              else if list_ex (\<lambda>p. glob_matches p rel path) (codes (get ''exclude'') @ codes (get ''extend-exclude''))
              then Some False
              else (case get ''per-file-ignores'' of
                      Some (JObj per_file) \<Rightarrow>
                        Some (\<not> list_ex (\<lambda>(pattern, cs). glob_matches pattern rel path \<and>
                          list_ex (\<lambda>c. rule_covers c f821) (codes (Some cs))) per_file)
                    | _ \<Rightarrow> Some True))"

text \<open>One directory: the first configuration file there that says something. The outer option is
  whether a file answered, the inner one \<open>None\<close> where the code cannot tell.\<close>

fun config_in ::
  "(string \<Rightarrow> table option) \<Rightarrow> (string \<Rightarrow> string option) \<Rightarrow> string \<Rightarrow> string \<Rightarrow> string list
   \<Rightarrow> bool option option" where
  "config_in toml_loads resolve path dir [] = None"
| "config_in toml_loads resolve path dir (name # names) =
     (case resolve (if dir \<noteq> [] then path_join dir name else name) of
        None \<Rightarrow> config_in toml_loads resolve path dir names
      | Some t \<Rightarrow>
          (case toml_loads t of None \<Rightarrow> Some None
           | Some data \<Rightarrow>
               if name = ''pyproject.toml'' then
                 (case dict_get data ''tool'' of
                    Some (JObj tool) \<Rightarrow>
                      (case dict_get tool ''ruff'' of
                         Some (JObj ruff) \<Rightarrow> Some (config_reports_f821 ruff path dir)
                       | _ \<Rightarrow> config_in toml_loads resolve path dir names)
                  | _ \<Rightarrow> config_in toml_loads resolve path dir names)
               else Some (config_reports_f821 data path dir)))"

text \<open>The outer option is whether the call returns.\<close>

definition f821_selected ::
  "(string \<Rightarrow> table option) \<Rightarrow> string \<Rightarrow> (string \<Rightarrow> string option) \<Rightarrow> bool option option" where
  "f821_selected toml_loads path resolve =
     (if list_ex (\<lambda>part. part \<in> set RUFF_DEFAULT_EXCLUDE) (butlast (split_on [slash] path))
      then Some (Some False)
      else walk_up (\<lambda>dir. config_in toml_loads resolve path dir RUFF_CONFIG_FILES) (Some True)
             (dirname path))"

subsection \<open>Properties\<close>

lemma green_kind:
  "kind \<in> set (green_kinds jobs checks) \<Longrightarrow> j \<in> set jobs \<Longrightarrow> job_runs kind j \<Longrightarrow> concluded_success j checks"
  by (auto simp: green_kinds_def list_all_iff)

lemma dict_get_map: "dict_get (map (\<lambda>k. (k, f k)) ks) k = (if k \<in> set ks then Some (f k) else None)"
  by (induction ks) auto

lemma found_root:
  assumes "root \<in> set (found_roots kind js)"
  shows "\<exists>j \<in> set js. \<exists>s \<in> set (job_steps j). \<exists>rs. kind \<in> set (kinds_of (command s))
    \<and> step_roots s kind = Some rs \<and> root \<in> set rs"
proof -
  from assms obtain j s where js: "j \<in> set js" "s \<in> set (job_steps j)"
    and r: "root \<in> set (known_roots kind s)"
    by (auto simp: found_roots_def)
  from r obtain rs where "kind \<in> set (kinds_of (command s))" "step_roots s kind = Some rs"
      "root \<in> set rs"
    by (cases "kind \<in> set (kinds_of (command s))"; cases "step_roots s kind") (simp_all add: known_roots_def)
  with js show ?thesis by blast
qed

text \<open>
  Evidence is what ran green over the path: a path is covered for a kind only if some step of a
  job ran a command of that kind over a directory the path is in (or the path itself), and every job
  of the workflows that runs the kind has check runs of its own name by GitHub Actions, all of which
  concluded success.
\<close>
theorem covered_path_was_checked_green:
  assumes "covers (evidence_of jobs checks) kind path"
  shows "(\<exists>j \<in> set jobs. \<exists>s \<in> set (job_steps j). \<exists>rs root. kind \<in> set (kinds_of (command s))
      \<and> step_roots s kind = Some rs \<and> root \<in> set rs
      \<and> (root = [] \<or> path = root \<or> startswith path (root @ [slash])))
    \<and> (\<forall>j \<in> set jobs. job_runs kind j \<longrightarrow> matching_checks j checks \<noteq> []
      \<and> (\<forall>c \<in> set (matching_checks j checks). conclusion c = Some ''success''))"
proof -
  let ?ev = "evidence_of jobs checks"
  from assms have green: "kind \<in> set (green_kinds jobs checks)"
    by (auto simp: covers_def evidence_of_def dict_get_map split: if_splits)
  then have roots: "dict_get (ev_roots ?ev) kind =
      Some (fromkeys (found_roots kind (filter (job_runs kind) jobs)))"
    by (simp add: evidence_of_def dict_get_map)
  with assms obtain root where root: "root \<in> set (found_roots kind (filter (job_runs kind) jobs))"
      "root = [] \<or> path = root \<or> startswith path (root @ [slash])"
    by (auto simp: covers_def list_ex_iff)
  from found_root [OF root(1)] obtain j s rs where "j \<in> set jobs" "s \<in> set (job_steps j)"
      "kind \<in> set (kinds_of (command s))" "step_roots s kind = Some rs" "root \<in> set rs" by auto
  with root(2) have "\<exists>j \<in> set jobs. \<exists>s \<in> set (job_steps j). \<exists>rs root. kind \<in> set (kinds_of (command s))
      \<and> step_roots s kind = Some rs \<and> root \<in> set rs
      \<and> (root = [] \<or> path = root \<or> startswith path (root @ [slash]))" by blast
  moreover have "\<forall>j \<in> set jobs. job_runs kind j \<longrightarrow> matching_checks j checks \<noteq> []
      \<and> (\<forall>c \<in> set (matching_checks j checks). conclusion c = Some ''success'')"
    using green_kind [OF green] by (simp add: concluded_success_def list_all_iff)
  ultimately show ?thesis by blast
qed

definition demo_job :: job where
  "demo_job = \<lparr>check_name = ''lint'',
     job_steps = [\<lparr>command = ''ruff check src'', working_directory = ''api''\<rparr>], matrix = False\<rparr>"

definition demo_check :: check_result where
  "demo_check = \<lparr>cr_name = ''lint'', conclusion = Some ''success'', cr_app = Some ''github-actions''\<rparr>"

theorem covered_path_was_checked_green_witness:
  "covers (evidence_of [demo_job] [demo_check]) RUFF ''api/src/x.py''
   \<and> matching_checks demo_job [demo_check] \<noteq> []"
proof -
  have c: "covers (evidence_of [demo_job] [demo_check]) RUFF ''api/src/x.py''" by code_simp
  have "job_runs RUFF demo_job" by code_simp
  with covered_path_was_checked_green [OF c] have "matching_checks demo_job [demo_check] \<noteq> []" by simp
  with c show ?thesis by simp
qed

text \<open>
  The search for the ruff configuration returns for every relative path, and does not for an
  absolute one: a finding whose file the model spelled with a leading slash sends the walk to the
  directory that is its own parent, where it asks the same three files forever unless one answers.
\<close>
theorem ruff_configuration_search_returns:
  "(relative path \<longrightarrow> (\<exists>a. f821_selected toml_loads path resolve = Some a))
   \<and> (path = slash # name \<and> slash \<notin> set name
      \<and> list_all (\<lambda>f. resolve (slash # f) = None) RUFF_CONFIG_FILES
      \<longrightarrow> f821_selected toml_loads path resolve = None)"
proof (intro conjI impI)
  assume "relative path"
  then show "\<exists>a. f821_selected toml_loads path resolve = Some a"
    by (simp add: f821_selected_def walk_up_returns relative_dirname)
next
  assume *: "path = slash # name \<and> slash \<notin> set name
      \<and> list_all (\<lambda>f. resolve (slash # f) = None) RUFF_CONFIG_FILES"
  then have dir: "dirname path = replicate (Suc 0) slash" by (simp add: dirname_in_root)
  have parts: "butlast (split_on [slash] path) = [[]]"
    using * split_on_char [of slash "[]" name] split_on_char_none [of slash name] by simp
  have none: "config_in toml_loads resolve path [slash] RUFF_CONFIG_FILES = None"
    using * by (simp add: RUFF_CONFIG_FILES_def path_join_def startswith_def endswith_def slash_def)
  have "[] \<notin> set RUFF_DEFAULT_EXCLUDE" by (simp add: RUFF_DEFAULT_EXCLUDE_def)
  then show "f821_selected toml_loads path resolve = None"
    using walk_up_stuck [of "\<lambda>dir. config_in toml_loads resolve path dir RUFF_CONFIG_FILES" 0] none
    by (simp add: f821_selected_def parts dir)
qed

theorem ruff_configuration_search_returns_witness:
  "f821_selected (\<lambda>_. None) ''/x.py'' (\<lambda>_. None) = None
   \<and> (\<exists>a. f821_selected (\<lambda>_. None) ''x.py'' (\<lambda>_. None) = Some a)"
proof -
  have "''/x.py'' = slash # ''x.py'' \<and> slash \<notin> set ''x.py''
      \<and> list_all (\<lambda>f. (\<lambda>_. None) (slash # f) = (None :: string option)) RUFF_CONFIG_FILES"
    by (simp add: slash_def list_all_iff)
  moreover have "relative ''x.py''" by (simp add: relative_def startswith_def slash_def)
  ultimately show ?thesis
    using ruff_configuration_search_returns [of "''x.py''" "\<lambda>_. None" "\<lambda>_. None" "[]"]
      ruff_configuration_search_returns [of "''/x.py''" "\<lambda>_. None" "\<lambda>_. None" "''x.py''"] by blast
qed

text \<open>What the truncation of \<open>deeper_line_truncates\<close> does to the evidence: the step below runs ruff
  with a rule selection in \<open>api\<close>, spelled over two lines; the reader keeps the first line and neither
  the selection nor the directory, so a green run settles findings on files that were never checked.\<close>

definition continued_step :: string where
  "continued_step = join [CHR 0x0A]
     [''jobs:'', ''  lint:'', ''    steps:'', ''      - run: ruff check .'', ''          --select E'',
      ''        working-directory: api'']"

lemma continuation_widens_coverage:
  "covers (evidence_of (parse_workflow continued_step) [demo_check]) RUFF ''web/x.py''"
  by code_simp

end
