(* ===== verification/Settle.thy ===== *)
theory Settle
  imports Models Convergence Ci_Evidence "HOL-Library.Sublist"
begin

text \<open>
  Settlement of findings by ground truth, \<open>api/doug/settle.py\<close>: four classes of findings are dropped
  when something the model was never shown disproves them, the full file at head, the live schema, a
  green check run, or the Python grammar. Files come through \<open>resolve_file\<close>, columns through
  \<open>resolve_schema\<close>. Parameters stand for the standard library's parsers: \<open>ast_parse\<close> gives the tree
  of a source or \<open>None\<close> where it does not parse, \<open>toml_loads\<close> a decoded table, and \<open>accepts source
  minor\<close> says whether the interpreter parses the source under that minor's grammar and compiles it.
\<close>

definition SETTLED_MISSING_IMPORT :: string where "SETTLED_MISSING_IMPORT = ''settled-missing-import''"
definition SETTLED_SCHEMA_DEPENDENCY :: string where "SETTLED_SCHEMA_DEPENDENCY = ''settled-schema-dependency''"
definition SETTLED_CI_GREEN :: string where "SETTLED_CI_GREEN = ''settled-ci-green''"
definition SETTLED_SYNTAX_ERROR :: string where "SETTLED_SYNTAX_ERROR = ''settled-syntax-error''"

definition SETTLED_REASON_CODES :: "string list" where
  "SETTLED_REASON_CODES =
     [SETTLED_MISSING_IMPORT, SETTLED_SCHEMA_DEPENDENCY, SETTLED_CI_GREEN, SETTLED_SYNTAX_ERROR]"

subsection \<open>The loop all four settlements run\<close>

text \<open>Each finding goes to the dropped ones or stays; the verdict is the same object when nothing is
  dropped, and only its findings change otherwise. A check that does not return is \<open>None\<close>.\<close>

fun split_findings ::
  "(reader_finding \<Rightarrow> bool option) \<Rightarrow> reader_finding list
   \<Rightarrow> (reader_finding list \<times> reader_finding list) option" where
  "split_findings disproved [] = Some ([], [])"
| "split_findings disproved (f # fs) =
     (case disproved f of None \<Rightarrow> None
      | Some b \<Rightarrow> map_option (\<lambda>(kept, dropped).
          if b then (kept, f # dropped) else (f # kept, dropped)) (split_findings disproved fs))"

definition settle_by ::
  "(reader_finding \<Rightarrow> bool option) \<Rightarrow> reader_verdict \<Rightarrow> (reader_verdict \<times> reader_finding list) option" where
  "settle_by disproved rv =
     map_option (\<lambda>(kept, dropped). if dropped = [] then (rv, []) else (rv\<lparr>findings := kept\<rparr>, dropped))
       (split_findings disproved (findings rv))"

subsection \<open>Missing imports\<close>

definition bare_slug :: "reader_finding \<Rightarrow> string" where
  "bare_slug f = removeprefix (lower (category_slug f)) ''reader:''"

definition mentions :: "string list \<Rightarrow> string \<Rightarrow> bool" where
  "mentions ws desc = list_ex (contains desc) ws"

definition IMPORT_SLUGS :: "string list" where
  "IMPORT_SLUGS = [''missing-import'', ''missing-module-import'']"

definition looks_like_missing_import_finding :: "reader_finding \<Rightarrow> bool" where
  "looks_like_missing_import_finding f =
     (bare_slug f \<in> set IMPORT_SLUGS \<or>
      contains (lower (description f)) ''import'' \<and>
      mentions [''missing'', ''without'', ''no import'', ''not imported''] (lower (description f)))"

definition IMPORT_PROSE :: "string list" where
  "IMPORT_PROSE = words
     ''statement statements line lines of for from is was being missing added removed needed required''"

definition in_backticks :: "regex \<Rightarrow> regex" where
  "in_backticks r = seqs [ch CHR 0x60, Grp 1 r, ch CHR 0x60]"

definition NAME_IN_BACKTICKS :: regex where
  "NAME_IN_BACKTICKS = in_backticks identifier_re"

definition BACKTICK_SPAN :: regex where
  "BACKTICK_SPAN = in_backticks (plus (none_of [CHR 0x60]))"

definition DOTTED_ROOT :: regex where
  "DOTTED_ROOT =
     seqs [NotBehind (\<lambda>c. word_char c \<or> c = CHR ''.''), Grp 1 identifier_re, ch CHR ''.'',
           Chars (\<lambda>c. upper_ascii c \<or> lower_ascii c \<or> c = CHR ''_'')]"

definition IMPORT_WORD :: regex where
  "IMPORT_WORD = seqs [WordB, lit ''import'', plus wsp, Grp 1 identifier_re]"

text \<open>The loop over the words after \<open>import\<close>; \<open>None\<close> is its early return.\<close>

fun claim_words ::
  "string list \<Rightarrow> string list option \<Rightarrow> string list \<Rightarrow> string list \<Rightarrow> string list option" where
  "claim_words roots imported found [] = Some found"
| "claim_words roots imported found (w # ws) =
     (if w \<in> set roots \<or> (case imported of None \<Rightarrow> False | Some ns \<Rightarrow> w \<in> set ns)
      then claim_words roots imported (found @ [w]) ws
      else if lower w \<notin> set IMPORT_PROSE then None
      else claim_words roots imported found ws)"

definition claimed_names :: "reader_finding \<Rightarrow> string list option \<Rightarrow> string list" where
  "claimed_names f imported =
     (let bare = findall1 NAME_IN_BACKTICKS (description f);
          roots = bare @ concat (map (findall1 DOTTED_ROOT) (findall1 BACKTICK_SPAN (description f)))
      in case claim_words roots imported bare (findall1 IMPORT_WORD (description f)) of
           None \<Rightarrow> [] | Some found \<Rightarrow> fromkeys found)"

text \<open>The syntax tree, as far as the visitors look: every other node is \<open>PNode\<close> of its children.\<close>

datatype name_ctx = Load | Store | Del

datatype py =
    PName string name_ctx
  | PAttribute py string
  | PIf py "py list" "py list"
  | PImport "(string \<times> string option) list"
  | PImportFrom "(string \<times> string option) list"
  | PGlobal "string list"
  | PNode "py list"

definition is_type_checking_test :: "py \<Rightarrow> bool" where
  "is_type_checking_test t = (case t of PName x _ \<Rightarrow> x = ''TYPE_CHECKING'' | _ \<Rightarrow> False)"

definition dotted_root :: "string \<Rightarrow> string" where
  "dotted_root name = takeWhile (\<lambda>c. c \<noteq> CHR ''.'') name"

definition alias_or :: "string \<Rightarrow> string option \<Rightarrow> string" where
  "alias_or name asname = (case asname of None \<Rightarrow> name | Some a \<Rightarrow> if a = [] then name else a)"

fun imports_of :: "py \<Rightarrow> string list" where
  "imports_of (PIf t body orelse) =
     (if is_type_checking_test t then concat (map imports_of orelse)
      else imports_of t @ concat (map imports_of body) @ concat (map imports_of orelse))"
| "imports_of (PImport names) =
     concat (map (\<lambda>(name, asname). [alias_or (dotted_root name) asname, dotted_root name]) names)"
| "imports_of (PImportFrom names) =
     map (\<lambda>(name, asname). alias_or name asname) (filter (\<lambda>(name, _). name \<noteq> ''*'') names)"
| "imports_of (PAttribute v a) = imports_of v"
| "imports_of (PNode cs) = concat (map imports_of cs)"
| "imports_of (PName x c) = []"
| "imports_of (PGlobal xs) = []"

definition runtime_imported_names :: "(string \<Rightarrow> py option) \<Rightarrow> string \<Rightarrow> string list option" where
  "runtime_imported_names ast_parse source = map_option imports_of (ast_parse source)"

definition is_disproved_by_file :: "(string \<Rightarrow> py option) \<Rightarrow> reader_finding \<Rightarrow> string \<Rightarrow> bool" where
  "is_disproved_by_file ast_parse f source =
     (case runtime_imported_names ast_parse source of None \<Rightarrow> False
      | Some imported \<Rightarrow>
          claimed_names f (Some imported) \<noteq> [] \<and>
          list_all (\<lambda>n. n \<in> set imported) (claimed_names f (Some imported)))"

definition import_disproved ::
  "(string \<Rightarrow> py option) \<Rightarrow> (string \<Rightarrow> string option) \<Rightarrow> reader_finding \<Rightarrow> bool" where
  "import_disproved ast_parse resolve_file f =
     (if \<not> looks_like_missing_import_finding f \<or> \<not> endswith (rf_file f) ''.py'' then False
      else case resolve_file (rf_file f) of None \<Rightarrow> False
        | Some source \<Rightarrow> is_disproved_by_file ast_parse f source)"

definition drop_disproved_import_findings ::
  "(string \<Rightarrow> py option) \<Rightarrow> reader_verdict \<Rightarrow> (string \<Rightarrow> string option)
   \<Rightarrow> (reader_verdict \<times> reader_finding list) option" where
  "drop_disproved_import_findings ast_parse rv resolve_file =
     settle_by (\<lambda>f. Some (import_disproved ast_parse resolve_file f)) rv"

subsection \<open>Schema dependencies\<close>

definition SCHEMA_SLUGS :: "string list" where
  "SCHEMA_SLUGS =
     [''unmigrated-column'', ''missing-migration'', ''missing-migration-dependency'', ''schema-dependency'']"

definition TABLE_DOT_COLUMN :: regex where
  "TABLE_DOT_COLUMN =
     seqs [opt (ch CHR 0x60), Grp 1 identifier_re, ch CHR ''.'', Grp 2 identifier_re, opt (ch CHR 0x60)]"

definition looks_like_schema_dependency_finding :: "reader_finding \<Rightarrow> bool" where
  "looks_like_schema_dependency_finding f =
     (bare_slug f \<in> set SCHEMA_SLUGS \<or>
      contains (lower (description f)) ''migrat'' \<and>
      mentions [''missing'', ''no migration'', ''not migrated'', ''unmigrated''] (lower (description f)))"

definition claimed_columns :: "reader_finding \<Rightarrow> (string \<times> string) list" where
  "claimed_columns f =
     (if re_found NAME_IN_BACKTICKS (description f) then []
      else fromkeys (map (\<lambda>m. (group_of 1 m, group_of 2 m)) (finditer TABLE_DOT_COLUMN (description f))))"

definition is_disproved_by_schema :: "reader_finding \<Rightarrow> (string \<Rightarrow> string list option) \<Rightarrow> bool" where
  "is_disproved_by_schema f resolve_schema =
     (claimed_columns f \<noteq> [] \<and>
      list_all (\<lambda>(table, column). case resolve_schema table of None \<Rightarrow> False
        | Some columns \<Rightarrow> column \<in> set columns) (claimed_columns f))"

definition drop_disproved_schema_findings ::
  "reader_verdict \<Rightarrow> (string \<Rightarrow> string list option) \<Rightarrow> (reader_verdict \<times> reader_finding list) option" where
  "drop_disproved_schema_findings rv resolve_schema =
     settle_by (\<lambda>f. Some (looks_like_schema_dependency_finding f \<and> is_disproved_by_schema f resolve_schema)) rv"

subsection \<open>Findings a green check answers\<close>

definition UNDEFINED_NAME_SLUGS :: "string list" where
  "UNDEFINED_NAME_SLUGS =
     [''undefined-name'', ''undefined-variable'', ''undefined-reference'', ''unresolved-reference'',
      ''undefined-function'', ''name-error'']"

definition BUILD_BREAK_SLUGS :: "string list" where
  "BUILD_BREAK_SLUGS =
     [''unused-import-build-break'', ''unused-import'', ''unused-import-lint-failure'',
      ''lint-failure'', ''build-break'']"

definition JS_SUFFIXES :: "string list" where
  "JS_SUFFIXES = [''.js'', ''.jsx'', ''.mjs'', ''.cjs'', ''.ts'', ''.tsx'', ''.mts'', ''.cts'']"

definition is_js :: "string \<Rightarrow> bool" where
  "is_js path = list_ex (endswith path) JS_SUFFIXES"

definition NOQA :: regex where
  "NOQA = alts
     [seqs [ch CHR ''#'', Star wsp, Alt (lit_ci ''ruff'') (lit_ci ''flake8''), Star wsp, ch CHR '':'',
            Star wsp, lit_ci ''noqa''],
      seqs [ch CHR ''#'', Star wsp, lit_ci ''noqa'', NotAhead (Seq (Star wsp) (ch CHR '':''))],
      seqs [ch CHR ''#'', Star wsp, lit_ci ''noqa'', Star wsp, ch CHR '':'', Star anychar,
            WordB, lit_ci ''f821'', WordB]]"

definition looks_like_undefined_name_finding :: "reader_finding \<Rightarrow> bool" where
  "looks_like_undefined_name_finding f =
     (let desc = lower (description f) in
      if contains desc ''before'' \<or> contains (bare_slug f) ''before'' then False
      else if bare_slug f \<in> set UNDEFINED_NAME_SLUGS \<or> looks_like_missing_import_finding f then True
      else mentions [''nameerror'', ''not defined'', ''undefined name''] desc)"

definition looks_like_build_break_finding :: "reader_finding \<Rightarrow> bool" where
  "looks_like_build_break_finding f =
     (bare_slug f \<in> set BUILD_BREAK_SLUGS \<or>
      contains (lower (description f)) ''unused'' \<and>
      mentions [''build'', ''lint'', ''eslint'', ''compile'', ''ci ''] (lower (description f)))"

text \<open>A literal and one of some optional continuations.\<close>

definition lit_then :: "string \<Rightarrow> string list \<Rightarrow> regex" where
  "lit_then s continuations =
     (if continuations = [] then lit_ci s else Seq (lit_ci s) (opt (alts (map lit_ci continuations))))"

definition CLAIM_AFTER :: regex where
  "CLAIM_AFTER = alts (map lit_ci
     [''undefined'', ''not defined'', ''never defined'', ''neither defined'',
      ''isn'' @ CHR 0x27 # ''t defined'', ''not imported'', ''never imported'', ''unbound'', ''unresolved''])"

definition CLAIM_BEFORE :: regex where
  "CLAIM_BEFORE = alts
     [lit_then ''undefined'' ['' name'', '' variable'', '' reference''],
      lit_then ''nameerror'' ['' on'', '' for''],
      lit_then ''no import'' ['' of'', '' for''],
      lit_then ''missing import'' ['' of'', '' for''],
      lit_then ''never import'' [''s''],
      lit_then ''not import'' [''ed''],
      lit_then ''unresolved'' ['' name'', '' reference'']]"

definition CLAIMED_NAME :: regex where
  "CLAIMED_NAME =
     Alt (seqs [in_backticks identifier_re, opt (one_of '',:''), Star wsp,
                up_to 3 (Seq (plus letter_re) (plus wsp)), CLAIM_AFTER, WordB])
         (seqs [WordB, CLAIM_BEFORE, Star wsp, opt (ch CHR '':''), Star wsp,
                ch CHR 0x60, Grp 2 identifier_re, ch CHR 0x60])"

definition claimed_undefined_names :: "reader_finding \<Rightarrow> string list" where
  "claimed_undefined_names f =
     fromkeys (map (\<lambda>m. if group_of 1 m \<noteq> [] then group_of 1 m else group_of 2 m)
       (finditer CLAIMED_NAME (description f)))"

text \<open>\<open>ast.walk\<close>, and the names a guarded body binds.\<close>

fun walk :: "py \<Rightarrow> py list" where
  "walk (PIf t body orelse) =
     PIf t body orelse # walk t @ concat (map walk body) @ concat (map walk orelse)"
| "walk (PAttribute v a) = PAttribute v a # walk v"
| "walk (PNode cs) = PNode cs # concat (map walk cs)"
| "walk x = [x]"

definition binds :: "py \<Rightarrow> string list" where
  "binds n =
     (case n of
        PImport names \<Rightarrow> map (\<lambda>(name, a). alias_or (dotted_root name) a) (filter (\<lambda>(name, _). name \<noteq> ''*'') names)
      | PImportFrom names \<Rightarrow>
          map (\<lambda>(name, a). alias_or (dotted_root name) a) (filter (\<lambda>(name, _). name \<noteq> ''*'') names)
      | PName x Store \<Rightarrow> [x]
      | _ \<Rightarrow> [])"

text \<open>The three results of the visitor: names loaded, names vetoed, and whether a star import was seen.\<close>

fun loads_of :: "py \<Rightarrow> string list" where
  "loads_of (PIf t body orelse) =
     (if is_type_checking_test t then concat (map loads_of orelse)
      else loads_of t @ concat (map loads_of body) @ concat (map loads_of orelse))"
| "loads_of (PName x c) = (if c = Load then [x] else [])"
| "loads_of (PAttribute v a) = loads_of v"
| "loads_of (PNode cs) = concat (map loads_of cs)"
| "loads_of (PImport ns) = []"
| "loads_of (PImportFrom ns) = []"
| "loads_of (PGlobal xs) = []"

fun vetoes_of :: "py \<Rightarrow> string list" where
  "vetoes_of (PIf t body orelse) =
     (if is_type_checking_test t
      then concat (map (\<lambda>c. concat (map binds (walk c))) body) @ concat (map vetoes_of orelse)
      else vetoes_of t @ concat (map vetoes_of body) @ concat (map vetoes_of orelse))"
| "vetoes_of (PGlobal xs) = xs"
| "vetoes_of (PAttribute v a) = vetoes_of v"
| "vetoes_of (PNode cs) = concat (map vetoes_of cs)"
| "vetoes_of (PName x c) = []"
| "vetoes_of (PImport ns) = []"
| "vetoes_of (PImportFrom ns) = []"

fun star_of :: "py \<Rightarrow> bool" where
  "star_of (PIf t body orelse) =
     (if is_type_checking_test t then list_ex star_of orelse
      else star_of t \<or> list_ex star_of body \<or> list_ex star_of orelse)"
| "star_of (PImportFrom names) = list_ex (\<lambda>(name, _). name = ''*'') names"
| "star_of (PAttribute v a) = star_of v"
| "star_of (PNode cs) = list_ex star_of cs"
| "star_of (PName x c) = False"
| "star_of (PImport ns) = False"
| "star_of (PGlobal xs) = False"

definition names_read_at_runtime ::
  "(string \<Rightarrow> py option) \<Rightarrow> string \<Rightarrow> (string list \<times> string list) option" where
  "names_read_at_runtime ast_parse source =
     map_option (\<lambda>tree. if star_of tree then (loads_of tree, loads_of tree)
       else (loads_of tree, vetoes_of tree)) (ast_parse source)"

definition gitignored_at_root :: "string \<Rightarrow> (string \<Rightarrow> string option) \<Rightarrow> bool" where
  "gitignored_at_root path resolve_file =
     (case resolve_file ''.gitignore'' of None \<Rightarrow> False
      | Some t \<Rightarrow>
          list_ex (\<lambda>line. let pattern = strip line in
            pattern \<noteq> [] \<and> \<not> startswith pattern ''#'' \<and> \<not> startswith pattern ''!'' \<and>
            glob_matches (dropWhile (\<lambda>c. c = slash) pattern) path path) (splitlines t))"

text \<open>The result is \<open>None\<close> where the search for the ruff configuration does not return.\<close>

definition ruff_green_disproves ::
  "(string \<Rightarrow> table option) \<Rightarrow> (string \<Rightarrow> py option) \<Rightarrow> reader_finding \<Rightarrow> ci_evidence
   \<Rightarrow> (string \<Rightarrow> string option) \<Rightarrow> bool option" where
  "ruff_green_disproves toml_loads ast_parse f ev resolve_file =
     (if \<not> endswith (rf_file f) ''.py'' \<or> \<not> covers ev RUFF (rf_file f) then Some False
      else case resolve_file (rf_file f) of None \<Rightarrow> Some False
      | Some source \<Rightarrow>
          if re_found NOQA source then Some False
          else (case names_read_at_runtime ast_parse source of None \<Rightarrow> Some False
          | Some (loaded, type_checking_bound) \<Rightarrow>
              let names = (if looks_like_missing_import_finding f
                           then claimed_names f (runtime_imported_names ast_parse source)
                           else claimed_undefined_names f)
              in if names = [] then Some False
                 else if list_ex (\<lambda>n. n \<notin> set loaded \<or> n \<in> set type_checking_bound) names then Some False
                 else if gitignored_at_root (rf_file f) resolve_file then Some False
                 else map_option (\<lambda>a. a = Some True) (f821_selected toml_loads (rf_file f) resolve_file)))"

definition build_green_disproves :: "reader_finding \<Rightarrow> ci_evidence \<Rightarrow> bool" where
  "build_green_disproves f ev =
     (is_js (rf_file f) \<and> covers ev JS_LINT (rf_file f) \<and> covers ev JS_BUILD (rf_file f))"

definition ci_kind_for :: "reader_finding \<Rightarrow> string option" where
  "ci_kind_for f =
     (if endswith (rf_file f) ''.py'' \<and> looks_like_undefined_name_finding f then Some RUFF
      else if is_js (rf_file f) \<and> looks_like_build_break_finding f then Some JS_BUILD
      else None)"

definition ci_disproved ::
  "(string \<Rightarrow> table option) \<Rightarrow> (string \<Rightarrow> py option) \<Rightarrow> ci_evidence \<Rightarrow> (string \<Rightarrow> string option)
   \<Rightarrow> reader_finding \<Rightarrow> bool option" where
  "ci_disproved toml_loads ast_parse ev resolve_file f =
     (if ci_kind_for f = Some RUFF then ruff_green_disproves toml_loads ast_parse f ev resolve_file
      else if ci_kind_for f = Some JS_BUILD then Some (build_green_disproves f ev)
      else Some False)"

definition drop_disproved_ci_findings ::
  "(string \<Rightarrow> table option) \<Rightarrow> (string \<Rightarrow> py option) \<Rightarrow> reader_verdict \<Rightarrow> ci_evidence option
   \<Rightarrow> (string \<Rightarrow> string option) \<Rightarrow> (reader_verdict \<times> reader_finding list) option" where
  "drop_disproved_ci_findings toml_loads ast_parse rv resolve_ci resolve_file =
     (if list_all (\<lambda>f. ci_kind_for f = None) (findings rv) then Some (rv, [])
      else case resolve_ci of None \<Rightarrow> Some (rv, [])
        | Some ev \<Rightarrow> settle_by (ci_disproved toml_loads ast_parse ev resolve_file) rv)"

subsection \<open>Syntax errors the parser answers\<close>

definition SYNTAX_SLUGS :: "string list" where
  "SYNTAX_SLUGS = [''syntax-error'', ''invalid-syntax'', ''python-syntax-error'', ''parse-error'']"

definition OTHER_GRAMMAR :: regex where
  "OTHER_GRAMMAR =
     seqs [WordB, alts (map lit_ci
       [''sql'', ''regex'', ''regexp'', ''regular expression'', ''json'', ''yaml'', ''toml'', ''jinja'',
        ''template'', ''literal_eval'', ''html'', ''graphql'']), WordB]"

definition OLDEST_SETTLED_MINOR :: int where "OLDEST_SETTLED_MINOR = 8"

definition SPECIFIER :: regex where
  "SPECIFIER =
     seqs [Star wsp, Grp 1 (alts (map lit [''==='', ''=='', ''~='', ''>='', ''<='', ''!='', ''>'', ''<''])),
           Star wsp, Grp 2 (Seq digit (Star (Chars (\<lambda>c. digit_char c \<or> c = CHR ''.'' \<or> c = CHR ''*'')))),
           Star wsp]"

definition PINNED_MINOR :: regex where
  "PINNED_MINOR =
     seqs [NotBehind (\<lambda>c. digit_char c \<or> c = CHR ''.''), lit ''3.'', Grp 1 (plus digit)]"

definition looks_like_syntax_error_finding :: "reader_finding \<Rightarrow> bool" where
  "looks_like_syntax_error_finding f =
     (bare_slug f \<in> set SYNTAX_SLUGS \<and> \<not> re_found OTHER_GRAMMAR (description f))"

definition digits_only :: "string \<Rightarrow> bool" where
  "digits_only s \<longleftrightarrow> s \<noteq> [] \<and> list_all digit_char s"

text \<open>One clause: unreadable, a bound that is ignored, or a lower bound.\<close>

datatype clause = Unreadable | Ignored | Low int

definition read_clause :: "string \<Rightarrow> clause" where
  "read_clause c =
     (case fullmatch_obj SPECIFIER c of None \<Rightarrow> Unreadable
      | Some m \<Rightarrow>
          if group_of 1 m \<in> {''<'', ''<='', ''!=''} then Ignored
          else case split_on ''.'' (group_of 2 m) of
            major # minor # _ \<Rightarrow>
              if major \<noteq> ''3'' \<or> \<not> digits_only minor then Unreadable else Low (int_of_digits minor)
          | _ \<Rightarrow> Unreadable)"

fun low_bounds :: "string list \<Rightarrow> int list option" where
  "low_bounds [] = Some []"
| "low_bounds (c # cs) =
     (case read_clause c of Unreadable \<Rightarrow> None
      | Ignored \<Rightarrow> low_bounds cs
      | Low n \<Rightarrow> map_option (Cons n) (low_bounds cs))"

definition minimum_minor :: "string \<Rightarrow> int option" where
  "minimum_minor spec =
     (case low_bounds (split_on '','' spec) of None \<Rightarrow> None
      | Some lows \<Rightarrow> if lows = [] then None else Some (Max (set lows)))"

fun pinned_lines :: "string list \<Rightarrow> int list option" where
  "pinned_lines [] = Some []"
| "pinned_lines (raw # raws) =
     (let line = strip (takeWhile (\<lambda>c. c \<noteq> CHR ''#'') raw) in
      if line = [] then pinned_lines raws
      else case re_search PINNED_MINOR line of None \<Rightarrow> None
        | Some m \<Rightarrow> map_option (Cons (int_of_digits (group_of 1 m))) (pinned_lines raws))"

definition pinned_minor :: "string \<Rightarrow> int option" where
  "pinned_minor t =
     (case pinned_lines (splitlines t) of None \<Rightarrow> None
      | Some minors \<Rightarrow> if minors = [] then None else Some (Min (set minors)))"

text \<open>What one directory declares: no answer, or an answer that ends the walk.\<close>

definition declared_in ::
  "(string \<Rightarrow> table option) \<Rightarrow> (string \<Rightarrow> string option) \<Rightarrow> string \<Rightarrow> int option option" where
  "declared_in toml_loads resolve_file dir =
     (let pinned = map_option pinned_minor (resolve_file (path_join dir ''.python-version''))
      in case resolve_file (path_join dir ''pyproject.toml'') of None \<Rightarrow> pinned
         | Some t \<Rightarrow>
             (case toml_loads t of None \<Rightarrow> Some None
              | Some data \<Rightarrow>
                  (case (case dict_get data ''project'' of
                           Some (JObj project) \<Rightarrow> dict_get project ''requires-python'' | _ \<Rightarrow> None) of
                     None \<Rightarrow> pinned
                   | Some (JStr spec) \<Rightarrow> Some (minimum_minor spec)
                   | Some _ \<Rightarrow> Some None)))"

text \<open>The outer option is whether the walk returns.\<close>

definition declared_python_minor ::
  "(string \<Rightarrow> table option) \<Rightarrow> string \<Rightarrow> (string \<Rightarrow> string option) \<Rightarrow> int option option" where
  "declared_python_minor toml_loads path resolve_file =
     walk_up (declared_in toml_loads resolve_file) None (dirname path)"

definition compiles_as :: "(string \<Rightarrow> int \<Rightarrow> bool) \<Rightarrow> int \<Rightarrow> string \<Rightarrow> int \<Rightarrow> bool" where
  "compiles_as accepts running source minor =
     (if \<not> (OLDEST_SETTLED_MINOR \<le> minor \<and> minor \<le> running) then False else accepts source minor)"

definition syntax_disproved ::
  "(string \<Rightarrow> table option) \<Rightarrow> (string \<Rightarrow> int \<Rightarrow> bool) \<Rightarrow> int \<Rightarrow> (string \<Rightarrow> string option)
   \<Rightarrow> reader_finding \<Rightarrow> bool option" where
  "syntax_disproved toml_loads accepts running resolve_file f =
     (if \<not> endswith (rf_file f) ''.py'' \<or> \<not> looks_like_syntax_error_finding f then Some False
      else map_option (\<lambda>minor. case minor of None \<Rightarrow> False
        | Some n \<Rightarrow> (case resolve_file (rf_file f) of None \<Rightarrow> False
                   | Some source \<Rightarrow> compiles_as accepts running source n))
        (declared_python_minor toml_loads (rf_file f) resolve_file))"

definition drop_disproved_syntax_findings ::
  "(string \<Rightarrow> table option) \<Rightarrow> (string \<Rightarrow> int \<Rightarrow> bool) \<Rightarrow> int \<Rightarrow> reader_verdict
   \<Rightarrow> (string \<Rightarrow> string option) \<Rightarrow> (reader_verdict \<times> reader_finding list) option" where
  "drop_disproved_syntax_findings toml_loads accepts running rv resolve_file =
     settle_by (syntax_disproved toml_loads accepts running resolve_file) rv"

subsection \<open>The notices\<close>

text \<open>\<open>repr\<close> of a string, of a list of strings and of a pair: printable characters stand for
  themselves, and so do the bytes of characters outside ASCII.\<close>

definition repr_hex :: "nat \<Rightarrow> char" where
  "repr_hex n = (if n < 10 then digit_of n else char_of (87 + n))"

definition repr_char :: "char \<Rightarrow> char \<Rightarrow> string" where
  "repr_char quote c =
     (if c = quote \<or> c = CHR 0x5C then [CHR 0x5C, c]
      else if c = CHR 0x0A then [CHR 0x5C, CHR ''n'']
      else if c = CHR 0x0D then [CHR 0x5C, CHR ''r'']
      else if c = CHR 0x09 then [CHR 0x5C, CHR ''t'']
      else if (of_char c :: nat) < 32 \<or> c = CHR 0x7F
      then [CHR 0x5C, CHR ''x'', repr_hex (of_char c div 16), repr_hex (of_char c mod 16)]
      else [c])"

definition py_repr :: "string \<Rightarrow> string" where
  "py_repr s =
     (let quote = (if CHR 0x27 \<in> set s \<and> CHR 0x22 \<notin> set s then CHR 0x22 else CHR 0x27)
      in quote # concat (map (repr_char quote) s) @ [quote])"

definition repr_list :: "string list \<Rightarrow> string" where
  "repr_list items = CHR ''['' # join '', '' items @ '']''"

definition or_unknown :: "string list \<Rightarrow> string" where
  "or_unknown items = repr_list (if items = [] then [py_repr ''?''] else items)"

text \<open>The grammar all four share: a header, then one segment per finding with its claim.\<close>

definition notice_claim :: "(reader_finding \<Rightarrow> string) \<Rightarrow> reader_finding \<Rightarrow> string" where
  "notice_claim claim d = rf_file d @ '': '' @ category_slug d @ '' ('' @ claim d @ '')''"

definition notice_label :: "string \<Rightarrow> (reader_finding \<Rightarrow> string) \<Rightarrow> reader_finding list \<Rightarrow> string" where
  "notice_label by_what claim dropped =
     ''Dropped '' @ dec (length dropped) @ '' finding(s) disproved by '' @ by_what @ NOTICE_HEADER_SEP
     @ join ''; '' (map (notice_claim claim) dropped)"

definition notice_of ::
  "string \<Rightarrow> string \<Rightarrow> (reader_finding \<Rightarrow> string) \<Rightarrow> reader_finding list \<Rightarrow> reason option" where
  "notice_of rule by_what claim dropped =
     (if dropped = [] then None else Some (plain_reason rule (notice_label by_what claim dropped) 0))"

definition import_claim :: "reader_finding \<Rightarrow> string" where
  "import_claim d = or_unknown (map py_repr (claimed_names d None))"

definition settlement_notice :: "reader_finding list \<Rightarrow> reason option" where
  "settlement_notice = notice_of SETTLED_MISSING_IMPORT ''runtime import at head'' import_claim"

definition schema_claim :: "reader_finding \<Rightarrow> string" where
  "schema_claim d = or_unknown (map (\<lambda>(table, column).
     CHR ''('' # py_repr table @ '', '' @ py_repr column @ '')'') (claimed_columns d))"

definition schema_settlement_notice :: "reader_finding list \<Rightarrow> reason option" where
  "schema_settlement_notice = notice_of SETTLED_SCHEMA_DEPENDENCY ''the live schema'' schema_claim"

definition jobs_for :: "ci_evidence option \<Rightarrow> reader_finding \<Rightarrow> string list" where
  "jobs_for ev f =
     (case ev of None \<Rightarrow> []
      | Some e \<Rightarrow>
          let names = (\<lambda>kind. case dict_get (settled_by e) kind of None \<Rightarrow> [] | Some ns \<Rightarrow> ns)
          in fromkeys (if ci_kind_for f = Some JS_BUILD then names JS_LINT @ names JS_BUILD
               else names (case ci_kind_for f of None \<Rightarrow> [] | Some kind \<Rightarrow> kind)))"

definition ci_claim :: "ci_evidence option \<Rightarrow> reader_finding \<Rightarrow> string" where
  "ci_claim ev f = or_unknown (map py_repr (jobs_for ev f))"

definition ci_settlement_notice :: "reader_finding list \<Rightarrow> ci_evidence option \<Rightarrow> reason option" where
  "ci_settlement_notice dropped ev = notice_of SETTLED_CI_GREEN ''a green check at head'' (ci_claim ev) dropped"

definition syntax_claim :: "int option \<Rightarrow> string" where
  "syntax_claim minor = or_unknown (case minor of None \<Rightarrow> []
     | Some n \<Rightarrow> [py_repr (''Python 3.'' @ dec_int n)])"

text \<open>The version is looked up again for each dropped finding; \<open>None\<close> where a walk does not return.\<close>

definition syntax_settlement_notice ::
  "(string \<Rightarrow> table option) \<Rightarrow> reader_finding list \<Rightarrow> (string \<Rightarrow> string option) \<Rightarrow> reason option option" where
  "syntax_settlement_notice toml_loads dropped resolve_file =
     (if list_ex (\<lambda>d. declared_python_minor toml_loads (rf_file d) resolve_file = None) dropped then None
      else Some (notice_of SETTLED_SYNTAX_ERROR ''parsing the file at head''
        (\<lambda>d. syntax_claim (the (declared_python_minor toml_loads (rf_file d) resolve_file))) dropped))"

subsection \<open>Nothing is lost\<close>

lemma split_findings_filter:
  "split_findings disproved fs = Some (kept, dropped) \<Longrightarrow>
     kept = filter (\<lambda>f. disproved f = Some False) fs \<and> dropped = filter (\<lambda>f. disproved f = Some True) fs
     \<and> list_all (\<lambda>f. disproved f \<noteq> None) fs"
  by (induction fs arbitrary: kept dropped) (auto split: option.splits if_splits prod.splits)

lemma split_findings_total:
  "list_all (\<lambda>f. disproved f \<noteq> None) fs \<Longrightarrow> \<exists>r. split_findings disproved fs = Some r"
  by (induction fs) auto

lemma split_findings_stuck: "f \<in> set fs \<Longrightarrow> disproved f = None \<Longrightarrow> split_findings disproved fs = None"
  by (induction fs) (auto split: option.split)

text \<open>What every settlement keeps: the score, the rationale, and each finding in one of two lists.\<close>

definition only_drops :: "reader_verdict \<Rightarrow> reader_verdict \<Rightarrow> reader_finding list \<Rightarrow> bool" where
  "only_drops rv rv' dropped \<longleftrightarrow>
     risk_score rv' = risk_score rv \<and> rationale rv' = rationale rv
     \<and> subseq (findings rv') (findings rv) \<and> subseq dropped (findings rv)
     \<and> mset (findings rv') + mset dropped = mset (findings rv)"

lemma settle_by_only_drops:
  assumes "settle_by disproved rv = Some (rv', dropped)"
  shows "only_drops rv rv' dropped \<and> dropped = filter (\<lambda>f. disproved f = Some True) (findings rv)"
proof -
  from assms obtain kept dr where split: "split_findings disproved (findings rv) = Some (kept, dr)"
      and r: "(rv', dropped) = (if dr = [] then (rv, []) else (rv\<lparr>findings := kept\<rparr>, dr))"
    by (auto simp: settle_by_def)
  note f = split_findings_filter [OF split]
  have not_none: "disproved g \<noteq> Some True \<longleftrightarrow> disproved g = Some False" if "g \<in> set (findings rv)" for g
    using f that by (cases "disproved g") (auto simp: list_all_iff)
  have kept: "kept = filter (\<lambda>g. disproved g \<noteq> Some True) (findings rv)"
    using f not_none by (auto intro: filter_cong)
  have parts: "mset kept + mset dr = mset (findings rv)"
    using kept f multiset_partition [of "mset (findings rv)" "\<lambda>g. disproved g = Some True"]
    by (simp add: add.commute)
  show ?thesis
  proof (cases "dr = []")
    case True
    with r f show ?thesis by (auto simp: only_drops_def)
  next
    case False
    with r f parts kept show ?thesis by (simp add: only_drops_def)
  qed
qed

lemma ci_settlement_cases:
  assumes "drop_disproved_ci_findings toml_loads ast_parse rv resolve_ci resolve_file = Some (rv', dropped)"
  shows "(rv' = rv \<and> dropped = []) \<or> (\<exists>ev. resolve_ci = Some ev \<and>
    settle_by (ci_disproved toml_loads ast_parse ev resolve_file) rv = Some (rv', dropped))"
  using assms by (auto simp: drop_disproved_ci_findings_def split: if_splits option.splits)

text \<open>
  A settlement only drops: whichever of the four ran, the score and the rationale of the frozen
  instrument are untouched, every finding is either still published or in the dropped list, as often
  as it was reported, and both lists keep the order of the read.
\<close>
theorem settlements_only_drop:
  assumes "drop_disproved_import_findings ast_parse rv resolve_file = Some (rv', dropped)
    \<or> drop_disproved_schema_findings rv resolve_schema = Some (rv', dropped)
    \<or> drop_disproved_ci_findings toml_loads ast_parse rv resolve_ci resolve_file = Some (rv', dropped)
    \<or> drop_disproved_syntax_findings toml_loads accepts running rv resolve_file = Some (rv', dropped)"
  shows "only_drops rv rv' dropped"
proof -
  have same: "only_drops rv rv []" by (simp add: only_drops_def)
  from assms consider
    "drop_disproved_ci_findings toml_loads ast_parse rv resolve_ci resolve_file = Some (rv', dropped)"
    | disproved where "settle_by disproved rv = Some (rv', dropped)"
    unfolding drop_disproved_import_findings_def drop_disproved_schema_findings_def
      drop_disproved_syntax_findings_def by blast
  then show ?thesis
  proof cases
    case 1
    from ci_settlement_cases [OF this] show ?thesis using same settle_by_only_drops by blast
  next
    case 2
    then show ?thesis using settle_by_only_drops by blast
  qed
qed

definition demo_finding :: "string \<Rightarrow> string \<Rightarrow> string \<Rightarrow> reader_finding" where
  "demo_finding slug desc path = \<lparr>category_slug = slug, description = desc, rf_file = path,
     severity = ''high'', evidence = Diff, citations = []\<rparr>"

definition demo_verdict :: "reader_finding list \<Rightarrow> reader_verdict" where
  "demo_verdict fs = \<lparr>risk_score = 50, rationale = [], findings = fs\<rparr>"

definition os_finding :: reader_finding where
  "os_finding = demo_finding ''missing-import'' (''does not import '' @ [CHR 0x60] @ ''os'' @ [CHR 0x60]) ''a.py''"

definition demo_parse :: "string \<Rightarrow> py option" where
  "demo_parse source = Some (PNode [PImport [(''os.path'', None)]])"

lemma os_finding_dropped:
  "drop_disproved_import_findings demo_parse (demo_verdict [os_finding]) (\<lambda>_. Some [])
     = Some (demo_verdict [], [os_finding])"
  by code_simp

theorem settlements_only_drop_witness:
  "only_drops (demo_verdict [os_finding]) (demo_verdict []) [os_finding]"
  by (rule settlements_only_drop [of demo_parse _ "\<lambda>_. Some []" _ _ "\<lambda>_. None" "\<lambda>_. None" None
      "\<lambda>_ _. False" 14]) (simp add: os_finding_dropped)

subsection \<open>Why a missing-import finding was dropped\<close>

lemma claim_words_found:
  "claim_words roots (Some ns) found ws = Some out \<Longrightarrow>
     set found \<subseteq> set out \<and> (\<forall>w \<in> set ws. w \<in> set out \<or> lower w \<in> set IMPORT_PROSE)"
  by (induction roots "Some ns" found ws rule: claim_words.induct) (auto split: if_splits)

lemma claimed_names_cover:
  assumes "claimed_names f (Some ns) \<noteq> []"
  shows "set (findall1 NAME_IN_BACKTICKS (description f)) \<subseteq> set (claimed_names f (Some ns))"
    and "w \<in> set (findall1 IMPORT_WORD (description f)) \<Longrightarrow>
      w \<in> set (claimed_names f (Some ns)) \<or> lower w \<in> set IMPORT_PROSE"
  using assms
  by (auto simp: claimed_names_def Let_def split: option.splits dest!: claim_words_found)

text \<open>
  A missing-import finding is dropped on proof: the file it names was read at head and parses,
  every name the finding writes as code is bound by an import that runs, and every word after
  \<open>import\<close> in its prose is such a name too or plain English about imports.
\<close>
theorem dropped_import_finding_is_disproved:
  assumes "drop_disproved_import_findings ast_parse rv resolve_file = Some (rv', dropped)"
    and "f \<in> set dropped"
  shows "\<exists>source tree. resolve_file (rf_file f) = Some source \<and> ast_parse source = Some tree
    \<and> set (findall1 NAME_IN_BACKTICKS (description f)) \<subseteq> set (imports_of tree)
    \<and> filter (\<lambda>w. w \<notin> set (imports_of tree) \<and> lower w \<notin> set IMPORT_PROSE)
        (findall1 IMPORT_WORD (description f)) = []"
proof -
  from assms settle_by_only_drops have "import_disproved ast_parse resolve_file f"
    by (fastforce simp: drop_disproved_import_findings_def)
  then obtain source where src: "resolve_file (rf_file f) = Some source"
      and d: "is_disproved_by_file ast_parse f source"
    by (auto simp: import_disproved_def split: if_splits option.splits)
  from d obtain tree where tree: "ast_parse source = Some tree"
      and ne: "claimed_names f (Some (imports_of tree)) \<noteq> []"
      and all: "set (claimed_names f (Some (imports_of tree))) \<subseteq> set (imports_of tree)"
    by (auto simp: is_disproved_by_file_def runtime_imported_names_def list_all_iff split: option.splits)
  from src tree all claimed_names_cover [OF ne] show ?thesis
    by (fastforce simp: filter_empty_conv)
qed

theorem dropped_import_finding_is_disproved_witness:
  "\<exists>source tree. (\<lambda>_. Some []) (rf_file os_finding) = Some source \<and> demo_parse source = Some tree
    \<and> set (findall1 NAME_IN_BACKTICKS (description os_finding)) \<subseteq> set (imports_of tree)
    \<and> filter (\<lambda>w. w \<notin> set (imports_of tree) \<and> lower w \<notin> set IMPORT_PROSE)
        (findall1 IMPORT_WORD (description os_finding)) = []"
  by (rule dropped_import_finding_is_disproved [OF os_finding_dropped]) simp

text \<open>A tree whose only import of a name stands under \<open>if typing.TYPE_CHECKING:\<close>.\<close>

definition guarded_tree :: "string \<Rightarrow> py" where
  "guarded_tree name =
     PNode [PIf (PAttribute (PName ''typing'' Load) ''TYPE_CHECKING'') [PImportFrom [(name, None)]] []]"

text \<open>
  The guard spelled \<open>typing.TYPE_CHECKING\<close> is not skipped, although the code's comment names it:
  an import the interpreter never runs counts as a runtime import, and a true finding that the name
  is missing at runtime is dropped.
\<close>
theorem attribute_guard_counts_as_runtime_import:
  assumes "ast_parse source = Some (guarded_tree name)" and "resolve_file (rf_file f) = Some source"
    and "name \<noteq> ''*''" and "looks_like_missing_import_finding f" and "endswith (rf_file f) ''.py''"
    and "claimed_names f (Some [name]) = [name]" and "findings rv = [f]"
  shows "drop_disproved_import_findings ast_parse rv resolve_file = Some (rv\<lparr>findings := []\<rparr>, [f])"
proof -
  have "runtime_imported_names ast_parse source = Some [name]"
    using assms(1,3)
    by (simp add: runtime_imported_names_def guarded_tree_def is_type_checking_test_def alias_or_def)
  with assms have "import_disproved ast_parse resolve_file f"
    by (simp add: import_disproved_def is_disproved_by_file_def)
  then show ?thesis using assms(7) by (simp add: drop_disproved_import_findings_def settle_by_def)
qed

theorem attribute_guard_counts_as_runtime_import_witness:
  "drop_disproved_import_findings (\<lambda>_. Some (guarded_tree ''os'')) (demo_verdict [os_finding])
     (\<lambda>_. Some []) = Some ((demo_verdict [os_finding])\<lparr>findings := []\<rparr>, [os_finding])"
proof (rule attribute_guard_counts_as_runtime_import)
  show "looks_like_missing_import_finding os_finding" by code_simp
  show "endswith (rf_file os_finding) ''.py''" by code_simp
  show "claimed_names os_finding (Some [''os'']) = [''os'']" by code_simp
  show "findings (demo_verdict [os_finding]) = [os_finding]" by (simp add: demo_verdict_def)
qed simp_all

subsection \<open>The declared Python version\<close>

definition low_of :: "string \<Rightarrow> int option" where
  "low_of c = (case read_clause c of Low n \<Rightarrow> Some n | _ \<Rightarrow> None)"

lemma low_of_Some: "low_of c = Some n \<longleftrightarrow> read_clause c = Low n"
  by (simp add: low_of_def split: clause.split)

lemma in_map_filter: "y \<in> set (List.map_filter g xs) \<longleftrightarrow> (\<exists>x \<in> set xs. g x = Some y)"
  by (induction xs) (auto simp: map_filter_simps split: option.splits)

lemma low_bounds_all:
  "low_bounds cs = Some lows \<longleftrightarrow>
     list_all (\<lambda>c. read_clause c \<noteq> Unreadable) cs \<and> lows = List.map_filter low_of cs"
  by (induction cs arbitrary: lows) (auto simp: map_filter_simps low_of_def split: clause.splits)

text \<open>
  The settled grammar is the oldest the specifier admits: \<open>minimum_minor\<close> answers \<open>m\<close> exactly when
  every clause can be read, some clause is a lower bound, and a minor satisfies all the lower bounds
  precisely from \<open>m\<close> on.
\<close>
theorem minimum_minor_is_the_oldest_admitted:
  "minimum_minor spec = Some m \<longleftrightarrow>
     list_all (\<lambda>c. read_clause c \<noteq> Unreadable) (split_on '','' spec)
     \<and> list_ex (\<lambda>c. read_clause c = Low m) (split_on '','' spec)
     \<and> (\<forall>k. list_all (\<lambda>c. case read_clause c of Low n \<Rightarrow> n \<le> k | _ \<Rightarrow> True) (split_on '','' spec) = (m \<le> k))"
proof -
  let ?cs = "split_on '','' spec"
  let ?lows = "List.map_filter low_of ?cs"
  have mem: "n \<in> set ?lows \<longleftrightarrow> list_ex (\<lambda>c. read_clause c = Low n) ?cs" for n
    by (simp add: in_map_filter low_of_Some list_ex_iff)
  have bound: "list_all (\<lambda>c. case read_clause c of Low n \<Rightarrow> n \<le> k | _ \<Rightarrow> True) ?cs
      \<longleftrightarrow> (\<forall>n \<in> set ?lows. n \<le> k)" for k
    by (auto simp: list_all_iff in_map_filter low_of_Some split: clause.splits)
  have max: "(?lows \<noteq> [] \<and> Max (set ?lows) = m) \<longleftrightarrow> m \<in> set ?lows \<and> (\<forall>k. (\<forall>n \<in> set ?lows. n \<le> k) = (m \<le> k))"
  proof (cases "?lows = []")
    case False
    then show ?thesis by (auto simp: Max_eq_iff)
  qed simp
  have "minimum_minor spec = Some m \<longleftrightarrow>
      list_all (\<lambda>c. read_clause c \<noteq> Unreadable) ?cs \<and> ?lows \<noteq> [] \<and> Max (set ?lows) = m"
  proof (cases "low_bounds ?cs")
    case None
    then have "\<not> list_all (\<lambda>c. read_clause c \<noteq> Unreadable) ?cs"
      using low_bounds_all [of ?cs ?lows] by simp
    with None show ?thesis by (simp add: minimum_minor_def)
  next
    case (Some lows)
    with low_bounds_all [of ?cs lows] have r: "list_all (\<lambda>c. read_clause c \<noteq> Unreadable) ?cs"
      and l: "lows = ?lows" by simp_all
    from Some r show ?thesis unfolding l by (simp add: minimum_minor_def)
  qed
  then show ?thesis by (simp only: max mem bound)
qed

lemma settle_by_returns: "list_all (\<lambda>f. disproved f \<noteq> None) (findings rv) \<Longrightarrow> \<exists>r. settle_by disproved rv = Some r"
  using split_findings_total [of disproved "findings rv"] by (auto simp only: settle_by_def option.map)

text \<open>
  C39. Settling syntax findings returns when every finding names its file by a relative path, and
  never returns when a syntax finding names a file by a leading slash and neither declaration
  exists there: the model chooses the path, and the walk to the directories above it stays at the
  root forever.
\<close>
theorem syntax_settlement_returns:
  "(list_all (\<lambda>f. relative (rf_file f)) (findings rv) \<longrightarrow>
      (\<exists>r. drop_disproved_syntax_findings toml_loads accepts running rv resolve_file = Some r))
   \<and> (f \<in> set (findings rv) \<and> rf_file f = slash # name \<and> slash \<notin> set name \<and> endswith name ''.py''
      \<and> looks_like_syntax_error_finding f
      \<and> resolve_file ''/pyproject.toml'' = None \<and> resolve_file ''/.python-version'' = None
      \<longrightarrow> drop_disproved_syntax_findings toml_loads accepts running rv resolve_file = None)"
proof (intro conjI impI)
  assume rel: "list_all (\<lambda>f. relative (rf_file f)) (findings rv)"
  have "syntax_disproved toml_loads accepts running resolve_file g \<noteq> None"
    if "g \<in> set (findings rv)" for g
  proof -
    from rel that have "relative (rf_file g)" by (auto simp: list_all_iff)
    then have "\<exists>a. declared_python_minor toml_loads (rf_file g) resolve_file = Some a"
      unfolding declared_python_minor_def by (rule walk_up_returns [OF relative_dirname])
    then show ?thesis by (auto simp: syntax_disproved_def)
  qed
  then show "\<exists>r. drop_disproved_syntax_findings toml_loads accepts running rv resolve_file = Some r"
    unfolding drop_disproved_syntax_findings_def by (intro settle_by_returns) (simp add: list_all_iff)
next
  assume *: "f \<in> set (findings rv) \<and> rf_file f = slash # name \<and> slash \<notin> set name \<and> endswith name ''.py''
      \<and> looks_like_syntax_error_finding f
      \<and> resolve_file ''/pyproject.toml'' = None \<and> resolve_file ''/.python-version'' = None"
  have "declared_in toml_loads resolve_file [slash] = None"
    using * by (simp add: declared_in_def path_join_def startswith_def endswith_def slash_def)
  then have "declared_python_minor toml_loads (rf_file f) resolve_file = None"
    using * walk_up_stuck [of "declared_in toml_loads resolve_file" 0]
    by (simp add: declared_python_minor_def dirname_in_root)
  moreover have "endswith (rf_file f) ''.py''"
    using * by (auto simp: endswith_suffix)
  ultimately have "syntax_disproved toml_loads accepts running resolve_file f = None"
    using * by (simp add: syntax_disproved_def)
  then show "drop_disproved_syntax_findings toml_loads accepts running rv resolve_file = None"
    using * split_findings_stuck [of f "findings rv"]
    by (simp add: drop_disproved_syntax_findings_def settle_by_def)
qed

definition slash_finding :: reader_finding where
  "slash_finding = demo_finding ''syntax-error'' ''except A, B is invalid'' ''/a.py''"

theorem syntax_settlement_returns_witness:
  "drop_disproved_syntax_findings (\<lambda>_. None) (\<lambda>_ _. True) 14 (demo_verdict [slash_finding]) (\<lambda>_. None) = None
   \<and> (\<exists>r. drop_disproved_syntax_findings (\<lambda>_. None) (\<lambda>_ _. True) 14 (demo_verdict [os_finding]) (\<lambda>_. None)
        = Some r)"
proof
  have s: "looks_like_syntax_error_finding slash_finding" by code_simp
  show "drop_disproved_syntax_findings (\<lambda>_. None) (\<lambda>_ _. True) 14 (demo_verdict [slash_finding]) (\<lambda>_. None) = None"
    using s syntax_settlement_returns [of "demo_verdict [slash_finding]" "\<lambda>_. None" "\<lambda>_ _. True" 14
        "\<lambda>_. None" slash_finding "''a.py''"]
    by (simp add: demo_verdict_def slash_finding_def demo_finding_def slash_def endswith_def)
  show "\<exists>r. drop_disproved_syntax_findings (\<lambda>_. None) (\<lambda>_ _. True) 14 (demo_verdict [os_finding]) (\<lambda>_. None) = Some r"
    using syntax_settlement_returns [of "demo_verdict [os_finding]" "\<lambda>_. None" "\<lambda>_ _. True" 14
        "\<lambda>_. None" slash_finding "''a.py''"]
    by (simp add: demo_verdict_def os_finding_def demo_finding_def relative_def startswith_def slash_def)
qed

subsection \<open>The notices tell the next read what was settled\<close>

lemma str_partition_fresh:
  "c \<notin> set a \<Longrightarrow> str_partition (a @ c # sep @ b) (c # sep) = (a, True, b)"
proof (induction a)
  case Nil
  then show ?case using startswith_append [of "c # sep" b] by simp
next
  case (Cons d a)
  then have "\<not> startswith (d # a @ c # sep @ b) (c # sep)" by (auto simp: startswith_def)
  with Cons show ?case by simp
qed

lemma str_partition_fresh_none: "c \<notin> set a \<Longrightarrow> str_partition a (c # sep) = (a, False, [])"
  by (induction a) (auto simp: startswith_def)

lemma str_partition_fresh2:
  "c \<notin> set a \<Longrightarrow> x \<noteq> c \<Longrightarrow> str_partition (a @ x # c # sep @ b) (x # c # sep) = (a, True, b)"
proof (induction a)
  case Nil
  then show ?case using startswith_append [of "x # c # sep" b] by simp
next
  case (Cons d a)
  have "\<not> startswith (d # a @ x # c # sep @ b) (x # c # sep)"
    using Cons(2,3) by (cases a) (auto simp: startswith_def)
  with Cons show ?case by simp
qed

lemma split_on_fresh: "c \<notin> set a \<Longrightarrow> split_on (c # sep) (a @ c # sep @ b) = a # split_on (c # sep) b"
  by (subst split_on.simps) (simp add: str_partition_fresh)

lemma split_on_join:
  "list_all (\<lambda>x. c \<notin> set x) xs \<Longrightarrow> xs \<noteq> [] \<Longrightarrow> split_on (c # sep) (join (c # sep) xs) = xs"
proof (induction xs)
  case (Cons x xs)
  show ?case
  proof (cases xs)
    case Nil
    with Cons(2) show ?thesis by (subst split_on.simps) (simp add: str_partition_fresh_none)
  next
    case (Cons y ys)
    with Cons.IH Cons.prems show ?thesis by (simp add: split_on_fresh)
  qed
qed simp

text \<open>A file and a slug that the grammar's separators cannot break.\<close>

definition plain_name :: "reader_finding \<Rightarrow> bool" where
  "plain_name d \<longleftrightarrow> CHR '':'' \<notin> set (rf_file d) \<and> CHR '';'' \<notin> set (rf_file d)
     \<and> CHR '' '' \<notin> set (category_slug d) \<and> CHR '';'' \<notin> set (category_slug d)"

lemma notice_claim_segment:
  assumes "plain_name d"
  shows "notice_segment (notice_claim claim d) = Some (rf_file d, removeprefix (category_slug d) ''reader:'')"
  using assms str_partition_fresh [of "CHR '':''" "rf_file d" "'' ''"]
    str_partition_fresh [of "CHR '' ''" "category_slug d" "''(''"]
  by (simp add: notice_segment_def notice_claim_def plain_name_def)

lemma notice_label_segments:
  assumes "list_all plain_name dropped" and "dropped \<noteq> []"
    and "list_all (\<lambda>d. CHR '';'' \<notin> set (claim d)) dropped" and "CHR 0xE2 \<notin> set by_what"
  shows "notice_segments (notice_label by_what claim dropped) =
    map (\<lambda>d. (rf_file d, removeprefix (category_slug d) ''reader:'')) dropped"
proof -
  let ?head = "''Dropped '' @ dec (length dropped) @ '' finding(s) disproved by '' @ by_what"
  let ?body = "join ''; '' (map (notice_claim claim) dropped)"
  have "\<not> digit_char (CHR 0xE2)" by (simp add: digit_char_code)
  then have "CHR 0xE2 \<notin> set (dec (length dropped))" using dec_digits by blast
  then have head: "CHR 0xE2 \<notin> set ?head" using assms(4) by simp
  have "str_partition (notice_label by_what claim dropped) NOTICE_HEADER_SEP = (?head, True, ?body)"
    using str_partition_fresh2 [OF head, of "CHR '' ''" "[CHR 0x80, CHR 0x94, CHR '' '']" ?body]
    by (simp add: notice_label_def NOTICE_HEADER_SEP_def)
  moreover have "split_on NOTICE_SEGMENT_SEP ?body = map (notice_claim claim) dropped"
    unfolding NOTICE_SEGMENT_SEP_def
    by (rule split_on_join) (use assms in \<open>auto simp: list_all_iff plain_name_def notice_claim_def\<close>)
  moreover have "List.map_filter notice_segment (map (notice_claim claim) dropped) =
      map (\<lambda>d. (rf_file d, removeprefix (category_slug d) ''reader:'')) dropped"
    using assms(1) by (induction dropped) (simp_all add: map_filter_simps notice_claim_segment)
  ultimately show ?thesis by (simp add: notice_segments_def)
qed

text \<open>Patterns that set no group, and the identifier a group between two of them remembers.\<close>

definition silent :: "regex \<Rightarrow> bool" where
  "silent r \<longleftrightarrow> (\<forall>q g q' g'. (q', g') \<in> set (rmatch r q g) \<longrightarrow> g' = g)"

lemma silent_Chars: "silent (Chars P)"
proof -
  have "(q', g') \<in> set (rmatch (Chars P) (p, s) g) \<Longrightarrow> g' = g" for p s g q' g'
    by (cases s) (auto split: if_splits)
  then show ?thesis by (auto simp: silent_def)
qed

lemma silent_Seq: "silent a \<Longrightarrow> silent b \<Longrightarrow> silent (Seq a b)"
  unfolding silent_def by fastforce

lemma silent_Alt: "silent a \<Longrightarrow> silent b \<Longrightarrow> silent (Alt a b)"
  unfolding silent_def by fastforce

lemma silent_basic: "silent Eps" "silent WordB" "silent (Star (Chars P))"
  using star_chars by (auto simp: silent_def split: if_splits)

lemma silent_lit: "silent (lit s)"
  unfolding lit_def by (induction s) (auto intro: silent_Seq silent_Chars silent_basic)

lemma silent_rest: "silent (ch c)" "silent (plus wsp)" "silent (opt (ch c))"
  by (simp_all add: ch_def plus_def opt_def wsp_def silent_Seq silent_Alt silent_Chars silent_basic)

lemma in_Seq:
  "(q', g') \<in> set (rmatch (Seq a b) q g) \<Longrightarrow>
     \<exists>p h. (p, h) \<in> set (rmatch a q g) \<and> (q', g') \<in> set (rmatch b p h)"
  by auto

lemma silent_then: "silent a \<Longrightarrow> (q', g') \<in> set (rmatch (Seq a b) q g) \<Longrightarrow>
    \<exists>p. (q', g') \<in> set (rmatch b p g)"
  using in_Seq unfolding silent_def by blast

lemma then_silent: "silent b \<Longrightarrow> (q', g') \<in> set (rmatch (Seq a b) q g) \<Longrightarrow>
    \<exists>p. (p, g') \<in> set (rmatch a q g)"
  using in_Seq unfolding silent_def by blast

definition is_identifier :: "string \<Rightarrow> bool" where
  "is_identifier t \<longleftrightarrow> t \<noteq> [] \<and> list_all word_char t"

lemma match_groups:
  "match_at r q = Some m \<Longrightarrow> \<exists>q'. (q', fst (snd m)) \<in> set (rmatch r q [])"
  by (cases "rmatch r q []") (force simp: match_at_def)+

lemma backtick_name: "m \<in> set (finditer NAME_IN_BACKTICKS s) \<Longrightarrow> is_identifier (group_of 1 m)"
proof -
  assume "m \<in> set (finditer NAME_IN_BACKTICKS s)"
  then obtain q q' where "(q', fst (snd m)) \<in> set (rmatch NAME_IN_BACKTICKS q [])"
    using finditer_match match_groups by blast
  then obtain p where "(q', fst (snd m)) \<in> set (rmatch (Seq (Grp 1 identifier_re) (ch CHR 0x60)) p [])"
    unfolding NAME_IN_BACKTICKS_def in_backticks_def seqs.simps using silent_then silent_rest(1) by blast
  then obtain p' where "(p', fst (snd m)) \<in> set (rmatch (Grp 1 identifier_re) p [])"
    using then_silent silent_rest(1) by blast
  from identifier_group [OF this] show ?thesis by (auto simp: group_of_def is_identifier_def)
qed

lemma import_word_name: "m \<in> set (finditer IMPORT_WORD s) \<Longrightarrow> is_identifier (group_of 1 m)"
proof -
  assume "m \<in> set (finditer IMPORT_WORD s)"
  then obtain q q' where "(q', fst (snd m)) \<in> set (rmatch IMPORT_WORD q [])"
    using finditer_match match_groups by blast
  then obtain p where "(q', fst (snd m)) \<in> set (rmatch (Grp 1 identifier_re) p [])"
    unfolding IMPORT_WORD_def seqs.simps
    using silent_then silent_basic(2) silent_lit silent_rest(2) by meson
  from identifier_group [OF this] show ?thesis by (auto simp: group_of_def is_identifier_def)
qed

lemma column_name:
  "m \<in> set (finditer TABLE_DOT_COLUMN s) \<Longrightarrow> is_identifier (group_of 1 m) \<and> is_identifier (group_of 2 m)"
proof -
  let ?close = "opt (ch CHR 0x60)"
  assume "m \<in> set (finditer TABLE_DOT_COLUMN s)"
  then obtain q q' where "(q', fst (snd m)) \<in> set (rmatch TABLE_DOT_COLUMN q [])"
    using finditer_match match_groups by blast
  then obtain p where "(q', fst (snd m)) \<in> set (rmatch (Seq (Grp 1 identifier_re)
      (Seq (ch CHR ''.'') (Seq (Grp 2 identifier_re) ?close))) p [])"
    unfolding TABLE_DOT_COLUMN_def seqs.simps using silent_then silent_rest(3) by blast
  then obtain p1 h1 where one: "(p1, h1) \<in> set (rmatch (Grp 1 identifier_re) p [])"
      and rest: "(q', fst (snd m)) \<in> set (rmatch (Seq (ch CHR ''.'') (Seq (Grp 2 identifier_re) ?close)) p1 h1)"
    using in_Seq by blast
  from rest obtain p2 where "(q', fst (snd m)) \<in> set (rmatch (Seq (Grp 2 identifier_re) ?close) p2 h1)"
    using silent_then silent_rest(1) by blast
  then obtain p3 where "(p3, fst (snd m)) \<in> set (rmatch (Grp 2 identifier_re) p2 h1)"
    using then_silent silent_rest(3) by blast
  from identifier_group [OF one] identifier_group [OF this] show ?thesis
    by (auto simp: group_of_def is_identifier_def)
qed

lemma word_char_plain: "word_char c \<Longrightarrow> c \<noteq> CHR '';''"
  by (auto simp: word_char_def upper_ascii_code lower_ascii_code digit_char_code)

lemma repr_hex_plain: "n < 16 \<Longrightarrow> repr_hex n \<noteq> CHR '';''"
proof -
  assume "n < 16"
  moreover have "list_all (\<lambda>n. repr_hex n \<noteq> CHR '';'') [0..<16]" by code_simp
  ultimately show ?thesis by (auto simp: list_all_iff)
qed

lemma repr_char_plain: "c \<noteq> CHR '';'' \<Longrightarrow> quote \<noteq> CHR '';'' \<Longrightarrow> CHR '';'' \<notin> set (repr_char quote c)"
proof -
  have "(of_char c :: nat) div 16 < 16" using nat_of_char_less_256 [of c] by linarith
  then have "repr_hex (of_char c div 16) \<noteq> CHR '';''" "repr_hex (of_char c mod 16) \<noteq> CHR '';''"
    by (simp_all add: repr_hex_plain)
  then show "c \<noteq> CHR '';'' \<Longrightarrow> quote \<noteq> CHR '';'' \<Longrightarrow> CHR '';'' \<notin> set (repr_char quote c)"
    by (auto simp: repr_char_def)
qed

lemma py_repr_plain: "CHR '';'' \<notin> set s \<Longrightarrow> CHR '';'' \<notin> set (py_repr s)"
proof -
  assume s: "CHR '';'' \<notin> set s"
  have "CHR '';'' \<notin> set (concat (map (repr_char quote) s))" if "quote \<noteq> CHR '';''" for quote
  proof -
    have "CHR '';'' \<notin> set (repr_char quote x)" if "x \<in> set s" for x
      using s that \<open>quote \<noteq> CHR '';''\<close> by (intro repr_char_plain) auto
    then show ?thesis by simp
  qed
  then show ?thesis by (auto simp: py_repr_def Let_def)
qed

lemma join_plain:
  "c \<notin> set sep \<Longrightarrow> list_all (\<lambda>x. c \<notin> set x) xs \<Longrightarrow> c \<notin> set (join sep xs)"
  by (induction xs rule: induct_list012) auto

lemma or_unknown_plain: "list_all (\<lambda>x. CHR '';'' \<notin> set x) items \<Longrightarrow> CHR '';'' \<notin> set (or_unknown items)"
  using join_plain [of "CHR '';''" "'', ''" items] py_repr_plain [of "''?''"]
  by (auto simp: or_unknown_def repr_list_def)

lemma identifier_plain: "is_identifier t \<Longrightarrow> CHR '';'' \<notin> set t"
  using word_char_plain by (auto simp: is_identifier_def list_all_iff)

lemma claim_words_from:
  "claim_words roots imported found ws = Some out \<Longrightarrow> set out \<subseteq> set found \<union> set ws"
  by (induction roots imported found ws rule: claim_words.induct) (auto split: if_splits)

lemma claimed_name_identifier: "n \<in> set (claimed_names f imported) \<Longrightarrow> is_identifier n"
proof -
  assume "n \<in> set (claimed_names f imported)"
  then obtain roots out where "claim_words roots imported (findall1 NAME_IN_BACKTICKS (description f))
      (findall1 IMPORT_WORD (description f)) = Some out" "n \<in> set out"
    by (simp add: claimed_names_def Let_def split: option.splits) (metis (no_types))
  from claim_words_from [OF this(1)] this(2)
  have "n \<in> set (findall1 NAME_IN_BACKTICKS (description f)) \<union> set (findall1 IMPORT_WORD (description f))"
    by blast
  then show ?thesis using backtick_name import_word_name by (auto simp: findall1_def)
qed

lemma import_claim_plain: "CHR '';'' \<notin> set (import_claim d)"
  unfolding import_claim_def
  by (rule or_unknown_plain)
    (auto simp: list_all_iff dest!: claimed_name_identifier identifier_plain intro!: py_repr_plain)

lemma schema_claim_plain: "CHR '';'' \<notin> set (schema_claim d)"
  unfolding schema_claim_def
proof (rule or_unknown_plain)
  have "CHR '';'' \<notin> set (py_repr t) \<and> CHR '';'' \<notin> set (py_repr c)"
    if "(t, c) \<in> set (claimed_columns d)" for t c
    using that column_name identifier_plain py_repr_plain
    by (fastforce simp: claimed_columns_def split: if_splits)
  then show "list_all (\<lambda>x. CHR '';'' \<notin> set x) (map (\<lambda>(table, column).
      CHR ''('' # py_repr table @ '', '' @ py_repr column @ '')'') (claimed_columns d))"
    by (fastforce simp: list_all_iff)
qed

lemma syntax_claim_plain: "CHR '';'' \<notin> set (syntax_claim m)"
proof -
  have "\<not> digit_char CHR '';''" by (simp add: digit_char_code)
  then have "CHR '';'' \<notin> set (dec_int k)" for k
    using dec_digits by (auto simp: dec_int_def)
  then show ?thesis unfolding syntax_claim_def
    by (intro or_unknown_plain) (auto split: option.split intro!: py_repr_plain)
qed

text \<open>
  A notice tells the next read what was settled: for findings whose file and slug the grammar
  can carry, the label of each of the four notices reads back as exactly the dropped findings, in
  order, and the comparison with an earlier read then abstains on each of them as settled instead of
  calling it gone or carried.
\<close>
theorem notices_settle_what_was_dropped:
  assumes "dropped \<noteq> []" and "list_all plain_name dropped"
    and "settlement_notice dropped = Some r \<or> schema_settlement_notice dropped = Some r
      \<or> (ci_settlement_notice dropped ev = Some r
          \<and> list_all (\<lambda>d. list_all (\<lambda>j. CHR '';'' \<notin> set j) (jobs_for ev d)) dropped)
      \<or> syntax_settlement_notice toml_loads dropped resolve_file = Some (Some r)"
    and "f_rule row = r_rule r" and "f_label row = Some (r_label r)"
  shows "notice_segments (r_label r) = map (\<lambda>d. (rf_file d, removeprefix (category_slug d) ''reader:'')) dropped
    \<and> (\<forall>d \<in> set dropped.
         settled (normalize (removeprefix (category_slug d) ''reader:''), rf_file d) (row # rows))"
proof -
  have *: "\<exists>by_what claim. r_label r = notice_label by_what claim dropped \<and> CHR 0xE2 \<notin> set by_what
      \<and> list_all (\<lambda>d. CHR '';'' \<notin> set (claim d)) dropped \<and> r_rule r \<in> set SETTLEMENT_RULES"
    using assms(3)
  proof (elim disjE conjE)
    assume "settlement_notice dropped = Some r"
    then show ?thesis using assms(1) import_claim_plain
      by (intro exI [of _ "''runtime import at head''"] exI [of _ import_claim])
        (auto simp: settlement_notice_def notice_of_def plain_reason_def SETTLED_MISSING_IMPORT_def
          SETTLEMENT_RULES_def list_all_iff)
  next
    assume "schema_settlement_notice dropped = Some r"
    then show ?thesis using assms(1) schema_claim_plain
      by (intro exI [of _ "''the live schema''"] exI [of _ schema_claim])
        (auto simp: schema_settlement_notice_def notice_of_def plain_reason_def
          SETTLED_SCHEMA_DEPENDENCY_def SETTLEMENT_RULES_def list_all_iff)
  next
    assume "ci_settlement_notice dropped ev = Some r"
      and j: "list_all (\<lambda>d. list_all (\<lambda>j. CHR '';'' \<notin> set j) (jobs_for ev d)) dropped"
    moreover have "list_all (\<lambda>d. CHR '';'' \<notin> set (ci_claim ev d)) dropped"
      using j py_repr_plain by (auto simp: list_all_iff ci_claim_def intro!: or_unknown_plain)
    ultimately show ?thesis using assms(1)
      by (intro exI [of _ "''a green check at head''"] exI [of _ "ci_claim ev"])
        (auto simp: ci_settlement_notice_def notice_of_def plain_reason_def SETTLED_CI_GREEN_def
          SETTLEMENT_RULES_def)
  next
    assume "syntax_settlement_notice toml_loads dropped resolve_file = Some (Some r)"
    then show ?thesis using assms(1) syntax_claim_plain
      by (intro exI [of _ "''parsing the file at head''"] exI [of _ "\<lambda>d. syntax_claim
          (the (declared_python_minor toml_loads (rf_file d) resolve_file))"])
        (auto simp: syntax_settlement_notice_def notice_of_def plain_reason_def SETTLED_SYNTAX_ERROR_def
          SETTLEMENT_RULES_def list_all_iff split: if_splits)
  qed
  then obtain by_what claim where n: "r_label r = notice_label by_what claim dropped"
      "CHR 0xE2 \<notin> set by_what" "list_all (\<lambda>d. CHR '';'' \<notin> set (claim d)) dropped"
      and rule: "r_rule r \<in> set SETTLEMENT_RULES" by blast
  have seg: "notice_segments (r_label r) =
      map (\<lambda>d. (rf_file d, removeprefix (category_slug d) ''reader:'')) dropped"
    unfolding n(1) by (rule notice_label_segments [OF assms(2,1) n(3,2)])
  have "settled (normalize (removeprefix (category_slug d) ''reader:''), rf_file d) (row # rows)"
    if "d \<in> set dropped" for d
    using that rule assms(4,5) seg by (fastforce simp: settled_def list_ex_iff)
  with seg show ?thesis by blast
qed

definition stored_notice :: "reason \<Rightarrow> finding" where
  "stored_notice r = \<lparr>f_rule = r_rule r, f_label = Some (r_label r), f_path = None, f_hunks = None\<rparr>"

theorem notices_settle_what_was_dropped_witness:
  "settled (normalize ''missing-import'', ''a.py'') [stored_notice (the (settlement_notice [os_finding]))]"
proof -
  have "settlement_notice [os_finding] = Some (the (settlement_notice [os_finding]))"
    by (simp add: settlement_notice_def notice_of_def)
  moreover have "list_all plain_name [os_finding]" by code_simp
  ultimately show ?thesis
    using notices_settle_what_was_dropped [of "[os_finding]" "the (settlement_notice [os_finding])" None
        "\<lambda>_. None" "\<lambda>_. None" "stored_notice (the (settlement_notice [os_finding]))" "[]"]
    by (simp add: stored_notice_def os_finding_def demo_finding_def removeprefix_def startswith_def)
qed

end
