(* ===== verification/Check_Run.thy ===== *)
theory Check_Run
  imports Check_Run_Text Settle "HOL-Library.Product_Lexorder"
begin

text \<open>
  The check run, \<open>api/doug/check_run.py\<close>: the one summary Doug shows on a pull request. The
  formatting of floats, percentages and dates by the standard library is a parameter.
\<close>

subsection \<open>Inputs\<close>

record formats =
  fmt2 :: "rat \<Rightarrow> string"
  fmt_percent :: "nat \<Rightarrow> nat \<Rightarrow> string"
  fmt_date :: "instant \<Rightarrow> string"


record deviation =
  d_type :: string
  d_description :: string
  d_severity :: string

record intent_read =
  i_alignment :: int
  i_refs :: "string list"
  i_findings :: "deviation list"
  i_coverage :: coverage

record instrument =
  adjudicated :: nat
  pending :: nat
  as_of :: instant
  first_due :: "instant option"
  deep_reads :: "nat option"
  deep_read_cap :: nat

text \<open>What \<open>store.convergence_for\<close> hands over: an error line, or the prior head and the entries.\<close>

datatype comparison = Compare_Failed string | Compared "string option" "classification list"

subsection \<open>Standing text\<close>

definition DASH :: string where "DASH = [CHR 0xE2, CHR 0x80, CHR 0x94]"
definition DOT :: string where "DOT = [CHR '' '', CHR 0xC2, CHR 0xB7, CHR '' '']"

definition NEUTRAL_NOTE :: string where
  "NEUTRAL_NOTE = ''**Doug never blocks a merge.** This check is always neutral, whatever the band says.''"

definition RISK_NOTE :: string where
  "RISK_NOTE =
     ''**Risk is not a grade.** It prices what this change touches and how much of it, so a change of this shape earns the same look on every push. It does not go down as findings are fixed; the findings are the judgment.''"

definition FLAG_LINE_NOTE :: string where
  "FLAG_LINE_NOTE = ''**The flag line is per repository**, set on the Doug dashboard.''"

definition FALLBACK_BODY :: string where
  "FALLBACK_BODY =
     ''This band and score come from the deterministic scorer, which never opens the diff '' @ DASH @ '' it scores PR shape (size, paths, authorship) alone. Read it as routing, not as a judgment about this change.''"

definition FALLBACK_NOTE :: string where
  "FALLBACK_NOTE = ''**The validated diff-reader did not run.** '' @ FALLBACK_BODY"

definition FALLBACK_FLAGGED_NOTE :: string where
  "FALLBACK_FLAGGED_NOTE = ''**Needs you, but the validated diff-reader did not run.** '' @ FALLBACK_BODY"

definition CLEARED_NOTE :: string where
  "CLEARED_NOTE = ''Cleared means Doug found nothing it wanted a human to look at; it is not a statement that the change is safe.''"

definition NEEDS_YOU :: string where
  "NEEDS_YOU = ''**Needs you.** Risk is above this repository's flag line, so Doug is asking for a human read. It does not block: this check is neutral and the merge button is unchanged.''"

definition ALERT_IMPORTANT :: string where "ALERT_IMPORTANT = ''[!IMPORTANT]''"
definition ALERT_WARNING :: string where "ALERT_WARNING = ''[!WARNING]''"

definition DEVIATION_HEADING :: string where
  "DEVIATION_HEADING = ''### Decision deviations (unvalidated)''"

definition DEVIATION_NOTE :: string where
  "DEVIATION_NOTE = ''The instrument behind this section has not passed its derangement check (2026-07-31), so these are unvalidated observations. They do not contribute to the band or score above (ADR-0007).''"

definition SYNTAX_DEVIATION_CHIP :: string where
  "SYNTAX_DEVIATION_CHIP = ''_Doug's parser found no syntax error in the files this review flagged for one, listed under `settled-syntax-error` above_''"

definition SETTLED_NOTE :: string where
  "SETTLED_NOTE = ''The band is the risk score, not a remaining finding. Every finding the read produced was disproved at head or against the live schema.''"

definition CARRIED_NOTE :: string where
  "CARRIED_NOTE = ''This is the author's ruling, not verified by Doug.''"

definition SKIPPED_RULE :: string where "SKIPPED_RULE = ''rulings-skipped''"

text \<open>\<open>claims_broken_syntax\<close>: a phrase, not two words in one description.\<close>

definition BREAKS :: regex where
  "BREAKS = alts [lit_ci ''fatal'', lit_ci ''invalid'', seqs [lit_ci ''break'', opt (Alt (lit_ci ''s'') (lit_ci ''ing''))],
     seqs [lit_ci ''broke'', opt (lit_ci ''n'')], seqs [lit_ci ''crash'', opt (Alt (lit_ci ''es'') (lit_ci ''ing''))]]"

definition gap_words :: regex where
  "gap_words = seqs [up_to 12 (seqs [plus (Chars (\<lambda>c. \<not> word_char c)), plus (Chars word_char)]),
     plus (Chars (\<lambda>c. \<not> word_char c))]"

definition BROKEN_SYNTAX :: regex where
  "BROKEN_SYNTAX = alts
     [lit_ci ''syntaxerror'',
      seqs [WordB, lit_ci ''syntax'', plus wsp, lit_ci ''error'', opt (lit_ci ''s''), WordB],
      seqs [WordB, lit_ci ''syntax'', WordB, gap_words, BREAKS, WordB],
      seqs [WordB, BREAKS, WordB, gap_words, lit_ci ''syntax'', WordB]]"

definition claims_broken_syntax :: "string \<Rightarrow> bool" where
  "claims_broken_syntax desc = re_found BROKEN_SYNTAX desc"

subsection \<open>Header, footer, alert\<close>

definition footer_lines :: "formats \<Rightarrow> instrument \<Rightarrow> string list" where
  "footer_lines fmt ins =
     (let line = ''adjudicated '' @ dec (adjudicated ins) @ DOT @ ''pending '' @ dec (pending ins) @ DOT
                   @ ''as of '' @ fmt_date fmt (as_of ins);
          line' = (case first_due ins of
                     Some due \<Rightarrow> if adjudicated ins = 0
                       then line @ DOT @ ''first due '' @ fmt_date fmt due else line
                   | None \<Rightarrow> line)
      in [[], [], line'] @ (case deep_reads ins of None \<Rightarrow> []
           | Some n \<Rightarrow> [''deep reads '' @ dec n @ ''/'' @ dec (deep_read_cap ins) @ '' this cycle'']))"

definition band_name :: "band \<Rightarrow> string" where
  "band_name b = (case b of Cleared \<Rightarrow> ''Cleared'' | Flagged \<Rightarrow> ''Flagged'')"

definition headline :: "formats \<Rightarrow> string \<Rightarrow> verdict \<Rightarrow> string" where
  "headline fmt tier v =
     (if tier = ''reader'' then band_name (v_band v) @ DOT @ ''risk '' @ fmt2 fmt (v_score v) @ DOT @ ''diff read''
      else ''Deterministic fallback'' @ DOT @ band_name (v_band v) @ DOT @ ''risk '' @ fmt2 fmt (v_score v))"

definition fold_block :: "string \<Rightarrow> string list \<Rightarrow> string list" where
  "fold_block summary body =
     [[], ''<details>'', ''<summary>'' @ summary @ ''</summary>'', []] @ body @ [[], ''</details>'']"

definition quote_lines :: "string \<Rightarrow> string list" where
  "quote_lines label = [[], ''> '' @ oneline label]"

definition alert_block :: "string \<Rightarrow> string \<Rightarrow> string list" where
  "alert_block k body = [[], ''> '' @ k, ''> '' @ body]"

definition alert :: "string \<Rightarrow> verdict \<Rightarrow> (string \<times> string) option \<Rightarrow> string list" where
  "alert tier v partial =
     (let flagged = v_band v = Flagged in
      if tier \<noteq> ''reader'' then alert_block ALERT_WARNING (if flagged then FALLBACK_FLAGGED_NOTE else FALLBACK_NOTE)
      else case partial of
        Some (_, label) \<Rightarrow> alert_block ALERT_WARNING ((if flagged then ''**Needs you.** '' else []) @ oneline label)
      | None \<Rightarrow> if flagged then alert_block ALERT_IMPORTANT NEEDS_YOU else [])"

subsection \<open>Grading and order\<close>

definition SEVERITY_ORDER :: "string list" where
  "SEVERITY_ORDER = [''high'', ''medium'', ''low'']"

definition grade :: "reason \<Rightarrow> string" where
  "grade r = lower (strip (case r_severity r of None \<Rightarrow> [] | Some s \<Rightarrow> s))"

definition outside :: "reason \<Rightarrow> string option" where
  "outside r =
     (case r_evidence r of
        Some Outside_Read \<Rightarrow> Some ''_cites code Doug did not read_''
      | Some Partial_Read \<Rightarrow> Some ''_cites a file Doug read only in part_''
      | _ \<Rightarrow> None)"

definition severity_rank :: "string \<Rightarrow> nat" where
  "severity_rank g = (if g = ''high'' then 0 else if g = ''medium'' then 1 else if g = ''low'' then 2 else 3)"

definition by_severity :: "reason list \<Rightarrow> reason list" where
  "by_severity risks = sort_key (\<lambda>r. (severity_rank (grade r), outside r \<noteq> None)) risks"

definition triage :: "reason list \<Rightarrow> reason list \<times> reason list" where
  "triage risks =
     (if \<not> list_ex (\<lambda>r. grade r \<in> set SEVERITY_ORDER) risks then (risks, [])
      else let leading = filter (\<lambda>r. grade r \<noteq> ''low'') risks in
        if leading = [] then (risks, []) else (leading, filter (\<lambda>r. grade r = ''low'') risks))"

definition SEVERITY_LABEL_LIMIT :: nat where "SEVERITY_LABEL_LIMIT = 24"

definition severity_chip :: "string \<Rightarrow> string option \<Rightarrow> string" where
  "severity_chip g raw =
     (if g \<in> set SEVERITY_ORDER then ''**'' @ g @ ''**''
      else cp_take SEVERITY_LABEL_LIMIT (oneline (case raw of None \<Rightarrow> [] | Some s \<Rightarrow> s)))"

subsection \<open>Carried findings\<close>

datatype carry_state = Carried | Raised_Again | Basis_Changed

record carry_decision =
  k_state :: carry_state
  k_read :: string
  k_verdict :: string
  k_reason :: string
  k_ref :: json

definition hex_char :: "char \<Rightarrow> bool" where
  "hex_char c \<longleftrightarrow> digit_char c \<or> c \<in> set ''abcdef''"

text \<open>\<open>_SHA_RE.match\<close>; the dollar sign also matches before a final line feed.\<close>

definition sha_like :: "string \<Rightarrow> bool" where
  "sha_like s \<longleftrightarrow> 40 \<le> length s \<and> list_all hex_char (take 40 s) \<and> (drop 40 s = [] \<or> drop 40 s = nl)"

definition carry_state_of :: "json \<Rightarrow> carry_state option" where
  "carry_state_of j =
     (if j = JStr ''carried'' then Some Carried
      else if j = JStr ''raised-again'' then Some Raised_Again
      else if j = JStr ''basis-changed'' then Some Basis_Changed else None)"

definition carry_of :: "reason \<Rightarrow> carry_decision option" where
  "carry_of r =
     (case r_carry r of
        JObj c \<Rightarrow>
          (case (jget c ''read'', jget c ''verdict'', jget c ''reason'', carry_state_of (jget c ''state'')) of
             (JStr read, JStr ruled, JStr why, Some st) \<Rightarrow>
               if sha_like read \<and> ruled \<in> {''real'', ''disproved'', ''adjacent''} \<and> strip why \<noteq> []
               then Some \<lparr>k_state = st, k_read = read, k_verdict = ruled, k_reason = why, k_ref = jget c ''ref''\<rparr>
               else None
           | _ \<Rightarrow> None)
      | _ \<Rightarrow> None)"

definition is_carried :: "reason \<Rightarrow> bool" where
  "is_carried r = (case carry_of r of None \<Rightarrow> False | Some c \<Rightarrow> k_state c = Carried)"

definition carry_chip :: "reason \<Rightarrow> string option" where
  "carry_chip r =
     (case carry_of r of None \<Rightarrow> None
      | Some c \<Rightarrow>
          (case k_state c of
             Carried \<Rightarrow> None
           | Raised_Again \<Rightarrow> Some (''_raised again after the author's fix at `'' @ cp_take 12 (k_read c) @ ''`_'')
           | Basis_Changed \<Rightarrow> Some (''_the author ruled on this at `'' @ cp_take 12 (k_read c)
                                  @ ''`; the code it rested on has changed_'')))"

definition bullet :: "source option \<Rightarrow> reason \<Rightarrow> string" where
  "bullet src r =
     (let parts =
        (if grade r \<noteq> [] then [severity_chip (grade r) (r_severity r)] else [])
        @ (case file_link (r_file r) src of
             Some link \<Rightarrow> [link]
           | None \<Rightarrow> (case r_file r of None \<Rightarrow> [] | Some p \<Rightarrow> if p = [] then [] else [''`'' @ path_span p @ ''`'']))
        @ [''`'' @ rule_span (r_rule r) @ ''`'']
        @ (case outside r of None \<Rightarrow> [] | Some chip \<Rightarrow> [chip])
        @ (case carry_chip r of None \<Rightarrow> [] | Some chip \<Rightarrow> [chip])
      in ''- '' @ join DOT parts @ '' '' @ DASH @ '' '' @ oneline (r_label r))"

definition carried_lines :: "source option \<Rightarrow> reason \<Rightarrow> string list" where
  "carried_lines src r =
     (case carry_of r of None \<Rightarrow> [bullet src r]
      | Some c \<Rightarrow>
          let held = (case k_ref c of JStr ref \<Rightarrow> if strip ref = [] then [] else '' ('' @ oneline ref @ '')''
                      | _ \<Rightarrow> [])
          in [bullet src r,
              ''  Settled on read `'' @ cp_take 12 (k_read c) @ ''` as **'' @ k_verdict c @ ''**: ''
                @ oneline (k_reason c) @ held @ ''. '' @ CARRIED_NOTE])"

subsection \<open>Counts\<close>

definition countable :: "reason \<Rightarrow> bool" where
  "countable r \<longleftrightarrow> r_rule r \<notin> set SETTLED_REASON_CODES"

definition finding_counts :: "reason list \<Rightarrow> string" where
  "finding_counts risks =
     (let cs = filter countable risks; graded = map grade cs in
      if cs = [] then ''none''
      else if list_all (\<lambda>g. g \<in> set SEVERITY_ORDER) graded
      then join DOT (map (\<lambda>s. dec (count_list graded s) @ '' '' @ s) (filter (\<lambda>s. s \<in> set graded) SEVERITY_ORDER))
      else if length cs = 1 then ''1 finding'' else dec (length cs) @ '' findings'')"

definition findings_cell :: "reason list \<Rightarrow> reason list \<Rightarrow> string" where
  "findings_cell risks carried =
     (let cell = finding_counts risks; n = dec (length carried) @ '' carried'' in
      if carried = [] then cell else if cell = ''none'' then n else cell @ DOT @ n)"

definition read_cell :: "string \<Rightarrow> string" where
  "read_cell tier = (if tier = ''reader'' then ''validated diff reader'' else ''none '' @ DASH @ '' scorer only'')"

subsection \<open>Since the previous read\<close>

definition SINCE_HEADING_FALLBACK :: string where
  "SINCE_HEADING_FALLBACK = ''### Since the previous read''"

definition unknown_sentence :: "string \<Rightarrow> unknown_reason option \<Rightarrow> string" where
  "unknown_sentence label why =
     (case why of
        Some Edited_Not_Verified \<Rightarrow> ''the cited code changed since '' @ label
          @ '' and this read did not report it again; Doug has not verified a fix, so it stays listed.''
      | Some Not_Reconfirmed \<Rightarrow> ''part of the cited file's diff changed since '' @ label
          @ ''; this read did not confirm or clear it, and Doug has no usable attribution for it.''
      | Some No_Hunk_Index \<Rightarrow> ''Doug has no hunk record for one of the two reads, so it cannot compare.''
      | Some File_Uncovered \<Rightarrow> ''Doug did not read this file in one of the two reads (cut or unseen).''
      | Some Left_Diff \<Rightarrow> ''no longer in this PR's diff (reverted, renamed, or landed another way); Doug cannot tell which.''
      | Some Settled \<Rightarrow> ''Doug's own deterministic check disproved this finding at this head; not counted as your progress.''
      | Some Identity_Incomplete \<Rightarrow> ''no file recorded for this finding, so Doug cannot compare it.''
      | None \<Rightarrow> ''this read could not confirm or clear it.'')"

definition since_line :: "classification \<Rightarrow> string \<Rightarrow> string" where
  "since_line c sentence =
     (let path = oneline (case f_path (c_finding c) of None \<Rightarrow> ''(no file)''
                          | Some p \<Rightarrow> if p = [] then ''(no file)'' else p)
      in ''- `'' @ rule_span (f_rule (c_finding c)) @ ''`'' @ DOT @ path @ '' '' @ DASH @ '' '' @ sentence)"

text \<open>The row sets the section is built from.\<close>

definition prior_rows_of :: "classification list \<Rightarrow> classification list" where
  "prior_rows_of rows = filter (\<lambda>c. c_side c = Prior) rows"

definition persisted_of :: "classification list \<Rightarrow> classification list" where
  "persisted_of rows = filter (\<lambda>c. c_state c = Persisted) (prior_rows_of rows)"

definition silent_of :: "classification list \<Rightarrow> classification list" where
  "silent_of rows = filter (\<lambda>c. c_basis c = Some By_Construction) (persisted_of rows)"

definition attributed_of :: "classification list \<Rightarrow> classification list" where
  "attributed_of rows = filter (\<lambda>c. c_basis c = Some Attributed_Surviving) (persisted_of rows)"

definition unknown_of :: "classification list \<Rightarrow> classification list" where
  "unknown_of rows = filter (\<lambda>c. c_state c = Unknown) (prior_rows_of rows)"

definition new_unchanged_of :: "classification list \<Rightarrow> classification list" where
  "new_unchanged_of rows =
     filter (\<lambda>c. c_side c = Later \<and> c_state c = New \<and> c_changed c = Some False) rows"

definition since_denominator :: "classification list \<Rightarrow> nat" where
  "since_denominator rows =
     length (silent_of rows)
     + length (filter (\<lambda>c. c_basis c = None \<and> c_changed c = Some False) (persisted_of rows))"

definition since_headline :: "string \<Rightarrow> classification list \<Rightarrow> string" where
  "since_headline label rows =
     (let silent = length (silent_of rows); n = since_denominator rows in
      if n = 0 then ''No earlier findings on files unchanged since '' @ label @ ''.''
      else ''Of '' @ dec n @ '' earlier '' @ (if n = 1 then ''finding'' else ''findings'')
        @ '' on files unchanged since '' @ label @ '', '' @ dec silent @ '' ''
        @ (if silent = 1 then ''was'' else ''were'') @ '' not mentioned by this read.'')"

definition since_section :: "comparison option \<Rightarrow> string list" where
  "since_section convergence =
     (case convergence of None \<Rightarrow> []
      | Some (Compare_Failed e) \<Rightarrow>
          [[], SINCE_HEADING_FALLBACK, [],
           ''Doug could not compare with its last diff read; storage did not answer ('' @ oneline e @ '').'']
      | Some (Compared sha rows) \<Rightarrow>
          let named = (case sha of None \<Rightarrow> False | Some s \<Rightarrow> s \<noteq> []);
              label = (if named then ''`'' @ cp_take 12 (oneline (the sha)) @ ''`'' else ''the previous read'');
              carried = silent_of rows; attributed = attributed_of rows;
              unknowns = unknown_of rows; fresh = new_unchanged_of rows
          in [[], if named then ''### Since '' @ label else SINCE_HEADING_FALLBACK, [], since_headline label rows, [],
              ''Compared with Doug's last diff read at '' @ label @ ''. This section grades Doug's own reader, not your change; the reader's silence is not evidence. Advisory, like everything on this surface: it enters no score and blocks nothing.'']
            @ (if carried = [] \<and> attributed = [] then []
               else [[], ''**Still here**'', []]
                 @ map (\<lambda>c. since_line c
                     (''cited file's diff is byte-unchanged since '' @ label @
                      (if c_delta c = Some Changed_Elsewhere
                       then ''; other code in this PR changed. Carried forward, not re-verified. If you addressed it elsewhere, a human should look.''
                       else ''; carried forward, not re-verified.''))) carried
                 @ map (\<lambda>c. since_line c
                     (''the hunks this finding was attributed to are unchanged since '' @ label
                      @ ''; other parts of the file changed. Carried forward, not re-verified.'')) attributed)
            @ (if unknowns = [] then []
               else [[], ''**Can't say**'', []] @ map (\<lambda>c. since_line c (unknown_sentence label (c_reason c))) unknowns)
            @ (if fresh = [] then []
               else [[], ''**New on files unchanged since '' @ label @ '' ('' @ dec (length fresh) @ '')** '' @ DASH
                       @ '' this read reported findings on files whose diff did not change; the earlier read did not.'', []]
                 @ map (\<lambda>c. since_line c ''new this read.'') fresh))"

subsection \<open>The whole summary\<close>

definition HOW_TO_READ_SUMMARY :: string where "HOW_TO_READ_SUMMARY = ''How to read this''"

text \<open>The three populations of \<open>render\<close>: fresh findings, carried ones, and the skip notices.\<close>

definition surfaced :: "verdict \<Rightarrow> (string \<times> string) option \<Rightarrow> reason list" where
  "surfaced v partial =
     filter (\<lambda>r. partial = None \<or> r_rule r \<noteq> ''read-truncated'') (v_reasons v)"

definition carried_of :: "reason list \<Rightarrow> reason list" where
  "carried_of rs = filter is_carried rs"

definition notices_of :: "reason list \<Rightarrow> reason list" where
  "notices_of rs = filter (\<lambda>r. r_rule r = SKIPPED_RULE) rs"

definition fresh_of :: "reason list \<Rightarrow> reason list" where
  "fresh_of rs = filter (\<lambda>r. \<not> is_carried r \<and> r_rule r \<noteq> SKIPPED_RULE) rs"

definition findings_section :: "source option \<Rightarrow> reason list \<Rightarrow> reason list \<Rightarrow> string list" where
  "findings_section src risks carried =
     (if risks \<noteq> [] then
        (case triage (by_severity risks) of (leading, folded) \<Rightarrow>
           map (bullet src) leading
           @ (if folded = [] then []
              else fold_block (dec (length folded) @ '' low finding'' @ (if length folded = 1 then [] else ''s''))
                     (map (bullet src) folded)))
      else if carried = [] then [''- none''] else [])
     @ (if carried = [] then []
        else fold_block (dec (length carried) @ '' finding'' @ (if length carried = 1 then [] else ''s'')
                           @ '' the author already ruled on'')
               (concat (map (carried_lines src) (by_severity carried))))"

definition counted_bullets :: "source option \<Rightarrow> reason list \<Rightarrow> reason list \<Rightarrow> string list" where
  "counted_bullets src risks carried =
     (case triage (by_severity risks) of (leading, folded) \<Rightarrow>
        map (bullet src) (filter countable leading) @ map (bullet src) (filter countable folded))
     @ map (bullet src) (by_severity carried)"

definition intent_section :: "formats \<Rightarrow> verdict \<Rightarrow> (string \<times> string) option \<Rightarrow> intent_read \<Rightarrow> string list" where
  "intent_section fmt v partial ir =
     (let intent_partial = truncation_reason (fmt_percent fmt) (i_coverage ir) in
      [[], DEVIATION_HEADING, [], DEVIATION_NOTE]
      @ (case intent_partial of None \<Rightarrow> []
         | Some (_, label) \<Rightarrow> if partial = None \<or> map_option snd partial \<noteq> Some label then quote_lines label else [])
      @ [[]]
      @ (if i_findings ir \<noteq> [] then
           map (\<lambda>d. ''- `'' @ rule_span (d_type d) @ ''` '' @ DASH @ '' '' @ oneline (d_description d)
                   @ '' _('' @ oneline (d_severity d) @ '')_''
                   @ (if list_ex (\<lambda>r. r_rule r = SETTLED_SYNTAX_ERROR) (v_reasons v)
                        \<and> claims_broken_syntax (d_description d)
                      then DOT @ SYNTAX_DEVIATION_CHIP else [])) (i_findings ir)
         else [''- none (alignment '' @ dec_int (i_alignment ir) @ ''/100)''])
      @ [[], ''Judged against: ''
           @ (let joined = oneline (join '', '' (i_refs ir)) in if joined = [] then ''no records'' else joined) @ ''.''])"

definition body_lines ::
  "formats \<Rightarrow> string \<Rightarrow> verdict \<Rightarrow> intent_read option \<Rightarrow> coverage option \<Rightarrow> comparison option
   \<Rightarrow> source option \<Rightarrow> string list" where
  "body_lines fmt tier v intent cov convergence src =
     (let partial = (case cov of None \<Rightarrow> None | Some c \<Rightarrow> truncation_reason (fmt_percent fmt) c);
          rs = surfaced v partial;
          carried = carried_of rs; notices = notices_of rs; risks = fresh_of rs;
          only_settled = (partial = None \<and> risks \<noteq> []
            \<and> list_all (\<lambda>r. r_rule r \<in> set SETTLED_REASON_CODES) risks \<and> carried = [])
      in [''**'' @ headline fmt tier v @ ''**'', [], ''| Risk | Flag line | Read | Findings |'', ''|:--|:--|:--|:--|'',
          ''| **'' @ fmt2 fmt (v_score v) @ ''** | '' @ fmt2 fmt (v_threshold v) @ '' | '' @ read_cell tier @ '' | ''
            @ findings_cell risks carried @ '' |'']
         @ alert tier v partial
         @ (if v_band v = Cleared then [[], ''> '' @ CLEARED_NOTE] else [])
         @ [[], ''### Findings'', []]
         @ (if only_settled \<and> v_band v = Flagged then [SETTLED_NOTE, []] else [])
         @ findings_section src risks carried
         @ concat (map (\<lambda>n. quote_lines (r_label n)) notices)
         @ (case intent of None \<Rightarrow> [] | Some ir \<Rightarrow> intent_section fmt v partial ir)
         @ since_section convergence
         @ fold_block HOW_TO_READ_SUMMARY [''- '' @ RISK_NOTE, ''- '' @ NEUTRAL_NOTE, ''- '' @ FLAG_LINE_NOTE])"

definition render ::
  "formats \<Rightarrow> string \<Rightarrow> verdict \<Rightarrow> intent_read option \<Rightarrow> coverage option \<Rightarrow> instrument option
   \<Rightarrow> comparison option \<Rightarrow> source option \<Rightarrow> string \<times> string" where
  "render fmt tier v intent cov ins convergence src =
     (let partial = (case cov of None \<Rightarrow> None | Some c \<Rightarrow> truncation_reason (fmt_percent fmt) c);
          rs = surfaced v partial;
          foot = (case ins of None \<Rightarrow> [] | Some i \<Rightarrow> join nl (footer_lines fmt i));
          body = join nl (body_lines fmt tier v intent cov convergence src)
      in (cp_take TITLE_LIMIT (headline fmt tier v),
          limit_summary body foot (counted_bullets src (fresh_of rs) (carried_of rs))))"

subsection \<open>No disclosure but the module's own\<close>

text \<open>No place where an opening \<open>details\<close> tag could start.\<close>

abbreviation is_d :: "char \<Rightarrow> bool" where "is_d \<equiv> (\<lambda>c. c = CHR ''d'')"

definition no_open :: "string \<Rightarrow> bool" where
  "no_open s \<longleftrightarrow> \<not> live_at (CHR ''<'') (next_is is_d) s"

named_theorems quiet \<open>texts without an opening tag\<close>

lemma no_open_Nil [quiet]: "no_open []"
  and no_open_Cons [quiet]: "no_open (c # s) \<longleftrightarrow> \<not> (c = CHR ''<'' \<and> next_is is_d s) \<and> no_open s"
  by (auto simp: no_open_def)

lemma next_is_append: "next_is P (a @ b) = (if a = [] then next_is P b else next_is P a)"
  by (cases a) simp_all

lemma no_open_sep [quiet]: "c \<noteq> CHR ''d'' \<Longrightarrow> no_open (a @ c # s) \<longleftrightarrow> no_open a \<and> no_open (c # s)"
  by (induction a) (auto simp: no_open_Cons no_open_Nil next_is_append)

lemma no_open_append: "no_open a \<Longrightarrow> no_open b \<Longrightarrow> \<not> next_is is_d b \<Longrightarrow> no_open (a @ b)"
  by (cases b) (auto simp: no_open_sep)

lemma no_open_prefix: "no_open (a @ b) \<Longrightarrow> no_open a"
  by (induction a) (auto simp: no_open_Cons no_open_Nil next_is_append split: if_splits)

lemma no_open_take [quiet]: "no_open s \<Longrightarrow> no_open (cp_take n s)"
  using no_open_prefix [of "cp_take n s" "cp_drop n s"] by (simp add: cp_take_drop)

lemma no_open_plain: "CHR ''<'' \<notin> set s \<Longrightarrow> no_open s"
  by (induction s) (auto simp: no_open_Cons no_open_Nil)

lemma no_open_oneline [quiet]: "no_open (oneline t)"
proof -
  have "live_at p (next_is P) s \<Longrightarrow> (\<And>c. P c \<Longrightarrow> Q c) \<Longrightarrow> live_at p (next_is Q) s" for p P Q s
  proof (induction s)
    case (Cons c s)
    then show ?case by (cases s) auto
  qed simp
  from this [of "CHR ''<''" is_d "oneline t" tag_start] oneline_inert [of t] show ?thesis
    by (auto simp: no_open_def inert_def tag_start_def lower_ascii_def)
qed

lemma no_open_span [quiet]: "no_open (rule_span r)" "no_open (path_span p)"
  by (simp_all add: rule_span_def path_span_def no_open_oneline)

lemma no_open_dec [quiet]: "no_open (dec n)"
proof (rule no_open_plain, rule notI)
  assume "CHR ''<'' \<in> set (dec n)"
  from dec_digits [OF this] show False by (simp add: digit_char_def)
qed

lemma no_open_dec_int [quiet]: "no_open (dec_int i)"
  by (simp add: dec_int_def quiet)

lemma no_open_join [quiet]: "list_all no_open xs \<Longrightarrow> no_open (join DOT xs)"
proof (induction xs)
  case (Cons x xs)
  then show ?case by (cases xs) (simp_all add: DOT_def quiet)
qed (simp add: quiet)

lemma live_occurrence: "no_open s \<Longrightarrow> str_partition s ''<details>'' = (s, False, [])"
proof (induction s)
  case (Cons c s)
  then have "\<not> startswith (c # s) ''<details>''"
    by (cases s) (auto simp: no_open_Cons startswith_def)
  moreover have "no_open s" using Cons.prems by (simp add: no_open_Cons)
  ultimately show ?case using Cons.IH by simp
qed simp

lemma no_open_count: "no_open s \<Longrightarrow> count_sub s ''<details>'' = 0"
  by (simp add: count_sub_def split_on.simps [of "''<details>''" s] live_occurrence)

text \<open>Occurrences do not straddle a character the text sought does not have.\<close>

lemma startswith_across:
  "c \<notin> set sub \<Longrightarrow> sub \<noteq> [] \<Longrightarrow> startswith (a @ c # b) sub \<longleftrightarrow> startswith a sub"
proof
  assume sub: "c \<notin> set sub"
  assume "startswith (a @ c # b) sub"
  then have s: "take (length sub) (a @ c # b) = sub" by (simp add: startswith_def)
  have "length sub \<le> length a"
  proof (rule ccontr)
    assume "\<not> length sub \<le> length a"
    then obtain k where "length sub - length a = Suc k" by (cases "length sub - length a") auto
    with s have "c \<in> set sub" by (metis Un_iff list.set_intros(1) set_append take_Suc_Cons take_append)
    with sub show False by simp
  qed
  with s show "startswith a sub" by (simp add: startswith_def)
next
  assume "startswith a sub"
  then obtain t where "a = sub @ t" by (auto simp: startswith_prefix)
  then show "startswith (a @ c # b) sub" by simp
qed

lemma partition_skip:
  assumes "sub \<noteq> []" and "c \<notin> set sub" and "str_partition a sub = (a, False, [])"
  shows "str_partition (a @ c # b) sub = (case str_partition b sub of (u, g, v) \<Rightarrow> (a @ c # u, g, v))"
  using assms(3)
proof (induction a)
  case Nil
  have "\<not> startswith (c # b) sub" using startswith_across [OF assms(2,1), of "[]" b] assms(1)
    by (simp add: startswith_def)
  then show ?case by (simp split: prod.split)
next
  case (Cons d a)
  then have no: "\<not> startswith (d # a) sub" using assms(1) by (auto split: if_splits)
  with Cons.prems have "str_partition a sub = (a, False, [])" by (auto split: prod.splits)
  note ih = Cons.IH [OF this]
  have "\<not> startswith (d # a @ c # b) sub"
    using startswith_across [OF assms(2,1), of "d # a" b] no by simp
  then show ?case by (simp add: ih split: prod.split)
qed

lemma split_across:
  assumes "sub \<noteq> []" and "c \<notin> set sub"
  shows "length (split_on sub (a @ c # b)) + 1 = length (split_on sub a) + length (split_on sub b)"
proof (induction a rule: length_induct)
  case (1 a)
  obtain x f y where p: "str_partition a sub = (x, f, y)" by (cases "str_partition a sub") auto
  show ?case
  proof (cases f)
    case True
    with p have p': "str_partition a sub = (x, True, y)" by simp
    have "length y < length a" by (rule str_partition_shorter [OF p' assms(1)])
    with 1 have ih: "length (split_on sub (y @ c # b)) + 1 = length (split_on sub y) + length (split_on sub b)"
      by simp
    have "split_on sub (a @ c # b) = x # split_on sub (y @ c # b)"
      using partition_prefix [OF p', of "c # b"] assms(1) by (subst split_on.simps) simp
    moreover have "split_on sub a = x # split_on sub y"
      using p' assms(1) by (subst split_on.simps) simp
    ultimately show ?thesis using ih by simp
  next
    case False
    with p have none: "str_partition a sub = (a, False, [])"
      using str_partition_missing [of a sub x y] by auto
    have over: "str_partition (a @ c # b) sub = (case str_partition b sub of (u, g, v) \<Rightarrow> (a @ c # u, g, v))"
      using none by (rule partition_skip [OF assms])
    have one: "split_on sub a = [a]" using none assms(1) by (subst split_on.simps) simp
    obtain u g v where b: "str_partition b sub = (u, g, v)" by (cases "str_partition b sub") auto
    have "length (split_on sub (a @ c # b)) = length (split_on sub b)"
      using over b assms(1) by (subst (1 2) split_on.simps) simp
    with one show ?thesis by simp
  qed
qed

lemma count_across: "count_sub (a @ CHR 0x0A # b) ''<details>'' = count_sub a ''<details>'' + count_sub b ''<details>''"
proof -
  have "0 < length (split_on ''<details>'' a)" "0 < length (split_on ''<details>'' b)"
    using split_on_ne by blast+
  moreover have "length (split_on ''<details>'' (a @ CHR 0x0A # b)) + 1 =
    length (split_on ''<details>'' a) + length (split_on ''<details>'' b)"
    by (rule split_across) simp_all
  ultimately show ?thesis unfolding count_sub_def by arith
qed

definition calm :: "string \<Rightarrow> bool" where
  "calm l \<longleftrightarrow> l = ''<details>'' \<or> no_open l"

definition opens :: "string list \<Rightarrow> nat" where
  "opens ls = length (filter (\<lambda>l. \<not> no_open l) ls)"

lemma opens_simps [simp]: "opens [] = 0" "opens (xs @ ys) = opens xs + opens ys"
  "opens (x # xs) = (if no_open x then 0 else 1) + opens xs"
  by (simp_all add: opens_def)

lemma opens_none: "list_all no_open ls \<Longrightarrow> opens ls = 0"
  by (induction ls) simp_all

lemma calm_none: "list_all no_open ls \<Longrightarrow> list_all calm ls"
  by (simp add: list_all_iff calm_def)

lemma details_open: "\<not> no_open ''<details>''" "count_sub ''<details>'' ''<details>'' = 1"
  by code_simp+

lemma count_lines: "list_all calm ls \<Longrightarrow> count_sub (join nl ls) ''<details>'' = opens ls"
proof (induction ls)
  case Nil
  then show ?case by (simp add: no_open_count quiet)
next
  case (Cons l ls)
  have one: "count_sub l ''<details>'' = (if no_open l then 0 else 1)"
    using Cons.prems details_open no_open_count by (auto simp: calm_def)
  show ?case
  proof (cases ls)
    case Nil
    with one show ?thesis by simp
  next
    case (Cons m ms)
    then have "join nl (l # ls) = l @ CHR 0x0A # join nl ls" by simp
    with Cons.IH Cons.prems one show ?thesis by (simp add: count_across)
  qed
qed

text \<open>Formats and a source whose texts hold no angle bracket.\<close>

definition plain :: "string \<Rightarrow> bool" where
  "plain s \<longleftrightarrow> CHR ''<'' \<notin> set s"

definition plain_formats :: "formats \<Rightarrow> bool" where
  "plain_formats fmt \<longleftrightarrow>
     (\<forall>x. plain (fmt2 fmt x)) \<and> (\<forall>x y. plain (fmt_percent fmt x y)) \<and> (\<forall>d. plain (fmt_date fmt d))"

definition plain_source :: "source option \<Rightarrow> bool" where
  "plain_source src = (case src of None \<Rightarrow> True
     | Some s \<Rightarrow> plain (src_owner s) \<and> plain (src_repo s) \<and> plain (src_head s))"

lemma no_open_of_plain: "plain s \<Longrightarrow> no_open s"
  by (simp add: plain_def no_open_plain)

lemma no_open_quote [quiet]: "no_open (url_quote ''/'' p)"
proof (rule no_open_plain)
  have hex: "hex_digit n \<noteq> CHR ''<''" if "n < 16" for n
  proof
    assume "hex_digit n = CHR ''<''"
    then have "(of_char (hex_digit n) :: nat) = 60" by simp
    with that show False by (auto simp: hex_digit_def split: if_splits)
  qed
  have "CHR ''<'' \<notin> set (quote_char ''/'' c)" for c
  proof -
    have "(of_char c :: nat) < 256" by simp
    then have "(of_char c :: nat) div 16 < 16" by (simp add: less_mult_imp_div_less)
    with hex [of "(of_char c :: nat) div 16"] hex [of "(of_char c :: nat) mod 16"] show ?thesis
      by (auto simp: quote_char_def unreserved_def word_char_def upper_ascii_def lower_ascii_def digit_char_def)
  qed
  then show "CHR ''<'' \<notin> set (url_quote ''/'' p)" by (auto simp: url_quote_def)
qed

lemma no_open_link: "plain_source src \<Longrightarrow> file_link p src = Some l \<Longrightarrow> no_open l"
  by (auto simp: file_link_def plain_source_def quiet no_open_of_plain split: option.splits if_splits)

lemma carry_fields:
  assumes "carry_of r = Some c"
  shows "no_open (k_verdict c)" and "sha_like (k_read c)"
  using assms
  by (auto simp: carry_of_def quiet split: json.splits option.splits if_splits)

lemma no_open_sha: "sha_like s \<Longrightarrow> no_open (cp_take 12 s)"
proof (intro no_open_take no_open_plain notI)
  assume s: "sha_like s" and "CHR ''<'' \<in> set s"
  then have "CHR ''<'' \<in> set (take 40 s) \<or> CHR ''<'' \<in> set (drop 40 s)"
    by (metis Un_iff append_take_drop_id set_append)
  with s show False by (auto simp: sha_like_def list_all_iff hex_char_def digit_char_def)
qed

lemma no_open_chips [quiet]:
  "outside r = Some chip \<Longrightarrow> no_open chip" "carry_chip r = Some chip' \<Longrightarrow> no_open chip'"
  using carry_fields [of r] no_open_sha
  by (auto simp: outside_def carry_chip_def quiet split: option.splits evidence_class.splits carry_state.splits)

lemma no_open_severity [quiet]: "no_open (severity_chip g raw)"
  by (auto simp: severity_chip_def SEVERITY_ORDER_def quiet)

lemma no_open_bullet: "plain_source src \<Longrightarrow> no_open (bullet src r)"
  using no_open_link [of src "r_file r"]
  by (auto simp: bullet_def Let_def DASH_def quiet split: option.splits)

lemma no_open_carried: "plain_source src \<Longrightarrow> list_all no_open (carried_lines src r)"
  using no_open_bullet [of src r] carry_fields [of r] no_open_sha
  by (auto simp: carried_lines_def Let_def CARRIED_NOTE_def quiet split: option.splits json.splits)

subsection \<open>Sections without an opening tag\<close>

lemmas section_defs = DASH_def DOT_def SINCE_HEADING_FALLBACK_def CLEARED_NOTE_def NEEDS_YOU_def
  ALERT_IMPORTANT_def ALERT_WARNING_def FALLBACK_NOTE_def FALLBACK_FLAGGED_NOTE_def FALLBACK_BODY_def
  DEVIATION_HEADING_def DEVIATION_NOTE_def SYNTAX_DEVIATION_CHIP_def SETTLED_NOTE_def RISK_NOTE_def
  NEUTRAL_NOTE_def FLAG_LINE_NOTE_def HOW_TO_READ_SUMMARY_def

lemma no_open_alert: "list_all no_open (alert tier v partial)"
  by (auto simp: alert_def alert_block_def Let_def section_defs quiet split: option.splits)

lemma no_open_quote_lines: "list_all no_open (quote_lines l)"
  by (simp add: quote_lines_def quiet)

lemma no_open_since_line: "no_open sentence \<Longrightarrow> no_open (since_line c sentence)"
  by (simp add: since_line_def Let_def section_defs quiet)

lemma no_open_sentence: "no_open label \<Longrightarrow> no_open (unknown_sentence label why)"
  by (cases why) (auto simp: unknown_sentence_def quiet split: unknown_reason.splits)

lemma no_open_headline: "no_open label \<Longrightarrow> no_open (since_headline label rows)"
  by (simp add: since_headline_def Let_def quiet)

lemma no_open_map: "(\<And>x. no_open (f x)) \<Longrightarrow> list_all no_open (map f xs)"
  by (simp add: list_all_iff)

lemma no_open_since: "list_all no_open (since_section convergence)"
proof (cases convergence)
  case (Some c)
  show ?thesis
  proof (cases c)
    case (Compare_Failed e)
    with Some show ?thesis by (simp add: since_section_def section_defs quiet)
  next
    case (Compared sha rows)
    define label where "label = (if (case sha of None \<Rightarrow> False | Some s \<Rightarrow> s \<noteq> [])
      then ''`'' @ cp_take 12 (oneline (the sha)) @ ''`'' else ''the previous read'')"
    have l: "no_open label" by (simp add: label_def quiet)
    show ?thesis
      using l unfolding Some Compared since_section_def Let_def option.case comparison.case label_def [symmetric]
      by (simp add: no_open_map no_open_since_line no_open_sentence no_open_headline section_defs quiet)
  qed
qed (simp add: since_section_def)

lemma no_open_intent: "list_all no_open (intent_section fmt v partial ir)"
  by (auto simp: intent_section_def Let_def section_defs quiet no_open_map no_open_quote_lines
      split: option.splits)

lemma no_open_counts: "no_open (findings_cell risks carried)"
proof -
  have "list_all no_open (map (\<lambda>s. dec (count_list g s) @ '' '' @ s) (filter p SEVERITY_ORDER))" for g p
    by (auto simp: list_all_iff SEVERITY_ORDER_def quiet)
  then have "no_open (finding_counts risks)"
    by (auto simp: finding_counts_def Let_def quiet)
  then show ?thesis by (simp add: findings_cell_def Let_def section_defs quiet)
qed

lemma calm_fold: "no_open summary \<Longrightarrow> list_all no_open body \<Longrightarrow>
  list_all calm (fold_block summary body) \<and> opens (fold_block summary body) = 1"
  using details_open(1)
  by (simp add: fold_block_def calm_none calm_def opens_none quiet)

lemma concat_none: "(\<And>x. list_all no_open (f x)) \<Longrightarrow> list_all no_open (concat (map f xs))"
  by (auto simp: list_all_iff)

lemma calm_findings:
  assumes "plain_source src"
  shows "list_all calm (findings_section src risks carried) \<and> opens (findings_section src risks carried) \<le> 2"
proof -
  obtain a b where t: "triage (by_severity risks) = (a, b)" by (cases "triage (by_severity risks)") auto
  note bul = no_open_bullet [OF assms]
  have f1: "list_all calm (fold_block (dec n @ '' low finding'' @ (if n = 1 then [] else ''s'')) (map (bullet src) b))
    \<and> opens (fold_block (dec n @ '' low finding'' @ (if n = 1 then [] else ''s'')) (map (bullet src) b)) = 1" for n
    by (rule calm_fold) (simp_all add: quiet no_open_map bul)
  have f2: "list_all calm (fold_block (dec n @ '' finding'' @ (if n = 1 then [] else ''s'')
        @ '' the author already ruled on'') (concat (map (carried_lines src) cs)))
    \<and> opens (fold_block (dec n @ '' finding'' @ (if n = 1 then [] else ''s'')
        @ '' the author already ruled on'') (concat (map (carried_lines src) cs))) = 1" for n cs
    by (rule calm_fold) (simp_all add: quiet concat_none no_open_carried [OF assms])
  have f3: "list_all calm (map (bullet src) xs) \<and> opens (map (bullet src) xs) = 0" for xs
    by (simp add: calm_none opens_none no_open_map bul)
  have f4: "calm ''- none'' \<and> no_open ''- none''" by (simp add: calm_def quiet)
  show ?thesis using f1 f2 f3 f4 unfolding findings_section_def t prod.case
    by (simp del: One_nat_def)
qed

lemma body_calm:
  assumes "plain_formats fmt" and "plain_source src"
  shows "list_all calm (body_lines fmt tier v intent cov convergence src)
    \<and> opens (body_lines fmt tier v intent cov convergence src) \<le> 3"
proof -
  have f: "no_open (fmt2 fmt x)" for x
    using assms(1) by (simp add: plain_formats_def no_open_of_plain)
  have hd: "no_open (headline fmt tier v)"
    by (simp add: headline_def section_defs quiet f band_name_def split: band.split)
  have cells: "no_open (read_cell tier)" by (simp add: read_cell_def section_defs quiet)
  have how: "list_all calm (fold_block HOW_TO_READ_SUMMARY [''- '' @ RISK_NOTE, ''- '' @ NEUTRAL_NOTE, ''- '' @ FLAG_LINE_NOTE])
    \<and> opens (fold_block HOW_TO_READ_SUMMARY [''- '' @ RISK_NOTE, ''- '' @ NEUTRAL_NOTE, ''- '' @ FLAG_LINE_NOTE]) = 1"
    by (rule calm_fold) (simp_all add: section_defs quiet)
  have top: "list_all no_open [''**'' @ headline fmt tier v @ ''**'', [], ''| Risk | Flag line | Read | Findings |'', ''|:--|:--|:--|:--|'',
          ''| **'' @ fmt2 fmt (v_score v) @ ''** | '' @ fmt2 fmt (v_threshold v) @ '' | '' @ read_cell tier @ '' | ''
            @ findings_cell risks carried @ '' |'']" for risks carried
    by (simp add: quiet hd f cells no_open_counts)
  have fixed: "list_all no_open (if b then [[], ''> '' @ CLEARED_NOTE] else [])"
    "list_all no_open [[], ''### Findings'', []]"
    "list_all no_open (if b then [SETTLED_NOTE, []] else [])" for b
    by (simp_all add: section_defs quiet)
  have intent: "list_all no_open (case intent of None \<Rightarrow> [] | Some ir \<Rightarrow> intent_section fmt v partial ir)" for partial
    by (simp add: no_open_intent split: option.split)
  have quotes: "list_all no_open (concat (map (\<lambda>n. quote_lines (r_label n)) ns))" for ns
    by (rule concat_none) (rule no_open_quote_lines)
  note none = top fixed intent quotes no_open_alert no_open_since
  note calm = none [THEN calm_none] calm_findings [OF assms(2), THEN conjunct1] how [THEN conjunct1]
  note zero = none [THEN opens_none] how [THEN conjunct2]
  show ?thesis
    unfolding body_lines_def Let_def list_all_append opens_simps(2)
    using calm_findings [OF assms(2)]
    by (simp only: calm zero simp_thms add_0 add_0_right) (simp add: numeral_eq_Suc)
qed

subsection \<open>Order and counting\<close>

lemma mset_by_severity [simp]: "mset (by_severity risks) = mset risks"
  by (simp add: by_severity_def)

lemma triage_cases:
  obtains "triage risks = (risks, [])"
  | "triage risks = (filter (\<lambda>r. grade r \<noteq> ''low'') risks, filter (\<lambda>r. grade r = ''low'') risks)"
    "filter (\<lambda>r. grade r \<noteq> ''low'') risks \<noteq> []"
  by (cases "list_ex (\<lambda>r. grade r \<in> set SEVERITY_ORDER) risks";
      cases "filter (\<lambda>r. grade r \<noteq> ''low'') risks = []") (auto simp: triage_def Let_def)

lemma triage_length:
  assumes "triage risks = (a, b)"
  shows "length (filter p a) + length (filter p b) = length (filter p risks)"
proof -
  have "length (filter p (filter q risks)) + length (filter p (filter (\<lambda>r. \<not> q r) risks)) =
    length (filter p risks)" for q
    by (induction risks) auto
  note parts = this [of "\<lambda>r. grade r \<noteq> ''low''", unfolded not_not]
  show ?thesis
    by (rule triage_cases [of risks]) (use assms parts in auto)
qed

lemma length_filter_by_severity: "length (filter p (by_severity risks)) = length (filter p risks)"
  by (metis mset_by_severity mset_filter size_mset)

lemma counted_length:
  "length (counted_bullets src risks carried) = length (filter countable risks) + length carried"
proof -
  obtain a b where t: "triage (by_severity risks) = (a, b)" by (cases "triage (by_severity risks)") auto
  have "length (by_severity carried) = length carried" by (metis mset_by_severity size_mset)
  with triage_length [OF t, of countable] length_filter_by_severity [of countable risks] show ?thesis
    by (simp add: counted_bullets_def t)
qed

lemma counted_bound: "length (counted_bullets src (fresh_of rs) (carried_of rs)) \<le> length rs"
proof -
  have "length (filter countable (fresh_of rs)) \<le> length (fresh_of rs)" by (rule length_filter_le)
  moreover have "length (fresh_of rs) + length (carried_of rs) \<le> length rs"
    unfolding fresh_of_def carried_of_def by (induction rs) auto
  ultimately show ?thesis unfolding counted_length by linarith
qed

text \<open>The counted bullets are lines of the section, in the order they were counted.\<close>

lemma subseq_map_filter: "subseq (map f (filter p xs)) (map f xs)"
  by (induction xs) auto

lemma carried_head: "\<exists>ls. carried_lines src r = bullet src r # ls"
  by (auto simp: carried_lines_def Let_def split: option.splits)

lemma subseq_carried: "subseq (map (bullet src) cs) (concat (map (carried_lines src) cs))"
proof (induction cs)
  case (Cons c cs)
  obtain ls where "carried_lines src c = bullet src c # ls" using carried_head by blast
  with Cons show ?case by (simp add: list_emb_append2)
qed simp

lemma subseq_fold: "subseq xs body \<Longrightarrow> subseq xs (fold_block summary body)"
  unfolding fold_block_def by (intro subseq_drop_many subseq_rev_drop_many)

lemma subseq_findings:
  "subseq (counted_bullets src risks carried) (findings_section src risks carried)"
proof -
  obtain a b where t: "triage (by_severity risks) = (a, b)" by (cases "triage (by_severity risks)") auto
  let ?P = "if risks \<noteq> [] then
        (case triage (by_severity risks) of (leading, folded) \<Rightarrow>
           map (bullet src) leading
           @ (if folded = [] then []
              else fold_block (dec (length folded) @ '' low finding'' @ (if length folded = 1 then [] else ''s''))
                     (map (bullet src) folded)))
      else if carried = [] then [''- none''] else []"
  have "subseq (map (bullet src) (filter countable a) @ map (bullet src) (filter countable b))
    (map (bullet src) a @ (if b = [] then [] else fold_block s (map (bullet src) b)))" for s
    by (rule list_emb_append_mono [OF subseq_map_filter]) (simp add: subseq_fold [OF subseq_map_filter])
  moreover have "a = [] \<and> b = []" if "risks = []"
    using t that by (simp add: triage_def by_severity_def)
  ultimately have P: "subseq (map (bullet src) (filter countable a) @ map (bullet src) (filter countable b)) ?P"
    by (cases "risks = []") (simp_all only: t prod.case if_True if_False simp_thms not_True_eq_False
        not_False_eq_True list.map filter.simps append_Nil list_emb_Nil)
  have Q: "subseq (map (bullet src) (by_severity carried))
    (if carried = [] then [] else fold_block s (concat (map (carried_lines src) (by_severity carried))))" for s
    by (cases "carried = []") (simp_all add: subseq_fold [OF subseq_carried], simp add: by_severity_def)
  show ?thesis
    unfolding counted_bullets_def findings_section_def t prod.case
    by (rule list_emb_append_mono [OF P [unfolded t prod.case] Q])
qed

lemma length_dec_le: "n < 10 ^ Suc k \<Longrightarrow> length (dec n) \<le> Suc k"
proof (induction k arbitrary: n)
  case 0
  then show ?case by (subst dec.simps) simp
next
  case (Suc k)
  show ?case
  proof (cases "n < 10")
    case True
    then show ?thesis by (subst dec.simps) simp
  next
    case False
    from Suc.prems have "n div 10 < 10 ^ Suc k" by (simp add: less_mult_imp_div_less)
    from Suc.IH [OF this] False show ?thesis by (subst dec.simps) simp
  qed
qed

lemma notice_parts:
  "cp_len (nl @ nl @ ''_'' @ TRUNCATION_LEAD @ '' '') = 62" "cp_len TRUNCATION_NOTICE = 62"
  "cp_len '' missing from the list above._'' = 30" "cp_len '' of '' = 4" "cp_len '' findings '' = 10"
  "cp_len ''is'' = 2" "cp_len ''are'' = 3" "cp_len DETAILS_CLOSE = 11"
  by code_simp+

lemma reserve_bound:
  assumes "n < 10 ^ 9" and "count_sub body ''<details>'' \<le> 3"
  shows "reserved_for body n \<le> 200"
proof -
  have d: "cp_len (dec n) \<le> 9" using length_dec_le [of n 8] assms(1) by (simp add: cp_len_dec)
  have "cp_len (truncation_notice n n) \<le> 150"
  proof (cases "n = 0")
    case False
    then have "truncation_notice n n = (nl @ nl @ ''_'' @ TRUNCATION_LEAD @ '' '') @ dec n @ '' of '' @ dec n
      @ '' findings '' @ (if n = 1 then ''is'' else ''are'') @ '' missing from the list above._''"
      by (simp add: truncation_notice_def)
    then have "cp_len (truncation_notice n n) = 62 + cp_len (dec n) + 4 + cp_len (dec n) + 10
      + cp_len (if n = 1 then ''is'' else ''are'') + 30"
      by (simp only: cp_len_append [of "nl @ nl @ ''_'' @ TRUNCATION_LEAD @ '' ''"] cp_len_append [of "dec n"]
          cp_len_append [of "'' of ''"] cp_len_append [of "'' findings ''"]
          cp_len_append [of "if n = 1 then ''is'' else ''are''"] notice_parts add.assoc)
    moreover have "cp_len (if n = 1 then ''is'' else ''are'') \<le> 3" by (simp add: notice_parts)
    ultimately show ?thesis using d by linarith
  qed (simp add: truncation_notice_def notice_parts)
  then show ?thesis using assms(2) by (simp add: reserved_for_def notice_parts)
qed

lemma prior_unchanged:
  "e \<in> set (classify_prior b reasons lr pr rows) \<Longrightarrow> c_changed e = None"
proof (induction rows arbitrary: b)
  case (Cons row rows)
  have "c_changed (rule5 row path pr lr) = None" for path
    by (rule rule5_cases [of row path pr lr]) (simp_all add: unknown_def entry_def)
  with Cons show ?case
    by (auto simp: unmatchable_def unknown_def entry_def split: option.splits if_splits)
qed simp

subsection \<open>Properties\<close>

text \<open>
  C9. Every counted finding is on the page: before any cut, the bullets of all findings the header
  counts, fresh and carried, are lines of the body in the order they were counted, and there are
  exactly as many of them as there are fresh findings that are no settlement notice plus carried
  ones; low findings are folded, never dropped.
\<close>
theorem every_counted_finding_is_shown:
  "let partial = (case cov of None \<Rightarrow> None | Some c \<Rightarrow> truncation_reason (fmt_percent fmt) c);
       rs = surfaced v partial; counted = counted_bullets src (fresh_of rs) (carried_of rs)
   in subseq counted (body_lines fmt tier v intent cov convergence src)
      \<and> length counted = length (filter countable (fresh_of rs)) + length (carried_of rs)"
  unfolding Let_def body_lines_def counted_length
  by (intro conjI subseq_drop_many subseq_rev_drop_many subseq_findings) simp_all

text \<open>
  C24. The summary always fits: for any verdict, reads and comparison, the title and the summary stay
  under the limits GitHub sets, because the reserve counts only the module's own disclosures: no
  model-authored text can open one.
\<close>
theorem render_fits:
  assumes "plain_formats fmt" and "plain_source src" and "length (v_reasons v) < 10 ^ 9"
    and "cp_len (case ins of None \<Rightarrow> [] | Some i \<Rightarrow> join nl (footer_lines fmt i)) \<le> 1000"
  shows "cp_len (fst (render fmt tier v intent cov ins convergence src)) \<le> TITLE_LIMIT
    \<and> cp_len (snd (render fmt tier v intent cov ins convergence src)) \<le> SUMMARY_LIMIT"
proof -
  define partial where "partial = (case cov of None \<Rightarrow> None | Some c \<Rightarrow> truncation_reason (fmt_percent fmt) c)"
  define rs where "rs = surfaced v partial"
  define body where "body = join nl (body_lines fmt tier v intent cov convergence src)"
  define foot where "foot = (case ins of None \<Rightarrow> [] | Some i \<Rightarrow> join nl (footer_lines fmt i))"
  define counted where "counted = counted_bullets src (fresh_of rs) (carried_of rs)"
  have "length counted \<le> length (v_reasons v)"
    using counted_bound [of src rs] length_filter_le [of _ "v_reasons v"]
    unfolding counted_def rs_def surfaced_def by (rule order_trans)
  then have "length counted < 10 ^ 9" using assms(3) by linarith
  moreover have "count_sub body ''<details>'' \<le> 3"
    using body_calm [OF assms(1,2)] by (simp add: body_def count_lines)
  ultimately have "reserved_for body (length counted) \<le> 200" by (rule reserve_bound)
  moreover have "cp_len foot \<le> 1000" using assms(4) by (simp add: foot_def)
  ultimately have "cp_len (limit_summary body foot counted) \<le> SUMMARY_LIMIT"
    by (intro limit_fits) (simp add: SUMMARY_LIMIT_def)
  then show ?thesis
    using cp_len_take [of TITLE_LIMIT "headline fmt tier v"]
    by (simp add: render_def Let_def body_def foot_def counted_def rs_def partial_def)
qed

definition ex_formats :: formats where
  "ex_formats = \<lparr>fmt2 = \<lambda>_. ''0.50'', fmt_percent = \<lambda>_ _. ''50%'', fmt_date = \<lambda>_. ''2026-08-01''\<rparr>"

definition ex_reason :: "string \<Rightarrow> string \<Rightarrow> reason" where
  "ex_reason sev label = \<lparr>r_rule = ''reader:dead-reference'', r_label = label, r_weight = 0,
     r_severity = Some sev, r_hunks = None, r_file = Some ''a.py'', r_evidence = None, r_carry = JNull\<rparr>"

definition ex_verdict :: verdict where
  "ex_verdict = \<lparr>v_score = 0, v_band = Flagged, v_threshold = 0,
     v_reasons = [ex_reason ''high'' ''x'', ex_reason ''low'' ''<details>'']\<rparr>"

theorem render_fits_witness:
  "cp_len (fst (render ex_formats ''reader'' ex_verdict None None None None None)) \<le> TITLE_LIMIT
    \<and> cp_len (snd (render ex_formats ''reader'' ex_verdict None None None None None)) \<le> SUMMARY_LIMIT"
  by (rule render_fits) (simp_all add: ex_formats_def plain_formats_def plain_def plain_source_def ex_verdict_def)

text \<open>
  Folding hides only low findings and never all of them: the leading and the folded findings are
  together the findings there were, everything folded is graded low, and a list with findings always
  has leading ones.
\<close>
theorem triage_hides_only_low:
  "case triage (by_severity risks) of (leading, folded) \<Rightarrow>
     mset leading + mset folded = mset risks \<and> filter (\<lambda>r. grade r \<noteq> ''low'') folded = []
     \<and> (leading = []) = (risks = [])"
proof -
  have "mset (filter (\<lambda>r. grade r \<noteq> ''low'') rs) + mset (filter (\<lambda>r. grade r = ''low'') rs) = mset rs" for rs
    by (induction rs) auto
  moreover have "by_severity risks = [] \<longleftrightarrow> risks = []" by (metis mset_by_severity mset_zero_iff)
  ultimately show ?thesis
    by (rule_tac triage_cases [of "by_severity risks"]) (auto simp: filter_empty_conv)
qed

text \<open>
  The headline counts only silence: for the entries the classifier makes, the findings on
  unchanged files that were reported again are never counted, because a finding that persists by
  being reported again carries no note on whether its file changed; the number of earlier findings
  and the number not mentioned are always the same.
\<close>
theorem since_headline_counts_only_silence:
  "since_denominator (classify priors laters reasons later_read prior_read) =
     length (silent_of (classify priors laters reasons later_read prior_read))"
proof -
  have "c_changed e = None"
    if "e \<in> set (classify priors laters reasons later_read prior_read)" and "c_side e = Prior" for e
  proof -
    from that(1) consider b where "e \<in> set (classify_prior b reasons later_read prior_read priors)"
      | b where "e \<in> set (classify_later b later_read prior_read laters)"
      unfolding classify_split set_append by blast
    then show ?thesis using prior_unchanged later_not_prior that(2) by cases auto
  qed
  then have "filter (\<lambda>c. c_basis c = None \<and> c_changed c = Some False)
      (persisted_of (classify priors laters reasons later_read prior_read)) = []"
    by (auto simp: filter_empty_conv persisted_of_def prior_rows_of_def)
  then show ?thesis by (simp add: since_denominator_def)
qed

end
