(* ===== verification/Pr_Comment.thy ===== *)
theory Pr_Comment
  imports Check_Run
begin

text \<open>
  The sticky pull request comment, \<open>api/doug/pr_comment.py\<close>, with the claim rows \<open>store.py\<close> keeps for
  it. GitHub is a parameter: three requests on a state of its own, each of which may fail with a
  status code or on the network. \<open>upsert\<close> is the function as the code has it; \<open>call\<close> cuts it at its
  calls, one database transaction or one request each, so that several drainers can be interleaved.
  The column \<open>updated_at\<close> is written and never read; it is left out.
\<close>

subsection \<open>The body\<close>

definition MARKER_PREFIX :: string where "MARKER_PREFIX = ''<!-- doug:verdict''"
definition FRAME_MAX :: nat where "FRAME_MAX = 1000"
definition DOCS_PATH :: string where "DOCS_PATH = ''/docs/what-doug-gets-wrong''"

text \<open>The middle dot, in UTF-8.\<close>

definition DOT :: string where "DOT = [CHR 0xC2, CHR 0xB7]"

record links =
  l_base :: string
  l_receipt :: string

text \<open>\<open>receipt_links\<close>, with the environment variable as an argument.\<close>

definition receipt_links :: "string option \<Rightarrow> string \<Rightarrow> string \<Rightarrow> int \<Rightarrow> links option" where
  "receipt_links web_url owner repo pr =
     (case web_url of None \<Rightarrow> None
      | Some u \<Rightarrow>
          if u = [] then None
          else let base = rstrip_char (CHR ''/'') u
               in Some \<lparr>l_base = base, l_receipt = base @ ''/dashboard/pr/'' @ dec_int pr @ ''?repo=''
                    @ url_quote [] (owner @ ''/'' @ repo)\<rparr>)"

definition marker_line :: "string \<Rightarrow> int \<Rightarrow> string" where
  "marker_line head_sha seq = MARKER_PREFIX @ '' head='' @ head_sha @ '' seq='' @ dec_int seq @ '' -->''"

definition header_line :: "string \<Rightarrow> string" where
  "header_line head_sha =
     ''_The '' @ [CHR 0x60] @ ''Doug'' @ [CHR 0x60] @ '' check run for '' @ cp_take 7 head_sha
     @ '', repeated here in full. Doug edits this comment in place on every review; it is never re-posted._''"

definition footer_line :: "links option \<Rightarrow> string" where
  "footer_line ls =
     (case ls of
        None \<Rightarrow> ''Doug '' @ DOT @ '' not a gate''
      | Some l \<Rightarrow> ''Doug '' @ DOT @ '' [full receipt on Doug HQ]('' @ l_receipt l @ '') '' @ DASH
          @ '' sign-in required '' @ DOT @ '' [what Doug gets wrong]('' @ l_base l @ DOCS_PATH @ '')'')"

definition comment_body :: "string \<Rightarrow> string \<Rightarrow> int \<Rightarrow> links option \<Rightarrow> string" where
  "comment_body summary head_sha seq ls =
     marker_line head_sha seq @ nl @ nl @ header_line head_sha @ nl @ nl @ summary @ nl @ nl @ ''---'' @ nl
     @ footer_line ls"

definition frame_len :: "string \<Rightarrow> string \<Rightarrow> nat" where
  "frame_len body summary = cp_len body - cp_len summary"

text \<open>\<open>render\<close>; the \<open>RuntimeError\<close> is \<open>Inl\<close> of the frame's length.\<close>

definition comment_render :: "string \<Rightarrow> string \<Rightarrow> int \<Rightarrow> links option \<Rightarrow> (nat, string) result" where
  "comment_render summary head_sha seq ls =
     (let full = comment_body summary head_sha seq ls;
          body = (if ls \<noteq> None \<and> FRAME_MAX < frame_len full summary
                  then comment_body summary head_sha seq None else full)
      in if FRAME_MAX < frame_len body summary then Raise (frame_len body summary) else Return body)"

subsection \<open>Whose comment, and of which job\<close>

record comment =
  cm_id :: int
  cm_body :: string
  cm_app :: "string option"

definition is_ours :: "string option \<Rightarrow> comment \<Rightarrow> bool" where
  "is_ours app_id c \<longleftrightarrow>
     startswith (cm_body c) MARKER_PREFIX \<and>
     (case app_id of None \<Rightarrow> False | Some ours \<Rightarrow> ours \<noteq> [] \<and> cm_app c = Some ours)"

definition hex_lower :: "char \<Rightarrow> bool" where
  "hex_lower c \<longleftrightarrow> digit_char c \<or> c \<in> set ''abcdef''"

text \<open>\<open>_MARKER_RE\<close>: the run of hexadecimal characters is followed by a blank, so it is taken whole.\<close>

definition marker_seq :: "string \<Rightarrow> int option" where
  "marker_seq body =
     (if \<not> startswith body (MARKER_PREFIX @ '' head='') then None
      else let s = drop (length (MARKER_PREFIX @ '' head='')) body;
               sha = takeWhile hex_lower s; s1 = dropWhile hex_lower s
           in if length sha < 7 \<or> 64 < length sha \<or> \<not> startswith s1 '' seq='' then None
              else let s2 = drop 5 s1; ds = takeWhile digit_char s2
                   in if ds = [] \<or> \<not> startswith (dropWhile digit_char s2) '' -->'' then None
                      else Some (int_of_digits ds))"

definition seq_of :: "comment \<Rightarrow> int" where
  "seq_of c = (case marker_seq (cm_body c) of None \<Rightarrow> 0 | Some n \<Rightarrow> n)"

subsection \<open>The claim rows\<close>

type_synonym pr_key = "int \<times> int \<times> int"

record slot =
  sl_comment :: "int option"
  sl_last :: "int option"

record slots =
  ss_engine :: bool
  ss_rows :: "pr_key \<Rightarrow> slot option"

definition pr_comment_id :: "pr_key \<Rightarrow> slots \<Rightarrow> int option" where
  "pr_comment_id k db =
     (if \<not> ss_engine db then None
      else case ss_rows db k of None \<Rightarrow> None | Some r \<Rightarrow> sl_comment r)"

definition claim_pr_comment :: "pr_key \<Rightarrow> slots \<Rightarrow> bool \<times> slots" where
  "claim_pr_comment k db =
     (if \<not> ss_engine db then (False, db)
      else case ss_rows db k of
        Some _ \<Rightarrow> (False, db)
      | None \<Rightarrow> (True, db\<lparr>ss_rows := (ss_rows db)(k \<mapsto> \<lparr>sl_comment = None, sl_last = None\<rparr>)\<rparr>))"

definition set_pr_comment_id :: "pr_key \<Rightarrow> int \<Rightarrow> int \<Rightarrow> slots \<Rightarrow> slots" where
  "set_pr_comment_id k c seq db =
     (if \<not> ss_engine db then db
      else case ss_rows db k of None \<Rightarrow> db
        | Some r \<Rightarrow> db\<lparr>ss_rows := (ss_rows db)(k \<mapsto> r\<lparr>sl_comment := Some c,
            sl_last := (case sl_last r of None \<Rightarrow> Some seq
                        | Some m \<Rightarrow> Some (if seq < m then m else seq))\<rparr>)\<rparr>)"

text \<open>The conditional update, then the mark read back.\<close>

definition claim_pr_comment_seq :: "pr_key \<Rightarrow> int \<Rightarrow> slots \<Rightarrow> bool \<times> slots" where
  "claim_pr_comment_seq k seq db =
     (if \<not> ss_engine db then (True, db)
      else let db' = (case ss_rows db k of None \<Rightarrow> db
             | Some r \<Rightarrow>
                 if (case sl_last r of None \<Rightarrow> True | Some m \<Rightarrow> m \<le> seq)
                 then db\<lparr>ss_rows := (ss_rows db)(k \<mapsto> r\<lparr>sl_last := Some seq\<rparr>)\<rparr> else db)
           in (case ss_rows db' k of None \<Rightarrow> (True, db') | Some r \<Rightarrow> (sl_last r = Some seq, db')))"

definition forget_pr_comment :: "pr_key \<Rightarrow> slots \<Rightarrow> slots" where
  "forget_pr_comment k db = (if \<not> ss_engine db then db else db\<lparr>ss_rows := (ss_rows db)(k := None)\<rparr>)"

subsection \<open>upsert\<close>

datatype gh_error = Request_Failed int | Request_Error

datatype outcome = Created | Updated | Skipped_Stale | Denied_403 | Failed_Code int | Failed_Net | Page_Bound

definition of_error :: "gh_error \<Rightarrow> outcome" where
  "of_error e = (case e of Request_Failed code \<Rightarrow> if code = 403 then Denied_403 else Failed_Code code
     | Request_Error \<Rightarrow> Failed_Net)"

record 'g github =
  gh_update :: "int \<Rightarrow> string \<Rightarrow> 'g \<Rightarrow> (gh_error, unit) result \<times> 'g"
  gh_list :: "nat \<Rightarrow> 'g \<Rightarrow> (gh_error, comment list) result \<times> 'g"
  gh_create :: "string \<Rightarrow> 'g \<Rightarrow> (gh_error, int) result \<times> 'g"

text \<open>\<open>target_matches\<close>, given the answer of \<open>pulls.get\<close> with the id of its base repository, if it has one.\<close>

definition target_matches :: "(gh_error, int option) result \<Rightarrow> int \<Rightarrow> bool" where
  "target_matches pull github_repo_id =
     (case pull of Inl _ \<Rightarrow> False | Inr None \<Rightarrow> False | Inr (Some i) \<Rightarrow> i = github_repo_id)"

definition PER_PAGE :: nat where "PER_PAGE = 100"
definition PAGE_BOUND :: nat where "PAGE_BOUND = 10"

datatype listing = Found comment | Nothing | Bound | Broken gh_error

text \<open>The paging loop, with the pages left to ask for.\<close>

fun list_pages :: "'g github \<Rightarrow> string option \<Rightarrow> nat \<Rightarrow> nat \<Rightarrow> 'g \<Rightarrow> listing \<times> 'g" where
  "list_pages gh app 0 page g = (Bound, g)"
| "list_pages gh app (Suc left) page g =
     (case gh_list gh page g of
        (Inl e, g') \<Rightarrow> (Broken e, g')
      | (Inr batch, g') \<Rightarrow>
          (case List.find (is_ours app) batch of
             Some c \<Rightarrow> (Found c, g')
           | None \<Rightarrow> if length batch < PER_PAGE then (Nothing, g')
                     else list_pages gh app left (page + 1) g'))"

definition edit :: "'g github \<Rightarrow> string \<Rightarrow> int \<Rightarrow> slots \<times> 'g \<Rightarrow> outcome \<times> slots \<times> 'g" where
  "edit gh body c s =
     (case gh_update gh c body (snd s) of
        (Inl e, g') \<Rightarrow> (of_error e, fst s, g')
      | (Inr _, g') \<Rightarrow> (Updated, fst s, g'))"

definition reserve_and_edit ::
  "'g github \<Rightarrow> pr_key \<Rightarrow> string \<Rightarrow> int \<Rightarrow> int \<Rightarrow> slots \<times> 'g \<Rightarrow> outcome \<times> slots \<times> 'g" where
  "reserve_and_edit gh k body seq c s =
     (case claim_pr_comment_seq k seq (fst s) of
        (won, db) \<Rightarrow> if \<not> won then (Skipped_Stale, db, snd s) else edit gh body c (db, snd s))"

definition create ::
  "'g github \<Rightarrow> pr_key \<Rightarrow> string \<Rightarrow> int \<Rightarrow> slots \<times> 'g \<Rightarrow> outcome \<times> slots \<times> 'g" where
  "create gh k body seq s =
     (case gh_create gh body (snd s) of
        (Inl e, g') \<Rightarrow> (of_error e, fst s, g')
      | (Inr c, g') \<Rightarrow> (Created, set_pr_comment_id k c seq (fst s), g'))"

definition discover ::
  "'g github \<Rightarrow> string option \<Rightarrow> pr_key \<Rightarrow> string \<Rightarrow> int \<Rightarrow> slots \<times> 'g \<Rightarrow> outcome \<times> slots \<times> 'g" where
  "discover gh app k body seq s =
     (case list_pages gh app PAGE_BOUND 1 (snd s) of
        (Broken e, g) \<Rightarrow> (of_error e, fst s, g)
      | (Bound, g) \<Rightarrow> (Page_Bound, fst s, g)
      | (Found c, g) \<Rightarrow>
          (let db = set_pr_comment_id k (cm_id c) (seq_of c) (snd (claim_pr_comment k (fst s)))
           in if seq < seq_of c then (Skipped_Stale, db, g)
              else reserve_and_edit gh k body seq (cm_id c) (db, g))
      | (Nothing, g) \<Rightarrow>
          (case claim_pr_comment k (fst s) of
             (True, db) \<Rightarrow> create gh k body seq (db, g)
           | (False, db) \<Rightarrow>
               (case pr_comment_id k db of
                  Some other \<Rightarrow> reserve_and_edit gh k body seq other (db, g)
                | None \<Rightarrow> create gh k body seq (db, g))))"

definition upsert ::
  "'g github \<Rightarrow> string option \<Rightarrow> pr_key \<Rightarrow> string \<Rightarrow> int \<Rightarrow> slots \<times> 'g \<Rightarrow> outcome \<times> slots \<times> 'g" where
  "upsert gh app k body seq s =
     (case pr_comment_id k (fst s) of
        None \<Rightarrow> discover gh app k body seq s
      | Some stored \<Rightarrow>
          (case claim_pr_comment_seq k seq (fst s) of
             (won, db) \<Rightarrow>
               if \<not> won then (Skipped_Stale, db, snd s)
               else case gh_update gh stored body (snd s) of
                   (Inr _, g) \<Rightarrow> (Updated, db, g)
                 | (Inl e, g) \<Rightarrow>
                     if e = Request_Failed 404
                     then discover gh app k body seq (forget_pr_comment k db, g)
                     else (of_error e, db, g)))"

subsection \<open>The same function, one call at a time\<close>

datatype stage =
    Look | Reserve_Stored int | Edit_Stored int | Forget
  | Page nat nat | Note_Claim comment | Note_Id comment
  | Claim_Slot | Look_Other | Reserve int | Edit int | Create | Record int

text \<open>One transaction or one request: the outcome, or what comes next.\<close>

fun call ::
  "'g github \<Rightarrow> string option \<Rightarrow> pr_key \<Rightarrow> string \<Rightarrow> int \<Rightarrow> stage \<Rightarrow> slots \<times> 'g
   \<Rightarrow> (outcome + stage) \<times> slots \<times> 'g" where
  "call gh app k body seq Look (db, g) =
     (Inr (case pr_comment_id k db of None \<Rightarrow> Page PAGE_BOUND 1 | Some c \<Rightarrow> Reserve_Stored c), db, g)"
| "call gh app k body seq (Reserve_Stored c) (db, g) =
     (case claim_pr_comment_seq k seq db of
        (won, db') \<Rightarrow> (if won then Inr (Edit_Stored c) else Inl Skipped_Stale, db', g))"
| "call gh app k body seq (Edit_Stored c) (db, g) =
     (case gh_update gh c body g of
        (Inr _, g') \<Rightarrow> (Inl Updated, db, g')
      | (Inl e, g') \<Rightarrow> (if e = Request_Failed 404 then Inr Forget else Inl (of_error e), db, g'))"
| "call gh app k body seq Forget (db, g) = (Inr (Page PAGE_BOUND 1), forget_pr_comment k db, g)"
| "call gh app k body seq (Page 0 page) (db, g) = (Inl Page_Bound, db, g)"
| "call gh app k body seq (Page (Suc left) page) (db, g) =
     (case gh_list gh page g of
        (Inl e, g') \<Rightarrow> (Inl (of_error e), db, g')
      | (Inr batch, g') \<Rightarrow>
          (case List.find (is_ours app) batch of
             Some c \<Rightarrow> (Inr (Note_Claim c), db, g')
           | None \<Rightarrow> (Inr (if length batch < PER_PAGE then Claim_Slot else Page left (page + 1)), db, g')))"
| "call gh app k body seq (Note_Claim c) (db, g) = (Inr (Note_Id c), snd (claim_pr_comment k db), g)"
| "call gh app k body seq (Note_Id c) (db, g) =
     (if seq < seq_of c then Inl Skipped_Stale else Inr (Reserve (cm_id c)),
      set_pr_comment_id k (cm_id c) (seq_of c) db, g)"
| "call gh app k body seq Claim_Slot (db, g) =
     (case claim_pr_comment k db of (won, db') \<Rightarrow> (Inr (if won then Create else Look_Other), db', g))"
| "call gh app k body seq Look_Other (db, g) =
     (Inr (case pr_comment_id k db of None \<Rightarrow> Create | Some c \<Rightarrow> Reserve c), db, g)"
| "call gh app k body seq (Reserve c) (db, g) =
     (case claim_pr_comment_seq k seq db of
        (won, db') \<Rightarrow> (if won then Inr (Edit c) else Inl Skipped_Stale, db', g))"
| "call gh app k body seq (Edit c) (db, g) =
     (case edit gh body c (db, g) of (out, s') \<Rightarrow> (Inl out, s'))"
| "call gh app k body seq Create (db, g) =
     (case gh_create gh body g of
        (Inl e, g') \<Rightarrow> (Inl (of_error e), db, g')
      | (Inr c, g') \<Rightarrow> (Inr (Record c), db, g'))"
| "call gh app k body seq (Record c) (db, g) = (Inl Created, set_pr_comment_id k c seq db, g)"

text \<open>A bound on the calls left.\<close>

fun calls_left :: "stage \<Rightarrow> nat" where
  "calls_left Look = 21"
| "calls_left (Reserve_Stored c) = 20"
| "calls_left (Edit_Stored c) = 19"
| "calls_left Forget = 18"
| "calls_left (Page left page) = left + 7"
| "calls_left (Note_Claim c) = 6"
| "calls_left (Note_Id c) = 5"
| "calls_left Claim_Slot = 6"
| "calls_left Look_Other = 5"
| "calls_left (Reserve c) = 4"
| "calls_left (Edit c) = 1"
| "calls_left Create = 2"
| "calls_left (Record c) = 1"

lemma call_progress:
  "call gh app k body seq st s = (Inr st', s') \<Longrightarrow> calls_left st' < calls_left st"
  by (cases "(gh, app, k, body, seq, st, s)" rule: call.cases)
    (auto simp: PAGE_BOUND_def edit_def split: if_splits option.splits prod.splits sum.splits)

function run_calls ::
  "'g github \<Rightarrow> string option \<Rightarrow> pr_key \<Rightarrow> string \<Rightarrow> int \<Rightarrow> stage \<Rightarrow> slots \<times> 'g \<Rightarrow> outcome \<times> slots \<times> 'g" where
  "run_calls gh app k body seq st s =
     (case call gh app k body seq st s of
        (Inl out, s') \<Rightarrow> (out, s')
      | (Inr st', s') \<Rightarrow> run_calls gh app k body seq st' s')"
  by pat_completeness auto
termination
  by (relation "measure (\<lambda>(gh, app, k, body, seq, st, s). calls_left st)")
    (auto dest: call_progress [OF sym])

declare run_calls.simps [simp del]

lemma run_edit: "run_calls gh app k body seq (Edit c) s = edit gh body c s"
  by (cases s) (simp add: run_calls.simps [of gh app k body seq "Edit c"] split: prod.split)

lemma run_reserve: "run_calls gh app k body seq (Reserve c) s = reserve_and_edit gh k body seq c s"
  by (cases s)
    (simp add: run_calls.simps [of gh app k body seq "Reserve c"] reserve_and_edit_def run_edit split: prod.split)

lemma run_record: "run_calls gh app k body seq (Record c) (db, g) = (Created, set_pr_comment_id k c seq db, g)"
  by (simp add: run_calls.simps [of gh app k body seq "Record c"])

lemma run_create: "run_calls gh app k body seq Create s = create gh k body seq s"
  by (cases s)
    (simp add: run_calls.simps [of gh app k body seq Create] create_def run_record split: prod.split sum.split)

lemma run_claim_slot:
  "run_calls gh app k body seq Claim_Slot (db, g) =
     (case claim_pr_comment k db of
        (True, db') \<Rightarrow> create gh k body seq (db', g)
      | (False, db') \<Rightarrow>
          (case pr_comment_id k db' of
             Some other \<Rightarrow> reserve_and_edit gh k body seq other (db', g)
           | None \<Rightarrow> create gh k body seq (db', g)))"
  by (simp add: run_calls.simps [of gh app k body seq Claim_Slot]
      run_calls.simps [of gh app k body seq Look_Other] run_create run_reserve
      split: prod.split bool.split option.split)

lemma run_note:
  "run_calls gh app k body seq (Note_Claim c) (db, g) =
     (let db = set_pr_comment_id k (cm_id c) (seq_of c) (snd (claim_pr_comment k db))
      in if seq < seq_of c then (Skipped_Stale, db, g)
         else reserve_and_edit gh k body seq (cm_id c) (db, g))"
  by (simp add: run_calls.simps [of gh app k body seq "Note_Claim c"]
      run_calls.simps [of gh app k body seq "Note_Id c"] run_reserve Let_def)

text \<open>\<open>discover\<close> after its listing.\<close>

lemma run_pages:
  "run_calls gh app k body seq (Page left page) (db, g) =
     (case list_pages gh app left page g of
        (Broken e, g) \<Rightarrow> (of_error e, db, g)
      | (Bound, g) \<Rightarrow> (Page_Bound, db, g)
      | (Found c, g) \<Rightarrow> run_calls gh app k body seq (Note_Claim c) (db, g)
      | (Nothing, g) \<Rightarrow> run_calls gh app k body seq Claim_Slot (db, g))"
proof (induction left arbitrary: page g)
  case 0
  then show ?case by (simp add: run_calls.simps [of gh app k body seq "Page 0 page"])
next
  case (Suc left)
  obtain r g1 where r: "gh_list gh page g = (r, g1)" by (cases "gh_list gh page g")
  show ?case
  proof (cases r)
    case (Inl e)
    with r show ?thesis by (simp add: run_calls.simps [of gh app k body seq "Page (Suc left) page"])
  next
    case (Inr batch)
    show ?thesis
    proof (cases "List.find (is_ours app) batch")
      case None
      with r Inr Suc [of "page + 1" g1] show ?thesis
        by (simp add: run_calls.simps [of gh app k body seq "Page (Suc left) page"])
    next
      case (Some c)
      with r Inr show ?thesis
        by (simp add: run_calls.simps [of gh app k body seq "Page (Suc left) page"])
    qed
  qed
qed

lemma run_discover:
  "run_calls gh app k body seq (Page PAGE_BOUND (Suc 0)) s = discover gh app k body seq s"
  by (cases s) (simp add: run_pages run_note run_claim_slot discover_def split: prod.split listing.split)


subsection \<open>The mark\<close>

lemma row_simps_slots [simp]:
  "ss_rows (db\<lparr>ss_rows := f\<rparr>) = f" "ss_engine (db\<lparr>ss_rows := f\<rparr>) = ss_engine db" by simp_all

lemma reserve_wins:
  assumes "claim_pr_comment_seq k seq db = (True, db')" and "ss_engine db" and "ss_rows db k = Some r"
  shows "ss_rows db' k = Some (r\<lparr>sl_last := Some seq\<rparr>) \<and> ss_engine db'"
  using assms by (auto simp: claim_pr_comment_seq_def Let_def split: option.splits if_splits)

lemma claim_slot_rows:
  assumes "claim_pr_comment k db = (won, db')" and "ss_engine db"
  shows "\<exists>r. ss_rows db' k = Some r \<and> ss_engine db' \<and> (won \<longrightarrow> sl_last r = None)"
  using assms by (auto simp: claim_pr_comment_def split: option.splits)

lemma set_id_rows:
  assumes "ss_engine db" and "ss_rows db k = Some r"
  shows "\<exists>m. ss_rows (set_pr_comment_id k c seq db) k = Some (r\<lparr>sl_comment := Some c, sl_last := Some m\<rparr>)
    \<and> seq \<le> m \<and> ss_engine (set_pr_comment_id k c seq db)"
  using assms by (auto simp: set_pr_comment_id_def split: option.splits)

text \<open>The slot holds a comment and a mark at least \<open>seq\<close>.\<close>

definition written :: "pr_key \<Rightarrow> int \<Rightarrow> slots \<Rightarrow> bool" where
  "written k seq db \<longleftrightarrow> ss_engine db \<and>
     (case ss_rows db k of None \<Rightarrow> False
      | Some r \<Rightarrow> sl_comment r \<noteq> None \<and> (case sl_last r of None \<Rightarrow> False | Some m \<Rightarrow> seq \<le> m))"

lemma written_refuses:
  assumes "written k b db" and "a < b"
  shows "upsert gh app k body a (db, g) = (Skipped_Stale, db, g)"
proof -
  from assms(1) obtain r c m where r: "ss_engine db" "ss_rows db k = Some r" "sl_comment r = Some c"
      "sl_last r = Some m" "b \<le> m"
    by (auto simp: written_def split: option.splits)
  moreover from this assms(2) have "claim_pr_comment_seq k a db = (False, db)"
    by (simp add: claim_pr_comment_seq_def)
  ultimately show ?thesis by (simp add: upsert_def pr_comment_id_def)
qed

lemma edit_written:
  "edit gh body c s = (out, db', g') \<Longrightarrow> db' = fst s"
  by (auto simp: edit_def split: prod.splits sum.splits)

lemma reserve_written:
  assumes "reserve_and_edit gh k body seq c (db, g) = (out, db', g')" and "out = Updated \<or> out = Created"
    and "ss_engine db" and "ss_rows db k = Some r" and "sl_comment r \<noteq> None"
  shows "written k seq db'"
proof -
  obtain won db1 where w: "claim_pr_comment_seq k seq db = (won, db1)" by (cases "claim_pr_comment_seq k seq db")
  with assms(1,2) have won: "won" and e: "edit gh body c (db1, g) = (out, db', g')"
    by (auto simp: reserve_and_edit_def split: if_splits)
  from reserve_wins [of k seq db db1 r] w won assms(3,4) edit_written [OF e] assms(5)
  show ?thesis by (simp add: written_def)
qed

lemma create_written:
  assumes "create gh k body seq (db, g) = (out, db', g')" and "out = Updated \<or> out = Created"
    and "ss_engine db" and "ss_rows db k = Some r"
  shows "written k seq db'"
proof -
  from assms(1,2) obtain c where "db' = set_pr_comment_id k c seq db"
    by (auto simp: create_def of_error_def split: prod.splits sum.splits gh_error.splits if_splits)
  then show ?thesis using set_id_rows [OF assms(3,4), of c seq] by (auto simp: written_def)
qed

lemma discover_written:
  assumes d: "discover gh app k body seq (db, g) = (out, db', g')" and out: "out = Updated \<or> out = Created"
    and e: "ss_engine db"
  shows "written k seq db'"
proof -
  obtain l g1 where l: "list_pages gh app PAGE_BOUND 1 g = (l, g1)" by (cases "list_pages gh app PAGE_BOUND 1 g")
  obtain won db1 where c: "claim_pr_comment k db = (won, db1)" by (cases "claim_pr_comment k db")
  from claim_slot_rows [OF c e] obtain r where r: "ss_rows db1 k = Some r" "ss_engine db1" by blast
  show ?thesis
  proof (cases l)
    case (Found cm)
    let ?db2 = "set_pr_comment_id k (cm_id cm) (seq_of cm) db1"
    from set_id_rows [OF r(2,1), of "cm_id cm" "seq_of cm"] obtain m where
      m: "ss_rows ?db2 k = Some (r\<lparr>sl_comment := Some (cm_id cm), sl_last := Some m\<rparr>)" "ss_engine ?db2" by blast
    from d l c Found out have "reserve_and_edit gh k body seq (cm_id cm) (?db2, g1) = (out, db', g')"
      by (auto simp: discover_def Let_def split: if_splits)
    from reserve_written [OF this out m(2,1)] show ?thesis by simp
  next
    case Nothing
    show ?thesis
    proof (cases "won \<or> pr_comment_id k db1 = None")
      case True
      with d l c Nothing have "create gh k body seq (db1, g1) = (out, db', g')"
        by (auto simp: discover_def split: bool.splits)
      from create_written [OF this out r(2,1)] show ?thesis .
    next
      case False
      with d l c Nothing obtain other where o: "pr_comment_id k db1 = Some other"
          and re: "reserve_and_edit gh k body seq other (db1, g1) = (out, db', g')"
        by (auto simp: discover_def split: bool.splits option.splits)
      from o r have "sl_comment r \<noteq> None" by (simp add: pr_comment_id_def)
      from reserve_written [OF re out r(2,1) this] show ?thesis .
    qed
  next
    case Bound
    with d l out show ?thesis by (auto simp: discover_def)
  next
    case (Broken x)
    with d l out show ?thesis
      by (auto simp: discover_def of_error_def split: gh_error.splits if_splits)
  qed
qed


text \<open>A GitHub with one comment, whose state is the body it shows; every request succeeds.\<close>

definition board :: "string github" where
  "board = \<lparr>gh_update = (\<lambda>c body g. (Inr (), body)),
     gh_list = (\<lambda>page g. (Inr [\<lparr>cm_id = 7, cm_body = g, cm_app = Some ''app''\<rparr>], g)),
     gh_create = (\<lambda>body g. (Inr 7, body))\<rparr>"

definition slot_at :: "pr_key \<Rightarrow> int option \<Rightarrow> int option \<Rightarrow> slots" where
  "slot_at k c m = \<lparr>ss_engine = True, ss_rows = (\<lambda>_. None)(k \<mapsto> \<lparr>sl_comment = c, sl_last = m\<rparr>)\<rparr>"


subsection \<open>Drainers that overlap\<close>

text \<open>Several jobs at their own stage, over one claim row and one GitHub; a turn is one call.\<close>

definition turn ::
  "'g github \<Rightarrow> string option \<Rightarrow> pr_key \<Rightarrow> (nat \<Rightarrow> string \<times> int) \<Rightarrow> nat
   \<Rightarrow> (nat \<Rightarrow> outcome + stage) \<times> slots \<times> 'g \<Rightarrow> (nat \<Rightarrow> outcome + stage) \<times> slots \<times> 'g" where
  "turn gh app k jobs i st =
     (case fst st i of
        Inl out \<Rightarrow> st
      | Inr stage \<Rightarrow>
          (case call gh app k (fst (jobs i)) (snd (jobs i)) stage (snd st) of
             (r, s) \<Rightarrow> ((fst st)(i := r), s)))"

definition interleave ::
  "'g github \<Rightarrow> string option \<Rightarrow> pr_key \<Rightarrow> (nat \<Rightarrow> string \<times> int) \<Rightarrow> nat list
   \<Rightarrow> slots \<times> 'g \<Rightarrow> (nat \<Rightarrow> outcome + stage) \<times> slots \<times> 'g" where
  "interleave gh app k jobs schedule s = fold (turn gh app k jobs) schedule (\<lambda>_. Inr Look, s)"

definition mark_le :: "slot option \<Rightarrow> slot option \<Rightarrow> bool" where
  "mark_le before after \<longleftrightarrow>
     (case before of None \<Rightarrow> True
      | Some r \<Rightarrow> (case after of None \<Rightarrow> True
        | Some r' \<Rightarrow> (case sl_last r of None \<Rightarrow> True
          | Some m \<Rightarrow> (case sl_last r' of None \<Rightarrow> False | Some n \<Rightarrow> m \<le> n))))"

lemma mark_le_refl: "mark_le r r"
  by (auto simp: mark_le_def split: option.split)

lemma mark_kept:
  "mark_le (ss_rows db k) (ss_rows (snd (claim_pr_comment_seq k seq db)) k)"
  "mark_le (ss_rows db k) (ss_rows (snd (claim_pr_comment k db)) k)"
  "mark_le (ss_rows db k) (ss_rows (set_pr_comment_id k c seq db) k)"
  "mark_le (ss_rows db k) (ss_rows (forget_pr_comment k db) k)"
  by (auto simp: mark_le_def claim_pr_comment_seq_def claim_pr_comment_def set_pr_comment_id_def
      forget_pr_comment_def Let_def split: option.split if_splits)

lemma call_slots:
  assumes "call gh app k body seq st (db, g) = (r, db', g')"
  shows "db' \<in> {db, snd (claim_pr_comment_seq k seq db), snd (claim_pr_comment k db), forget_pr_comment k db}
    \<or> (\<exists>c n. db' = set_pr_comment_id k c n db)"
proof (cases st)
  case (Page left page)
  with assms show ?thesis
    by (cases left) (auto split: prod.splits sum.splits option.splits)
qed (use assms in \<open>auto simp: edit_def split: prod.splits sum.splits option.splits if_splits\<close>)

text \<open>
  The mark only moves forward: whatever any of the interleaved jobs does in one turn, the mark
  of the claim row never decreases while the row exists; it restarts only where the row was deleted,
  after GitHub said the comment is gone.
\<close>
theorem mark_never_moves_back:
  "mark_le (ss_rows (fst (snd st)) k) (ss_rows (fst (snd (turn gh app k jobs i st))) k)"
proof (cases "fst st i")
  case (Inl out)
  then show ?thesis by (simp add: turn_def mark_le_refl)
next
  case (Inr stage)
  obtain r db' g' where c: "call gh app k (fst (jobs i)) (snd (jobs i)) stage (fst (snd st), snd (snd st))
      = (r, db', g')" by (cases "call gh app k (fst (jobs i)) (snd (jobs i)) stage (fst (snd st), snd (snd st))")
  have "mark_le (ss_rows (fst (snd st)) k) (ss_rows db' k)"
    using call_slots [OF c] by (elim disjE insertE exE emptyE) (simp_all add: mark_kept mark_le_refl)
  with Inr c show ?thesis by (simp add: turn_def)
qed

text \<open>
  C38. The reservation does not close the window it is taken for: with two jobs on a comment both can
  reach, the older may reserve first, the newer reserve and write, and the older write last; both
  report success, the mark names the newer job, and the comment shows the older verdict.
\<close>
theorem overlapping_drainers_can_overwrite:
  assumes "ss_engine db" and "ss_rows db k = Some r" and "sl_comment r = Some c"
    and "case sl_last r of None \<Rightarrow> True | Some m \<Rightarrow> m \<le> a" and "a < b"
    and "gh_update gh c new g = (Inr (), g1)" and "gh_update gh c old g1 = (Inr (), g2)"
    and "jobs 0 = (old, a)" and "jobs 1 = (new, b)"
  shows "case interleave gh app k jobs [0, 0, 1, 1, 1, 0] (db, g) of
      (stages, db', g') \<Rightarrow> stages 0 = Inl Updated \<and> stages 1 = Inl Updated \<and> g' = g2
        \<and> ss_rows db' k = Some (r\<lparr>sl_last := Some b\<rparr>)"
proof -
  let ?db1 = "db\<lparr>ss_rows := (ss_rows db)(k \<mapsto> r\<lparr>sl_last := Some a\<rparr>)\<rparr>"
  let ?db2 = "db\<lparr>ss_rows := (ss_rows db)(k \<mapsto> r\<lparr>sl_last := Some b\<rparr>)\<rparr>"
  have look: "pr_comment_id k db = Some c" "pr_comment_id k ?db1 = Some c"
    using assms(1-3) by (simp_all add: pr_comment_id_def)
  have r1: "claim_pr_comment_seq k a db = (True, ?db1)"
    using assms(1,2,4) by (simp add: claim_pr_comment_seq_def)
  have r2: "claim_pr_comment_seq k b ?db1 = (True, ?db2)"
    using assms(1,5) by (simp add: claim_pr_comment_seq_def)
  show ?thesis
    using look r1 r2 assms(6-9) by (simp add: interleave_def turn_def)
qed

theorem overlapping_drainers_can_overwrite_witness:
  "snd (snd (interleave board (Some ''app'') (1, 2, 3) (\<lambda>i. if i = 0 then (''old'', 5) else (''new'', 6))
     [0, 0, 1, 1, 1, 0] (slot_at (1, 2, 3) (Some 7) (Some 4), ''first''))) = ''old''"
proof -
  let ?jobs = "\<lambda>i::nat. if i = 0 then (''old'', 5::int) else (''new'', 6)"
  have "case interleave board (Some ''app'') (1, 2, 3) ?jobs [0, 0, 1, 1, 1, 0]
      (slot_at (1, 2, 3) (Some 7) (Some 4), ''first'') of
      (stages, db', g') \<Rightarrow> stages 0 = Inl Updated \<and> stages 1 = Inl Updated \<and> g' = ''old''
        \<and> ss_rows db' (1, 2, 3) = Some (\<lparr>sl_comment = Some 7, sl_last = Some 4\<rparr>\<lparr>sl_last := Some 6\<rparr>)"
    by (rule overlapping_drainers_can_overwrite [of _ _ _ 7 5 6 board "''new''" _ "''new''" "''old''"])
      (simp_all add: slot_at_def board_def)
  then show ?thesis by (simp split: prod.splits)
qed

subsection \<open>A comment is created only after a listing that completed\<close>

text \<open>GitHub answers the pages from \<open>page\<close> on with these batches.\<close>

fun answers :: "'g github \<Rightarrow> nat \<Rightarrow> 'g \<Rightarrow> comment list list \<Rightarrow> bool" where
  "answers gh page g [] = True"
| "answers gh page g (b # bs) =
     (case gh_list gh page g of (Inr batch, g') \<Rightarrow> batch = b \<and> answers gh (page + 1) g' bs | _ \<Rightarrow> False)"

lemma list_pages_nothing:
  "list_pages gh app left page g = (Nothing, g') \<Longrightarrow>
     \<exists>bs b. length bs < left \<and> answers gh page g (bs @ [b]) \<and> length b < PER_PAGE
       \<and> list_all (\<lambda>x. PER_PAGE \<le> length x) bs
       \<and> list_all (list_all (\<lambda>c. \<not> is_ours app c)) (bs @ [b])"
proof (induction gh app left page g arbitrary: g' rule: list_pages.induct)
  case (2 gh app left page g)
  from 2(2) obtain batch g1 where b: "gh_list gh page g = (Inr batch, g1)"
      and none: "List.find (is_ours app) batch = None"
    by (auto split: prod.splits sum.splits option.splits)
  from none have no: "list_all (\<lambda>c. \<not> is_ours app c) batch" by (simp add: find_None_iff list_all_iff)
  show ?case
  proof (cases "length batch < PER_PAGE")
    case True
    with b no show ?thesis by (intro exI [of _ "[]"] exI [of _ batch]) simp
  next
    case False
    with 2(2) b none have "list_pages gh app left (page + 1) g1 = (Nothing, g')" by simp
    from 2(1) [OF b [symmetric] refl none False this] obtain bs c where
      "length bs < left" "answers gh (page + 1) g1 (bs @ [c])" "length c < PER_PAGE"
      "list_all (\<lambda>x. PER_PAGE \<le> length x) bs"
      "list_all (list_all (\<lambda>c. \<not> is_ours app c)) (bs @ [c])" by blast
    with b no False show ?thesis by (intro exI [of _ "batch # bs"] exI [of _ c]) simp
  qed
qed simp

lemma reserve_not_created: "reserve_and_edit gh k body seq c s \<noteq> (Created, x)"
  by (auto simp: reserve_and_edit_def edit_def of_error_def split: prod.splits sum.splits gh_error.splits if_splits)

lemma discover_created:
  assumes "discover gh app k body seq s = (Created, x)"
  shows "\<exists>g. list_pages gh app PAGE_BOUND 1 (snd s) = (Nothing, g)"
proof -
  obtain l g where l: "list_pages gh app PAGE_BOUND 1 (snd s) = (l, g)"
    by (cases "list_pages gh app PAGE_BOUND 1 (snd s)")
  show ?thesis
  proof (cases l)
    case (Found c)
    with assms l reserve_not_created [of gh k body seq "cm_id c"] show ?thesis
      by (cases "seq < seq_of c") (auto simp only: discover_def Let_def prod.case listing.case if_True if_False
          prod.inject outcome.distinct)
  qed (use assms l in \<open>auto simp: discover_def of_error_def split: gh_error.splits if_splits\<close>)
qed

text \<open>
  A new comment is posted only after a listing that completed: when a job reports that it
  created the comment, GitHub had answered every page, at most ten, the last one short and the ones
  before it full, and no comment on any of them carried the marker and was written by this App.
\<close>
theorem created_after_a_complete_listing:
  assumes "upsert gh app k body seq s = (Created, s')"
  shows "\<exists>g bs b. length bs < PAGE_BOUND \<and> answers gh 1 g (bs @ [b]) \<and> length b < PER_PAGE
    \<and> list_all (\<lambda>x. PER_PAGE \<le> length x) bs \<and> list_all (list_all (\<lambda>c. \<not> is_ours app c)) (bs @ [b])"
proof -
  have "\<exists>t. discover gh app k body seq t = (Created, s')"
  proof (cases "pr_comment_id k (fst s)")
    case None
    with assms have "discover gh app k body seq s = (Created, s')" by (simp add: upsert_def)
    then show ?thesis by blast
  next
    case (Some stored)
    obtain won db res g where w: "claim_pr_comment_seq k seq (fst s) = (won, db)"
        and u: "gh_update gh stored body (snd s) = (res, g)"
      by (cases "claim_pr_comment_seq k seq (fst s)"; cases "gh_update gh stored body (snd s)")
    with assms Some show ?thesis
      by (cases res) (auto simp: upsert_def of_error_def split: gh_error.splits if_splits)
  qed
  then obtain t where "discover gh app k body seq t = (Created, s')" by blast
  from discover_created [OF this] obtain g where "list_pages gh app PAGE_BOUND 1 (snd t) = (Nothing, g)"
    by blast
  from list_pages_nothing [OF this] show ?thesis by blast
qed

definition empty_board :: "string github" where
  "empty_board = \<lparr>gh_update = (\<lambda>c body g. (Inr (), body)), gh_list = (\<lambda>page g. (Inr [], g)),
     gh_create = (\<lambda>body g. (Inr 7, body))\<rparr>"

theorem created_after_a_complete_listing_witness:
  "\<exists>g bs b. length bs < PAGE_BOUND \<and> answers empty_board 1 g (bs @ [b]) \<and> length b < PER_PAGE
    \<and> list_all (\<lambda>x. PER_PAGE \<le> length x) bs \<and> list_all (list_all (\<lambda>c. \<not> is_ours (Some ''app'') c)) (bs @ [b])"
proof (rule created_after_a_complete_listing)
  show "upsert empty_board (Some ''app'') (1, 2, 3) ''new'' 5 (\<lparr>ss_engine = False, ss_rows = \<lambda>_. None\<rparr>, ''old'')
      = (Created, \<lparr>ss_engine = False, ss_rows = \<lambda>_. None\<rparr>, ''new'')"
    by (simp add: upsert_def pr_comment_id_def discover_def empty_board_def PAGE_BOUND_def PER_PAGE_def
        claim_pr_comment_def create_def set_pr_comment_id_def eval_nat_numeral)
qed

subsection \<open>The frame\<close>

lemma cp_len_append [simp]: "cp_len (a @ b) = cp_len a + cp_len b"
  by (simp add: cp_len_def)

lemma frame_of_body:
  "frame_len (comment_body summary head_sha seq ls) summary =
     cp_len (marker_line head_sha seq) + cp_len (header_line head_sha) + cp_len (footer_line ls) + 10"
  by (simp add: frame_len_def comment_body_def) (simp add: cp_len_def cont_byte_code)

lemma dec_length: "n < 10 ^ k \<Longrightarrow> 0 < k \<Longrightarrow> length (dec n) \<le> k"
proof (induction k arbitrary: n)
  case (Suc k)
  show ?case
  proof (cases "n < 10")
    case True
    then show ?thesis by (subst dec.simps) simp
  next
    case False
    with Suc have "k \<noteq> 0" by (cases k) auto
    moreover have "n div 10 < 10 ^ k" using Suc.prems by (simp add: less_mult_imp_div_less mult.commute)
    ultimately have "length (dec (n div 10)) \<le> k" using Suc.IH by simp
    with False show ?thesis by (subst dec.simps) simp
  qed
qed simp

lemma cp_len_le: "cp_len s \<le> length s"
  by (simp add: cp_len_def)

lemma plain_frame:
  assumes "cp_len head_sha \<le> 64" and "0 \<le> seq" and "seq < 10 ^ 19"
  shows "frame_len (comment_body summary head_sha seq None) summary \<le> 300"
proof -
  have "nat seq < 10 ^ 19" using assms(2,3) by (simp add: nat_less_iff)
  then have "length (dec (nat seq)) \<le> 19" by (rule dec_length) simp
  then have "cp_len (dec_int seq) \<le> 19"
    using assms(2) cp_len_le [of "dec (nat seq)"] by (simp add: dec_int_def)
  then have "cp_len (marker_line head_sha seq) \<le> 115"
    using assms(1) by (simp add: marker_line_def MARKER_PREFIX_def) (simp add: cp_len_def cont_byte_code)
  moreover have "cp_len (header_line head_sha) \<le> 140"
    using cp_len_take [of 7 head_sha] by (simp add: header_line_def) (simp add: cp_len_def cont_byte_code)
  moreover have "cp_len (footer_line None) \<le> 20"
    by (simp add: footer_line_def DOT_def) (simp add: cp_len_def cont_byte_code)
  ultimately show ?thesis unfolding frame_of_body by simp
qed

text \<open>
  The comment always fits: for a commit id of up to 64 characters, a job id of up to 19 digits
  and any summary within the check run's limit, rendering never raises, whatever the configured web
  address is; the result is under GitHub's limit of 65,536 characters and repeats the summary between
  the frame lines, with the links or, where they are too long, without them.
\<close>
theorem comment_always_fits:
  assumes "cp_len head_sha \<le> 64" and "0 \<le> seq" and "seq < 10 ^ 19"
    and "cp_len summary \<le> SUMMARY_LIMIT"
  shows "\<exists>body. comment_render summary head_sha seq ls = Return body \<and> cp_len body \<le> 65536
    \<and> (body = comment_body summary head_sha seq ls \<or> body = comment_body summary head_sha seq None)"
proof -
  have fits: "cp_len (comment_body summary head_sha seq l) \<le> 65536"
    if "frame_len (comment_body summary head_sha seq l) summary \<le> FRAME_MAX" for l
    using that assms(4) by (simp add: frame_len_def FRAME_MAX_def SUMMARY_LIMIT_def)
  have plain: "frame_len (comment_body summary head_sha seq None) summary \<le> FRAME_MAX"
    using plain_frame [OF assms(1-3), of summary] by (simp add: FRAME_MAX_def)
  show ?thesis
  proof (cases "ls \<noteq> None \<and> FRAME_MAX < frame_len (comment_body summary head_sha seq ls) summary")
    case True
    with plain fits [OF plain] show ?thesis by (simp add: comment_render_def Let_def)
  next
    case False
    then have "frame_len (comment_body summary head_sha seq ls) summary \<le> FRAME_MAX"
      using plain by (cases ls) auto
    with fits [OF this] False show ?thesis by (simp add: comment_render_def Let_def)
  qed
qed

theorem comment_always_fits_witness:
  "\<exists>body. comment_render ''summary'' ''0123abc'' 5 None = Return body \<and> cp_len body \<le> 65536
    \<and> (body = comment_body ''summary'' ''0123abc'' 5 None \<or> body = comment_body ''summary'' ''0123abc'' 5 None)"
proof (rule comment_always_fits)
  show "cp_len ''0123abc'' \<le> 64" by code_simp
  have "cp_len ''summary'' \<le> 100" by code_simp
  then show "cp_len ''summary'' \<le> SUMMARY_LIMIT" by (simp add: SUMMARY_LIMIT_def)
qed simp_all

lemma marker_seq_line:
  assumes "list_all hex_lower sha" and "7 \<le> length sha" and "length sha \<le> 64" and "0 \<le> seq"
  shows "marker_seq (marker_line sha seq @ t) = Some seq"
proof -
  have blank: "\<not> hex_lower (CHR '' '')" "\<not> digit_char (CHR '' '')" by code_simp+
  have sha: "takeWhile hex_lower (sha @ CHR '' '' # u) = sha" "dropWhile hex_lower (sha @ CHR '' '' # u) = CHR '' '' # u"
    for u using assms(1) blank by (simp_all add: list_all_iff)
  have ds: "list_all digit_char (dec (nat seq))" using dec_digits by (auto simp: list_all_iff)
  then have digits: "takeWhile digit_char (dec (nat seq) @ CHR '' '' # u) = dec (nat seq)"
      "dropWhile digit_char (dec (nat seq) @ CHR '' '' # u) = CHR '' '' # u" for u
    using blank by (simp_all add: list_all_iff)
  have line: "marker_line sha seq @ t = (MARKER_PREFIX @ '' head='') @ sha @ CHR '' '' # ''seq='' @
      dec (nat seq) @ CHR '' '' # ''-->'' @ t"
    using assms(4) by (simp add: marker_line_def dec_int_def)
  show ?thesis
    unfolding line marker_seq_def
    using assms(2-4) sha digits
    by (simp add: Let_def startswith_prefix)
qed

text \<open>
  The next job finds what this one posted: a rendered body is recognised as this App's comment
  and its marker reads back as the job's own id, so the comparison of job ids works on the comment
  itself even without storage.
\<close>
theorem posted_comment_reads_back:
  assumes "comment_render summary sha seq ls = Return body"
    and "list_all hex_lower sha" and "7 \<le> length sha" and "length sha \<le> 64" and "0 \<le> seq"
    and "app \<noteq> []"
  shows "is_ours (Some app) \<lparr>cm_id = c, cm_body = body, cm_app = Some app\<rparr>
    \<and> seq_of \<lparr>cm_id = c, cm_body = body, cm_app = Some app\<rparr> = seq"
proof -
  from assms(1) obtain l where "body = comment_body summary sha seq l"
    by (auto simp: comment_render_def Let_def split: if_splits)
  then obtain t where b: "body = marker_line sha seq @ t" by (simp add: comment_body_def)
  then have "startswith body MARKER_PREFIX" by (simp add: marker_line_def)
  with assms(6) marker_seq_line [OF assms(2-5), of t] b show ?thesis
    by (simp add: is_ours_def seq_of_def)
qed

theorem posted_comment_reads_back_witness:
  "seq_of \<lparr>cm_id = 7, cm_body = comment_body ''s'' ''0123abc'' 5 None, cm_app = Some ''app''\<rparr> = 5"
proof -
  have "frame_len (comment_body ''s'' ''0123abc'' 5 None) ''s'' \<le> 300"
    by (rule plain_frame) (code_simp, simp_all)
  then have "comment_render ''s'' ''0123abc'' 5 None = Return (comment_body ''s'' ''0123abc'' 5 None)"
    by (simp add: comment_render_def FRAME_MAX_def)
  moreover have "list_all hex_lower ''0123abc''" by code_simp
  ultimately show ?thesis
    using posted_comment_reads_back [of "''s''" "''0123abc''" 5 None _ "''app''" 7] by simp
qed

end
