(* ===== verification/Digest.thy ===== *)
theory Digest
  imports Text_Units "HOL-Library.Word"
begin

text \<open>
  The checksum, digest and encodings of the standard library that the token format and the key
  store use: \<open>zlib.crc32\<close>, \<open>hashlib.sha256\<close>, \<open>hmac.new(...).hexdigest()\<close> and
  \<open>base64.b64decode(..., validate=True)\<close>, on byte strings, with the 32-bit arithmetic wrapping as the
  algorithms prescribe. What is proved is what the token format relies on: the checksum tells two
  byte strings apart whenever they differ in one byte only.
\<close>

unbundle bit_operations_syntax

subsection \<open>CRC-32\<close>

definition CRC_POLY :: "32 word" where "CRC_POLY = 0xEDB88320"

definition crc_bit :: "32 word \<Rightarrow> 32 word" where
  "crc_bit s = (if bit s 0 then drop_bit 1 s XOR CRC_POLY else drop_bit 1 s)"

definition crc_byte :: "32 word \<Rightarrow> char \<Rightarrow> 32 word" where
  "crc_byte s c = (crc_bit ^^ 8) (s XOR of_char c)"

definition crc32 :: "string \<Rightarrow> 32 word" where
  "crc32 s = NOT (foldl crc_byte (NOT 0) s)"

text \<open>
  One step is injective: the polynomial has its top bit set and the shift clears it, so the top bit
  of the result is the bit that was shifted out.
\<close>

lemma crc_poly_top: "bit CRC_POLY 31"
  by (simp add: CRC_POLY_def)

lemma drop_bit_1_top: "\<not> bit (drop_bit (Suc 0) (s :: 32 word)) 31"
  using bit_imp_le_length [of s 32] by (auto simp: bit_drop_bit_eq)

lemma crc_bit_top: "bit (crc_bit s) 31 = bit s 0"
  by (simp add: crc_bit_def bit_xor_iff crc_poly_top drop_bit_1_top)

lemma xor_right_cancel: "(a :: 32 word) XOR c = b XOR c \<longleftrightarrow> a = b"
  by (auto simp: bit_eq_iff bit_xor_iff)

lemma xor_left_cancel: "(c :: 32 word) XOR a = c XOR b \<longleftrightarrow> a = b"
  by (auto simp: bit_eq_iff bit_xor_iff)

lemma crc_bit_inj: "crc_bit s = crc_bit t \<Longrightarrow> s = t"
proof -
  assume eq: "crc_bit s = crc_bit t"
  then have low: "bit s 0 = bit t 0" using crc_bit_top [of s] crc_bit_top [of t] by simp
  with eq have shifted: "drop_bit 1 s = drop_bit 1 t"
    by (cases "bit t 0") (simp_all add: crc_bit_def xor_right_cancel)
  have "bit s (Suc n) = bit t (Suc n)" for n
    using arg_cong [OF shifted, of "\<lambda>w. bit w n"] by (simp add: bit_drop_bit_eq)
  with low have "bit s n = bit t n" for n by (cases n) simp_all
  then show "s = t" by (simp add: bit_eq_iff)
qed

lemma crc_bits_inj: "(crc_bit ^^ n) s = (crc_bit ^^ n) t \<Longrightarrow> s = t"
  by (induction n) (auto dest: crc_bit_inj)

lemma crc_byte_inj_state: "crc_byte s c = crc_byte t c \<Longrightarrow> s = t"
  unfolding crc_byte_def by (drule crc_bits_inj) (simp add: xor_right_cancel)

lemma of_char_word_inj:
  assumes "(of_char c :: 32 word) = of_char d" shows "c = d"
proof -
  have "unat (of_char e :: 32 word) = of_char e" for e :: char
  proof -
    have "(of_char e :: nat) < 2 ^ LENGTH(32)" by (rule less_le_trans [OF nat_of_char_less_256]) simp
    then have "unat (of_nat (of_char e) :: 32 word) = of_char e" by (simp add: unat_of_nat take_bit_nat_eq_self)
    then show ?thesis by (simp only: of_nat_of_char)
  qed
  with assms have "(of_char c :: nat) = of_char d" by metis
  then show ?thesis by simp
qed

lemma crc_byte_inj_char: "crc_byte s c = crc_byte s d \<Longrightarrow> c = d"
  unfolding crc_byte_def by (drule crc_bits_inj) (auto simp: xor_left_cancel dest: of_char_word_inj)

lemma crc_fold_inj: "foldl crc_byte s xs = foldl crc_byte t xs \<Longrightarrow> s = t"
  by (induction xs arbitrary: s t) (auto dest: crc_byte_inj_state)

lemma crc32_one_byte: "crc32 (a @ c # b) = crc32 (a @ d # b) \<longleftrightarrow> c = d"
  by (auto simp: crc32_def dest: crc_fold_inj crc_byte_inj_char)

subsection \<open>SHA-256\<close>

text \<open>
  The constants as the standard defines them: the first 32 fractional bits of the cube roots of the
  first 64 primes, and of the square roots of the first 8. The root is found bit by bit.
\<close>

definition small_primes :: "nat list" where
  "small_primes = filter (\<lambda>n. list_all (\<lambda>d. n mod d \<noteq> 0) [2..<n]) [2..<312]"

definition root_floor :: "nat \<Rightarrow> nat \<Rightarrow> nat" where
  "root_floor k m = foldl (\<lambda>r i. if (r + 2 ^ i) ^ k \<le> m then r + 2 ^ i else r) 0 (rev [0..<40])"

definition root_bits :: "nat \<Rightarrow> nat \<Rightarrow> 32 word" where
  "root_bits k p = of_nat (root_floor k (p * 2 ^ (32 * k)))"

definition K256 :: "32 word list" where
  "K256 = map (root_bits 3) small_primes"

definition H256 :: "32 word list" where
  "H256 = map (root_bits 2) (take 8 small_primes)"

definition rotr :: "nat \<Rightarrow> 32 word \<Rightarrow> 32 word" where
  "rotr n w = drop_bit n w OR push_bit (32 - n) w"

text \<open>The message schedule, newest word first: the word \<open>t - k\<close> is at index \<open>k - 1\<close>.\<close>

definition schedule_step :: "32 word list \<Rightarrow> 32 word list" where
  "schedule_step ws =
     (let s0 = (let w = ws ! 14 in rotr 7 w XOR rotr 18 w XOR drop_bit 3 w);
          s1 = (let w = ws ! 1 in rotr 17 w XOR rotr 19 w XOR drop_bit 10 w)
      in (ws ! 15 + s0 + ws ! 6 + s1) # ws)"

definition schedule :: "32 word list \<Rightarrow> 32 word list" where
  "schedule block = rev ((schedule_step ^^ 48) (rev block))"

fun sha_round :: "32 word list \<Rightarrow> 32 word \<times> 32 word \<Rightarrow> 32 word list" where
  "sha_round [a, b, c, d, e, f, g, h] (k, w) =
     (let t1 = h + (rotr 6 e XOR rotr 11 e XOR rotr 25 e) + ((e AND f) XOR (NOT e AND g)) + k + w;
          t2 = (rotr 2 a XOR rotr 13 a XOR rotr 22 a) + ((a AND b) XOR (a AND c) XOR (b AND c))
      in [t1 + t2, a, b, c, d + t1, e, f, g])"
| "sha_round st kw = st"

definition sha_block :: "32 word list \<Rightarrow> 32 word list \<Rightarrow> 32 word list" where
  "sha_block st block = map2 (+) st (foldl sha_round st (zip K256 (schedule block)))"

definition byte_of :: "nat \<Rightarrow> 32 word \<Rightarrow> char" where
  "byte_of k w = char_of (unat (drop_bit (8 * k) w AND 255))"

definition bytes_of_word :: "32 word \<Rightarrow> string" where
  "bytes_of_word w = [byte_of 3 w, byte_of 2 w, byte_of 1 w, byte_of 0 w]"

fun words_of_bytes :: "string \<Rightarrow> 32 word list" where
  "words_of_bytes (a # b # c # d # s) =
     (push_bit 24 (of_char a) OR push_bit 16 (of_char b) OR push_bit 8 (of_char c) OR of_char d)
       # words_of_bytes s"
| "words_of_bytes s = []"

text \<open>Padding: a one bit, zeros to 56 modulo 64 bytes, the length in bits as a 64-bit number.\<close>

definition sha_pad :: "string \<Rightarrow> string" where
  "sha_pad s =
     (let n = length s; zeros = (119 - n mod 64) mod 64
      in s @ CHR 0x80 # replicate zeros (CHR 0x00)
         @ bytes_of_word (of_nat (8 * n div 2 ^ 32)) @ bytes_of_word (of_nat (8 * n)))"

fun sha_blocks :: "32 word list \<Rightarrow> 32 word list \<Rightarrow> 32 word list" where
  "sha_blocks st [] = st"
| "sha_blocks st (w # ws) = sha_blocks (sha_block st (take 16 (w # ws))) (drop 15 ws)"

definition sha256_bytes :: "string \<Rightarrow> string" where
  "sha256_bytes s = concat (map bytes_of_word (sha_blocks H256 (words_of_bytes (sha_pad s))))"

definition hex_of :: "nat \<Rightarrow> char" where
  "hex_of n = (if n < 10 then digit_of n else char_of (87 + n))"

definition hexdigest :: "string \<Rightarrow> string" where
  "hexdigest s = concat (map (\<lambda>c. [hex_of (of_char c div 16), hex_of (of_char c mod 16)]) s)"

subsection \<open>HMAC\<close>

definition hmac_key :: "string \<Rightarrow> string" where
  "hmac_key k = (let k' = (if 64 < length k then sha256_bytes k else k)
                 in k' @ replicate (64 - length k') (CHR 0x00))"

definition xor_byte :: "nat \<Rightarrow> char \<Rightarrow> char" where
  "xor_byte m c = char_of (m XOR of_char c :: nat)"

text \<open>\<open>hmac.new(key, msg, hashlib.sha256).hexdigest()\<close>.\<close>

definition hmac_sha256_hex :: "string \<Rightarrow> string \<Rightarrow> string" where
  "hmac_sha256_hex key msg =
     (let k = hmac_key key
      in hexdigest (sha256_bytes (map (xor_byte 0x5c) k @ sha256_bytes (map (xor_byte 0x36) k @ msg))))"

subsection \<open>Base64\<close>

definition b64_value :: "char \<Rightarrow> nat option" where
  "b64_value c =
     (if upper_ascii c then Some (of_char c - 65)
      else if lower_ascii c then Some (of_char c - 71)
      else if digit_char c then Some (of_char c + 4)
      else if c = CHR ''+'' then Some 62 else if c = CHR ''/'' then Some 63 else None)"

definition b64_pad :: char where "b64_pad = CHR ''=''"

text \<open>
  \<open>base64.b64decode(s, validate=True)\<close>: groups of four characters of the alphabet, the last one with
  one or two padding characters; \<open>None\<close> is the \<open>binascii.Error\<close> (and the \<open>ValueError\<close> for text that
  is not ASCII). Bits of the last group that no byte uses are ignored.
\<close>

fun b64decode :: "string \<Rightarrow> string option" where
  "b64decode [] = Some []"
| "b64decode (a # b # c # d # s) =
     (case (b64_value a, b64_value b) of
        (Some x, Some y) \<Rightarrow>
          (let one = char_of (4 * x + y div 16) in
           if c = b64_pad then (if d = b64_pad \<and> s = [] then Some [one] else None)
           else case b64_value c of
             None \<Rightarrow> None
           | Some z \<Rightarrow>
               (let two = char_of (16 * (y mod 16) + z div 4) in
                if d = b64_pad then (if s = [] then Some [one, two] else None)
                else case b64_value d of
                  None \<Rightarrow> None
                | Some w \<Rightarrow> map_option (\<lambda>r. one # two # char_of (64 * (z mod 4) + w) # r) (b64decode s)))
      | _ \<Rightarrow> None)"
| "b64decode s = None"

end
