(* ===== verification/Keyformat.thy ===== *)
theory Keyformat
  imports Digest
begin

text \<open>
  The \<open>doug_live_\<close> token format, \<open>api/doug/keyformat.py\<close>: minting, parsing and the offline checksum.
  The random choices of \<open>secrets.choice\<close> are the list of alphabet positions that were drawn. A token
  is read as its UTF-8 bytes; a token with other than ASCII characters is refused either way, by its
  length or by the alphabet.
\<close>

definition PREFIX :: string where "PREFIX = ''doug_live_''"
definition TEST_PREFIX :: string where "TEST_PREFIX = ''doug_test_''"
definition ALPHABET :: string where
  "ALPHABET = ''0123456789ABCDEFGHIJKLMNOPQRSTUVWXYZabcdefghijklmnopqrstuvwxyz''"
definition LOOKUP_LEN :: nat where "LOOKUP_LEN = 8"
definition SECRET_LEN :: nat where "SECRET_LEN = 43"
definition CRC_LEN :: nat where "CRC_LEN = 6"

record minted =
  mt_token :: string
  mt_lookup :: string
  mt_secret :: string
  mt_last4 :: string

record parsed =
  pa_lookup :: string
  pa_secret :: string

text \<open>The loop of \<open>_b62\<close>, least digit first, then the reversal and \<open>rjust\<close>.\<close>

fun b62_digits :: "nat \<Rightarrow> string" where
  "b62_digits n = (if n = 0 then [] else ALPHABET ! (n mod 62) # b62_digits (n div 62))"

declare b62_digits.simps [simp del]

definition rjust :: "nat \<Rightarrow> char \<Rightarrow> string \<Rightarrow> string" where
  "rjust width c s = replicate (width - length s) c @ s"

definition b62 :: "nat \<Rightarrow> nat \<Rightarrow> string" where
  "b62 n width =
     (let s = rev (b62_digits n) in rjust width (CHR ''0'') (if s = [] then ''0'' else s))"

definition crc :: "string \<Rightarrow> string \<Rightarrow> string" where
  "crc lookup secret = b62 (unat (crc32 (lookup @ secret))) CRC_LEN"

definition rand :: "nat list \<Rightarrow> string" where
  "rand draws = map ((!) ALPHABET) draws"

definition generate :: "nat list \<Rightarrow> minted" where
  "generate draws =
     (let lookup = rand (take LOOKUP_LEN draws); secret = rand (take SECRET_LEN (drop LOOKUP_LEN draws))
      in \<lparr>mt_token = PREFIX @ lookup @ ''_'' @ secret @ crc lookup secret,
           mt_lookup = lookup, mt_secret = secret, mt_last4 = drop (length secret - 4) secret\<rparr>)"

definition parse :: "string \<Rightarrow> parsed option" where
  "parse token =
     (if startswith token TEST_PREFIX then None
      else if \<not> startswith token PREFIX then None
      else case str_partition (drop (length PREFIX) token) ''_'' of
        (lookup, sep, tail) \<Rightarrow>
          if \<not> sep \<or> length lookup \<noteq> LOOKUP_LEN \<or> length tail \<noteq> SECRET_LEN + CRC_LEN then None
          else let secret = take SECRET_LEN tail; check = drop SECRET_LEN tail
               in if \<exists>c \<in> set (lookup @ secret @ check). c \<notin> set ALPHABET then None
                  else if check \<noteq> crc lookup secret then None
                  else Some \<lparr>pa_lookup = lookup, pa_secret = secret\<rparr>)"

subsection \<open>Six base-62 characters\<close>

lemma length_ALPHABET [simp]: "length ALPHABET = 62"
  by (simp add: ALPHABET_def)

lemma ALPHABET_distinct: "distinct ALPHABET"
  by (simp add: ALPHABET_def)

lemma underscore_fresh: "CHR ''_'' \<notin> set ALPHABET"
  by (simp add: ALPHABET_def)

lemma ALPHABET_0: "ALPHABET ! 0 = CHR ''0''"
  by (simp add: ALPHABET_def)

lemma in_ALPHABET: "n < 62 \<Longrightarrow> ALPHABET ! n \<in> set ALPHABET"
  by simp

lemma b62_digits_0 [simp]: "b62_digits 0 = []"
  by (simp add: b62_digits.simps)

lemma b62_digits_set: "set (b62_digits n) \<subseteq> set ALPHABET"
proof (induction n rule: b62_digits.induct)
  case (1 n)
  then show ?case by (subst b62_digits.simps) (auto simp: in_ALPHABET)
qed

lemma b62_digits_length: "n < 62 ^ k \<Longrightarrow> length (b62_digits n) \<le> k"
proof (induction k arbitrary: n)
  case (Suc k)
  then have "n div 62 < 62 ^ k" by (simp add: less_mult_imp_div_less mult.commute)
  from Suc.IH [OF this] show ?case by (subst b62_digits.simps) simp
qed simp

text \<open>The number a digit string stands for, least digit first: zeros on top do not change it.\<close>

definition digit_index :: "char \<Rightarrow> nat" where
  "digit_index c = (LEAST i. i < 62 \<and> ALPHABET ! i = c)"

fun b62_value :: "string \<Rightarrow> nat" where
  "b62_value [] = 0"
| "b62_value (c # s) = digit_index c + 62 * b62_value s"

lemma digit_index_nth: "n < 62 \<Longrightarrow> digit_index (ALPHABET ! n) = n"
  unfolding digit_index_def
  by (rule Least_equality) (auto simp: nth_eq_iff_index_eq [OF ALPHABET_distinct])

lemma b62_value_digits: "b62_value (b62_digits n) = n"
proof (induction n rule: b62_digits.induct)
  case (1 n)
  then show ?case by (subst b62_digits.simps) (simp add: digit_index_nth)
qed

lemma b62_value_zeros: "b62_value (s @ replicate k (CHR ''0'')) = b62_value s"
proof -
  have z: "digit_index (CHR ''0'') = 0" using digit_index_nth [of 0] by (simp add: ALPHABET_0)
  have "b62_value (replicate k (CHR ''0'')) = 0" by (induction k) (simp_all add: z)
  then show ?thesis by (induction s) simp_all
qed

lemma b62_padded:
  "\<exists>k. rev (b62 n w) = b62_digits n @ replicate k (CHR ''0'')"
proof (cases "n = 0")
  case True
  have "rev (b62 n w) = replicate (Suc (w - 1)) (CHR ''0'')"
    by (simp add: True b62_def rjust_def replicate_append_same)
  then show ?thesis by (metis True append_Nil b62_digits_0)
next
  case False
  then have "b62_digits n \<noteq> []" by (subst b62_digits.simps) simp
  then show ?thesis by (auto simp: b62_def rjust_def Let_def)
qed

lemma b62_inj: "b62 m w = b62 n w \<Longrightarrow> m = n"
proof -
  assume eq: "b62 m w = b62 n w"
  obtain j k where "rev (b62 m w) = b62_digits m @ replicate j (CHR ''0'')"
      "rev (b62 n w) = b62_digits n @ replicate k (CHR ''0'')" using b62_padded by meson
  with eq have "b62_value (b62_digits m @ replicate j (CHR ''0'')) = b62_value (b62_digits n @ replicate k (CHR ''0''))"
    by simp
  then show "m = n" by (simp only: b62_value_zeros b62_value_digits)
qed

lemma b62_length: "n < 62 ^ w \<Longrightarrow> 0 < w \<Longrightarrow> length (b62 n w) = w"
  using b62_digits_length [of n w] by (auto simp: b62_def rjust_def Let_def)

lemma b62_set: "set (b62 n w) \<subseteq> set ALPHABET"
proof -
  have "CHR ''0'' \<in> set ALPHABET" using in_ALPHABET [of 0] by (simp add: ALPHABET_0)
  then show ?thesis using b62_digits_set [of n] by (auto simp: b62_def rjust_def Let_def)
qed

lemma crc_length: "length (crc lookup secret) = CRC_LEN"
proof -
  have "unat (crc32 (lookup @ secret)) < 2 ^ 32" using unsigned_less [of "crc32 (lookup @ secret)"] by simp
  then have "unat (crc32 (lookup @ secret)) < 62 ^ 6" by simp
  then show ?thesis by (simp add: crc_def CRC_LEN_def b62_length)
qed

lemma crc_set: "set (crc lookup secret) \<subseteq> set ALPHABET"
  by (simp add: crc_def b62_set)

lemma crc_eq: "crc a b = crc c d \<Longrightarrow> crc32 (a @ b) = crc32 (c @ d)"
  unfolding crc_def by (drule b62_inj) (rule unsigned_word_eqI)

subsection \<open>What parses\<close>

definition token_of :: "string \<Rightarrow> string \<Rightarrow> string" where
  "token_of lookup secret = PREFIX @ lookup @ ''_'' @ secret @ crc lookup secret"

lemma not_test: "startswith (PREFIX @ s) PREFIX" "\<not> startswith (PREFIX @ s) TEST_PREFIX"
  by (simp_all add: startswith_def PREFIX_def TEST_PREFIX_def)

lemma prefix_rest: "startswith t PREFIX \<Longrightarrow> t = PREFIX @ drop (length PREFIX) t"
  unfolding startswith_def by (metis append_take_drop_id)

lemma parse_token_of:
  assumes "length l = LOOKUP_LEN" "length s = SECRET_LEN" "set l \<subseteq> set ALPHABET" "set s \<subseteq> set ALPHABET"
  shows "parse (token_of l s) = Some \<lparr>pa_lookup = l, pa_secret = s\<rparr>"
proof -
  have "CHR ''_'' \<notin> set l" using assms(3) underscore_fresh by blast
  then have p: "str_partition (l @ CHR ''_'' # s @ crc l s) ''_'' = (l, True, s @ crc l s)"
    by (rule str_partition_char)
  show ?thesis
    unfolding parse_def token_of_def
    using assms crc_set [of l s] by (auto simp: not_test p crc_length Let_def)
qed

lemma parse_Some:
  assumes "parse t = Some p"
  shows "t = token_of (pa_lookup p) (pa_secret p)
     \<and> length (pa_lookup p) = LOOKUP_LEN \<and> length (pa_secret p) = SECRET_LEN
     \<and> set (pa_lookup p @ pa_secret p) \<subseteq> set ALPHABET"
proof -
  from assms have live: "startswith t PREFIX" by (auto simp: parse_def split: if_splits)
  obtain l sep tail where q: "str_partition (drop (length PREFIX) t) ''_'' = (l, sep, tail)"
    by (cases "str_partition (drop (length PREFIX) t) ''_''")
  with assms have sep: "sep" and len: "length l = LOOKUP_LEN" "length tail = SECRET_LEN + CRC_LEN"
    and alpha: "set (l @ take SECRET_LEN tail) \<subseteq> set ALPHABET"
    and ok: "drop SECRET_LEN tail = crc l (take SECRET_LEN tail)"
    and p: "p = \<lparr>pa_lookup = l, pa_secret = take SECRET_LEN tail\<rparr>"
    by (auto simp: parse_def Let_def split: if_splits)
  from q sep have "drop (length PREFIX) t = l @ ''_'' @ tail" by (auto dest: str_partition_found)
  with prefix_rest [OF live] have "t = PREFIX @ l @ ''_'' @ take SECRET_LEN tail @ drop SECRET_LEN tail"
    by simp
  with len alpha ok p show ?thesis by (simp add: token_of_def)
qed

text \<open>
  The format, exactly: parsing accepts the strings made of the live prefix, an eight character
  lookup, an underscore, a 43 character secret and the six character checksum of the two, over the
  base-62 alphabet, and no others; and it returns that lookup and that secret.
\<close>
theorem parse_accepts_the_format:
  "parse t = Some p \<longleftrightarrow>
     t = PREFIX @ pa_lookup p @ ''_'' @ pa_secret p @ crc (pa_lookup p) (pa_secret p)
     \<and> length (pa_lookup p) = LOOKUP_LEN \<and> length (pa_secret p) = SECRET_LEN
     \<and> set (pa_lookup p @ pa_secret p) \<subseteq> set ALPHABET"
  using parse_Some [of t p] parse_token_of [of "pa_lookup p" "pa_secret p"] by (auto simp: token_of_def)

subsection \<open>Minting\<close>

lemma rand_set: "list_all (\<lambda>i. i < 62) draws \<Longrightarrow> set (rand draws) \<subseteq> set ALPHABET"
  by (auto simp: rand_def list_all_iff in_ALPHABET)

lemma minted_parses:
  assumes "length draws = LOOKUP_LEN + SECRET_LEN" and "list_all (\<lambda>i. i < 62) draws"
  shows "parse (mt_token (generate draws)) =
    Some \<lparr>pa_lookup = mt_lookup (generate draws), pa_secret = mt_secret (generate draws)\<rparr>"
proof -
  have l: "set (rand (take LOOKUP_LEN draws)) \<subseteq> set ALPHABET"
    by (rule rand_set) (use assms(2) in \<open>auto simp: list_all_iff dest: in_set_takeD\<close>)
  have s: "set (rand (take SECRET_LEN (drop LOOKUP_LEN draws))) \<subseteq> set ALPHABET"
    by (rule rand_set) (use assms(2) in \<open>auto simp: list_all_iff dest: in_set_takeD in_set_dropD\<close>)
  from parse_token_of [OF _ _ l s] assms(1) show ?thesis
    by (simp add: generate_def token_of_def rand_def Let_def)
qed

text \<open>
  A minted token parses back to its own lookup and secret, whatever was drawn.
\<close>
theorem minted_token_parses:
  assumes "length draws = LOOKUP_LEN + SECRET_LEN" and "list_all (\<lambda>i. i < 62) draws"
  shows "parse (mt_token (generate draws)) =
    Some \<lparr>pa_lookup = mt_lookup (generate draws), pa_secret = mt_secret (generate draws)\<rparr>"
  by (rule minted_parses [OF assms])

theorem minted_token_parses_witness:
  "parse (mt_token (generate (replicate 51 7))) =
    Some \<lparr>pa_lookup = mt_lookup (generate (replicate 51 7)), pa_secret = mt_secret (generate (replicate 51 7))\<rparr>"
  by (rule minted_token_parses) (simp_all add: LOOKUP_LEN_def SECRET_LEN_def list_all_iff)

subsection \<open>One character changed\<close>

text \<open>Two strings that differ in exactly one place.\<close>

definition differ_once :: "string \<Rightarrow> string \<Rightarrow> bool" where
  "differ_once t u \<longleftrightarrow> (\<exists>a c d b. t = a @ c # b \<and> u = a @ d # b \<and> c \<noteq> d)"

lemma differ_once_append:
  assumes "differ_once (p @ q) (p' @ q')" and "length p = length p'"
  shows "differ_once p p' \<and> q = q' \<or> p = p' \<and> differ_once q q'"
proof -
  from assms(1) obtain a c d b where t: "p @ q = a @ c # b" "p' @ q' = a @ d # b" "c \<noteq> d"
    by (auto simp: differ_once_def)
  show ?thesis
  proof (cases "length a < length p")
    case True
    with t(1) obtain b1 where b1: "p = a @ c # b1" "b = b1 @ q"
      by (auto simp: append_eq_append_conv2 append_eq_Cons_conv)
    from t(2) b1 assms(2) have "p' @ q' = (a @ d # b1) @ q" "length p' = length (a @ d # b1)" by auto
    then have "p' = a @ d # b1 \<and> q' = q" by (metis append_eq_append_conv)
    with b1 t(3) show ?thesis by (auto simp: differ_once_def)
  next
    case False
    with t(1) obtain a1 where a1: "a = p @ a1" "q = a1 @ c # b"
      by (auto simp: append_eq_append_conv2 append_eq_Cons_conv)
    from t(2) a1 assms(2) have "p' @ q' = p @ (a1 @ d # b)" by auto
    with assms(2) have "p' = p" "q' = a1 @ d # b" by (auto simp: append_eq_append_conv)
    with a1 t(3) show ?thesis by (auto simp: differ_once_def)
  qed
qed

lemma differ_once_irrefl: "\<not> differ_once p p"
  by (auto simp: differ_once_def)

lemma differ_once_context: "differ_once p q \<Longrightarrow> differ_once (x @ p @ y) (x @ q @ y)"
  unfolding differ_once_def by (metis append.assoc append_Cons)

lemma differ_once_crc:
  assumes "differ_once (l @ s) (l' @ s')"
  shows "crc l s \<noteq> crc l' s'"
proof
  assume "crc l s = crc l' s'"
  then have eq: "crc32 (l @ s) = crc32 (l' @ s')" by (rule crc_eq)
  from assms obtain a c d b where "l @ s = a @ c # b" "l' @ s' = a @ d # b" "c \<noteq> d"
    by (auto simp: differ_once_def)
  with eq show False by (simp add: crc32_one_byte)
qed

lemma tokens_differ_twice:
  assumes "differ_once (token_of l s) (token_of l' s')"
    and "length l = length l'" and "length s = length s'"
  shows False
proof -
  have c: "length (crc l s) = length (crc l' s')" by (simp add: crc_length)
  have "differ_once (l @ ''_'' @ s @ crc l s) (l' @ ''_'' @ s' @ crc l' s')"
    using differ_once_append [of PREFIX _ PREFIX] assms(1) by (auto simp: token_of_def differ_once_irrefl)
  from differ_once_append [OF this assms(2)] show False
  proof
    assume "differ_once l l' \<and> ''_'' @ s @ crc l s = ''_'' @ s' @ crc l' s'"
    with assms(3) have "differ_once l l'" "s = s'" "crc l s = crc l' s'" by (auto simp: append_eq_append_conv)
    with differ_once_context [of l l' "[]" s] differ_once_crc [of l s l' s'] show False by simp
  next
    assume a: "l = l' \<and> differ_once (''_'' @ s @ crc l s) (''_'' @ s' @ crc l' s')"
    then have "differ_once (s @ crc l s) (s' @ crc l' s')"
      using differ_once_append [of "''_''" _ "''_''"] by (auto simp: differ_once_irrefl)
    from differ_once_append [OF this assms(3)] show False
    proof
      assume "differ_once s s' \<and> crc l s = crc l' s'"
      with a differ_once_context [of s s' l "[]"] differ_once_crc [of l s l' s'] show False by simp
    next
      assume "s = s' \<and> differ_once (crc l s) (crc l' s')"
      with a show False using differ_once_irrefl by metis
    qed
  qed
qed

text \<open>
  C32. A token with one character changed, wherever it is and whatever it becomes, is refused before
  any database is asked: in the lookup or the secret because the checksum changes with every single
  byte, in the checksum because the rest does not, in the prefix or the separator because they are
  literal.
\<close>
theorem one_changed_character_is_refused:
  assumes "parse (a @ c # b) = Some p" and "d \<noteq> c"
  shows "parse (a @ d # b) = None"
proof (cases "parse (a @ d # b)")
  case (Some q)
  have "differ_once (a @ c # b) (a @ d # b)" using assms(2) by (auto simp: differ_once_def)
  with parse_Some [OF assms(1)] parse_Some [OF Some] tokens_differ_twice show ?thesis
    by metis
qed

theorem one_changed_character_is_refused_witness:
  "parse (CHR ''D'' # tl (mt_token (generate (replicate 51 7)))) = None"
proof -
  have h: "mt_token (generate (replicate 51 7)) = [] @ CHR ''d'' # tl (mt_token (generate (replicate 51 7)))"
    by (simp add: generate_def PREFIX_def Let_def)
  obtain p where "parse (mt_token (generate (replicate 51 7))) = Some p"
    using parse_token_of [of "rand (replicate 8 7)" "rand (replicate 43 7)"]
    by (auto simp: generate_def token_of_def LOOKUP_LEN_def SECRET_LEN_def rand_def ALPHABET_def Let_def)
  with h have "parse ([] @ CHR ''d'' # tl (mt_token (generate (replicate 51 7)))) = Some p" by simp
  from one_changed_character_is_refused [OF this, of "CHR ''D''"] show ?thesis by simp
qed

end
