(* ===== verification/Tenancy.thy ===== *)
theory Tenancy
  imports Keyformat Registry
begin

text \<open>
  Tenant keys: \<open>api/doug/tenancy.py\<close> and the token tables of \<open>api/doug/store.py\<close>. A key is minted once,
  stored as the peppered HMAC of its secret, resolved on every request against the live registry and
  revoked softly; the authority to mint or revoke is proved through GitHub.

  The environment is the list of its variables. GitHub is a service that sees all earlier calls and
  their replies, and every call is recorded, so that the order of the calls, and whose quota each
  spends, is part of the result. Instants read from the clock are arguments.
\<close>

subsection \<open>Peppers\<close>

type_synonym environ = "(string \<times> string) list"

definition pepper_name :: "int \<Rightarrow> string" where
  "pepper_name version =
     (if version = 1 then ''DOUG_TOKEN_PEPPER'' else ''DOUG_TOKEN_PEPPER_V'' @ dec_int version)"

definition pepper :: "environ \<Rightarrow> int \<Rightarrow> string option" where
  "pepper env version =
     (case dict_get env (pepper_name version) of
        None \<Rightarrow> None
      | Some value \<Rightarrow>
          (let raw = strip value in
           if raw = [] then None
           else case b64decode raw of
             None \<Rightarrow> None
           | Some decoded \<Rightarrow> if length decoded = 32 then Some decoded else None))"

lemma dec_digit_hd: "digit_char (hd (dec n))"
  using dec_digits [of "hd (dec n)" n] by simp

lemma dec_int_inj: "dec_int a = dec_int b \<Longrightarrow> a = b"
proof -
  have minus: "CHR ''-'' # s \<noteq> dec n" for s n
    using dec_digit_hd [of n] by (cases "dec n") (auto simp: digit_char_def)
  assume "dec_int a = dec_int b"
  then show "a = b"
    using minus minus [symmetric] by (auto simp: dec_int_def split: if_splits dest!: dec_inj)
qed

lemma pepper_name_inj: "inj pepper_name"
proof (rule injI)
  fix a b assume eq: "pepper_name a = pepper_name b"
  have d: "''DOUG_TOKEN_PEPPER'' \<noteq> ''DOUG_TOKEN_PEPPER_V'' @ s" for s by simp
  from eq d d [symmetric] show "a = b"
    by (auto simp: pepper_name_def split: if_splits dest: dec_int_inj)
qed

lemma pepper_versions_finite: "finite {v. pepper env v \<noteq> None}"
proof (rule inj_on_finite [OF inj_on_subset [OF pepper_name_inj subset_UNIV]])
  show "pepper_name ` {v. pepper env v \<noteq> None} \<subseteq> fst ` set env"
    by (auto simp: pepper_def split: option.splits dest!: map_of_SomeD) force
qed simp

text \<open>The scan ends because an environment has finitely many variables.\<close>

function version_from :: "environ \<Rightarrow> int \<Rightarrow> int" where
  "version_from env v = (if pepper env (v + 1) = None then v else version_from env (v + 1))"
  by pat_completeness auto
termination
proof (relation "measure (\<lambda>(env, v). card {k. v < k \<and> pepper env k \<noteq> None})")
  fix env v assume a: "pepper env (v + 1) \<noteq> None"
  have "{k. v + 1 < k \<and> pepper env k \<noteq> None} \<subset> {k. v < k \<and> pepper env k \<noteq> None}" using a by auto
  moreover have "finite {k. v < k \<and> pepper env k \<noteq> None}"
    by (rule finite_subset [OF _ pepper_versions_finite [of env]]) auto
  ultimately show "((env, v + 1), env, v) \<in> measure (\<lambda>(env, v). card {k. v < k \<and> pepper env k \<noteq> None})"
    by (simp add: psubset_card_mono)
qed simp

declare version_from.simps [simp del]

definition current_hash_version :: "environ \<Rightarrow> int" where
  "current_hash_version env = version_from env 1"

definition hash_secret :: "environ \<Rightarrow> string \<Rightarrow> int \<Rightarrow> string option" where
  "hash_secret env secret version = map_option (\<lambda>p. hmac_sha256_hex p secret) (pepper env version)"

definition keys_configured :: "environ \<Rightarrow> bool" where
  "keys_configured env \<longleftrightarrow> pepper env (current_hash_version env) \<noteq> None"

text \<open>
  The scan never tests version 1 itself: it returns the last of the versions from 2 on that are
  configured without a gap, and 1 when version 2 is not.
\<close>

lemma version_from_bounds:
  "v \<le> version_from env v \<and> (\<forall>k. v < k \<longrightarrow> k \<le> version_from env v \<longrightarrow> pepper env k \<noteq> None)
   \<and> pepper env (version_from env v + 1) = None"
proof (induction env v rule: version_from.induct)
  case (1 env v)
  show ?case
  proof (cases "pepper env (v + 1) = None")
    case True
    then show ?thesis by (subst (1 2 3) version_from.simps) simp
  next
    case False
    have "pepper env k \<noteq> None" if "v < k" "k \<le> version_from env (v + 1)" for k
      using 1 [OF False] that False by (cases "k = v + 1") auto
    with 1 [OF False] False show ?thesis by (subst (1 2 3) version_from.simps) simp
  qed
qed

subsection \<open>The token tables\<close>

record key_row =
  kr_id :: int
  kr_installation :: int
  kr_lookup :: string
  kr_hash :: string
  kr_version :: int
  kr_last4 :: string
  kr_label :: "string option"
  kr_selection :: string
  kr_scopes :: "string list"
  kr_minted_by :: string
  kr_created :: instant
  kr_expires :: "instant option"
  kr_revoked :: "instant option"
  kr_used :: "instant option"

record key_db = registry +
  kd_tokens :: "key_row list"
  kd_repos :: "(int \<times> int) list"
  kd_seq :: int

text \<open>
  \<open>insert_installation_token\<close>: the absent installation is \<open>None\<close>; a lookup that is taken violates the
  unique column and raises.
\<close>

definition insert_installation_token :: "key_row \<Rightarrow> key_db \<Rightarrow> (string, int option) result \<times> key_db" where
  "insert_installation_token row db =
     (if \<not> rg_configured db then (Return None, db)
      else if row_by in_installation (kr_installation row) (rg_installs db) = None then (Return None, db)
      else if kr_lookup row \<in> set (map kr_lookup (kd_tokens db)) then (Raise ''IntegrityError'', db)
      else (Return (Some (kd_seq db)),
            db\<lparr>kd_tokens := kd_tokens db @ [row\<lparr>kr_id := kd_seq db\<rparr>], kd_seq := kd_seq db + 1\<rparr>))"

text \<open>One statement inserts all rows: a repository named twice rolls back the whole of it.\<close>

definition set_installation_token_repos :: "int \<Rightarrow> int list \<Rightarrow> key_db \<Rightarrow> (string, unit) result \<times> key_db" where
  "set_installation_token_repos token_id repos db =
     (if \<not> rg_configured db \<or> repos = [] then (Return (), db)
      else if \<not> distinct repos \<or> (\<exists>r \<in> set repos. (token_id, r) \<in> set (kd_repos db))
           then (Raise ''IntegrityError'', db)
      else (Return (), db\<lparr>kd_repos := kd_repos db @ map (Pair token_id) repos\<rparr>))"

definition installation_token_by_lookup :: "string \<Rightarrow> key_db \<Rightarrow> (key_row \<times> string) option" where
  "installation_token_by_lookup lookup db =
     (if \<not> rg_configured db then None
      else case filter (\<lambda>r. kr_lookup r = lookup) (kd_tokens db) of
        [] \<Rightarrow> None
      | r # _ \<Rightarrow> map_option (\<lambda>i. (r, in_state i)) (row_by in_installation (kr_installation r) (rg_installs db)))"

definition installation_token_repo_ids :: "int \<Rightarrow> key_db \<Rightarrow> int list" where
  "installation_token_repo_ids token_id db =
     (if \<not> rg_configured db then []
      else fromkeys (map snd (filter (\<lambda>p. fst p = token_id) (kd_repos db))))"

definition count_minted_since :: "int \<Rightarrow> instant \<Rightarrow> key_db \<Rightarrow> nat option" where
  "count_minted_since inst since db =
     (if \<not> rg_configured db then None
      else Some (rowcount (\<lambda>r. kr_installation r = inst \<and> since \<le> kr_created r) (kd_tokens db)))"

definition touch_last_used :: "instant \<Rightarrow> int \<Rightarrow> key_db \<Rightarrow> key_db" where
  "touch_last_used now token_id db =
     (if \<not> rg_configured db then db
      else db\<lparr>kd_tokens := update_where
             (\<lambda>r. kr_id r = token_id \<and>
                (case kr_used r of None \<Rightarrow> True | Some u \<Rightarrow> u < now - seconds 60))
             (\<lambda>r. r\<lparr>kr_used := Some now\<rparr>) (kd_tokens db)\<rparr>)"

text \<open>The masked inventory: every column but the hash, newest first.\<close>

definition list_installation_tokens :: "int \<Rightarrow> key_db \<Rightarrow> key_row list" where
  "list_installation_tokens inst db =
     (if \<not> rg_configured db then []
      else sort_key (\<lambda>r. - kr_id r)
             (map (\<lambda>r. r\<lparr>kr_hash := []\<rparr>) (filter (\<lambda>r. kr_installation r = inst) (kd_tokens db))))"

definition stamp_revoked :: "instant \<Rightarrow> key_row \<Rightarrow> key_row" where
  "stamp_revoked now r = r\<lparr>kr_revoked := (if kr_revoked r = None then Some now else kr_revoked r)\<rparr>"

definition owned_key :: "int \<Rightarrow> int \<Rightarrow> key_row \<Rightarrow> bool" where
  "owned_key token_id inst r \<longleftrightarrow> kr_id r = token_id \<and> kr_installation r = inst"

definition revoke_installation_token :: "instant \<Rightarrow> int \<Rightarrow> int \<Rightarrow> key_db \<Rightarrow> bool \<times> key_db" where
  "revoke_installation_token now token_id inst db =
     (if \<not> rg_configured db then (False, db)
      else (0 < rowcount (owned_key token_id inst) (kd_tokens db),
            db\<lparr>kd_tokens := update_where (owned_key token_id inst) (stamp_revoked now) (kd_tokens db)\<rparr>))"

definition live_key_of :: "int \<Rightarrow> key_row \<Rightarrow> bool" where
  "live_key_of inst r \<longleftrightarrow> kr_installation r = inst \<and> kr_revoked r = None"

definition revoke_all_installation_tokens :: "instant \<Rightarrow> int \<Rightarrow> key_db \<Rightarrow> nat \<times> key_db" where
  "revoke_all_installation_tokens now inst db =
     (if \<not> rg_configured db then (0, db)
      else (rowcount (live_key_of inst) (kd_tokens db),
            db\<lparr>kd_tokens := update_where (live_key_of inst) (\<lambda>r. r\<lparr>kr_revoked := Some now\<rparr>) (kd_tokens db)\<rparr>))"

subsection \<open>Resolving a key\<close>

record token_context =
  tc_installation :: int
  tc_token :: int
  tc_scopes :: "string list"
  tc_repos :: "int list option"

datatype keys_error = Keys_Not_Configured | Other_Error string

text \<open>The intersection as a set; the order is the claim's.\<close>

definition live_repos :: "int \<Rightarrow> int list \<Rightarrow> ('a registry_scheme) \<Rightarrow> int list" where
  "live_repos inst claimed db =
     (let live = map fst (active_repos inst db) in filter (\<lambda>r. r \<in> set live) claimed)"

definition live_scope :: "int \<Rightarrow> int list option \<Rightarrow> ('a registry_scheme) \<Rightarrow> int list option" where
  "live_scope inst claimed db =
     (if installation_state inst db \<noteq> Some ''active'' then None
      else case claimed of
        None \<Rightarrow> None
      | Some c \<Rightarrow> let effective = live_repos inst c db in if effective = [] then None else Some effective)"

definition granted :: "key_row \<Rightarrow> int list option \<Rightarrow> token_context" where
  "granted r repos = \<lparr>tc_installation = kr_installation r, tc_token = kr_id r, tc_scopes = kr_scopes r, tc_repos = repos\<rparr>"

text \<open>
  The check of the row that the look-up returned. The two clock readings are the expiry check's and
  the one of \<open>touch_installation_token_last_used\<close>.
\<close>

definition admit :: "environ \<Rightarrow> instant \<Rightarrow> string \<Rightarrow> key_row \<times> string \<Rightarrow> key_db \<Rightarrow> token_context option" where
  "admit env now secret found db =
     (let r = fst found in
      if hash_secret env secret (kr_version r) \<noteq> Some (kr_hash r) then None
      else if kr_revoked r \<noteq> None then None
      else if (case kr_expires r of None \<Rightarrow> False | Some e \<Rightarrow> e \<le> now) then None
      else if snd found \<noteq> ''active'' then None
      else if kr_selection r = ''selected'' then
        (let effective = live_repos (kr_installation r) (installation_token_repo_ids (kr_id r) db) db
         in if effective = [] then None else Some (granted r (Some effective)))
      else Some (granted r None))"

definition resolve ::
    "environ \<Rightarrow> instant \<Rightarrow> instant \<Rightarrow> string \<Rightarrow> key_db \<Rightarrow> (keys_error, token_context option) result \<times> key_db" where
  "resolve env now used token db =
     (case parse token of
        None \<Rightarrow> (Return None, db)
      | Some p \<Rightarrow>
          if \<not> keys_configured env then (Raise Keys_Not_Configured, db)
          else case installation_token_by_lookup (pa_lookup p) db of
            None \<Rightarrow> (Return None, db)
          | Some found \<Rightarrow>
              (case admit env now (pa_secret p) found db of
                 None \<Rightarrow> (Return None, db)
               | Some ctx \<Rightarrow> (Return (Some ctx), touch_last_used used (kr_id (fst found)) db)))"

subsection \<open>Minting\<close>

record minted_key =
  mk_token :: string
  mk_id :: int
  mk_last4 :: string
  mk_expires :: "instant option"

definition minted_row ::
    "minted \<Rightarrow> string \<Rightarrow> int \<Rightarrow> instant \<Rightarrow> instant option \<Rightarrow> int \<Rightarrow> string \<Rightarrow> string option \<Rightarrow> string \<Rightarrow> key_row" where
  "minted_row m hash version created expires inst selection label minted_by =
     \<lparr>kr_id = 0, kr_installation = inst, kr_lookup = mt_lookup m, kr_hash = hash, kr_version = version,
      kr_last4 = mt_last4 m, kr_label = label, kr_selection = selection,
      kr_scopes = [''queue:read'', ''receipt:read''], kr_minted_by = minted_by, kr_created = created,
      kr_expires = expires, kr_revoked = None, kr_used = None\<rparr>"

text \<open>The repositories of a key for a selection are a second transaction.\<close>

definition attach_repos ::
    "string \<Rightarrow> int list \<Rightarrow> minted_key \<Rightarrow> key_db \<Rightarrow> (keys_error, minted_key option) result \<times> key_db" where
  "attach_repos selection repos key db =
     (if selection = ''selected'' then
        (case set_installation_token_repos (mk_id key) repos db of
           (Inl e, db') \<Rightarrow> (Raise (Other_Error e), db')
         | (Inr _, db') \<Rightarrow> (Return (Some key), db'))
      else (Return (Some key), db))"

text \<open>\<open>mint_key\<close>; a hash that could not be computed would violate the column's NOT NULL.\<close>

definition mint_key ::
    "environ \<Rightarrow> nat list \<Rightarrow> instant \<Rightarrow> instant \<Rightarrow> int \<Rightarrow> string \<Rightarrow> int list \<Rightarrow> string option \<Rightarrow> int \<Rightarrow> string \<Rightarrow>
     key_db \<Rightarrow> (keys_error, minted_key option) result \<times> key_db" where
  "mint_key env draws now created inst selection repos label expires_in_days minted_by db =
     (if \<not> keys_configured env then (Raise Keys_Not_Configured, db)
      else let version = current_hash_version env; m = generate draws;
               expires = (if expires_in_days = 0 then None else Some (now + days expires_in_days))
           in case hash_secret env (mt_secret m) version of
             None \<Rightarrow> (Raise (Other_Error ''IntegrityError''), db)
           | Some hash \<Rightarrow>
               (case insert_installation_token
                       (minted_row m hash version created expires inst selection label minted_by) db of
                  (Inl e, db1) \<Rightarrow> (Raise (Other_Error e), db1)
                | (Inr None, db1) \<Rightarrow> (Return None, db1)
                | (Inr (Some i), db1) \<Rightarrow>
                    attach_repos selection repos
                      \<lparr>mk_token = mt_token m, mk_id = i, mk_last4 = mt_last4 m, mk_expires = expires\<rparr> db1))"

subsection \<open>What a context is evidence of\<close>

text \<open>The key \<open>r\<close> may be used at \<open>now\<close>: not revoked, not expired, its installation active.\<close>

definition usable :: "instant \<Rightarrow> key_row \<Rightarrow> key_db \<Rightarrow> bool" where
  "usable now r db \<longleftrightarrow> kr_revoked r = None
     \<and> (case kr_expires r of None \<Rightarrow> True | Some e \<Rightarrow> now < e)
     \<and> installation_state (kr_installation r) db = Some ''active''"

text \<open>The repositories a key may see: all of the installation's, or the live part of those it names.\<close>

definition scope_of :: "key_row \<Rightarrow> key_db \<Rightarrow> int list option" where
  "scope_of r db =
     (if kr_selection r = ''selected''
      then Some (live_repos (kr_installation r) (installation_token_repo_ids (kr_id r) db) db) else None)"

lemma lookup_found:
  assumes "installation_token_by_lookup l db = Some (r, st)"
  shows "r \<in> set (kd_tokens db) \<and> kr_lookup r = l \<and> installation_state (kr_installation r) db = Some st"
proof -
  from assms have c: "rg_configured db" by (auto simp: installation_token_by_lookup_def split: if_splits)
  with assms obtain rest where f: "filter (\<lambda>r. kr_lookup r = l) (kd_tokens db) = r # rest"
    and st: "map_option in_state (row_by in_installation (kr_installation r) (rg_installs db)) = Some st"
    by (auto simp: installation_token_by_lookup_def split: list.splits)
  have "r \<in> set (filter (\<lambda>r. kr_lookup r = l) (kd_tokens db))" by (simp add: f)
  with st c show ?thesis by (auto simp: installation_state_def)
qed

lemma admit_Some:
  "admit env now secret (r, st) db = Some ctx \<longleftrightarrow>
     hash_secret env secret (kr_version r) = Some (kr_hash r) \<and> kr_revoked r = None
     \<and> (case kr_expires r of None \<Rightarrow> True | Some e \<Rightarrow> now < e) \<and> st = ''active''
     \<and> scope_of r db \<noteq> Some [] \<and> ctx = granted r (scope_of r db)"
  by (auto simp: admit_def scope_of_def Let_def not_le split: option.splits)

lemma resolve_Some:
  "resolve env now used token db = (Return (Some ctx), db') \<longleftrightarrow>
   (\<exists>p r st. parse token = Some p \<and> keys_configured env
     \<and> installation_token_by_lookup (pa_lookup p) db = Some (r, st)
     \<and> admit env now (pa_secret p) (r, st) db = Some ctx \<and> db' = touch_last_used used (kr_id r) db)"
  by (auto simp: resolve_def split: option.splits if_splits)

lemma resolve_live:
  assumes "resolve env now used token db = (Return (Some ctx), db')"
  shows "\<exists>p r. parse token = Some p \<and> r \<in> set (kd_tokens db) \<and> kr_lookup r = pa_lookup p
    \<and> hash_secret env (pa_secret p) (kr_version r) = Some (kr_hash r) \<and> usable now r db
    \<and> ctx = granted r (scope_of r db) \<and> scope_of r db \<noteq> Some []"
proof -
  from assms obtain p r st where "parse token = Some p" and f: "installation_token_by_lookup (pa_lookup p) db = Some (r, st)"
    and a: "admit env now (pa_secret p) (r, st) db = Some ctx"
    by (auto simp: resolve_Some)
  moreover from a lookup_found [OF f] have "usable now r db" by (auto simp: admit_Some usable_def)
  ultimately show ?thesis using lookup_found [OF f] by (auto simp: admit_Some)
qed

text \<open>
  C31. A request is let in only by a live key: the token is a well-formed token whose lookup names a
  stored key and whose secret hashes to the stored hash under the key's own pepper version; the key
  is neither revoked nor expired and its installation is active now; and the scope handed out is the
  whole installation for a key minted for all repositories, and otherwise a non-empty set of
  repositories the key names and the installation still covers.
\<close>
theorem resolve_admits_only_live_keys:
  assumes "resolve env now used token db = (Return (Some ctx), db')"
  shows "\<exists>p r. parse token = Some p \<and> r \<in> set (kd_tokens db) \<and> kr_lookup r = pa_lookup p
    \<and> hash_secret env (pa_secret p) (kr_version r) = Some (kr_hash r) \<and> usable now r db
    \<and> ctx = granted r (scope_of r db) \<and> scope_of r db \<noteq> Some []"
  by (rule resolve_live [OF assms])

lemma scope_within:
  "scope_of r db = Some s \<Longrightarrow> x \<in> set s \<Longrightarrow>
   (kr_id r, x) \<in> set (kd_repos db) \<and> x \<in> set (map fst (active_repos (kr_installation r) db))"
  by (auto simp: scope_of_def live_repos_def installation_token_repo_ids_def split: if_splits)

subsection \<open>The life of the key table\<close>

definition keys_wf :: "key_db \<Rightarrow> bool" where
  "keys_wf db \<longleftrightarrow> distinct (map kr_id (kd_tokens db)) \<and> distinct (map kr_lookup (kd_tokens db))
     \<and> list_all (\<lambda>r. kr_id r < kd_seq db) (kd_tokens db)
     \<and> list_all (\<lambda>p. fst p < kd_seq db) (kd_repos db)"

text \<open>Everything that changes the key tables, and the webhook writers of the registry beneath them.\<close>

inductive key_step :: "key_db \<Rightarrow> key_db \<Rightarrow> bool" where
  mint: "key_step db (snd (mint_key env draws now created inst selection repos label exp_days minted_by db))"
| revoke: "key_step db (snd (revoke_installation_token now token_id inst db))"
| revoke_all: "key_step db (snd (revoke_all_installation_tokens now inst db))"
| present: "key_step db (snd (resolve env now used token db))"
| install: "key_step db (upsert_installation now inst login kind state installer seen db)"
| repos: "key_step db (set_installation_repos now inst delivered replace state db)"

lemma upsert_keeps_keys [simp]:
  "kd_tokens (upsert_installation now inst login kind state installer seen db) = kd_tokens db"
  "kd_seq (upsert_installation now inst login kind state installer seen db) = kd_seq db"
  "kd_repos (upsert_installation now inst login kind state installer seen db) = kd_repos db"
  by (simp_all add: upsert_installation_def Let_def)

lemma write_repos_keeps_keys [simp]:
  "kd_tokens (write_repos now inst state delivered known db) = kd_tokens db"
  "kd_seq (write_repos now inst state delivered known db) = kd_seq db"
  "kd_repos (write_repos now inst state delivered known db) = kd_repos db"
  by (induction now inst state delivered known db rule: write_repos.induct)
     (simp_all add: Let_def split: option.split)

lemma set_repos_keeps_keys [simp]:
  "kd_tokens (set_installation_repos now inst delivered replace state db) = kd_tokens db"
  "kd_seq (set_installation_repos now inst delivered replace state db) = kd_seq db"
  "kd_repos (set_installation_repos now inst delivered replace state db) = kd_repos db"
  by (simp_all add: set_installation_repos_def retire_stale_def Let_def)

text \<open>Minting leaves the keys alone or appends one whose lookup is new, with the next id.\<close>

lemma insert_token_keys:
  "insert_installation_token row db = (res, db') \<Longrightarrow>
   db' = db \<and> (\<forall>i. res \<noteq> Return (Some i))
   \<or> (kr_lookup row \<notin> set (map kr_lookup (kd_tokens db)) \<and> res = Return (Some (kd_seq db))
     \<and> db' = db\<lparr>kd_tokens := kd_tokens db @ [row\<lparr>kr_id := kd_seq db\<rparr>], kd_seq := kd_seq db + 1\<rparr>)"
  by (auto simp: insert_installation_token_def split: if_splits)

lemma attach_keys:
  "snd (attach_repos selection repos key db) = db
   \<or> snd (attach_repos selection repos key db) = db\<lparr>kd_repos := kd_repos db @ map (Pair (mk_id key)) repos\<rparr>"
  by (auto simp: attach_repos_def set_installation_token_repos_def)

definition grown_by :: "key_db \<Rightarrow> key_row \<Rightarrow> key_db \<Rightarrow> bool" where
  "grown_by db r db' \<longleftrightarrow> kr_id r = kd_seq db \<and> kr_lookup r \<notin> set (map kr_lookup (kd_tokens db))
     \<and> kd_tokens db' = kd_tokens db @ [r] \<and> kd_seq db' = kd_seq db + 1
     \<and> (\<exists>rs. kd_repos db' = kd_repos db @ map (Pair (kr_id r)) rs)"

lemma insert_then_attach:
  assumes "insert_installation_token row db = (Return (Some i), db1)"
    and "db' = snd (attach_repos selection repos key db1)" and "mk_id key = i"
  shows "grown_by db (row\<lparr>kr_id := i\<rparr>) db'"
  using insert_token_keys [OF assms(1)] attach_keys [of selection repos key db1] assms(2,3)
  by (auto simp: grown_by_def intro: exI [of _ "[]"])

lemma mint_keys:
  assumes "mint_key env draws now created inst selection repos label exp_days minted_by db = (res, db')"
  shows "db' = db \<or> (\<exists>r. grown_by db r db')"
proof (cases "keys_configured env \<and> hash_secret env (mt_secret (generate draws)) (current_hash_version env) \<noteq> None")
  case False
  with assms have "db' = db" by (cases "keys_configured env") (auto simp: mint_key_def Let_def)
  then show ?thesis by simp
next
  case True
  then obtain hash where h: "hash_secret env (mt_secret (generate draws)) (current_hash_version env) = Some hash"
    by auto
  let ?e = "if exp_days = 0 then None else Some (now + days exp_days)"
  let ?r = "minted_row (generate draws) hash (current_hash_version env) created ?e inst selection label minted_by"
  obtain ins db1 where ins: "insert_installation_token ?r db = (ins, db1)"
    by (cases "insert_installation_token ?r db")
  show ?thesis
  proof (cases "\<exists>i. ins = Return (Some i)")
    case True
    then obtain i where i: "ins = Return (Some i)" ..
    let ?k = "\<lparr>mk_token = mt_token (generate draws), mk_id = i, mk_last4 = mt_last4 (generate draws), mk_expires = ?e\<rparr>"
    from assms h ins i \<open>keys_configured env \<and> _\<close> have "attach_repos selection repos ?k db1 = (res, db')"
      by (simp add: mint_key_def Let_def)
    then show ?thesis using insert_then_attach [of ?r db i db1 db' selection repos ?k] ins i by auto
  next
    case False
    with assms h ins \<open>keys_configured env \<and> _\<close> have "db' = db1"
      by (cases ins) (auto simp: mint_key_def Let_def split: option.splits)
    with insert_token_keys [OF ins] False show ?thesis by auto
  qed
qed

lemma grown_wf: "keys_wf db \<Longrightarrow> grown_by db r db' \<Longrightarrow> keys_wf db'"
  by (fastforce simp: keys_wf_def grown_by_def list_all_iff)

lemma list_all_update_where:
  "(\<And>r. q (f r) = q r) \<Longrightarrow> list_all q (update_where p f rows) = list_all q rows"
  by (induction rows) auto

lemma keys_wf_update:
  assumes "\<And>r. kr_id (f r) = kr_id r" "\<And>r. kr_lookup (f r) = kr_lookup r"
  shows "keys_wf (db\<lparr>kd_tokens := update_where p f (kd_tokens db)\<rparr>) = keys_wf db"
  using assms by (simp add: keys_wf_def row_simps list_all_update_where)

lemma touch_wf: "keys_wf (touch_last_used now i db) = keys_wf db"
  unfolding touch_last_used_def by (cases "rg_configured db") (simp_all add: keys_wf_update)

lemma revoke_wf: "keys_wf (snd (revoke_installation_token now i inst db)) = keys_wf db"
  unfolding revoke_installation_token_def
  by (cases "rg_configured db") (simp_all add: keys_wf_update stamp_revoked_def)

lemma revoke_all_wf: "keys_wf (snd (revoke_all_installation_tokens now inst db)) = keys_wf db"
  unfolding revoke_all_installation_tokens_def by (cases "rg_configured db") (simp_all add: keys_wf_update)

lemma resolve_state:
  "snd (resolve env now used token db) = db
   \<or> (\<exists>i. snd (resolve env now used token db) = touch_last_used used i db)"
  by (auto simp: resolve_def split: option.split)

text \<open>
  The key table stays well formed: whatever is minted, presented, revoked or delivered, ids and
  lookups stay unique and below the next id, so a lookup always names one key.
\<close>
theorem key_table_stays_well_formed:
  assumes "key_step db db'" and "keys_wf db"
  shows "keys_wf db'"
  using assms
proof (induction rule: key_step.induct)
  case (mint db env draws now created inst selection repos label exp_days minted_by)
  obtain res db' where m: "mint_key env draws now created inst selection repos label exp_days minted_by db = (res, db')"
    by (cases "mint_key env draws now created inst selection repos label exp_days minted_by db")
  from mint_keys [OF m] mint show ?case by (auto simp: m intro: grown_wf)
next
  case (present db env now used token)
  then show ?case
    using resolve_state [of env now used token db] by (auto simp: touch_wf)
qed (simp_all add: revoke_wf revoke_all_wf, simp_all add: keys_wf_def)

text \<open>A key that exists and is revoked.\<close>

definition dead_key :: "int \<Rightarrow> key_db \<Rightarrow> bool" where
  "dead_key i db \<longleftrightarrow> i < kd_seq db \<and> list_all (\<lambda>r. kr_id r = i \<longrightarrow> kr_revoked r \<noteq> None) (kd_tokens db)"

lemma dead_key_update:
  assumes "dead_key i db" and "\<And>r. kr_id (f r) = kr_id r"
    and "\<And>r. kr_revoked r \<noteq> None \<Longrightarrow> kr_revoked (f r) \<noteq> None"
  shows "dead_key i (db\<lparr>kd_tokens := update_where p f (kd_tokens db)\<rparr>)"
  using assms by (auto simp: dead_key_def list_all_iff update_where_def)

lemma touch_dead: "dead_key i db \<Longrightarrow> dead_key i (touch_last_used now j db)"
  unfolding touch_last_used_def by (cases "rg_configured db") (simp_all add: dead_key_update)

lemma revoke_dead: "dead_key i db \<Longrightarrow> dead_key i (snd (revoke_installation_token now j inst db))"
  unfolding revoke_installation_token_def
  by (cases "rg_configured db") (simp_all add: dead_key_update stamp_revoked_def)

lemma revoke_all_dead: "dead_key i db \<Longrightarrow> dead_key i (snd (revoke_all_installation_tokens now inst db))"
  unfolding revoke_all_installation_tokens_def by (cases "rg_configured db") (simp_all add: dead_key_update)

lemma dead_key_step:
  assumes "key_step db db'" and "dead_key i db"
  shows "dead_key i db'"
  using assms
proof (induction rule: key_step.induct)
  case (mint db env draws now created inst selection repos label exp_days minted_by)
  obtain res db' where m: "mint_key env draws now created inst selection repos label exp_days minted_by db = (res, db')"
    by (cases "mint_key env draws now created inst selection repos label exp_days minted_by db")
  from mint_keys [OF m] mint show ?case by (auto simp: m dead_key_def grown_by_def)
next
  case (present db env now used token)
  then show ?case
    using resolve_state [of env now used token db] by (auto simp: touch_dead)
qed (simp_all add: revoke_dead revoke_all_dead, simp_all add: dead_key_def)

lemma dead_key_forever: "rtranclp key_step db db' \<Longrightarrow> dead_key i db \<Longrightarrow> dead_key i db'"
  by (induction rule: rtranclp_induct) (auto intro: dead_key_step)

lemma revoked_is_dead:
  assumes "keys_wf db" and "revoke_installation_token t i inst db = (True, db1)"
  shows "dead_key i db1"
proof -
  from assms(2) have db1: "db1 = db\<lparr>kd_tokens := update_where (owned_key i inst) (stamp_revoked t) (kd_tokens db)\<rparr>"
    and "0 < rowcount (owned_key i inst) (kd_tokens db)"
    by (auto simp: revoke_installation_token_def split: if_splits)
  then obtain r where r: "r \<in> set (kd_tokens db)" "kr_id r = i" "kr_installation r = inst"
    by (auto simp: rowcount_pos owned_key_def)
  have "owned_key i inst q" if "q \<in> set (kd_tokens db)" "kr_id q = i" for q
  proof -
    have "inj_on kr_id (set (kd_tokens db))" using assms(1) by (simp add: keys_wf_def distinct_map)
    with that r have "q = r" by (auto dest: inj_onD)
    with r show ?thesis by (simp add: owned_key_def)
  qed
  moreover have "i < kd_seq db" using assms(1) r by (auto simp: keys_wf_def list_all_iff)
  ultimately show ?thesis
    by (auto simp: db1 dead_key_def list_all_iff update_where_def stamp_revoked_def)
qed

text \<open>
  Revocation is permanent: once a revoke has reported success, no later history of minting,
  presenting, revoking and webhook deliveries lets the key's token in again.
\<close>
theorem revocation_is_permanent:
  assumes "keys_wf db" and "revoke_installation_token t i inst db = (True, db1)"
    and "rtranclp key_step db1 db2"
    and "resolve env now used token db2 = (Return (Some ctx), db3)"
  shows "tc_token ctx \<noteq> i"
proof -
  from dead_key_forever [OF assms(3) revoked_is_dead [OF assms(1,2)]] have d: "dead_key i db2" .
  from resolve_live [OF assms(4)] obtain r where
    "r \<in> set (kd_tokens db2)" "kr_revoked r = None" "ctx = granted r (scope_of r db2)"
    by (auto simp: usable_def)
  with d show ?thesis by (auto simp: dead_key_def list_all_iff granted_def)
qed

subsection \<open>A minted key is let in\<close>

lemma fromkeys_distinct_id: "distinct xs \<Longrightarrow> fromkeys xs = xs"
proof (induction xs)
  case (Cons x xs)
  then show ?case by (auto simp: filter_id_conv)
qed simp

lemma mint_Some:
  assumes "mint_key env draws now created inst selection repos label exp_days minted_by db = (Return (Some k), db1)"
  shows "keys_configured env \<and> rg_configured db \<and> mk_token k = mt_token (generate draws) \<and> mk_id k = kd_seq db
    \<and> (\<exists>hash e. hash_secret env (mt_secret (generate draws)) (current_hash_version env) = Some hash
        \<and> e = (if exp_days = 0 then None else Some (now + days exp_days))
        \<and> mt_lookup (generate draws) \<notin> set (map kr_lookup (kd_tokens db))
        \<and> kd_tokens db1 = kd_tokens db @ [(minted_row (generate draws) hash (current_hash_version env) created e inst
                              selection label minted_by)\<lparr>kr_id := kd_seq db\<rparr>])
    \<and> kd_repos db1 = kd_repos db @ (if selection = ''selected'' then map (Pair (kd_seq db)) repos else [])
    \<and> rg_installs db1 = rg_installs db \<and> rg_repos db1 = rg_repos db \<and> rg_configured db1
    \<and> (selection = ''selected'' \<longrightarrow> distinct repos)"
proof -
  from assms have c: "keys_configured env" by (auto simp: mint_key_def split: if_splits)
  with assms obtain hash where h: "hash_secret env (mt_secret (generate draws)) (current_hash_version env) = Some hash"
    by (cases "hash_secret env (mt_secret (generate draws)) (current_hash_version env)") (auto simp: mint_key_def Let_def)
  let ?e = "if exp_days = 0 then None else Some (now + days exp_days)"
  let ?r = "minted_row (generate draws) hash (current_hash_version env) created ?e inst selection label minted_by"
  obtain ins db0 where ins: "insert_installation_token ?r db = (ins, db0)"
    by (cases "insert_installation_token ?r db")
  from assms c h ins obtain i where i: "ins = Return (Some i)"
    by (cases ins) (auto simp: mint_key_def Let_def split: option.splits)
  let ?k = "\<lparr>mk_token = mt_token (generate draws), mk_id = i, mk_last4 = mt_last4 (generate draws), mk_expires = ?e\<rparr>"
  from assms c h ins i have a: "attach_repos selection repos ?k db0 = (Return (Some k), db1)"
    by (simp add: mint_key_def Let_def)
  from ins i have "rg_configured db" by (auto simp: insert_installation_token_def split: if_splits)
  moreover from insert_token_keys [OF ins] i have "i = kd_seq db"
    and n: "kr_lookup ?r \<notin> set (map kr_lookup (kd_tokens db))"
    and db0: "db0 = db\<lparr>kd_tokens := kd_tokens db @ [?r\<lparr>kr_id := kd_seq db\<rparr>], kd_seq := kd_seq db + 1\<rparr>"
    by auto
  moreover from n have "mt_lookup (generate draws) \<notin> set (map kr_lookup (kd_tokens db))" by (simp add: minted_row_def)
  moreover from a have "k = ?k" "selection = ''selected'' \<longrightarrow> distinct repos \<or> \<not> rg_configured db0"
    by (auto simp: attach_repos_def set_installation_token_repos_def split: if_splits)
  moreover from a have "db1 = (if selection = ''selected'' \<and> rg_configured db0
      then db0\<lparr>kd_repos := kd_repos db0 @ map (Pair i) repos\<rparr> else db0)"
    by (auto simp: attach_repos_def set_installation_token_repos_def split: if_splits)
  ultimately show ?thesis using c h by auto
qed

lemma mint_then_resolve:
  assumes "mint_key env draws now created inst selection repos label exp_days minted_by db = (Return (Some k), db1)"
    and "keys_wf db" and "length draws = LOOKUP_LEN + SECRET_LEN" and "list_all (\<lambda>i. i < 62) draws"
    and "installation_state inst db = Some ''active''" and "exp_days = 0 \<or> later < now + days exp_days"
  shows "fst (resolve env later used (mk_token k) db1) = Return
    (if selection \<noteq> ''selected'' then
       Some \<lparr>tc_installation = inst, tc_token = mk_id k, tc_scopes = [''queue:read'', ''receipt:read''], tc_repos = None\<rparr>
     else if live_repos inst repos db = [] then None
     else Some \<lparr>tc_installation = inst, tc_token = mk_id k, tc_scopes = [''queue:read'', ''receipt:read''],
                tc_repos = Some (live_repos inst repos db)\<rparr>)"
proof -
  let ?m = "generate draws"
  from mint_Some [OF assms(1)] obtain hash e where c: "keys_configured env" "rg_configured db" "rg_configured db1"
    and k: "mk_token k = mt_token ?m" "mk_id k = kd_seq db"
    and h: "hash_secret env (mt_secret ?m) (current_hash_version env) = Some hash"
    and e: "e = (if exp_days = 0 then None else Some (now + days exp_days))"
    and new: "mt_lookup ?m \<notin> set (map kr_lookup (kd_tokens db))"
    and toks: "kd_tokens db1 = kd_tokens db @ [(minted_row ?m hash (current_hash_version env) created e inst
        selection label minted_by)\<lparr>kr_id := kd_seq db\<rparr>]"
    and reps: "kd_repos db1 = kd_repos db @ (if selection = ''selected'' then map (Pair (kd_seq db)) repos else [])"
    and same: "rg_installs db1 = rg_installs db" "rg_repos db1 = rg_repos db"
    and dist: "selection = ''selected'' \<longrightarrow> distinct repos"
    by blast
  let ?r = "(minted_row ?m hash (current_hash_version env) created e inst selection label minted_by)\<lparr>kr_id := kd_seq db\<rparr>"
  have p: "parse (mk_token k) = Some \<lparr>pa_lookup = mt_lookup ?m, pa_secret = mt_secret ?m\<rparr>"
    using minted_parses [OF assms(3,4)] k by simp
  have "filter (\<lambda>r. kr_lookup r = mt_lookup ?m) (kd_tokens db) = []"
    using new unfolding filter_empty_conv by (metis image_eqI list.set_map)
  then have "filter (\<lambda>r. kr_lookup r = mt_lookup ?m) (kd_tokens db1) = [?r]"
    by (simp add: toks minted_row_def)
  then have found: "installation_token_by_lookup (mt_lookup ?m) db1 = Some (?r, ''active'')"
    using assms(5) c by (simp add: installation_token_by_lookup_def installation_state_def same minted_row_def)
  have "filter (\<lambda>p. fst p = kd_seq db) (kd_repos db) = []"
    using assms(2) by (auto simp: keys_wf_def list_all_iff filter_empty_conv)
  then have ids: "installation_token_repo_ids (kd_seq db) db1 = (if selection = ''selected'' then repos else [])"
    using c dist by (simp add: installation_token_repo_ids_def reps fromkeys_distinct_id filter_map comp_def)
  have live: "live_repos inst repos db1 = live_repos inst repos db"
    using c by (simp add: live_repos_def active_repos_def same)
  have "admit env later (mt_secret ?m) (?r, ''active'') db1 =
    (if scope_of ?r db1 = Some [] then None else Some (granted ?r (scope_of ?r db1)))"
    using assms(6) h by (auto simp: admit_def scope_of_def minted_row_def e Let_def)
  then show ?thesis using c p found
    by (auto simp: resolve_def scope_of_def granted_def minted_row_def ids live k split: option.splits)
qed

text \<open>
  A minted key is let in at once and with exactly its scope: presenting the token that minting
  returned, before it expires and while the installation is active, resolves to the new key with the
  whole installation for a key over all repositories, and with the live part of the named
  repositories for a selected one, unless that part is empty.
\<close>
theorem minted_key_is_let_in:
  assumes "mint_key env draws now created inst selection repos label exp_days minted_by db = (Return (Some k), db1)"
    and "keys_wf db" and "length draws = LOOKUP_LEN + SECRET_LEN" and "list_all (\<lambda>i. i < 62) draws"
    and "installation_state inst db = Some ''active''" and "exp_days = 0 \<or> later < now + days exp_days"
  shows "fst (resolve env later used (mk_token k) db1) = Return
    (if selection \<noteq> ''selected'' then
       Some \<lparr>tc_installation = inst, tc_token = mk_id k, tc_scopes = [''queue:read'', ''receipt:read''], tc_repos = None\<rparr>
     else if live_repos inst repos db = [] then None
     else Some \<lparr>tc_installation = inst, tc_token = mk_id k, tc_scopes = [''queue:read'', ''receipt:read''],
                tc_repos = Some (live_repos inst repos db)\<rparr>)"
  by (rule mint_then_resolve [OF assms])

subsection \<open>A concrete store\<close>

definition ex_env :: environ where
  "ex_env = [(''DOUG_TOKEN_PEPPER'', replicate 43 (CHR ''A'') @ ''='')]"

definition ex_db :: key_db where
  "ex_db = \<lparr>rg_configured = True,
     rg_installs = [\<lparr>in_id = 1, in_installation = 7, in_login = ''acme'', in_type = ''Organization'',
       in_state = ''active'', in_updated_at = 0, in_installer = None\<rparr>],
     rg_repos = [new_registration 0 7 42 ''acme/api'' ''active'' 1], rg_install_seq = 2, rg_repo_seq = 2,
     kd_tokens = [], kd_repos = [], kd_seq = 5\<rparr>"

definition ex_key :: minted_key where
  "ex_key = \<lparr>mk_token = mt_token (generate (replicate 51 0)), mk_id = 5,
     mk_last4 = mt_last4 (generate (replicate 51 0)), mk_expires = None\<rparr>"

definition ex_minted :: key_db where
  "ex_minted = snd (mint_key ex_env (replicate 51 0) 0 0 7 ''selected'' [42] None 0 ''root'' ex_db)"

lemma ex_pepper: "pepper ex_env 1 = Some (replicate 32 (CHR 0x00))"
  by code_simp

lemma ex_version: "current_hash_version ex_env = 1"
proof -
  have "pepper ex_env (1 + 1) = None"
    by (simp add: pepper_def pepper_name_def ex_env_def dec_int_def dec.simps digit_of_def)
  then show ?thesis by (simp add: current_hash_version_def version_from.simps)
qed

lemma ex_mint:
  "mint_key ex_env (replicate 51 0) 0 0 7 ''selected'' [42] None 0 ''root'' ex_db = (Return (Some ex_key), ex_minted)"
proof -
  have "fst (mint_key ex_env (replicate 51 0) 0 0 7 ''selected'' [42] None 0 ''root'' ex_db) = Return (Some ex_key)"
    by (simp add: mint_key_def ex_version keys_configured_def ex_pepper hash_secret_def minted_row_def Let_def
        insert_installation_token_def ex_db_def row_by_def attach_repos_def set_installation_token_repos_def ex_key_def)
  then show ?thesis
    by (metis ex_minted_def prod.collapse)
qed

lemma ex_draws: "length (replicate 51 (0 :: nat)) = LOOKUP_LEN + SECRET_LEN" "list_all (\<lambda>i. i < 62) (replicate 51 (0 :: nat))"
  by (simp_all add: LOOKUP_LEN_def SECRET_LEN_def list_all_iff)

lemma ex_state: "installation_state 7 ex_db = Some ''active''" "keys_wf ex_db" "live_repos 7 [42] ex_db = [42]"
  by (simp_all add: installation_state_def ex_db_def row_by_def keys_wf_def live_repos_def active_repos_def
      new_registration_def)

theorem minted_key_is_let_in_witness:
  "fst (resolve ex_env 9 9 (mk_token ex_key) ex_minted) = Return
     (Some \<lparr>tc_installation = 7, tc_token = 5, tc_scopes = [''queue:read'', ''receipt:read''], tc_repos = Some [42]\<rparr>)"
  using minted_key_is_let_in [OF ex_mint ex_state(2) ex_draws ex_state(1), of 9 9]
  by (simp add: ex_state ex_key_def)

lemma ex_resolve:
  "resolve ex_env 9 9 (mk_token ex_key) ex_minted = (Return
     (Some \<lparr>tc_installation = 7, tc_token = 5, tc_scopes = [''queue:read'', ''receipt:read''], tc_repos = Some [42]\<rparr>),
     snd (resolve ex_env 9 9 (mk_token ex_key) ex_minted))"
  using mint_then_resolve [OF ex_mint ex_state(2) ex_draws ex_state(1), of 9 9]
  by (intro prod_eqI) (simp_all add: ex_state ex_key_def)

theorem resolve_admits_only_live_keys_witness:
  "\<exists>p r. parse (mk_token ex_key) = Some p \<and> r \<in> set (kd_tokens ex_minted) \<and> kr_lookup r = pa_lookup p
    \<and> hash_secret ex_env (pa_secret p) (kr_version r) = Some (kr_hash r) \<and> usable 9 r ex_minted
    \<and> \<lparr>tc_installation = 7, tc_token = 5, tc_scopes = [''queue:read'', ''receipt:read''], tc_repos = Some [42]\<rparr>
        = granted r (scope_of r ex_minted)
    \<and> scope_of r ex_minted \<noteq> Some []"
  by (rule resolve_admits_only_live_keys [OF ex_resolve])

theorem key_table_stays_well_formed_witness: "keys_wf ex_minted"
  by (rule key_table_stays_well_formed [OF _ ex_state(2)]) (simp only: ex_minted_def key_step.mint)

text \<open>The first key revoked, then a second one minted for the whole installation.\<close>

definition ex_revoked :: key_db where
  "ex_revoked = snd (revoke_installation_token 9 5 7 ex_minted)"

definition ex_second :: key_db where
  "ex_second = snd (mint_key ex_env (replicate 51 1) 9 9 7 ''all'' [] None 0 ''root'' ex_revoked)"

definition ex_key2 :: minted_key where
  "ex_key2 = \<lparr>mk_token = mt_token (generate (replicate 51 1)), mk_id = 6,
     mk_last4 = mt_last4 (generate (replicate 51 1)), mk_expires = None\<rparr>"

lemma ex_minted_tables:
  "kd_seq ex_minted = 6" "rg_configured ex_minted" "rg_installs ex_minted = rg_installs ex_db"
  "map kr_lookup (kd_tokens ex_minted) = [''00000000'']" "map kr_id (kd_tokens ex_minted) = [5]"
  "map kr_installation (kd_tokens ex_minted) = [7]"
  by (simp_all add: ex_minted_def mint_key_def ex_version keys_configured_def ex_pepper hash_secret_def
      minted_row_def Let_def insert_installation_token_def ex_db_def row_by_def attach_repos_def
      set_installation_token_repos_def generate_def rand_def LOOKUP_LEN_def ALPHABET_def numeral_eq_Suc)

lemma ex_minted_row: "\<exists>r. kd_tokens ex_minted = [r] \<and> kr_id r = 5 \<and> kr_lookup r = ''00000000'' \<and> kr_installation r = 7"
  using ex_minted_tables(4-6) by (auto simp: map_eq_Cons_conv)

lemma ex_revoke: "revoke_installation_token 9 5 7 ex_minted = (True, ex_revoked)"
proof -
  obtain r where "kd_tokens ex_minted = [r]" "kr_id r = 5" "kr_installation r = 7" using ex_minted_row by auto
  then have "fst (revoke_installation_token 9 5 7 ex_minted)"
    by (simp add: revoke_installation_token_def rowcount_def owned_key_def ex_minted_tables(2))
  then show ?thesis by (metis ex_revoked_def prod.collapse)
qed

lemma ex_mint2:
  "mint_key ex_env (replicate 51 1) 9 9 7 ''all'' [] None 0 ''root'' ex_revoked = (Return (Some ex_key2), ex_second)"
proof -
  obtain r where r: "kd_tokens ex_minted = [r]" "kr_id r = 5" "kr_lookup r = ''00000000''" using ex_minted_row by auto
  have g: "mt_lookup (generate (replicate 51 1)) = ''11111111''"
    by (simp add: generate_def rand_def LOOKUP_LEN_def ALPHABET_def numeral_eq_Suc Let_def)
  then have g': "mt_lookup (generate (replicate 51 (Suc 0))) = ''11111111''" by simp
  have "fst (mint_key ex_env (replicate 51 1) 9 9 7 ''all'' [] None 0 ''root'' ex_revoked) = Return (Some ex_key2)"
    by (simp add: mint_key_def ex_version keys_configured_def ex_pepper hash_secret_def minted_row_def Let_def
        insert_installation_token_def ex_revoked_def revoke_installation_token_def ex_minted_tables r g' stamp_revoked_def
        ex_db_def row_by_def attach_repos_def ex_key2_def)
  then show ?thesis by (metis ex_second_def prod.collapse)
qed

lemma ex_revoked_ok: "keys_wf ex_minted" "keys_wf ex_revoked" "installation_state 7 ex_revoked = Some ''active''"
proof -
  from mint_keys [OF ex_mint] ex_state(2) show w: "keys_wf ex_minted" by (auto intro: grown_wf)
  then show "keys_wf ex_revoked" by (simp add: ex_revoked_def revoke_wf)
  show "installation_state 7 ex_revoked = Some ''active''"
    by (simp add: ex_revoked_def revoke_installation_token_def installation_state_def ex_minted_tables ex_db_def row_by_def)
qed

lemma ex_resolve2:
  "resolve ex_env 20 20 (mk_token ex_key2) ex_second = (Return
     (Some \<lparr>tc_installation = 7, tc_token = 6, tc_scopes = [''queue:read'', ''receipt:read''], tc_repos = None\<rparr>),
     snd (resolve ex_env 20 20 (mk_token ex_key2) ex_second))"
proof -
  have d: "length (replicate 51 (1 :: nat)) = LOOKUP_LEN + SECRET_LEN" "list_all (\<lambda>i. i < 62) (replicate 51 (1 :: nat))"
    by (simp_all add: LOOKUP_LEN_def SECRET_LEN_def list_all_iff)
  show ?thesis using mint_then_resolve [OF ex_mint2 ex_revoked_ok(2) d ex_revoked_ok(3), of 20 20]
    by (intro prod_eqI) (simp_all add: ex_key2_def)
qed

theorem revocation_is_permanent_witness:
  "tc_token \<lparr>tc_installation = 7, tc_token = 6, tc_scopes = [''queue:read'', ''receipt:read''], tc_repos = None\<rparr> \<noteq> 5"
proof (rule revocation_is_permanent [OF ex_revoked_ok(1) ex_revoke _ ex_resolve2])
  show "rtranclp key_step ex_revoked ex_second"
    by (rule r_into_rtranclp) (simp only: ex_second_def key_step.mint)
qed

end
