(* ===== verification/Token_Api.thy ===== *)
theory Token_Api
  imports Tenancy
begin

text \<open>
  Proving authority through GitHub and the key endpoints: \<open>verify_admin\<close>, \<open>verify_org_admin\<close>,
  \<open>verify_repos_admin\<close> and \<open>caller_login\<close> of \<open>api/doug/tenancy.py\<close>, and \<open>dispense_token\<close>, \<open>list_tokens\<close>
  and \<open>revoke_token\<close> of \<open>api/doug/api.py\<close>.

  GitHub is a service whose reply may depend on every earlier call and reply. A call that raises
  replies \<open>Failed\<close>; a reply without the attribute that is read is \<open>None\<close> in the attribute's place. The
  calls made are recorded in order with their replies.
\<close>

subsection \<open>Calls and replies\<close>

datatype call =
    Get_Repo string string string
  | Get_User string
  | Get_Membership string string
  | Get_Repo_Installation string string
  | Get_User_Installation string
  | Get_Org_Installation string

datatype reply =
    Failed
  | Permissions "bool option"
  | Login "string option"
  | Membership "string option" "string option"
  | Installation "int option"

type_synonym trace = "(call \<times> reply) list"
type_synonym service = "trace \<Rightarrow> call \<Rightarrow> reply"

definition ask :: "service \<Rightarrow> call \<Rightarrow> trace \<Rightarrow> reply \<times> trace" where
  "ask gh c tr = (let r = gh tr c in (r, tr @ [(c, r)]))"

text \<open>The calls made with the application's own credential, and so on its own quota.\<close>

fun app_call :: "call \<Rightarrow> bool" where
  "app_call (Get_Repo_Installation _ _) = True"
| "app_call (Get_User_Installation _) = True"
| "app_call (Get_Org_Installation _) = True"
| "app_call _ = False"

definition installation_of :: "reply \<Rightarrow> int option" where
  "installation_of r = (case r of Installation i \<Rightarrow> i | _ \<Rightarrow> None)"

subsection \<open>The proofs\<close>

definition verify_admin :: "service \<Rightarrow> bool \<Rightarrow> string \<Rightarrow> string \<Rightarrow> string \<Rightarrow> trace \<Rightarrow> int option \<times> trace" where
  "verify_admin gh app_on pat owner repo tr =
     (case ask gh (Get_Repo pat owner repo) tr of
        (seen, tr1) \<Rightarrow>
          if seen \<noteq> Permissions (Some True) then (None, tr1)
          else if \<not> app_on then (None, tr1)
          else case ask gh (Get_Repo_Installation owner repo) tr1 of
            (found, tr2) \<Rightarrow> (installation_of found, tr2))"

definition caller_login :: "service \<Rightarrow> string \<Rightarrow> trace \<Rightarrow> string option \<times> trace" where
  "caller_login gh pat tr =
     (case ask gh (Get_User pat) tr of
        (me, tr1) \<Rightarrow> ((case me of Login (Some login) \<Rightarrow> if login = [] then None else Some login | _ \<Rightarrow> None), tr1))"

definition verify_org_admin :: "service \<Rightarrow> bool \<Rightarrow> string \<Rightarrow> string \<Rightarrow> trace \<Rightarrow> int option \<times> trace" where
  "verify_org_admin gh app_on pat owner tr =
     (case caller_login gh pat tr of
        (None, tr1) \<Rightarrow> (None, tr1)
      | (Some login, tr1) \<Rightarrow>
          if lower login = lower owner then
            (if \<not> app_on then (None, tr1)
             else case ask gh (Get_User_Installation owner) tr1 of (found, tr2) \<Rightarrow> (installation_of found, tr2))
          else case ask gh (Get_Membership pat owner) tr1 of
            (m, tr2) \<Rightarrow>
              if m \<noteq> Membership (Some ''admin'') (Some ''active'') then (None, tr2)
              else if \<not> app_on then (None, tr2)
              else case ask gh (Get_Org_Installation owner) tr2 of (found, tr3) \<Rightarrow> (installation_of found, tr3))"

text \<open>The loop over the named repositories, with the installations found so far as a set.\<close>

fun verify_each ::
    "service \<Rightarrow> bool \<Rightarrow> string \<Rightarrow> (string \<times> string) list \<Rightarrow> int list \<Rightarrow> trace \<Rightarrow> int list option \<times> trace" where
  "verify_each gh app_on pat [] ids tr = (Some ids, tr)"
| "verify_each gh app_on pat ((owner, name) # rest) ids tr =
     (case verify_admin gh app_on pat owner name tr of
        (None, tr1) \<Rightarrow> (None, tr1)
      | (Some i, tr1) \<Rightarrow> verify_each gh app_on pat rest (List.insert i ids) tr1)"

definition verify_repos_admin ::
    "service \<Rightarrow> bool \<Rightarrow> string \<Rightarrow> (string \<times> string) list \<Rightarrow> trace \<Rightarrow> int option \<times> trace" where
  "verify_repos_admin gh app_on pat repos tr =
     (if repos = [] then (None, tr)
      else if length (fromkeys (map (\<lambda>p. lower (fst p)) repos)) \<noteq> 1 then (None, tr)
      else case verify_each gh app_on pat repos [] tr of
        (Some [i], tr1) \<Rightarrow> (Some i, tr1)
      | (_, tr1) \<Rightarrow> (None, tr1))"

subsection \<open>Who pays for a call\<close>

text \<open>
  What licenses a call on the application's quota: an earlier reply to the same caller's credential
  that proves administration of what the call names.
\<close>

fun licensed :: "string \<Rightarrow> trace \<Rightarrow> call \<Rightarrow> bool" where
  "licensed pat tr (Get_Repo_Installation owner repo) = ((Get_Repo pat owner repo, Permissions (Some True)) \<in> set tr)"
| "licensed pat tr (Get_User_Installation owner) =
     list_ex (\<lambda>(c, r). c = Get_User pat \<and> (case r of Login (Some l) \<Rightarrow> lower l = lower owner | _ \<Rightarrow> False)) tr"
| "licensed pat tr (Get_Org_Installation owner) =
     ((Get_Membership pat owner, Membership (Some ''admin'') (Some ''active'')) \<in> set tr)"
| "licensed pat tr _ = True"

fun caller_pays :: "string \<Rightarrow> trace \<Rightarrow> trace \<Rightarrow> bool" where
  "caller_pays pat before [] = True"
| "caller_pays pat before (e # es) = (licensed pat before (fst e) \<and> caller_pays pat (before @ [e]) es)"

text \<open>\<open>tr'\<close> continues \<open>tr\<close> with calls that are each licensed by what came before.\<close>

definition paid :: "string \<Rightarrow> trace \<Rightarrow> trace \<Rightarrow> bool" where
  "paid pat tr tr' \<longleftrightarrow> take (length tr) tr' = tr \<and> caller_pays pat tr (drop (length tr) tr')"

lemma caller_pays_append:
  "caller_pays pat before (a @ b) \<longleftrightarrow> caller_pays pat before a \<and> caller_pays pat (before @ a) b"
  by (induction a arbitrary: before) auto

lemma paid_refl [simp]: "paid pat tr tr"
  by (simp add: paid_def)

lemma paid_iff: "paid pat tr tr' \<longleftrightarrow> (\<exists>es. tr' = tr @ es \<and> caller_pays pat tr es)"
  by (auto simp: paid_def) (metis append_take_drop_id)

lemma paid_trans: "paid pat tr tr1 \<Longrightarrow> paid pat tr1 tr2 \<Longrightarrow> paid pat tr tr2"
  by (auto simp: paid_iff caller_pays_append)

lemma paid_snoc: "paid pat tr tr1 \<Longrightarrow> licensed pat tr1 (fst e) \<Longrightarrow> paid pat tr (tr1 @ [e])"
  by (auto simp: paid_iff caller_pays_append)

lemma licensed_mono: "licensed pat tr c \<Longrightarrow> licensed pat (tr @ es) c"
  by (cases "(pat, tr, c)" rule: licensed.cases) auto

text \<open>The proof of one repository: its calls are paid for, and success leaves the evidence in the trace.\<close>

definition proven_repo :: "string \<Rightarrow> int \<Rightarrow> trace \<Rightarrow> string \<times> string \<Rightarrow> bool" where
  "proven_repo pat i tr p \<longleftrightarrow>
     (Get_Repo pat (fst p) (snd p), Permissions (Some True)) \<in> set tr
     \<and> (Get_Repo_Installation (fst p) (snd p), Installation (Some i)) \<in> set tr"

definition proven_org :: "string \<Rightarrow> int \<Rightarrow> trace \<Rightarrow> string \<Rightarrow> bool" where
  "proven_org pat i tr owner \<longleftrightarrow>
     (licensed pat tr (Get_User_Installation owner) \<and> (Get_User_Installation owner, Installation (Some i)) \<in> set tr)
     \<or> (licensed pat tr (Get_Org_Installation owner) \<and> (Get_Org_Installation owner, Installation (Some i)) \<in> set tr)"

lemma installation_of_Some: "installation_of r = Some i \<longleftrightarrow> r = Installation (Some i)"
  by (auto simp: installation_of_def split: reply.splits)

lemma verify_admin_paid: "paid pat tr (snd (verify_admin gh app_on pat owner repo tr))"
  by (auto simp: verify_admin_def ask_def Let_def paid_iff)

lemma verify_admin_proof:
  "verify_admin gh app_on pat owner repo tr = (Some i, tr') \<Longrightarrow> app_on \<and> proven_repo pat i tr' (owner, repo)"
  by (auto simp: verify_admin_def ask_def Let_def proven_repo_def installation_of_Some split: if_splits)

lemma caller_login_paid: "paid pat tr (snd (caller_login gh pat tr))"
  by (auto simp: caller_login_def ask_def Let_def paid_iff)

lemma caller_login_Some:
  "caller_login gh pat tr = (Some l, tr') \<Longrightarrow> (Get_User pat, Login (Some l)) \<in> set tr' \<and> paid pat tr tr'"
  by (auto simp: caller_login_def ask_def Let_def paid_iff split: reply.splits option.splits if_splits)

lemma verify_org_paid: "paid pat tr (snd (verify_org_admin gh app_on pat owner tr))"
proof -
  obtain l tr1 where l: "caller_login gh pat tr = (l, tr1)" by (cases "caller_login gh pat tr")
  with caller_login_paid [of pat tr gh] have p: "paid pat tr tr1" by simp
  show ?thesis
  proof (cases l)
    case None
    with l p show ?thesis by (simp add: verify_org_admin_def)
  next
    case (Some login)
    with caller_login_Some l have in_tr: "(Get_User pat, Login (Some login)) \<in> set tr1" by blast
    show ?thesis
    proof (cases "lower login = lower owner")
      case True
      with in_tr have "licensed pat tr1 (Get_User_Installation owner)" by (force simp: list_ex_iff)
      with p have "paid pat tr (tr1 @ [(Get_User_Installation owner, x)])" for x by (auto intro: paid_snoc)
      with True Some l p show ?thesis by (simp add: verify_org_admin_def ask_def Let_def)
    next
      case False
      let ?m = "(Get_Membership pat owner, gh tr1 (Get_Membership pat owner))"
      have m: "paid pat tr (tr1 @ [?m])" using p by (rule paid_snoc) simp
      have "paid pat tr ((tr1 @ [?m]) @ [(Get_Org_Installation owner, x)])"
        if "snd ?m = Membership (Some ''admin'') (Some ''active'')" for x
        using m by (rule paid_snoc) (use that in simp)
      with m False Some l p show ?thesis
        by (cases "gh tr1 (Get_Membership pat owner) = Membership (Some ''admin'') (Some ''active'')")
           (simp_all add: verify_org_admin_def ask_def Let_def)
    qed
  qed
qed

lemma verify_org_proof:
  assumes "verify_org_admin gh app_on pat owner tr = (Some i, tr')"
  shows "app_on \<and> proven_org pat i tr' owner"
proof -
  from assms obtain login tr1 where l: "caller_login gh pat tr = (Some login, tr1)"
    by (cases "caller_login gh pat tr") (auto simp: verify_org_admin_def split: option.splits)
  with caller_login_Some have in_tr: "(Get_User pat, Login (Some login)) \<in> set tr1" by blast
  show ?thesis
  proof (cases "lower login = lower owner")
    case True
    with in_tr have "licensed pat tr1 (Get_User_Installation owner)" by (force simp: list_ex_iff)
    with assms l True show ?thesis
      by (auto simp: verify_org_admin_def ask_def Let_def installation_of_Some proven_org_def split: if_splits)
  next
    case False
    with assms l show ?thesis
      by (auto simp: verify_org_admin_def ask_def Let_def installation_of_Some proven_org_def split: if_splits)
  qed
qed

lemma verify_each_paid:
  "verify_each gh app_on pat repos ids tr = (res, tr') \<Longrightarrow> paid pat tr tr'"
proof (induction gh app_on pat repos ids tr arbitrary: res tr' rule: verify_each.induct)
  case (2 gh app_on pat owner name rest ids tr)
  obtain i tr1 where v: "verify_admin gh app_on pat owner name tr = (i, tr1)"
    by (cases "verify_admin gh app_on pat owner name tr")
  with verify_admin_paid [of pat tr gh app_on owner name] have "paid pat tr tr1" by simp
  with v 2 show ?case by (cases i) (auto intro: paid_trans)
qed simp

lemma proven_repo_mono: "proven_repo pat i tr p \<Longrightarrow> paid pat tr tr' \<Longrightarrow> proven_repo pat i tr' p"
  by (auto simp: proven_repo_def paid_iff)

text \<open>Every named repository is proven, under an installation of the returned set.\<close>

lemma verify_each_proof:
  "verify_each gh app_on pat repos ids tr = (Some out, tr') \<Longrightarrow>
   set ids \<subseteq> set out \<and> (\<forall>p \<in> set repos. \<exists>i \<in> set out. proven_repo pat i tr' p)"
proof (induction gh app_on pat repos ids tr arbitrary: out tr' rule: verify_each.induct)
  case (2 gh app_on pat owner name rest ids tr)
  from 2(2) obtain i tr1 where v: "verify_admin gh app_on pat owner name tr = (Some i, tr1)"
    and rest: "verify_each gh app_on pat rest (List.insert i ids) tr1 = (Some out, tr')"
    by (cases "verify_admin gh app_on pat owner name tr") (auto split: option.splits)
  from 2(1) [OF v [symmetric] refl rest] have ih: "insert i (set ids) \<subseteq> set out"
      "\<forall>p \<in> set rest. \<exists>i \<in> set out. proven_repo pat i tr' p" by auto
  from verify_admin_proof [OF v] verify_each_paid [OF rest] have "proven_repo pat i tr' (owner, name)"
    by (auto intro: proven_repo_mono)
  with ih show ?case by auto
qed simp

lemma verify_repos_cases:
  obtains "verify_repos_admin gh app_on pat repos tr = (None, tr)"
  | out tr1 where "repos \<noteq> []" "verify_each gh app_on pat repos [] tr = (out, tr1)"
    "verify_repos_admin gh app_on pat repos tr = (case out of Some [i] \<Rightarrow> (Some i, tr1) | _ \<Rightarrow> (None, tr1))"
proof (cases "repos = [] \<or> length (fromkeys (map (\<lambda>p. lower (fst p)) repos)) \<noteq> 1")
  case True
  then have "verify_repos_admin gh app_on pat repos tr = (None, tr)"
    by (cases "repos = []") (simp_all add: verify_repos_admin_def)
  with that show ?thesis by blast
next
  case False
  obtain out tr1 where v: "verify_each gh app_on pat repos [] tr = (out, tr1)"
    by (cases "verify_each gh app_on pat repos [] tr")
  with False have "verify_repos_admin gh app_on pat repos tr =
     (case out of Some [i] \<Rightarrow> (Some i, tr1) | _ \<Rightarrow> (None, tr1))"
    by (simp add: verify_repos_admin_def split: option.split list.split)
  with False v that show ?thesis by blast
qed

lemma verify_repos_paid: "paid pat tr (snd (verify_repos_admin gh app_on pat repos tr))"
proof (cases gh app_on pat repos tr rule: verify_repos_cases)
  case (2 out tr1)
  then show ?thesis using verify_each_paid [OF 2(2)] by (simp split: option.split list.split)
qed simp

lemma verify_repos_proof:
  assumes "verify_repos_admin gh app_on pat repos tr = (Some i, tr')"
  shows "repos \<noteq> [] \<and> list_all (proven_repo pat i tr') repos"
proof (cases gh app_on pat repos tr rule: verify_repos_cases)
  case 1
  with assms show ?thesis by simp
next
  case (2 out tr1)
  with assms have "out = Some [i]" "tr1 = tr'" by (auto split: option.splits list.splits)
  with 2 verify_each_proof [of gh app_on pat repos "[]" tr "[i]" tr'] show ?thesis by (simp add: list_all_iff)
qed

text \<open>
  An anonymous caller cannot drain the application's quota: in every proof of authority, over
  any GitHub, each call made with the application's own credential comes after a reply to the
  caller's own credential that proves administration of that very repository, account or
  organisation.
\<close>
theorem callers_quota_is_spent_first:
  "paid pat tr (snd (verify_repos_admin gh app_on pat repos tr))
   \<and> paid pat tr (snd (verify_org_admin gh app_on pat owner tr))
   \<and> paid pat tr (snd (caller_login gh pat tr))"
  by (simp add: verify_repos_paid verify_org_paid caller_login_paid)

subsection \<open>The endpoints\<close>

definition MAX_REPOS_PER_MINT :: nat where "MAX_REPOS_PER_MINT = 20"
definition MAX_MINTS_PER_DAY :: nat where "MAX_MINTS_PER_DAY = 30"

record token_request =
  rq_selection :: "string option"
  rq_owner :: "string option"
  rq_repos :: "string list option"
  rq_repo :: "string option"
  rq_label :: "string option"
  rq_expires :: int

record token_response =
  rs_key :: minted_key
  rs_installation :: int
  rs_selection :: string
  rs_repos :: "string list"

text \<open>An \<open>HTTPException\<close> is its status; any other exception is the server's 500.\<close>

type_synonym http = nat

definition NOT_FOUND :: http where "NOT_FOUND = 404"

text \<open>\<open>owner/name\<close>, refused with an empty part or a second slash.\<close>

definition parse_repo :: "string \<Rightarrow> (string \<times> string) option" where
  "parse_repo full =
     (case str_partition full ''/'' of
        (owner, _, name) \<Rightarrow>
          if owner = [] \<or> name = [] \<or> CHR ''/'' \<in> set name then None else Some (owner, name))"

fun parse_repos :: "string list \<Rightarrow> (string \<times> string) list option" where
  "parse_repos [] = Some []"
| "parse_repos (full # rest) =
     (case parse_repo full of None \<Rightarrow> None | Some p \<Rightarrow> map_option (Cons p) (parse_repos rest))"

text \<open>The ids of the named repositories in the registry, by name without case; the last row wins.\<close>

definition by_name :: "int \<Rightarrow> ('a registry_scheme) \<Rightarrow> (string \<times> int) list" where
  "by_name inst db = fold (\<lambda>(rid, full). dict_set (lower full) rid) (active_repos inst db) []"

fun ids_of :: "(string \<times> int) list \<Rightarrow> string list \<Rightarrow> int list option" where
  "ids_of m [] = Some []"
| "ids_of m (full # rest) =
     (case dict_get m (lower full) of None \<Rightarrow> None | Some i \<Rightarrow> map_option (Cons i) (ids_of m rest))"

text \<open>The selection after the legacy body is normalised, and the proof it asks for.\<close>

definition normalised :: "token_request \<Rightarrow> string option \<times> string list option" where
  "normalised rq =
     (if rq_selection rq = None \<and> rq_repo rq \<noteq> None then (Some ''selected'', Some [the (rq_repo rq)])
      else (rq_selection rq, rq_repos rq))"

definition prove_selection ::
    "service \<Rightarrow> bool \<Rightarrow> string \<Rightarrow> string option \<times> string list option \<Rightarrow> string option \<Rightarrow> trace \<Rightarrow> int option \<times> trace" where
  "prove_selection gh app_on pat sel owner tr =
     (if fst sel = Some ''selected'' then
        (let repos = (case snd sel of None \<Rightarrow> [] | Some rs \<Rightarrow> rs) in
         if repos = [] \<or> MAX_REPOS_PER_MINT < length repos then (None, tr)
         else if length (fromkeys (map lower repos)) \<noteq> length repos then (None, tr)
         else case parse_repos repos of
           None \<Rightarrow> (None, tr)
         | Some parsed \<Rightarrow> verify_repos_admin gh app_on pat parsed tr)
      else if fst sel = Some ''all'' then
        (case owner of
           None \<Rightarrow> (None, tr)
         | Some o1 \<Rightarrow> if o1 = [] \<or> CHR ''/'' \<in> set o1 then (None, tr) else verify_org_admin gh app_on pat o1 tr)
      else (None, tr))"

definition midnight :: "instant \<Rightarrow> instant" where
  "midnight now = now - now mod days 1"

definition dispense_token ::
    "service \<Rightarrow> bool \<Rightarrow> environ \<Rightarrow> nat list \<Rightarrow> instant \<Rightarrow> string \<Rightarrow> token_request \<Rightarrow> key_db \<Rightarrow>
     (http, token_response) result \<times> key_db \<times> trace" where
  "dispense_token gh app_on env draws now pat rq db =
     (if pat = [] then (Raise 401, db, [])
      else if \<not> rg_configured db then (Raise 503, db, [])
      else if \<not> (0 \<le> rq_expires rq \<and> rq_expires rq \<le> 366) then (Raise NOT_FOUND, db, [])
      else if (case rq_label rq of None \<Rightarrow> False | Some l \<Rightarrow> 100 < cp_len l) then (Raise NOT_FOUND, db, [])
      else case prove_selection gh app_on pat (normalised rq) (rq_owner rq) [] of
        (None, tr1) \<Rightarrow> (Raise NOT_FOUND, db, tr1)
      | (Some inst, tr1) \<Rightarrow>
          (case count_minted_since inst (midnight now) db of
             None \<Rightarrow> (Raise 503, db, tr1)
           | Some minted_today \<Rightarrow>
               if MAX_MINTS_PER_DAY \<le> minted_today then (Raise NOT_FOUND, db, tr1)
               else case caller_login gh pat tr1 of
                 (None, tr2) \<Rightarrow> (Raise NOT_FOUND, db, tr2)
               | (Some minted_by, tr2) \<Rightarrow>
                   let selection = the (fst (normalised rq));
                       named = (if selection = ''selected'' then the (snd (normalised rq)) else [])
                   in (case ids_of (by_name inst db) named of
                         None \<Rightarrow> (Raise NOT_FOUND, db, tr2)
                       | Some ids \<Rightarrow>
                           (case mint_key env draws now now inst selection ids (rq_label rq) (rq_expires rq) minted_by db of
                              (Inl Keys_Not_Configured, db1) \<Rightarrow> (Raise 503, db1, tr2)
                            | (Inl (Other_Error e), db1) \<Rightarrow> (Raise 500, db1, tr2)
                            | (Inr None, db1) \<Rightarrow> (Raise NOT_FOUND, db1, tr2)
                            | (Inr (Some k), db1) \<Rightarrow>
                                (Return \<lparr>rs_key = k, rs_installation = inst, rs_selection = selection, rs_repos = named\<rparr>,
                                 db1, tr2)))))"

definition list_tokens ::
    "service \<Rightarrow> bool \<Rightarrow> string \<Rightarrow> string \<Rightarrow> key_db \<Rightarrow> (http, (key_row \<times> int list) list) result \<times> trace" where
  "list_tokens gh app_on pat owner db =
     (if pat = [] then (Raise 401, [])
      else if \<not> rg_configured db then (Raise 503, [])
      else if owner = [] \<or> CHR ''/'' \<in> set owner then (Raise NOT_FOUND, [])
      else case verify_org_admin gh app_on pat owner [] of
        (None, tr) \<Rightarrow> (Raise NOT_FOUND, tr)
      | (Some inst, tr) \<Rightarrow>
          (Return (map (\<lambda>r. (r, if kr_selection r = ''selected''
                                then sort (installation_token_repo_ids (kr_id r) db) else []))
             (list_installation_tokens inst db)), tr))"

text \<open>The two proofs that revoke: of the account, or of every repository the key names.\<close>

definition revoke_by_owner ::
    "service \<Rightarrow> bool \<Rightarrow> instant \<Rightarrow> string \<Rightarrow> int \<Rightarrow> string \<Rightarrow> key_db \<Rightarrow> (http, unit) result \<times> key_db \<times> trace" where
  "revoke_by_owner gh app_on now pat token_id owner db =
     (if CHR ''/'' \<in> set owner then (Raise NOT_FOUND, db, [])
      else case verify_org_admin gh app_on pat owner [] of
        (None, tr) \<Rightarrow> (Raise NOT_FOUND, db, tr)
      | (Some inst, tr) \<Rightarrow>
          (case revoke_installation_token now token_id inst db of
             (ok, db1) \<Rightarrow> (if ok then Return () else Raise NOT_FOUND, db1, tr)))"

definition revoke_by_repos ::
    "service \<Rightarrow> bool \<Rightarrow> instant \<Rightarrow> string \<Rightarrow> int \<Rightarrow> string \<Rightarrow> key_db \<Rightarrow> (http, unit) result \<times> key_db \<times> trace" where
  "revoke_by_repos gh app_on now pat token_id repos db =
     (let names = filter (\<lambda>r. r \<noteq> []) (split_on '','' repos) in
      if names = [] \<or> MAX_REPOS_PER_MINT < length names then (Raise NOT_FOUND, db, [])
      else case parse_repos names of
        None \<Rightarrow> (Raise NOT_FOUND, db, [])
      | Some parsed \<Rightarrow>
          (case verify_repos_admin gh app_on pat parsed [] of
             (None, tr) \<Rightarrow> (Raise NOT_FOUND, db, tr)
           | (Some inst, tr) \<Rightarrow>
               (case ids_of (by_name inst db) names of
                  None \<Rightarrow> (Raise NOT_FOUND, db, tr)
                | Some ids \<Rightarrow>
                    let key_ids = installation_token_repo_ids token_id db in
                    if key_ids = [] \<or> \<not> set key_ids \<subseteq> set ids then (Raise NOT_FOUND, db, tr)
                    else case revoke_installation_token now token_id inst db of
                      (ok, db1) \<Rightarrow> (if ok then Return () else Raise NOT_FOUND, db1, tr))))"

definition revoke_token ::
    "service \<Rightarrow> bool \<Rightarrow> instant \<Rightarrow> string \<Rightarrow> int \<Rightarrow> string \<Rightarrow> string \<Rightarrow> key_db \<Rightarrow> (http, unit) result \<times> key_db \<times> trace" where
  "revoke_token gh app_on now pat token_id owner repos db =
     (if pat = [] then (Raise 401, db, [])
      else if \<not> rg_configured db then (Raise 503, db, [])
      else if owner \<noteq> [] then revoke_by_owner gh app_on now pat token_id owner db
      else if repos \<noteq> [] then revoke_by_repos gh app_on now pat token_id repos db
      else (Raise NOT_FOUND, db, []))"

subsection \<open>What a minted key was proven for\<close>

text \<open>The evidence in a trace for a selection: of every named repository, or of the account.\<close>

definition proven_selection :: "string \<Rightarrow> int \<Rightarrow> trace \<Rightarrow> string \<Rightarrow> string list \<Rightarrow> string option \<Rightarrow> bool" where
  "proven_selection pat inst tr selection repos owner \<longleftrightarrow>
     (if selection = ''selected'' then
        repos \<noteq> [] \<and> length repos \<le> MAX_REPOS_PER_MINT \<and> length (fromkeys (map lower repos)) = length repos
        \<and> (case parse_repos repos of None \<Rightarrow> False | Some ps \<Rightarrow> list_all (proven_repo pat inst tr) ps)
      else selection = ''all'' \<and> (case owner of None \<Rightarrow> False | Some o1 \<Rightarrow> proven_org pat inst tr o1))"

lemma prove_selection_paid: "paid pat tr (snd (prove_selection gh app_on pat sel owner tr))"
  by (auto simp: prove_selection_def Let_def verify_repos_paid verify_org_paid split: option.split)

lemma prove_selection_proof:
  assumes "prove_selection gh app_on pat sel owner tr = (Some inst, tr')"
  shows "\<exists>selection. fst sel = Some selection \<and>
    proven_selection pat inst tr' selection (if selection = ''selected'' then the (snd sel) else []) owner"
proof (cases "fst sel = Some ''selected''")
  case True
  with assms obtain repos where r: "snd sel = Some repos" "repos \<noteq> []"
    by (cases "snd sel") (auto simp: prove_selection_def Let_def split: if_splits)
  with assms True obtain ps where "parse_repos repos = Some ps" "length repos \<le> MAX_REPOS_PER_MINT"
      "length (fromkeys (map lower repos)) = length repos" "verify_repos_admin gh app_on pat ps tr = (Some inst, tr')"
    by (auto simp: prove_selection_def Let_def split: if_splits option.splits)
  with verify_repos_proof r True show ?thesis by (auto simp: proven_selection_def)
next
  case False
  with assms obtain o1 where "fst sel = Some ''all''" "owner = Some o1"
      "verify_org_admin gh app_on pat o1 tr = (Some inst, tr')"
    by (auto simp: prove_selection_def split: if_splits option.splits)
  with verify_org_proof show ?thesis by (auto simp: proven_selection_def)
qed

lemma proven_org_mono: "proven_org pat i tr p \<Longrightarrow> paid pat tr tr' \<Longrightarrow> proven_org pat i tr' p"
  by (auto simp: proven_org_def paid_iff)

lemma proven_selection_mono:
  "proven_selection pat i tr sel repos owner \<Longrightarrow> paid pat tr tr' \<Longrightarrow> proven_selection pat i tr' sel repos owner"
  by (auto simp: proven_selection_def list_all_iff split: if_splits option.splits
      intro: proven_repo_mono proven_org_mono)

text \<open>A dispensed key, step by step.\<close>

lemma dispense_Return:
  assumes "dispense_token gh app_on env draws now pat rq db = (Return rs, db1, tr)"
  obtains inst tr1 n minted_by ids named selection where
    "prove_selection gh app_on pat (normalised rq) (rq_owner rq) [] = (Some inst, tr1)"
    "caller_login gh pat tr1 = (Some minted_by, tr)"
    "count_minted_since inst (midnight now) db = Some n" "n < MAX_MINTS_PER_DAY"
    "selection = the (fst (normalised rq))"
    "named = (if selection = ''selected'' then the (snd (normalised rq)) else [])"
    "ids_of (by_name inst db) named = Some ids"
    "mint_key env draws now now inst selection ids (rq_label rq) (rq_expires rq) minted_by db = (Return (Some (rs_key rs)), db1)"
    "rs = \<lparr>rs_key = rs_key rs, rs_installation = inst, rs_selection = selection, rs_repos = named\<rparr>"
proof -
  obtain i tr1 where p: "prove_selection gh app_on pat (normalised rq) (rq_owner rq) [] = (i, tr1)"
    by (cases "prove_selection gh app_on pat (normalised rq) (rq_owner rq) []")
  with assms obtain inst where i: "i = Some inst"
    by (cases i) (auto simp: dispense_token_def split: if_splits)
  with assms p obtain n where n: "count_minted_since inst (midnight now) db = Some n" "n < MAX_MINTS_PER_DAY"
    by (cases "count_minted_since inst (midnight now) db") (auto simp: dispense_token_def split: if_splits)
  obtain l tr2 where l: "caller_login gh pat tr1 = (l, tr2)" by (cases "caller_login gh pat tr1")
  with assms p i n obtain minted_by where lg: "l = Some minted_by"
    by (cases l) (auto simp: dispense_token_def split: if_splits)
  let ?s = "the (fst (normalised rq))"
  let ?named = "if ?s = ''selected'' then the (snd (normalised rq)) else []"
  from assms p i n l lg obtain ids where ids: "ids_of (by_name inst db) ?named = Some ids"
    by (cases "ids_of (by_name inst db) ?named") (simp_all add: dispense_token_def Let_def split: if_splits)
  obtain res db' where m: "mint_key env draws now now inst ?s ids (rq_label rq) (rq_expires rq) minted_by db = (res, db')"
    by (cases "mint_key env draws now now inst ?s ids (rq_label rq) (rq_expires rq) minted_by db")
  have "(case (res, db') of
           (Inl Keys_Not_Configured, db1) \<Rightarrow> (Raise 503, db1, tr2)
         | (Inl (Other_Error e), db1) \<Rightarrow> (Raise 500, db1, tr2)
         | (Inr None, db1) \<Rightarrow> (Raise NOT_FOUND, db1, tr2)
         | (Inr (Some k), db1) \<Rightarrow>
             (Return \<lparr>rs_key = k, rs_installation = inst, rs_selection = ?s, rs_repos = ?named\<rparr>, db1, tr2))
      = (Return rs, db1, tr)"
    using assms by (simp only: dispense_token_def p i n(1) l lg ids m Let_def prod.case option.case)
       (use n(2) in \<open>simp split: if_splits\<close>)
  then obtain k where "res = Return (Some k)" "db' = db1" "tr2 = tr"
      "rs = \<lparr>rs_key = k, rs_installation = inst, rs_selection = ?s, rs_repos = ?named\<rparr>"
    by (auto split: sum.splits option.splits keys_error.splits)
  with that [of inst tr1 minted_by n ?s ?named ids] p i n l lg ids m show ?thesis by simp
qed


subsection \<open>A refusal leaves no key behind\<close>

lemma dict_set_mem: "p \<in> set (dict_set k v d) \<Longrightarrow> snd p = v \<or> p \<in> set d"
  by (induction d) (auto split: if_splits)

lemma dict_set_distinct_values:
  "\<forall>p \<in> set d. snd p \<noteq> v \<Longrightarrow> distinct (map snd d) \<Longrightarrow> distinct (map snd (dict_set k v d))"
proof (induction d)
  case (Cons p d)
  from Cons.prems have "snd p \<notin> snd ` set (dict_set k v d)"
    using dict_set_mem [of _ k v d] by (auto simp: image_iff)
  with Cons show ?case by (cases p) (auto simp: image_iff)
qed simp

lemma by_name_values:
  "distinct (map fst xs) \<Longrightarrow> distinct (map snd d) \<Longrightarrow> \<forall>p \<in> set d. \<forall>q \<in> set xs. snd p \<noteq> fst q \<Longrightarrow>
   distinct (map snd (fold (\<lambda>(rid, full). dict_set (lower full) rid) xs d))"
proof (induction xs arbitrary: d)
  case (Cons x xs)
  obtain rid full where x: "x = (rid, full)" by (cases x)
  from Cons.prems x have "distinct (map snd (dict_set (lower full) rid d))"
    by (intro dict_set_distinct_values) auto
  moreover have "\<forall>p \<in> set (dict_set (lower full) rid d). \<forall>q \<in> set xs. snd p \<noteq> fst q"
  proof (intro ballI)
    fix p q assume "p \<in> set (dict_set (lower full) rid d)" "q \<in> set xs"
    with dict_set_mem [of p "lower full" rid d] Cons.prems x show "snd p \<noteq> fst q" by auto
  qed
  ultimately show ?case using Cons.IH [of "dict_set (lower full) rid d"] Cons.prems x by simp
qed simp

lemma active_repos_distinct:
  "registry_wf db \<Longrightarrow> distinct (map fst (active_repos inst db))"
proof -
  assume "registry_wf db"
  then have d: "distinct (map (\<lambda>r. (ip_installation r, ip_repo r)) (rg_repos db))" by (simp add: registry_wf_def)
  have "distinct (map ip_repo (filter (\<lambda>r. ip_installation r = inst \<and> ip_state r = ''active'') rows))"
    if "distinct (map (\<lambda>r. (ip_installation r, ip_repo r)) rows)" for rows :: "repo_row list"
    using that by (induction rows) (auto simp: image_iff)
  with d show ?thesis by (simp add: active_repos_def comp_def)
qed

lemma by_name_ids: "registry_wf db \<Longrightarrow> distinct (map snd (by_name inst db))"
  unfolding by_name_def by (rule by_name_values) (simp_all add: active_repos_distinct)

lemma dict_get_inj:
  "distinct (map snd d) \<Longrightarrow> dict_get d a = Some v \<Longrightarrow> dict_get d b = Some v \<Longrightarrow> a = b"
proof (induction d)
  case (Cons p d)
  then show ?case
    by (cases p) (auto split: if_splits dest!: map_of_SomeD simp: image_iff)
qed simp

lemma ids_of_distinct:
  assumes "distinct (map snd m)"
  shows "ids_of m names = Some ids \<Longrightarrow> distinct (map lower names) \<Longrightarrow> distinct ids"
proof (induction names arbitrary: ids)
  case (Cons full rest)
  then obtain i others where i: "dict_get m (lower full) = Some i" "ids_of m rest = Some others" "ids = i # others"
    by (auto split: option.splits)
  have "\<exists>n \<in> set rest. dict_get m (lower n) = Some j" if "j \<in> set others" for j
    using i(2) that by (induction rest arbitrary: others) (auto split: option.splits)
  then have "i \<notin> set others"
    using i(1) Cons.prems(2) dict_get_inj [OF assms i(1)] by (metis distinct.simps(2) image_eqI list.simps(9) list.set_map)
  with Cons.IH [OF i(2)] Cons.prems(2) i(3) show ?case by simp
qed simp

lemma fromkeys_length: "length (fromkeys xs) = length xs \<Longrightarrow> distinct xs"
proof -
  assume "length (fromkeys xs) = length xs"
  then have "card (set xs) = length xs" by (metis distinct_card distinct_fromkeys set_fromkeys)
  then show "distinct xs" by (rule card_distinct)
qed

lemma mint_Raise:
  assumes "mint_key env draws now created inst selection ids label exp_days minted_by db = (Raise e, db1)"
    and "keys_wf db" and "selection = ''selected'' \<longrightarrow> distinct ids"
  shows "db1 = db"
proof (cases "keys_configured env \<and> hash_secret env (mt_secret (generate draws)) (current_hash_version env) \<noteq> None")
  case False
  with assms(1) show ?thesis by (cases "keys_configured env") (auto simp: mint_key_def Let_def)
next
  case True
  then obtain hash where h: "hash_secret env (mt_secret (generate draws)) (current_hash_version env) = Some hash"
    by auto
  let ?e = "if exp_days = 0 then None else Some (now + days exp_days)"
  let ?r = "minted_row (generate draws) hash (current_hash_version env) created ?e inst selection label minted_by"
  obtain ins db0 where ins: "insert_installation_token ?r db = (ins, db0)"
    by (cases "insert_installation_token ?r db")
  show ?thesis
  proof (cases "\<exists>i. ins = Return (Some i)")
    case True
    then obtain i where i: "ins = Return (Some i)" ..
    let ?k = "\<lparr>mk_token = mt_token (generate draws), mk_id = i, mk_last4 = mt_last4 (generate draws), mk_expires = ?e\<rparr>"
    from assms(1) h ins i \<open>keys_configured env \<and> _\<close> have a: "attach_repos selection ids ?k db0 = (Raise e, db1)"
      by (simp add: mint_key_def Let_def)
    from insert_token_keys [OF ins] i have "i = kd_seq db" "kd_repos db0 = kd_repos db" by auto
    with assms(2) have "(i, r) \<notin> set (kd_repos db0)" for r by (auto simp: keys_wf_def list_all_iff)
    with a assms(3) show ?thesis
      by (auto simp: attach_repos_def set_installation_token_repos_def split: if_splits)
  next
    case False
    with assms(1) h ins \<open>keys_configured env \<and> _\<close> have "db1 = db0"
      by (cases ins) (auto simp: mint_key_def Let_def split: option.splits)
    with insert_token_keys [OF ins] False show ?thesis by auto
  qed
qed

lemma mint_None:
  assumes "mint_key env draws now created inst selection ids label exp_days minted_by db = (Return None, db1)"
  shows "db1 = db"
proof -
  from assms have c: "keys_configured env" by (auto simp: mint_key_def split: if_splits)
  with assms obtain hash where h: "hash_secret env (mt_secret (generate draws)) (current_hash_version env) = Some hash"
    by (cases "hash_secret env (mt_secret (generate draws)) (current_hash_version env)") (auto simp: mint_key_def Let_def)
  let ?e = "if exp_days = 0 then None else Some (now + days exp_days)"
  let ?r = "minted_row (generate draws) hash (current_hash_version env) created ?e inst selection label minted_by"
  obtain ins db0 where ins: "insert_installation_token ?r db = (ins, db0)"
    by (cases "insert_installation_token ?r db")
  have no: "fst (attach_repos selection ids k db0) \<noteq> Return None" for k
    by (auto simp: attach_repos_def split: prod.split sum.split)
  from assms c h ins no have "db1 = db0 \<and> (\<forall>i. ins \<noteq> Return (Some i))"
    by (cases ins) (auto simp: mint_key_def Let_def split: option.splits, (metis fst_conv)+)
  with insert_token_keys [OF ins] show ?thesis by auto
qed

text \<open>
  A refused request leaves no orphan: whichever check refuses, and even when minting itself
  raises, the ledger is as it was, so no key row is left without its repositories.
\<close>
theorem refused_mint_leaves_no_key:
  assumes "dispense_token gh app_on env draws now pat rq db = (Raise e, db1, tr)"
    and "keys_wf db" and "registry_wf db"
  shows "db1 = db"
proof -
  obtain i tr1 where p: "prove_selection gh app_on pat (normalised rq) (rq_owner rq) [] = (i, tr1)"
    by (cases "prove_selection gh app_on pat (normalised rq) (rq_owner rq) []")
  obtain l tr2 where l: "caller_login gh pat tr1 = (l, tr2)" by (cases "caller_login gh pat tr1")
  let ?s = "the (fst (normalised rq))"
  let ?named = "if ?s = ''selected'' then the (snd (normalised rq)) else []"
  show ?thesis
  proof (cases "\<exists>inst minted_by ids. i = Some inst \<and> l = Some minted_by \<and> ids_of (by_name inst db) ?named = Some ids")
    case False
    with assms(1) p l show ?thesis
      by (auto simp: dispense_token_def Let_def split: if_splits option.splits)
  next
    case True
    then obtain inst minted_by ids where i: "i = Some inst" and lg: "l = Some minted_by"
      and ids: "ids_of (by_name inst db) ?named = Some ids" by blast
    have d: "?s = ''selected'' \<longrightarrow> distinct ids"
    proof
      assume s: "?s = ''selected''"
      from prove_selection_proof [of gh app_on pat "normalised rq" "rq_owner rq" "[]" inst tr1] p i
      have "proven_selection pat inst tr1 ?s ?named (rq_owner rq)" by auto
      with s have "distinct (map lower ?named)" by (auto simp: proven_selection_def intro: fromkeys_length)
      from ids_of_distinct [OF by_name_ids [OF assms(3)] ids this] show "distinct ids" .
    qed
    obtain res db' where m: "mint_key env draws now now inst ?s ids (rq_label rq) (rq_expires rq) minted_by db = (res, db')"
      by (cases "mint_key env draws now now inst ?s ids (rq_label rq) (rq_expires rq) minted_by db")
    have "db1 = db \<or> (db1 = db' \<and> (res = Return None \<or> (\<exists>x. res = Raise x)))"
      using assms(1)
      by (simp only: dispense_token_def p i l lg ids m Let_def prod.case option.case)
         (auto split: if_splits option.splits sum.splits keys_error.splits)
    with m mint_Raise [OF _ assms(2) d] mint_None show ?thesis by metis
  qed
qed

subsection \<open>Revocation\<close>

text \<open>The evidence a revocation rests on: the account's, or that of every repository the key names.\<close>

definition may_revoke :: "string \<Rightarrow> int \<Rightarrow> trace \<Rightarrow> int \<Rightarrow> string \<Rightarrow> string list \<Rightarrow> key_db \<Rightarrow> bool" where
  "may_revoke pat inst tr token_id owner names db \<longleftrightarrow>
     (if owner \<noteq> [] then proven_org pat inst tr owner
      else (case (parse_repos names, ids_of (by_name inst db) names) of
              (Some ps, Some ids) \<Rightarrow> list_all (proven_repo pat inst tr) ps
                \<and> installation_token_repo_ids token_id db \<noteq> []
                \<and> list_all (\<lambda>r. r \<in> set ids) (installation_token_repo_ids token_id db)
            | _ \<Rightarrow> False))"

lemma revoke_names:
  assumes "revoke_by_repos gh app_on now pat token_id repos db = (Return (), db1, tr)"
  obtains inst ps ids where
    "parse_repos (filter (\<lambda>r. r \<noteq> []) (split_on '','' repos)) = Some ps"
    "verify_repos_admin gh app_on pat ps [] = (Some inst, tr)"
    "ids_of (by_name inst db) (filter (\<lambda>r. r \<noteq> []) (split_on '','' repos)) = Some ids"
    "installation_token_repo_ids token_id db \<noteq> []" "set (installation_token_repo_ids token_id db) \<subseteq> set ids"
    "revoke_installation_token now token_id inst db = (True, db1)"
proof -
  let ?names = "filter (\<lambda>r. r \<noteq> []) (split_on '','' repos)"
  from assms obtain ps where ps: "parse_repos ?names = Some ps"
    by (cases "parse_repos ?names") (auto simp: revoke_by_repos_def Let_def split: if_splits)
  obtain i tr1 where v: "verify_repos_admin gh app_on pat ps [] = (i, tr1)"
    by (cases "verify_repos_admin gh app_on pat ps []")
  from assms ps v obtain inst where i: "i = Some inst"
    by (cases i) (auto simp: revoke_by_repos_def Let_def split: if_splits)
  from assms ps v i obtain ids where ids: "ids_of (by_name inst db) ?names = Some ids"
    by (cases "ids_of (by_name inst db) ?names") (auto simp: revoke_by_repos_def Let_def split: if_splits)
  obtain ok db2 where r: "revoke_installation_token now token_id inst db = (ok, db2)"
    by (cases "revoke_installation_token now token_id inst db")
  from assms ps v i ids r that show ?thesis
    by (simp add: revoke_by_repos_def Let_def split: if_splits)
qed

text \<open>
  Only who administers a key's whole scope revokes it: a successful revocation rests on GitHub's
  confirmation, for the installation the key belongs to, of the account, or of repositories that
  include every one the key names; a key over all repositories, which names none, falls to the
  account's proof alone. The row is then stamped, and the key is dead.
\<close>
theorem revocation_is_proven:
  assumes "revoke_token gh app_on now pat token_id owner repos db = (Return (), db1, tr)" and "keys_wf db"
  shows "\<exists>inst. may_revoke pat inst tr token_id owner (filter (\<lambda>r. r \<noteq> []) (split_on '','' repos)) db
    \<and> 0 < rowcount (owned_key token_id inst) (kd_tokens db) \<and> dead_key token_id db1"
proof -
  have "\<exists>inst. may_revoke pat inst tr token_id owner (filter (\<lambda>r. r \<noteq> []) (split_on '','' repos)) db
    \<and> revoke_installation_token now token_id inst db = (True, db1)"
  proof (cases "owner = []")
    case False
    with assms(1) have o1: "revoke_by_owner gh app_on now pat token_id owner db = (Return (), db1, tr)"
      by (auto simp: revoke_token_def split: if_splits)
    obtain i tr1 where v: "verify_org_admin gh app_on pat owner [] = (i, tr1)"
      by (cases "verify_org_admin gh app_on pat owner []")
    from o1 v obtain inst where i: "i = Some inst"
      by (cases i) (auto simp: revoke_by_owner_def split: if_splits)
    with o1 v have r: "revoke_installation_token now token_id inst db = (True, db1)" "tr1 = tr"
      by (auto simp: revoke_by_owner_def split: if_splits prod.splits)
    with v i have "verify_org_admin gh app_on pat owner [] = (Some inst, tr)" by simp
    from verify_org_proof [OF this] r False have
      "may_revoke pat inst tr token_id owner (filter (\<lambda>r. r \<noteq> []) (split_on '','' repos)) db"
      by (simp add: may_revoke_def)
    with r show ?thesis by blast
  next
    case True
    with assms(1) have "revoke_by_repos gh app_on now pat token_id repos db = (Return (), db1, tr)"
      by (auto simp: revoke_token_def split: if_splits)
    then obtain inst ps ids where r: "parse_repos (filter (\<lambda>r. r \<noteq> []) (split_on '','' repos)) = Some ps"
      "verify_repos_admin gh app_on pat ps [] = (Some inst, tr)"
      "ids_of (by_name inst db) (filter (\<lambda>r. r \<noteq> []) (split_on '','' repos)) = Some ids"
      "installation_token_repo_ids token_id db \<noteq> []" "set (installation_token_repo_ids token_id db) \<subseteq> set ids"
      "revoke_installation_token now token_id inst db = (True, db1)"
      by (rule revoke_names)
    from r(1,3,4,5) verify_repos_proof [OF r(2)] True
    have "may_revoke pat inst tr token_id owner (filter (\<lambda>r. r \<noteq> []) (split_on '','' repos)) db"
      by (auto simp: may_revoke_def list_all_iff)
    with r(6) show ?thesis by blast
  qed
  then obtain inst where m: "may_revoke pat inst tr token_id owner (filter (\<lambda>r. r \<noteq> []) (split_on '','' repos)) db"
    and r: "revoke_installation_token now token_id inst db = (True, db1)" by blast
  from r have "0 < rowcount (owned_key token_id inst) (kd_tokens db)"
    by (auto simp: revoke_installation_token_def split: if_splits)
  with m revoked_is_dead [OF assms(2) r] show ?thesis by blast
qed

subsection \<open>A concrete GitHub\<close>

text \<open>The caller administers the one repository, and the application is installed there.\<close>

definition ex_github :: service where
  "ex_github tr c =
     (case c of Get_Repo pat owner repo \<Rightarrow> Permissions (Some (owner = ''acme''))
      | Get_User pat \<Rightarrow> Login (Some ''root'')
      | Get_Repo_Installation owner repo \<Rightarrow> Installation (Some 7)
      | _ \<Rightarrow> Failed)"

definition ex_request :: "string \<Rightarrow> token_request" where
  "ex_request repo = \<lparr>rq_selection = Some ''selected'', rq_owner = None, rq_repos = Some [repo], rq_repo = None,
     rq_label = None, rq_expires = 0\<rparr>"

definition ex_trace :: trace where
  "ex_trace = [(Get_Repo ''pat'' ''acme'' ''api'', Permissions (Some True)),
     (Get_Repo_Installation ''acme'' ''api'', Installation (Some 7))]"

lemma ex_repo: "parse_repos [''acme/api''] = Some [(''acme'', ''api'')]"
  by (simp add: parse_repo_def startswith_def)

lemma ex_verify: "verify_repos_admin ex_github True ''pat'' [(''acme'', ''api'')] [] = (Some 7, ex_trace)"
  by (simp add: verify_repos_admin_def verify_admin_def ask_def ex_github_def installation_of_def ex_trace_def Let_def)

lemma ex_ids: "ids_of (by_name 7 ex_db) [''acme/api''] = Some [42]"
  by (simp add: by_name_def active_repos_def ex_db_def new_registration_def)

lemma ex_dispense:
  "dispense_token ex_github True ex_env (replicate 51 0) 0 ''pat'' (ex_request ''acme/api'') ex_db =
   (let m = mint_key ex_env (replicate 51 0) 0 0 7 ''selected'' [42] None 0 ''root'' ex_db
    in (Return \<lparr>rs_key = ex_key, rs_installation = 7, rs_selection = ''selected'', rs_repos = [''acme/api'']\<rparr>,
        ex_minted, ex_trace @ [(Get_User ''pat'', Login (Some ''root''))]))"
proof -
  have p: "prove_selection ex_github True ''pat'' (Some ''selected'', Some [''acme/api'']) None [] = (Some 7, ex_trace)"
    by (simp add: prove_selection_def ex_repo ex_verify MAX_REPOS_PER_MINT_def del: parse_repos.simps)
  have c: "count_minted_since 7 (midnight 0) ex_db = Some 0" "rg_configured ex_db"
    by (simp_all add: count_minted_since_def ex_db_def rowcount_def)
  show ?thesis
    by (simp add: dispense_token_def ex_request_def normalised_def p c ex_ids MAX_MINTS_PER_DAY_def caller_login_def
        ask_def ex_github_def Let_def ex_mint del: ids_of.simps)
qed


theorem refused_mint_leaves_no_key_witness:
  "snd (dispense_token ex_github True ex_env (replicate 51 0) 0 ''pat'' (ex_request ''other/api'') ex_db)
     = (ex_db, [(Get_Repo ''pat'' ''other'' ''api'', Permissions (Some False))])"
proof -
  let ?t = "[(Get_Repo ''pat'' ''other'' ''api'', Permissions (Some False))]"
  let ?r = "dispense_token ex_github True ex_env (replicate 51 0) 0 ''pat'' (ex_request ''other/api'') ex_db"
  have q: "parse_repos [''other/api''] = Some [(''other'', ''api'')]"
    by (simp add: parse_repo_def startswith_def)
  have v: "verify_repos_admin ex_github True ''pat'' [(''other'', ''api'')] [] = (None, ?t)"
    by (simp add: verify_repos_admin_def verify_admin_def ask_def ex_github_def Let_def)
  have p: "prove_selection ex_github True ''pat'' (Some ''selected'', Some [''other/api'']) None [] = (None, ?t)"
    by (simp add: prove_selection_def q v MAX_REPOS_PER_MINT_def del: parse_repos.simps)
  have c: "rg_configured ex_db" and w: "registry_wf ex_db"
    by (simp_all add: ex_db_def registry_wf_def new_registration_def)
  have t: "fst ?r = Raise NOT_FOUND" "snd (snd ?r) = ?t"
    by (simp_all add: dispense_token_def ex_request_def normalised_def p c)
  obtain db1 where d: "?r = (Raise NOT_FOUND, db1, ?t)" using t by (metis prod.collapse)
  with refused_mint_leaves_no_key [OF d ex_state(2) w] show ?thesis by simp
qed

lemma ex_names: "filter (\<lambda>r. r \<noteq> []) (split_on '','' ''acme/api'') = [''acme/api'']"
  by (simp add: split_on_char_none)

lemma ex_revoke_api:
  "revoke_token ex_github True 9 ''pat'' 5 [] ''acme/api'' ex_minted = (Return (), ex_revoked, ex_trace)"
proof -
  have t: "rg_repos ex_minted = rg_repos ex_db" "kd_repos ex_minted = [(5, 42)]" "rg_configured ex_minted"
    using mint_Some [OF ex_mint] by (auto simp: ex_db_def)
  have i: "ids_of (by_name 7 ex_minted) [''acme/api''] = Some [42]"
    using ex_ids by (simp add: by_name_def active_repos_def t(1,3) ex_db_def)
  have k: "installation_token_repo_ids 5 ex_minted = [42]" by (simp add: installation_token_repo_ids_def t)
  have "revoke_by_repos ex_github True 9 ''pat'' 5 ''acme/api'' ex_minted = (Return (), ex_revoked, ex_trace)"
    unfolding revoke_by_repos_def Let_def ex_names ex_repo option.case ex_verify prod.case i k
    by (simp add: MAX_REPOS_PER_MINT_def ex_revoke)
  then show ?thesis by (simp add: revoke_token_def t)
qed

theorem revocation_is_proven_witness:
  "\<exists>inst. may_revoke ''pat'' inst ex_trace 5 [] (filter (\<lambda>r. r \<noteq> []) (split_on '','' ''acme/api'')) ex_minted
    \<and> 0 < rowcount (owned_key 5 inst) (kd_tokens ex_minted) \<and> dead_key 5 ex_revoked"
  by (rule revocation_is_proven [OF ex_revoke_api ex_revoked_ok(1)])

end
