(* ===== verification/Verdict_Ledger.thy ===== *)
theory Verdict_Ledger
  imports Check_Run Registry
begin

text \<open>
  The verdict tables of \<open>api/doug/store.py\<close>: \<open>verdicts\<close> with its \<open>findings\<close>, \<open>deviations\<close> and \<open>reads\<close>,
  their writers (\<open>save_review\<close>, \<open>save_external_review\<close>, \<open>save_deviations\<close>) and the reads the worker,
  the check run and the published metric rest on. The child rows of a verdict are kept in its row, in
  the order of their ids; the provenance columns (model, prompt hash, raw answer and the like), which
  none of these reads returns, are left out. A database error other than the unique index's is not
  modelled.
\<close>

subsection \<open>The tables\<close>

record deviation_row =
  dv_kind :: string
  dv_description :: string
  dv_severity :: string
  dv_refs :: "string list"
  dv_alignment :: int

record verdict_row =
  vd_id :: int
  vd_repo :: string
  vd_pr :: int
  vd_scored_at :: instant
  vd_tier :: string
  vd_score :: rat
  vd_band :: band
  vd_threshold :: rat
  vd_github_repo :: "int option"
  vd_installation :: "int option"
  vd_head :: "string option"
  vd_source :: "string option"
  vd_findings :: "reason list"
  vd_deviations :: "deviation_row list"
  vd_reads :: "coverage list"

record verdict_db =
  vb_configured :: bool
  vb_rows :: "verdict_row list"
  vb_seq :: int

definition EXTERNAL_TIER :: string where "EXTERNAL_TIER = ''external''"

text \<open>The columns of the unique index, where the index covers the row and none is NULL.\<close>

type_synonym app_identity = "int \<times> int \<times> int \<times> string"

definition app_identity :: "verdict_row \<Rightarrow> app_identity option" where
  "app_identity r =
     (if vd_tier r = EXTERNAL_TIER then None
      else case (vd_installation r, vd_github_repo r, vd_head r) of
        (Some i, Some g, Some h) \<Rightarrow> Some (i, g, vd_pr r, h)
      | _ \<Rightarrow> None)"

subsection \<open>Reading one verdict back\<close>

text \<open>\<open>_verdict_bundle\<close>.\<close>

record stored_verdict =
  bd_id :: int
  bd_tier :: string
  bd_score :: rat
  bd_band :: band
  bd_threshold :: rat
  bd_reasons :: "reason list"
  bd_deviations :: "deviation list"
  bd_alignment :: "int option"
  bd_refs :: "string list"
  bd_coverage :: "coverage option"

text \<open>The keys a bundle keeps of a finding and of a read; \<open>Reason\<close> and \<open>Coverage\<close> default the rest.\<close>

definition bundled_reason :: "reason \<Rightarrow> reason" where
  "bundled_reason r = r\<lparr>Models.r_hunks := None, r_evidence := None\<rparr>"

definition bundled_coverage :: "coverage \<Rightarrow> coverage" where
  "bundled_coverage c = c\<lparr>changed_files := None, cov_dropped := [], cov_hunks := None\<rparr>"

definition verdict_bundle :: "verdict_row \<Rightarrow> stored_verdict" where
  "verdict_bundle r =
     \<lparr>bd_id = vd_id r, bd_tier = vd_tier r, bd_score = vd_score r, bd_band = vd_band r,
      bd_threshold = vd_threshold r, bd_reasons = map bundled_reason (vd_findings r),
      bd_deviations = map (\<lambda>d. \<lparr>d_type = dv_kind d, d_description = dv_description d, d_severity = dv_severity d\<rparr>)
                        (filter (\<lambda>d. dv_kind d \<noteq> ''none'') (vd_deviations r)),
      bd_alignment = (case vd_deviations r of [] \<Rightarrow> None | d # _ \<Rightarrow> Some (dv_alignment d)),
      bd_refs = (case vd_deviations r of [] \<Rightarrow> [] | d # _ \<Rightarrow> dv_refs d),
      bd_coverage = (case vd_reads r of [] \<Rightarrow> None | c # _ \<Rightarrow> Some (bundled_coverage c))\<rparr>"

definition is_identity :: "int \<Rightarrow> int \<Rightarrow> int \<Rightarrow> string \<Rightarrow> verdict_row \<Rightarrow> bool" where
  "is_identity inst repo pr head r \<longleftrightarrow>
     vd_installation r = Some inst \<and> vd_github_repo r = Some repo \<and> vd_pr r = pr \<and> vd_head r = Some head
     \<and> vd_tier r \<noteq> EXTERNAL_TIER"

definition find_verdict_by_identity :: "int \<Rightarrow> int \<Rightarrow> int \<Rightarrow> string \<Rightarrow> verdict_db \<Rightarrow> stored_verdict option" where
  "find_verdict_by_identity inst repo pr head db =
     (if \<not> vb_configured db then None
      else map_option verdict_bundle
             (first_by (\<lambda>r. - vd_id r) (filter (is_identity inst repo pr head) (vb_rows db))))"

text \<open>\<open>_load_verdict_row\<close> with the tenant filters its callers may add.\<close>

definition load_verdict_row ::
    "int \<Rightarrow> int list option \<Rightarrow> int list option \<Rightarrow> verdict_db \<Rightarrow> verdict_row option" where
  "load_verdict_row i tenants repos db =
     List.find (\<lambda>r. vd_id r = i
       \<and> (case tenants of None \<Rightarrow> True | Some ts \<Rightarrow> (case vd_installation r of None \<Rightarrow> False | Some t \<Rightarrow> t \<in> set ts))
       \<and> (case repos of None \<Rightarrow> True | Some gs \<Rightarrow> (case vd_github_repo r of None \<Rightarrow> False | Some g \<Rightarrow> g \<in> set gs)))
       (vb_rows db)"

definition find_verdict_by_id :: "int \<Rightarrow> verdict_db \<Rightarrow> stored_verdict option" where
  "find_verdict_by_id i db =
     (if \<not> vb_configured db then None else map_option verdict_bundle (load_verdict_row i None None db))"

subsection \<open>The writers\<close>

text \<open>A findings row: every column the insert names.\<close>

definition stored_reason :: "reason \<Rightarrow> reason" where
  "stored_reason r = r\<lparr>r_evidence := None\<rparr>"

record identity_args =
  ia_installation :: "int option"
  ia_repo :: "int option"
  ia_head :: "string option"

definition new_verdict ::
    "instant \<Rightarrow> int \<Rightarrow> string \<Rightarrow> int \<Rightarrow> string \<Rightarrow> verdict \<Rightarrow> coverage option \<Rightarrow> identity_args \<Rightarrow> string option \<Rightarrow> verdict_row" where
  "new_verdict now i repo pr tier v cov ia source =
     \<lparr>vd_id = i, vd_repo = repo, vd_pr = pr, vd_scored_at = now, vd_tier = tier, vd_score = v_score v,
      vd_band = v_band v, vd_threshold = v_threshold v, vd_github_repo = ia_repo ia,
      vd_installation = ia_installation ia, vd_head = ia_head ia, vd_source = source,
      vd_findings = map stored_reason (v_reasons v), vd_deviations = [],
      vd_reads = (case cov of None \<Rightarrow> [] | Some c \<Rightarrow> [c])\<rparr>"

text \<open>
  \<open>save_review\<close>: the id and whether this call inserted it. The unique index turns a second verdict of
  one identity into an error that is answered with the row that is there.
\<close>

definition save_review ::
    "instant \<Rightarrow> string \<Rightarrow> int \<Rightarrow> string \<Rightarrow> verdict \<Rightarrow> coverage option \<Rightarrow> identity_args \<Rightarrow> string option \<Rightarrow> verdict_db
     \<Rightarrow> (string, (int \<times> bool) option) result \<times> verdict_db" where
  "save_review now repo pr tier v cov ia source db =
     (if \<not> vb_configured db then (Return None, db)
      else let row = new_verdict now (vb_seq db) repo pr tier v cov ia source
           in if app_identity row = None \<or> app_identity row \<notin> set (map app_identity (vb_rows db))
              then (Return (Some (vb_seq db, True)), db\<lparr>vb_rows := vb_rows db @ [row], vb_seq := vb_seq db + 1\<rparr>)
              else (case (ia_installation ia, ia_repo ia, ia_head ia) of
                      (Some inst, Some g, Some head) \<Rightarrow>
                        (case find_verdict_by_identity inst g pr head db of
                           None \<Rightarrow> (Raise ''IntegrityError'', db)
                         | Some b \<Rightarrow> (Return (Some (bd_id b, False)), db))
                    | _ \<Rightarrow> (Raise ''IntegrityError'', db)))"

definition same_stance :: "int \<Rightarrow> int \<Rightarrow> int \<Rightarrow> string \<Rightarrow> string \<Rightarrow> instant \<Rightarrow> verdict_row \<Rightarrow> bool" where
  "same_stance inst repo pr source head scored_at r \<longleftrightarrow>
     vd_installation r = Some inst \<and> vd_github_repo r = Some repo \<and> vd_pr r = pr \<and> vd_source r = Some source
     \<and> vd_head r = Some head \<and> vd_scored_at r = scored_at"

text \<open>
  \<open>save_external_review\<close>: the existence check reads the table as it was (\<open>seen\<close>), the insert runs later.
\<close>

definition save_external_review ::
    "int \<Rightarrow> int \<Rightarrow> string \<Rightarrow> int \<Rightarrow> string \<Rightarrow> string \<Rightarrow> band \<Rightarrow> instant \<Rightarrow> verdict_row list \<Rightarrow> verdict_db
     \<Rightarrow> int option \<times> verdict_db" where
  "save_external_review inst g repo pr head source bnd scored_at seen db =
     (if \<not> vb_configured db then (None, db)
      else if List.find (same_stance inst g pr source head scored_at) seen \<noteq> None then (None, db)
      else (Some (vb_seq db),
            db\<lparr>vb_rows := vb_rows db @
                 [\<lparr>vd_id = vb_seq db, vd_repo = repo, vd_pr = pr, vd_scored_at = scored_at, vd_tier = EXTERNAL_TIER,
                   vd_score = 0, vd_band = bnd, vd_threshold = 0, vd_github_repo = Some g,
                   vd_installation = Some inst, vd_head = Some head, vd_source = Some source,
                   vd_findings = [], vd_deviations = [], vd_reads = []\<rparr>],
               vb_seq := vb_seq db + 1\<rparr>))"

definition deviation_rows :: "deviation list \<Rightarrow> string list \<Rightarrow> int \<Rightarrow> deviation_row list" where
  "deviation_rows fs refs alignment =
     (if fs = [] then [\<lparr>dv_kind = ''none'', dv_description = [], dv_severity = ''low'', dv_refs = refs, dv_alignment = alignment\<rparr>]
      else map (\<lambda>f. \<lparr>dv_kind = d_type f, dv_description = d_description f, dv_severity = d_severity f,
                     dv_refs = refs, dv_alignment = alignment\<rparr>) fs)"

definition save_deviations :: "int option \<Rightarrow> deviation list \<Rightarrow> string list \<Rightarrow> int \<Rightarrow> verdict_db \<Rightarrow> nat \<times> verdict_db" where
  "save_deviations vid fs refs alignment db =
     (case vid of
        None \<Rightarrow> (0, db)
      | Some i \<Rightarrow>
          if \<not> vb_configured db then (0, db)
          else (length (deviation_rows fs refs alignment),
                db\<lparr>vb_rows := update_where (\<lambda>r. vd_id r = i)
                     (\<lambda>r. r\<lparr>vd_deviations := vd_deviations r @ deviation_rows fs refs alignment\<rparr>) (vb_rows db)\<rparr>))"

subsection \<open>Comparing with the read before\<close>

definition finding_of :: "reason \<Rightarrow> finding" where
  "finding_of r = \<lparr>f_rule = r_rule r, f_label = Some (r_label r), f_path = r_file r, f_hunks = Models.r_hunks r\<rparr>"

definition read_row_of :: "coverage \<Rightarrow> read_row" where
  "read_row_of c = read_row.make (Some (cov_unseen c)) (Some (cov_dropped c)) (cov_cut c) (cov_hunks c)"

definition first_read :: "verdict_row \<Rightarrow> read_row option" where
  "first_read r = (case vd_reads r of [] \<Rightarrow> None | c # _ \<Rightarrow> Some (read_row_of c))"

definition earlier :: "verdict_row \<Rightarrow> verdict_row \<Rightarrow> bool" where
  "earlier a b \<longleftrightarrow> vd_scored_at a < vd_scored_at b \<or> (vd_scored_at a = vd_scored_at b \<and> vd_id a < vd_id b)"

definition newest :: "verdict_row \<Rightarrow> int \<times> int" where
  "newest r = (- vd_scored_at r, - vd_id r)"

definition same_pr_reader :: "int \<Rightarrow> int \<Rightarrow> int \<Rightarrow> verdict_row \<Rightarrow> bool" where
  "same_pr_reader inst repo pr r \<longleftrightarrow>
     vd_installation r = Some inst \<and> vd_github_repo r = Some repo \<and> vd_pr r = pr \<and> vd_tier r = ''reader''"

definition prior_read :: "verdict_row \<Rightarrow> verdict_db \<Rightarrow> verdict_row option" where
  "prior_read v db =
     (case (vd_installation v, vd_github_repo v) of
        (Some inst, Some g) \<Rightarrow>
          first_by newest (filter (\<lambda>r. same_pr_reader inst g (vd_pr v) r \<and> earlier r v) (vb_rows db))
      | _ \<Rightarrow> None)"

definition convergence_for :: "int \<Rightarrow> verdict_db \<Rightarrow> comparison option" where
  "convergence_for i db =
     (if \<not> vb_configured db then None
      else case List.find (\<lambda>r. vd_id r = i) (vb_rows db) of
        None \<Rightarrow> None
      | Some v \<Rightarrow>
          if vd_tier v \<noteq> ''reader'' then None
          else (case prior_read v db of
                  None \<Rightarrow> None
                | Some p \<Rightarrow>
                    let later = map finding_of (vd_findings v)
                    in Some (Compared (vd_head p)
                         (classify (map finding_of (vd_findings p)) later later (first_read v) (first_read p)))))"

subsection \<open>The governing verdict\<close>

text \<open>
  The ranked query: the rows the inner WHERE keeps, numbered within their partition from the newest;
  the row numbered one, or an error if there were several.
\<close>

definition row_number :: "verdict_row list \<Rightarrow> verdict_row \<Rightarrow> nat" where
  "row_number rows r = Suc (length (filter (\<lambda>q. earlier r q) rows))"

definition governs_where :: "int \<Rightarrow> int \<Rightarrow> int \<Rightarrow> instant \<Rightarrow> verdict_row \<Rightarrow> bool" where
  "governs_where inst repo pr merged_at r \<longleftrightarrow> same_pr_reader inst repo pr r \<and> vd_scored_at r \<le> merged_at"

definition governing_verdict ::
    "('a registry_scheme) \<Rightarrow> int \<Rightarrow> int \<Rightarrow> int \<Rightarrow> instant \<Rightarrow> verdict_db \<Rightarrow> (string, verdict_row option) result" where
  "governing_verdict reg inst repo pr merged_at db =
     (if \<not> vb_configured db then Return None
      else let ranked = (if row_by in_installation inst (rg_installs reg) = None then []
                         else filter (governs_where inst repo pr merged_at) (vb_rows db))
           in (case filter (\<lambda>r. row_number ranked r = 1) ranked of
                 [] \<Rightarrow> Return None
               | [r] \<Rightarrow> Return (Some r)
               | _ \<Rightarrow> Raise ''MultipleResultsFound''))"

subsection \<open>Well-formed ledgers\<close>

text \<open>
  What the columns may be trusted for: ids are unique and below the sequence, no two verdicts share
  an application identity, a findings row carries no evidence class (there is no such column) and
  one verdict has at most one read.
\<close>

definition verdicts_wf :: "verdict_db \<Rightarrow> bool" where
  "verdicts_wf db \<longleftrightarrow>
     distinct (map vd_id (vb_rows db)) \<and> list_all (\<lambda>r. vd_id r < vb_seq db) (vb_rows db)
     \<and> distinct (filter (\<lambda>k. k \<noteq> None) (map app_identity (vb_rows db)))
     \<and> list_all (\<lambda>r. length (vd_reads r) \<le> 1 \<and> list_all (\<lambda>f. r_evidence f = None) (vd_findings r)) (vb_rows db)"

inductive verdict_step :: "verdict_db \<Rightarrow> verdict_db \<Rightarrow> bool" where
  review: "verdict_step db (snd (save_review now repo pr tier v cov ia source db))"
| external: "verdict_step db (snd (save_external_review inst g repo pr head source bnd scored_at seen db))"
| deviations: "verdict_step db (snd (save_deviations vid fs refs alignment db))"

lemma app_identity_new [simp]:
  "app_identity (new_verdict now i repo pr tier v cov ia source) =
     (if tier = EXTERNAL_TIER then None
      else case (ia_installation ia, ia_repo ia, ia_head ia) of
        (Some n, Some g, Some h) \<Rightarrow> Some (n, g, pr, h) | _ \<Rightarrow> None)"
  by (simp add: app_identity_def new_verdict_def split: option.split)

lemma app_identity_deviations [simp]: "app_identity (r\<lparr>vd_deviations := d\<rparr>) = app_identity r"
  by (simp add: app_identity_def split: option.split)

lemma wf_append:
  assumes "verdicts_wf db" and "vd_id row = vb_seq db" and "length (vd_reads row) \<le> 1"
    and "list_all (\<lambda>f. r_evidence f = None) (vd_findings row)"
    and "app_identity row = None \<or> app_identity row \<notin> set (map app_identity (vb_rows db))"
  shows "verdicts_wf (db\<lparr>vb_rows := vb_rows db @ [row], vb_seq := vb_seq db + 1\<rparr>)"
  using assms by (fastforce simp: verdicts_wf_def list_all_iff)

lemma review_wf:
  assumes "verdicts_wf db"
  shows "verdicts_wf (snd (save_review now repo pr tier v cov ia source db))"
proof (cases "vb_configured db")
  case True
  let ?r = "new_verdict now (vb_seq db) repo pr tier v cov ia source"
  show ?thesis
  proof (cases "app_identity ?r = None \<or> app_identity ?r \<notin> set (map app_identity (vb_rows db))")
    case True
    have "verdicts_wf (db\<lparr>vb_rows := vb_rows db @ [?r], vb_seq := vb_seq db + 1\<rparr>)"
      using assms _ _ _ True
      by (rule wf_append) (auto simp: new_verdict_def stored_reason_def list_all_iff split: option.split)
    with True \<open>vb_configured db\<close> show ?thesis by (simp only: save_review_def Let_def) (simp split: if_split)
  next
    case False
    with \<open>vb_configured db\<close> have "snd (save_review now repo pr tier v cov ia source db) = db"
      unfolding save_review_def Let_def if_not_P [OF False] by (simp split: option.split)
    with assms show ?thesis by simp
  qed
qed (use assms in \<open>simp add: save_review_def\<close>)

lemma external_wf:
  assumes "verdicts_wf db"
  shows "verdicts_wf (snd (save_external_review inst g repo pr head source bnd scored_at seen db))"
proof -
  let ?r = "\<lparr>vd_id = vb_seq db, vd_repo = repo, vd_pr = pr, vd_scored_at = scored_at, vd_tier = EXTERNAL_TIER,
     vd_score = 0, vd_band = bnd, vd_threshold = 0, vd_github_repo = Some g, vd_installation = Some inst,
     vd_head = Some head, vd_source = Some source, vd_findings = [], vd_deviations = [], vd_reads = []\<rparr>"
  have "verdicts_wf (db\<lparr>vb_rows := vb_rows db @ [?r], vb_seq := vb_seq db + 1\<rparr>)"
    using assms by (rule wf_append) (simp_all add: app_identity_def)
  with assms show ?thesis by (simp add: save_external_review_def)
qed

lemma deviations_wf:
  assumes "verdicts_wf db"
  shows "verdicts_wf (snd (save_deviations vid fs refs alignment db))"
proof (cases vid)
  case (Some i)
  have "verdicts_wf (db\<lparr>vb_rows := update_where p (\<lambda>r. r\<lparr>vd_deviations := f r\<rparr>) (vb_rows db)\<rparr>)" for p f
    using assms by (simp add: verdicts_wf_def map_update_where)
      (auto simp: list_all_iff in_update_where split: if_splits)
  with assms Some show ?thesis by (simp add: save_deviations_def)
qed (use assms in \<open>simp add: save_deviations_def\<close>)



subsection \<open>What was saved reads back\<close>

lemma identity_of_key:
  "is_identity inst repo pr head r \<longleftrightarrow> app_identity r = Some (inst, repo, pr, head)"
  by (auto simp: is_identity_def app_identity_def split: option.splits)

lemma unique_identity:
  assumes "verdicts_wf db" and "r \<in> set (vb_rows db)" and "is_identity inst repo pr head r"
  shows "filter (is_identity inst repo pr head) (vb_rows db) = [r]"
proof -
  let ?k = "Some (inst, repo, pr, head)"
  have "filter (\<lambda>q. app_identity q = ?k) rows = [r]"
    if "distinct (filter (\<lambda>k. k \<noteq> None) (map app_identity rows))" "r \<in> set rows" "app_identity r = ?k" for rows
    using that
  proof (induction rows)
    case (Cons q rows)
    show ?case
    proof (cases "app_identity q = ?k")
      case True
      with Cons.prems have "?k \<notin> set (map app_identity rows)" by auto
      then have "filter (\<lambda>q. app_identity q = ?k) rows = []"
        unfolding filter_empty_conv by (metis image_eqI set_map)
      moreover from this Cons.prems have "r = q" by (auto simp: filter_empty_conv)
      ultimately show ?thesis using True by simp
    next
      case False
      with Cons show ?thesis by (cases "app_identity q") auto
    qed
  qed simp
  moreover have "is_identity inst repo pr head = (\<lambda>q. app_identity q = ?k)"
    by (simp add: fun_eq_iff identity_of_key)
  ultimately show ?thesis using assms by (simp add: verdicts_wf_def identity_of_key)
qed

lemma find_by_identity_unique:
  assumes "verdicts_wf db" and "vb_configured db" and "r \<in> set (vb_rows db)" and "is_identity inst repo pr head r"
  shows "find_verdict_by_identity inst repo pr head db = Some (verdict_bundle r)"
  using assms by (simp add: find_verdict_by_identity_def unique_identity)

text \<open>What the reading side makes of a saved verdict and its coverage.\<close>

definition read_back :: "int \<Rightarrow> string \<Rightarrow> verdict \<Rightarrow> coverage option \<Rightarrow> stored_verdict" where
  "read_back i tier v cov =
     \<lparr>bd_id = i, bd_tier = tier, bd_score = v_score v, bd_band = v_band v, bd_threshold = v_threshold v,
      bd_reasons = map bundled_reason (v_reasons v), bd_deviations = [], bd_alignment = None, bd_refs = [],
      bd_coverage = map_option bundled_coverage cov\<rparr>"

lemma bundle_new:
  "verdict_bundle (new_verdict now i repo pr tier v cov ia source) = read_back i tier v cov"
  by (auto simp: verdict_bundle_def new_verdict_def read_back_def bundled_reason_def stored_reason_def split: option.split)

lemma save_review_inserted:
  assumes "save_review now repo pr tier v cov ia source db = (Return (Some (i, True)), db')"
  shows "vb_configured db \<and> i = vb_seq db
    \<and> db' = db\<lparr>vb_rows := vb_rows db @ [new_verdict now i repo pr tier v cov ia source], vb_seq := vb_seq db + 1\<rparr>"
  using assms by (auto simp: save_review_def Let_def split: if_splits option.splits)

lemma save_review_peer:
  assumes "save_review now repo pr tier v cov \<lparr>ia_installation = Some inst, ia_repo = Some g, ia_head = Some head\<rparr> source db
      = (Return (Some (i, False)), db')"
  shows "db' = db \<and> (\<exists>b. find_verdict_by_identity inst g pr head db = Some b \<and> bd_id b = i)"
  using assms by (auto simp: save_review_def Let_def split: if_splits option.splits)

text \<open>
  A saved verdict reads back: when a scored verdict of a commit was inserted, the worker's
  idempotency read of that commit finds it, with the score, band, threshold and reasons that were
  saved (less their hunks and evidence class) and the read's sent and unsent files (less what was
  never fetched); when a peer was there first, nothing was written and the id is the peer's.
\<close>
theorem saved_verdict_reads_back:
  assumes "verdicts_wf db" and "tier \<noteq> EXTERNAL_TIER"
    and "save_review now repo pr tier v cov \<lparr>ia_installation = Some inst, ia_repo = Some g, ia_head = Some head\<rparr> source db
      = (Return (Some (i, fresh)), db')"
  shows "if fresh then find_verdict_by_identity inst g pr head db' = Some (read_back i tier v cov)
         else db' = db \<and> map_option bd_id (find_verdict_by_identity inst g pr head db) = Some i"
proof (cases fresh)
  case True
  let ?ia = "\<lparr>ia_installation = Some inst, ia_repo = Some g, ia_head = Some head\<rparr>"
  from assms(3) True have s: "vb_configured db" "i = vb_seq db"
    "db' = db\<lparr>vb_rows := vb_rows db @ [new_verdict now i repo pr tier v cov ?ia source], vb_seq := vb_seq db + 1\<rparr>"
    by (simp_all only:) (auto dest!: save_review_inserted)
  have "verdicts_wf db'" using review_wf [OF assms(1), of now repo pr tier v cov ?ia source] assms(3) by simp
  then have "find_verdict_by_identity inst g pr head db' = Some (verdict_bundle (new_verdict now i repo pr tier v cov ?ia source))"
    by (rule find_by_identity_unique) (use s assms(2) in \<open>auto simp: identity_of_key\<close>)
  with True show ?thesis by (simp add: bundle_new)
next
  case False
  with save_review_peer [of now repo pr tier v cov inst g head source db i db'] assms(3) show ?thesis by auto
qed

subsection \<open>One verdict governs\<close>

lemma filter_unique:
  assumes "distinct rows" and "r \<in> set rows" and "P r" and "\<And>q. q \<in> set rows \<Longrightarrow> P q \<Longrightarrow> q = r"
  shows "filter P rows = [r]"
  using assms
proof (induction rows)
  case (Cons q rows)
  show ?case
  proof (cases "q = r")
    case True
    have "filter P rows = []"
      unfolding filter_empty_conv using Cons.prems(1,4) True by (metis distinct.simps(2) list.set_intros(2))
    with True Cons.prems(3) show ?thesis by simp
  next
    case False
    have "\<not> P q" using False Cons.prems(4) by (metis list.set_intros(1))
    moreover have "filter P rows = [r]"
      by (rule Cons.IH) (use Cons.prems False in auto)
    ultimately show ?thesis by simp
  qed
qed simp

lemma row_number_one: "row_number rows r = 1 \<longleftrightarrow> (\<forall>q \<in> set rows. \<not> earlier r q)"
  by (simp add: row_number_def filter_empty_conv)

lemma distinct_rows: "verdicts_wf db \<Longrightarrow> distinct (vb_rows db)"
  by (simp add: verdicts_wf_def distinct_map)

lemma earlier_or: "vd_id a \<noteq> vd_id b \<Longrightarrow> earlier a b \<or> earlier b a"
  by (auto simp: earlier_def)

lemma newest_is_not_earlier: "newest m \<le> newest q \<Longrightarrow> \<not> earlier m q"
  by (auto simp: newest_def earlier_def)

lemma ranked_first:
  assumes "distinct (map vd_id rows)" and "m \<in> set rows" and "\<forall>q \<in> set rows. \<not> earlier m q"
  shows "filter (\<lambda>r. row_number rows r = 1) rows = [m]"
proof (rule filter_unique)
  show "distinct rows" using assms(1) by (simp add: distinct_map)
  show "row_number rows m = 1" using assms(3) by (simp only: row_number_one)
  fix q assume q: "q \<in> set rows" "row_number rows q = 1"
  then have "\<not> earlier q m" using assms(2) unfolding row_number_one by blast
  with q(1) assms(3) have "vd_id q = vd_id m" using earlier_or by blast
  with q(1) assms(1,2) show "q = m" by (simp add: distinct_map inj_on_def)
qed (rule assms(2))

lemma governing_candidates:
  assumes "verdicts_wf db"
  shows "distinct (map vd_id (filter P (vb_rows db)))"
  using assms by (simp add: verdicts_wf_def distinct_map_filter)

lemma governing_cases:
  assumes "verdicts_wf db" and "vb_configured db" and "row_by in_installation inst (rg_installs reg) \<noteq> None"
  shows "governing_verdict reg inst repo pr merged db
    = Return (first_by newest (filter (governs_where inst repo pr merged) (vb_rows db)))"
proof (cases "first_by newest (filter (governs_where inst repo pr merged) (vb_rows db))")
  case None
  with assms show ?thesis by (simp add: governing_verdict_def Let_def)
next
  case (Some m)
  let ?rows = "filter (governs_where inst repo pr merged) (vb_rows db)"
  from first_by_Some [OF Some] have "m \<in> set ?rows" "\<forall>q \<in> set ?rows. \<not> earlier m q"
    using newest_is_not_earlier by blast+
  then have "filter (\<lambda>r. row_number ?rows r = 1) ?rows = [m]"
    by (rule ranked_first [OF governing_candidates [OF assms(1)]])
  with assms(2,3) Some show ?thesis by (simp add: governing_verdict_def Let_def del: One_nat_def)
qed

text \<open>
  C12. The verdict that stood at a merge is well defined: the ranked query never meets two rows
  numbered one, and what it returns is a reader verdict of that pull request scored by the time of
  the merge such that every other such verdict was scored earlier (or at the same instant with a
  smaller id); it returns nothing exactly when no such verdict exists.
\<close>
theorem governing_verdict_is_the_last_one_standing:
  assumes "verdicts_wf db" and "vb_configured db" and "row_by in_installation inst (rg_installs reg) \<noteq> None"
  shows "case governing_verdict reg inst repo pr merged db of
           Raise e \<Rightarrow> False
         | Return None \<Rightarrow> \<forall>q \<in> set (vb_rows db). \<not> governs_where inst repo pr merged q
         | Return (Some r) \<Rightarrow> r \<in> set (vb_rows db) \<and> governs_where inst repo pr merged r
             \<and> (\<forall>q \<in> set (vb_rows db). governs_where inst repo pr merged q \<longrightarrow> q = r \<or> earlier q r)"
proof (cases "first_by newest (filter (governs_where inst repo pr merged) (vb_rows db))")
  case None
  then show ?thesis by (simp only: governing_cases [OF assms]) (simp add: filter_empty_conv)
next
  case (Some m)
  from first_by_Some [OF Some] have m: "m \<in> set (vb_rows db)" "governs_where inst repo pr merged m"
    "\<And>q. q \<in> set (vb_rows db) \<Longrightarrow> governs_where inst repo pr merged q \<Longrightarrow> \<not> earlier m q"
    using newest_is_not_earlier by auto
  have "q = m \<or> earlier q m" if "q \<in> set (vb_rows db)" "governs_where inst repo pr merged q" for q
    using m(3) [OF that] earlier_or [of m q] that(1) m(1) assms(1)
    by (auto simp: verdicts_wf_def distinct_map inj_on_def)
  with m(1,2) show ?thesis by (simp add: governing_cases [OF assms] Some)
qed

definition sample_verdict :: verdict where
  "sample_verdict = \<lparr>v_score = 2, v_band = Cleared, v_threshold = 4, v_reasons = [plain_reason ''auth-touch'' ''Touches auth'' 1]\<rparr>"

definition sample_identity :: identity_args where
  "sample_identity = \<lparr>ia_installation = Some 7, ia_repo = Some 9, ia_head = Some ''c0ffee''\<rparr>"

definition sample_ledger :: verdict_db where
  "sample_ledger = snd (save_review 100 ''acme/web'' 4 ''reader'' sample_verdict None sample_identity None
     \<lparr>vb_configured = True, vb_rows = [], vb_seq = 1\<rparr>)"

lemmas sample_ledger_simps = sample_ledger_def sample_verdict_def sample_identity_def save_review_def Let_def
  new_verdict_def app_identity_def EXTERNAL_TIER_def plain_reason_def stored_reason_def

lemma sample_ledger_wf: "verdicts_wf sample_ledger"
  unfolding sample_ledger_def by (rule review_wf) (simp add: verdicts_wf_def)


lemma saved_verdict_lookup:
  "find_verdict_by_identity 7 9 4 ''c0ffee'' sample_ledger = Some (read_back 1 ''reader'' sample_verdict None)"
  by (simp add: find_verdict_by_identity_def is_identity_def sample_ledger_simps verdict_bundle_def read_back_def
      bundled_reason_def)

lemma saved_verdict_witness:
  "find_verdict_by_identity 7 9 4 ''c0ffee'' sample_ledger = Some (read_back 1 ''reader'' sample_verdict None)"
proof -
  have "save_review 100 ''acme/web'' 4 ''reader'' sample_verdict None
      \<lparr>ia_installation = Some 7, ia_repo = Some 9, ia_head = Some ''c0ffee''\<rparr> None
      \<lparr>vb_configured = True, vb_rows = [], vb_seq = 1\<rparr> = (Return (Some (1, True)), sample_ledger)"
    by (simp add: sample_ledger_simps)
  from saved_verdict_reads_back [OF _ _ this] show ?thesis by (simp add: verdicts_wf_def EXTERNAL_TIER_def)
qed

definition sample_installs :: registry where
  "sample_installs = \<lparr>rg_configured = True,
     rg_installs = [\<lparr>in_id = 1, in_installation = 7, in_login = ''acme'', in_type = ''Organization'',
                     in_state = ''active'', in_updated_at = 0, in_installer = None\<rparr>],
     rg_repos = [], rg_install_seq = 2, rg_repo_seq = 1\<rparr>"

lemma governing_verdict_witness:
  "case governing_verdict sample_installs 7 9 4 150 sample_ledger of
     Return (Some r) \<Rightarrow> vd_scored_at r \<le> 150 | _ \<Rightarrow> False"
proof -
  have "vb_configured sample_ledger" "row_by in_installation 7 (rg_installs sample_installs) \<noteq> None"
    "\<exists>q \<in> set (vb_rows sample_ledger). governs_where 7 9 4 150 q"
    by (simp_all add: sample_ledger_simps sample_installs_def governs_where_def same_pr_reader_def)
  with governing_verdict_is_the_last_one_standing [OF sample_ledger_wf this(1,2), of 9 4 150] show ?thesis
    by (auto simp: governs_where_def split: sum.splits option.splits)
qed

end
