(* ===== verification/Replay.thy ===== *)
theory Replay
  imports Verdict_Ledger
begin

text \<open>
  Rendering a recorded verdict again (\<open>_source\<close> and \<open>_render_recorded\<close> of \<open>api/doug/worker.py\<close>): what
  the replay of a job and the repair of a lost comment show, and when it is the text the paid read
  showed. The instrument is an argument: both paths read it anew.
\<close>

subsection \<open>Where the pull request lives\<close>

definition until_slash :: "string \<Rightarrow> string" where
  "until_slash s = takeWhile (\<lambda>c. c \<noteq> CHR ''/'') s"

definition after_slash :: "string \<Rightarrow> string" where
  "after_slash s = tl (dropWhile (\<lambda>c. c \<noteq> CHR ''/'') s)"

definition source_of :: "string \<Rightarrow> string \<Rightarrow> source option" where
  "source_of full_name head =
     (if until_slash full_name = [] \<or> after_slash full_name = [] \<or> head = [] then None
      else Some \<lparr>src_owner = until_slash full_name, src_repo = after_slash full_name, src_head = head\<rparr>)"

subsection \<open>Rebuilding the summary\<close>

definition recorded_verdict :: "stored_verdict \<Rightarrow> verdict" where
  "recorded_verdict b =
     \<lparr>v_score = bd_score b, v_band = bd_band b, v_threshold = bd_threshold b, v_reasons = bd_reasons b\<rparr>"

definition recorded_intent :: "stored_verdict \<Rightarrow> intent_read option" where
  "recorded_intent b =
     (case (bd_alignment b, bd_coverage b) of
        (Some a, Some c) \<Rightarrow> Some \<lparr>i_alignment = a, i_refs = bd_refs b, i_findings = bd_deviations b, i_coverage = c\<rparr>
      | _ \<Rightarrow> None)"

definition render_recorded ::
    "formats \<Rightarrow> instrument option \<Rightarrow> string \<Rightarrow> string \<Rightarrow> verdict_db \<Rightarrow> stored_verdict \<Rightarrow> string \<times> string" where
  "render_recorded fmt ins full_name head db b =
     render fmt (bd_tier b) (recorded_verdict b) (recorded_intent b) (bd_coverage b) ins
       (if bd_tier b = ''reader'' then convergence_for (bd_id b) db else None) (source_of full_name head)"

subsection \<open>The hunks of a finding are not rendered\<close>

text \<open>A reason without its hunks; every function of the renderer reads it the same.\<close>

definition no_hunks :: "reason \<Rightarrow> reason" where
  "no_hunks r = r\<lparr>Models.r_hunks := None\<rparr>"

named_theorems unhunk \<open>renderer functions on reasons without hunks\<close>

lemma unhunk_fields [unhunk]:
  "grade (no_hunks r) = grade r" "outside (no_hunks r) = outside r" "carry_of (no_hunks r) = carry_of r"
  "r_rule (no_hunks r) = r_rule r" "r_label (no_hunks r) = r_label r" "r_file (no_hunks r) = r_file r"
  "r_severity (no_hunks r) = r_severity r"
  by (simp_all add: no_hunks_def grade_def outside_def carry_of_def)

lemma unhunk_chips [unhunk]:
  "is_carried (no_hunks r) = is_carried r" "carry_chip (no_hunks r) = carry_chip r"
  "countable (no_hunks r) = countable r"
  unfolding is_carried_def carry_chip_def countable_def unhunk_fields by (rule refl)+

lemma unhunk_bullet [unhunk]: "bullet src (no_hunks r) = bullet src r"
  unfolding bullet_def unhunk_fields unhunk_chips ..

lemma unhunk_lines [unhunk]: "carried_lines src (no_hunks r) = carried_lines src r"
  unfolding carried_lines_def unhunk_fields unhunk_bullet ..

lemma insort_key_map:
  "(\<And>x. k (f x) = k x) \<Longrightarrow> insort_key k (f x) (map f xs) = map f (insort_key k x xs)"
  by (induction xs) auto

lemma sort_key_map: "(\<And>x. k (f x) = k x) \<Longrightarrow> sort_key k (map f xs) = map f (sort_key k xs)"
  by (induction xs) (simp_all add: insort_key_map)

lemma filter_map_same: "(\<And>x. P (f x) = P x) \<Longrightarrow> filter P (map f xs) = map f (filter P xs)"
  by (simp add: filter_map comp_def)

lemma unhunk_order [unhunk]: "by_severity (map no_hunks rs) = map no_hunks (by_severity rs)"
  unfolding by_severity_def by (rule sort_key_map) (simp add: unhunk_fields)

lemma unhunk_populations [unhunk]:
  "carried_of (map no_hunks rs) = map no_hunks (carried_of rs)"
  "notices_of (map no_hunks rs) = map no_hunks (notices_of rs)"
  "fresh_of (map no_hunks rs) = map no_hunks (fresh_of rs)"
  "filter countable (map no_hunks rs) = map no_hunks (filter countable rs)"
  by (simp_all add: carried_of_def notices_of_def fresh_of_def filter_map_same unhunk)

lemma unhunk_triage [unhunk]:
  "triage (map no_hunks rs) = map_prod (map no_hunks) (map no_hunks) (triage rs)"
proof -
  have "filter (\<lambda>r. grade r \<noteq> ''low'') (map no_hunks rs) = map no_hunks (filter (\<lambda>r. grade r \<noteq> ''low'') rs)"
    "filter (\<lambda>r. grade r = ''low'') (map no_hunks rs) = map no_hunks (filter (\<lambda>r. grade r = ''low'') rs)"
    by (simp_all only: filter_map_same unhunk_fields)
  moreover have "list_ex (\<lambda>r. grade r \<in> set SEVERITY_ORDER) (map no_hunks rs)
      = list_ex (\<lambda>r. grade r \<in> set SEVERITY_ORDER) rs"
    by (simp add: list_ex_iff unhunk_fields)
  ultimately show ?thesis by (simp add: triage_def Let_def)
qed

lemma unhunk_counts [unhunk]: "finding_counts (map no_hunks rs) = finding_counts rs"
  "findings_cell (map no_hunks rs) (map no_hunks cs) = findings_cell rs cs"
proof -
  show c: "finding_counts (map no_hunks rs) = finding_counts rs"
    by (simp add: finding_counts_def Let_def unhunk_populations comp_def unhunk_fields)
  show "findings_cell (map no_hunks rs) (map no_hunks cs) = findings_cell rs cs"
    by (simp add: findings_cell_def Let_def c)
qed

lemma unhunk_sections [unhunk]:
  "findings_section src (map no_hunks rs) (map no_hunks cs) = findings_section src rs cs"
  "counted_bullets src (map no_hunks rs) (map no_hunks cs) = counted_bullets src rs cs"
proof -
  have b: "map (bullet src) (map no_hunks xs) = map (bullet src) xs"
    "map (carried_lines src) (map no_hunks xs) = map (carried_lines src) xs" for xs
    by (simp_all add: comp_def unhunk_bullet unhunk_lines)
  show "findings_section src (map no_hunks rs) (map no_hunks cs) = findings_section src rs cs"
    by (simp add: findings_section_def unhunk_order unhunk_triage b case_prod_map_prod split: prod.split
        del: map_map)
  show "counted_bullets src (map no_hunks rs) (map no_hunks cs) = counted_bullets src rs cs"
    by (simp add: counted_bullets_def unhunk_order unhunk_triage unhunk_populations b split: prod.split del: map_map)
qed

definition unhunked :: "verdict \<Rightarrow> verdict" where
  "unhunked v = v\<lparr>v_reasons := map no_hunks (v_reasons v)\<rparr>"

lemma unhunked_fields [unhunk]:
  "v_score (unhunked v) = v_score v" "v_band (unhunked v) = v_band v" "v_threshold (unhunked v) = v_threshold v"
  "headline fmt tier (unhunked v) = headline fmt tier v" "alert tier (unhunked v) p = alert tier v p"
  by (simp_all add: unhunked_def headline_def alert_def)

lemma unhunked_surfaced [unhunk]: "surfaced (unhunked v) p = map no_hunks (surfaced v p)"
  by (simp add: surfaced_def unhunked_def filter_map_same unhunk_fields)

lemma unhunked_intent [unhunk]: "intent_section fmt (unhunked v) p ir = intent_section fmt v p ir"
  by (simp add: intent_section_def unhunked_def list_ex_iff unhunk_fields)

lemma unhunked_body: "body_lines fmt tier (unhunked v) intent cov cv src = body_lines fmt tier v intent cov cv src"
proof -
  have n: "map (\<lambda>n. quote_lines (r_label n)) (map no_hunks xs) = map (\<lambda>n. quote_lines (r_label n)) xs" for xs
    by (simp add: comp_def unhunk_fields)
  have s: "list_all (\<lambda>r. r_rule r \<in> S) (map no_hunks xs) = list_all (\<lambda>r. r_rule r \<in> S) xs" for S xs
    by (simp add: list_all_iff unhunk_fields)
  show ?thesis
    unfolding body_lines_def Let_def unhunk_populations unhunk_counts unhunk_sections unhunked_fields
      unhunked_surfaced unhunked_intent n s
    by simp
qed

lemma unhunked_render: "render fmt tier (unhunked v) intent cov ins cv src = render fmt tier v intent cov ins cv src"
  unfolding render_def Let_def unhunked_body unhunk_populations unhunk_sections unhunked_fields unhunked_surfaced ..

subsection \<open>Replayed and paid summaries\<close>

text \<open>Everything the two transactions after a paid read leave: the verdict, then its deviations.\<close>

definition saved_deviations :: "intent_read option \<Rightarrow> int \<Rightarrow> verdict_db \<Rightarrow> verdict_db" where
  "saved_deviations intent i db =
     (case intent of None \<Rightarrow> db
      | Some ir \<Rightarrow> snd (save_deviations (Some i) (i_findings ir) (i_refs ir) (i_alignment ir) db))"

text \<open>
  A read that the bundle keeps whole: nothing was left unfetched, no finding carries an evidence
  class, the intent read was of the same coverage and none of its deviations is of the type the
  storage uses as its marker.
\<close>

definition kept_whole :: "verdict \<Rightarrow> intent_read option \<Rightarrow> coverage option \<Rightarrow> bool" where
  "kept_whole v intent cov \<longleftrightarrow>
     list_all (\<lambda>r. r_evidence r = None) (v_reasons v)
     \<and> (case cov of None \<Rightarrow> True | Some c \<Rightarrow> cov_dropped c = [])
     \<and> (case intent of None \<Rightarrow> True
        | Some ir \<Rightarrow> cov = Some (i_coverage ir) \<and> list_all (\<lambda>d. d_type d \<noteq> ''none'') (i_findings ir))"

lemma bundled_truncation: "cov_dropped c = [] \<Longrightarrow> truncation_reason pc (bundled_coverage c) = truncation_reason pc c"
  by (simp add: truncation_reason_def complete_read_def truncation_label_def bundled_coverage_def)

lemma bundled_no_hunks: "r_evidence r = None \<Longrightarrow> bundled_reason r = no_hunks r"
  by (simp add: bundled_reason_def no_hunks_def)

lemma bundled_reasons: "list_all (\<lambda>r. r_evidence r = None) rs \<Longrightarrow> map bundled_reason rs = map no_hunks rs"
  by (induction rs) (simp_all add: bundled_no_hunks)

lemma deviations_read_back:
  assumes "list_all (\<lambda>d. d_type d \<noteq> ''none'') fs"
  shows "map (\<lambda>d. \<lparr>d_type = dv_kind d, d_description = dv_description d, d_severity = dv_severity d\<rparr>)
           (filter (\<lambda>d. dv_kind d \<noteq> ''none'') (deviation_rows fs refs al)) = fs"
    and "\<exists>d ds. deviation_rows fs refs al = d # ds \<and> dv_alignment d = al \<and> dv_refs d = refs"
  using assms by (auto simp: deviation_rows_def comp_def list_all_iff neq_Nil_conv intro: map_idI)

lemma intent_coverage:
  assumes "cov_dropped (i_coverage ir) = []"
  shows "intent_section fmt v p (ir\<lparr>i_coverage := bundled_coverage (i_coverage ir)\<rparr>) = intent_section fmt v p ir"
  using assms by (simp add: intent_section_def bundled_truncation)

lemma rebuilt_render:
  assumes "kept_whole v intent cov"
  shows "render fmt tier \<lparr>v_score = v_score v, v_band = v_band v, v_threshold = v_threshold v,
           v_reasons = map bundled_reason (v_reasons v)\<rparr>
           (map_option (\<lambda>ir. ir\<lparr>i_coverage := bundled_coverage (i_coverage ir)\<rparr>) intent)
           (map_option bundled_coverage cov) ins cv src
       = render fmt tier v intent cov ins cv src"
proof -
  have v: "\<lparr>v_score = v_score v, v_band = v_band v, v_threshold = v_threshold v,
           v_reasons = map bundled_reason (v_reasons v)\<rparr> = unhunked v"
    using assms by (simp add: kept_whole_def bundled_reasons unhunked_def)
  have p: "(case map_option bundled_coverage cov of None \<Rightarrow> None | Some c \<Rightarrow> truncation_reason pc c)
      = (case cov of None \<Rightarrow> None | Some c \<Rightarrow> truncation_reason pc c)" for pc
    using assms by (auto simp: kept_whole_def bundled_truncation split: option.splits)
  have i: "(case map_option (\<lambda>ir. ir\<lparr>i_coverage := bundled_coverage (i_coverage ir)\<rparr>) intent of None \<Rightarrow> []
       | Some ir \<Rightarrow> intent_section fmt w q ir) = (case intent of None \<Rightarrow> [] | Some ir \<Rightarrow> intent_section fmt w q ir)" for w q
    using assms by (auto simp: kept_whole_def intent_coverage split: option.splits)
  have "render fmt tier (unhunked v) (map_option (\<lambda>ir. ir\<lparr>i_coverage := bundled_coverage (i_coverage ir)\<rparr>) intent)
           (map_option bundled_coverage cov) ins cv src
      = render fmt tier (unhunked v) intent cov ins cv src"
    unfolding render_def body_lines_def Let_def p i ..
  then show ?thesis by (simp only: v unhunked_render)
qed

lemma saved_deviations_rows:
  assumes "verdicts_wf db" and "vb_configured db"
  shows "vb_rows (saved_deviations intent i db)
    = update_where (\<lambda>r. vd_id r = i) (\<lambda>r. r\<lparr>vd_deviations := vd_deviations r @ (case intent of None \<Rightarrow> []
        | Some ir \<Rightarrow> deviation_rows (i_findings ir) (i_refs ir) (i_alignment ir))\<rparr>) (vb_rows db)"
    and "vb_configured (saved_deviations intent i db)"
    and "verdicts_wf (saved_deviations intent i db)"
proof -
  have "verdicts_wf (saved_deviations intent i db)
      \<and> vb_configured (saved_deviations intent i db) = vb_configured db"
  proof
    show "verdicts_wf (saved_deviations intent i db)"
      using assms(1) by (cases intent) (simp_all add: saved_deviations_def deviations_wf)
    show "vb_configured (saved_deviations intent i db) = vb_configured db"
      by (cases intent) (simp_all add: saved_deviations_def save_deviations_def)
  qed
  with assms(2) show "verdicts_wf (saved_deviations intent i db)" "vb_configured (saved_deviations intent i db)"
    by simp_all
  have "update_where (\<lambda>r. vd_id r = i) (\<lambda>r. r\<lparr>vd_deviations := vd_deviations r @ []\<rparr>) (vb_rows db) = vb_rows db"
    by (simp add: update_where_def map_idI)
  with assms(2) show "vb_rows (saved_deviations intent i db)
    = update_where (\<lambda>r. vd_id r = i) (\<lambda>r. r\<lparr>vd_deviations := vd_deviations r @ (case intent of None \<Rightarrow> []
        | Some ir \<Rightarrow> deviation_rows (i_findings ir) (i_refs ir) (i_alignment ir))\<rparr>) (vb_rows db)"
    by (cases intent) (simp_all add: saved_deviations_def save_deviations_def)
qed

lemma bundle_with_deviations:
  fixes b :: stored_verdict
  assumes "kept_whole v intent cov"
    and b_def: "b = verdict_bundle (new_verdict now i repo pr tier v cov ia source\<lparr>vd_deviations := case intent of None \<Rightarrow> []
      | Some ir \<Rightarrow> deviation_rows (i_findings ir) (i_refs ir) (i_alignment ir)\<rparr>)"
  shows "bd_id b = i" and "bd_tier b = tier"
    and "recorded_verdict b = \<lparr>v_score = v_score v, v_band = v_band v, v_threshold = v_threshold v,
           v_reasons = map bundled_reason (v_reasons v)\<rparr>"
    and "bd_coverage b = map_option bundled_coverage cov"
    and "recorded_intent b = map_option (\<lambda>ir. ir\<lparr>i_coverage := bundled_coverage (i_coverage ir)\<rparr>) intent"
proof -
  show "bd_id b = i" "bd_tier b = tier" by (simp_all add: b_def verdict_bundle_def new_verdict_def)
  show "recorded_verdict b = \<lparr>v_score = v_score v, v_band = v_band v, v_threshold = v_threshold v,
           v_reasons = map bundled_reason (v_reasons v)\<rparr>"
    by (simp add: b_def verdict_bundle_def new_verdict_def recorded_verdict_def bundled_reason_def
        stored_reason_def)
  show c: "bd_coverage b = map_option bundled_coverage cov"
    by (auto simp: b_def verdict_bundle_def new_verdict_def split: option.split)
  show "recorded_intent b = map_option (\<lambda>ir. ir\<lparr>i_coverage := bundled_coverage (i_coverage ir)\<rparr>) intent"
  proof (cases intent)
    case None
    then show ?thesis by (simp add: recorded_intent_def b_def verdict_bundle_def)
  next
    case (Some ir)
    with assms(1) have k: "cov = Some (i_coverage ir)" "list_all (\<lambda>d. d_type d \<noteq> ''none'') (i_findings ir)"
      by (simp_all add: kept_whole_def)
    obtain d ds where d: "deviation_rows (i_findings ir) (i_refs ir) (i_alignment ir) = d # ds"
      "dv_alignment d = i_alignment ir" "dv_refs d = i_refs ir"
      using deviations_read_back(2) [OF k(2)] by blast
    have "bd_deviations b = i_findings ir"
      using deviations_read_back(1) [OF k(2), of "i_refs ir" "i_alignment ir"]
      by (simp add: b_def verdict_bundle_def Some)
    moreover have "bd_alignment b = Some (i_alignment ir)" "bd_refs b = i_refs ir"
      by (simp_all add: b_def verdict_bundle_def Some d)
    ultimately show ?thesis by (simp add: recorded_intent_def c k(1) Some)
  qed
qed

lemma replay_lookup:
  assumes "verdicts_wf db" and "tier \<noteq> EXTERNAL_TIER" and "kept_whole v intent cov"
    and "save_review now repo pr tier v cov \<lparr>ia_installation = Some inst, ia_repo = Some g, ia_head = Some head\<rparr> source db
      = (Return (Some (i, True)), db')"
  shows "\<exists>b. find_verdict_by_identity inst g pr head (saved_deviations intent i db') = Some b
    \<and> render_recorded fmt ins name head (saved_deviations intent i db') b
      = render fmt tier v intent cov ins
          (if tier = ''reader'' then convergence_for i (saved_deviations intent i db') else None) (source_of name head)"
proof -
  let ?ia = "\<lparr>ia_installation = Some inst, ia_repo = Some g, ia_head = Some head\<rparr>"
  let ?r = "new_verdict now i repo pr tier v cov ?ia source"
  let ?d = "case intent of None \<Rightarrow> [] | Some ir \<Rightarrow> deviation_rows (i_findings ir) (i_refs ir) (i_alignment ir)"
  let ?b = "verdict_bundle (?r\<lparr>vd_deviations := ?d\<rparr>)"
  from save_review_inserted [OF assms(4)] have s: "vb_configured db" "i = vb_seq db"
    "db' = db\<lparr>vb_rows := vb_rows db @ [?r], vb_seq := vb_seq db + 1\<rparr>" by auto
  have w: "verdicts_wf db'" "vb_configured db'"
    using review_wf [OF assms(1), of now repo pr tier v cov ?ia source] assms(4) s by simp_all
  note dev = saved_deviations_rows [OF w, of intent i]
  have "vd_id ?r = i" "vd_deviations ?r = []" by (simp_all add: new_verdict_def)
  then have "?r\<lparr>vd_deviations := ?d\<rparr> \<in> set (vb_rows (saved_deviations intent i db'))"
    unfolding dev(1) in_update_where by (intro bexI [of _ ?r]) (simp_all add: s(3))
  moreover have "is_identity inst g pr head (?r\<lparr>vd_deviations := ?d\<rparr>)"
    using assms(2) by (simp add: identity_of_key)
  ultimately have "find_verdict_by_identity inst g pr head (saved_deviations intent i db') = Some ?b"
    by (rule find_by_identity_unique [OF dev(3,2)])
  moreover have "render_recorded fmt ins name head (saved_deviations intent i db') ?b
      = render fmt tier v intent cov ins
          (if tier = ''reader'' then convergence_for i (saved_deviations intent i db') else None) (source_of name head)"
    unfolding render_recorded_def bundle_with_deviations [OF assms(3) refl] rebuilt_render [OF assms(3)] ..
  ultimately show ?thesis by blast
qed

text \<open>
  C34. The replayed summary is the paid one, byte for byte, wherever the ledger keeps the read
  whole: after a verdict and its intent read were saved, the idempotency read finds it and renders
  the very title and summary the paid read rendered, whatever hunks its findings carried, as long as
  no file of the read went unfetched and no finding carries an evidence class.
\<close>
theorem replay_shows_what_the_paid_read_showed:
  assumes "verdicts_wf db" and "tier \<noteq> EXTERNAL_TIER" and "kept_whole v intent cov"
    and "save_review now repo pr tier v cov \<lparr>ia_installation = Some inst, ia_repo = Some g, ia_head = Some head\<rparr> source db
      = (Return (Some (i, True)), db')"
  shows "\<exists>b. find_verdict_by_identity inst g pr head (saved_deviations intent i db') = Some b
    \<and> render_recorded fmt ins name head (saved_deviations intent i db') b
      = render fmt tier v intent cov ins
          (if tier = ''reader'' then convergence_for i (saved_deviations intent i db') else None) (source_of name head)"
  using assms by (rule replay_lookup)

definition sample_formats :: formats where
  "sample_formats = \<lparr>fmt2 = (\<lambda>_. ''2.00''), fmt_percent = (\<lambda>_ _. ''50%''), fmt_date = (\<lambda>_. ''2026-08-01'')\<rparr>"

lemma replay_shows_what_the_paid_read_showed_witness:
  "\<exists>b. find_verdict_by_identity 7 9 4 ''c0ffee'' sample_ledger = Some b
    \<and> render_recorded sample_formats None ''acme/web'' ''c0ffee'' sample_ledger b
      = render sample_formats ''reader'' sample_verdict None None None (convergence_for 1 sample_ledger)
          (source_of ''acme/web'' ''c0ffee'')"
proof -
  have saved: "save_review 100 ''acme/web'' 4 ''reader'' sample_verdict None
      \<lparr>ia_installation = Some 7, ia_repo = Some 9, ia_head = Some ''c0ffee''\<rparr> None
      \<lparr>vb_configured = True, vb_rows = [], vb_seq = 1\<rparr> = (Return (Some (1, True)), sample_ledger)"
    by (simp add: sample_ledger_simps)
  have whole: "kept_whole sample_verdict None None"
    by (simp add: kept_whole_def sample_verdict_def plain_reason_def)
  show ?thesis
    using replay_shows_what_the_paid_read_showed [OF _ _ whole saved, of sample_formats None "''acme/web''"]
    by (simp add: saved_deviations_def verdicts_wf_def EXTERNAL_TIER_def)
qed

text \<open>
  Where the read was not kept whole the replay can lose its warning: a cleared reader verdict
  whose diff was sent in full but some of whose files were never fetched shows the partial-read alert
  when it is first posted, and no alert at all when it is rendered from the ledger.
\<close>
theorem replay_forgets_unfetched_files:
  assumes "cov_dropped c \<noteq> []" and "diff_chars c \<le> sent_chars c" and "v_band v = Cleared"
  shows "alert ''reader'' v (truncation_reason percent c)
      = alert_block ALERT_WARNING (oneline (truncation_label percent c))"
    and "alert ''reader'' v (truncation_reason percent (bundled_coverage c)) = []"
  using assms by (simp_all add: truncation_reason_def complete_read_def bundled_coverage_def alert_def)

lemma replay_forgets_unfetched_files_witness:
  "alert ''reader'' sample_verdict (truncation_reason (\<lambda>_ _. ''100%'')
     (bundled_coverage \<lparr>diff_chars = 10, sent_chars = 10, files_sent = 1, cov_unseen = [], cov_cut = None,
        changed_files = Some 2, cov_dropped = [''big.py''], cov_hunks = None\<rparr>)) = []"
  by (rule replay_forgets_unfetched_files(2)) (simp_all add: sample_verdict_def)

end
