(* ===== verification/Metering.thy ===== *)
theory Metering
  imports Main
begin

text \<open>
  The contract of a capped counter: a column that several transactions raise by a conditional
  \<open>UPDATE\<close>, and the log of those that won. The read budgets and the repair attempts both keep it.
\<close>

locale capped_counter =
  fixes step :: "'s \<Rightarrow> 's \<Rightarrow> bool"
    and count :: "'s \<Rightarrow> 'k \<Rightarrow> nat"
    and granted :: "'s \<Rightarrow> 'k list"
    and cap :: "'k \<Rightarrow> nat"
    and ready :: "'s \<Rightarrow> bool"
  assumes ready_step: "step s t \<Longrightarrow> ready s \<Longrightarrow> ready t"
    and one_below_cap:
      "step s t \<Longrightarrow> ready s \<Longrightarrow> granted t = granted s \<and> count t = count s
       \<or> (\<exists>k. count s k < cap k \<and> granted t = k # granted s \<and> count t = (count s)(k := count s k + 1))"
begin

definition metered :: "'s \<Rightarrow> bool" where
  "metered s \<longleftrightarrow> ready s \<and> (\<forall>k. count s k = count_list (granted s) k \<and> count s k \<le> cap k)"

lemma metered_step:
  assumes "step s t" and "metered s"
  shows "metered t"
  using one_below_cap [OF assms(1)] ready_step [OF assms(1)] assms(2) unfolding metered_def
  by (auto simp: less_eq_Suc_le)

lemma metered_run: "step\<^sup>*\<^sup>* s t \<Longrightarrow> metered s \<Longrightarrow> metered t"
  by (induction rule: rtranclp_induct) (auto intro: metered_step)

text \<open>From a state that granted nothing, the log, the column and the cap stay in order.\<close>

lemma grants_are_counted:
  assumes "step\<^sup>*\<^sup>* s t" and "ready s" and "granted s = []" and "\<forall>k. count s k = 0"
  shows "count_list (granted t) k = count t k \<and> count_list (granted t) k \<le> cap k"
proof -
  have "metered s" using assms(2-4) by (simp add: metered_def)
  from metered_run [OF assms(1) this] show ?thesis unfolding metered_def by metis
qed

end

end
