(* ===== verification/Spend.thy ===== *)
theory Spend
  imports Outcome_Queue Check_Run Review_Queue Metering
begin

text \<open>
  The monthly read budgets: the scopes and caps of \<open>api/doug/reader.py\<close>, the counter table
  \<open>deep_read_counters\<close> with \<open>record_deep_read\<close>, and the snapshot of \<open>api/doug/store.py\<close> that the check
  run's footer and the scoreboard show. A charge is two transactions, the insert of a fresh row and
  the conditional increment; other charges may run between them. The name of a month (\<open>strftime\<close> with
  \<open>%Y-%m\<close>) is an argument.
\<close>

subsection \<open>Scopes and caps\<close>

definition SENTINEL_SCOPE :: string where "SENTINEL_SCOPE = ''untenanted''"
definition INSTALLATION_MONTHLY_READ_CAP :: nat where "INSTALLATION_MONTHLY_READ_CAP = 4000"
definition SENTINEL_MONTHLY_READ_CAP :: nat where "SENTINEL_MONTHLY_READ_CAP = 1000"
definition VERIFY_MONTHLY_READ_CAP :: nat where "VERIFY_MONTHLY_READ_CAP = 4000"
definition PLAN_DEEP_READ_CAP :: nat where "PLAN_DEEP_READ_CAP = 200"

definition SCOPE_PREFIX :: string where "SCOPE_PREFIX = ''installation:''"
definition VERIFY_SCOPE_PREFIX :: string where "VERIFY_SCOPE_PREFIX = ''verify:''"
definition ATTRIBUTION_SCOPE_PREFIX :: string where "ATTRIBUTION_SCOPE_PREFIX = ''attribution:''"

definition installation_scope :: "int \<Rightarrow> string" where
  "installation_scope i = SCOPE_PREFIX @ dec_int i"

definition installation_from_scope :: "string \<Rightarrow> int option" where
  "installation_from_scope scope =
     (if \<not> startswith scope SCOPE_PREFIX then None
      else case digits_value (drop (length SCOPE_PREFIX) scope) of
        None \<Rightarrow> None
      | Some v \<Rightarrow> if dec_int v = drop (length SCOPE_PREFIX) scope then Some v else None)"

definition owner_text :: "int option \<Rightarrow> string" where
  "owner_text i = (case i of None \<Rightarrow> SENTINEL_SCOPE | Some n \<Rightarrow> dec_int n)"

definition verify_scope :: "int option \<Rightarrow> string" where
  "verify_scope i = VERIFY_SCOPE_PREFIX @ owner_text i"

definition is_verify_scope :: "string \<Rightarrow> bool" where
  "is_verify_scope scope = startswith scope VERIFY_SCOPE_PREFIX"

definition attribution_scope :: "int option \<Rightarrow> string" where
  "attribution_scope i = ATTRIBUTION_SCOPE_PREFIX @ owner_text i"

definition cap_for :: "string \<Rightarrow> nat" where
  "cap_for scope =
     (if is_verify_scope scope then VERIFY_MONTHLY_READ_CAP
      else if scope = SENTINEL_SCOPE then SENTINEL_MONTHLY_READ_CAP else INSTALLATION_MONTHLY_READ_CAP)"

subsection \<open>The counters\<close>

type_synonym meter = "string \<times> string \<Rightarrow> nat option"

record counters =
  ct_configured :: bool
  ct_rows :: meter

text \<open>The insert; a row that is there already makes it an \<open>IntegrityError\<close>, which is passed over.\<close>

definition open_period :: "string \<Rightarrow> string \<Rightarrow> counters \<Rightarrow> counters" where
  "open_period scope period db =
     (case ct_rows db (scope, period) of
        Some _ \<Rightarrow> db
      | None \<Rightarrow> db\<lparr>ct_rows := (ct_rows db)((scope, period) \<mapsto> 0)\<rparr>)"

definition spend_one :: "string \<Rightarrow> string \<Rightarrow> nat \<Rightarrow> counters \<Rightarrow> bool \<times> counters" where
  "spend_one scope period cap db =
     (case ct_rows db (scope, period) of
        None \<Rightarrow> (False, db)
      | Some n \<Rightarrow> if n < cap then (True, db\<lparr>ct_rows := (ct_rows db)((scope, period) \<mapsto> n + 1)\<rparr>) else (False, db))"

definition record_deep_read :: "(instant \<Rightarrow> string) \<Rightarrow> string \<Rightarrow> nat \<Rightarrow> instant \<Rightarrow> counters \<Rightarrow> bool \<times> counters" where
  "record_deep_read month scope cap now db =
     (if \<not> ct_configured db then (True, db)
      else spend_one scope (month now) cap (open_period scope (month now) db))"

text \<open>\<open>_charge\<close>: \<open>None\<close> where it returns, the scope and cap of the \<open>SpendCapExceeded\<close> where it raises.\<close>

definition charge :: "(instant \<Rightarrow> string) \<Rightarrow> string \<Rightarrow> instant \<Rightarrow> counters \<Rightarrow> (string \<times> nat) option \<times> counters" where
  "charge month scope now db =
     (case record_deep_read month scope (cap_for scope) now db of
        (True, db') \<Rightarrow> (None, db') | (False, db') \<Rightarrow> (Some (scope, cap_for scope), db'))"

subsection \<open>The instrument\<close>

definition of_repository :: "int \<Rightarrow> int \<Rightarrow> outcome_job \<Rightarrow> bool" where
  "of_repository inst repo j \<longleftrightarrow> oj_installation j = inst \<and> oj_repo j = repo"

definition instrument_snapshot ::
    "(instant \<Rightarrow> string) \<Rightarrow> int \<Rightarrow> int \<Rightarrow> instant \<Rightarrow> counters \<Rightarrow> 'a ledger_scheme \<Rightarrow> instrument option" where
  "instrument_snapshot month inst repo now ct lg =
     (if \<not> rg_configured lg then None
      else let jobs = filter (of_repository inst repo) (lg_jobs lg);
               open_jobs = filter (\<lambda>j. oj_status j \<noteq> Done) jobs
           in Some \<lparr>adjudicated = length (filter (\<lambda>j. oj_status j = Done) jobs),
                    pending = length open_jobs, as_of = now,
                    first_due = map_option oj_due_at (first_by oj_due_at open_jobs),
                    deep_reads = Some (case ct_rows ct (installation_scope inst, month now) of
                       None \<Rightarrow> 0 | Some n \<Rightarrow> min n PLAN_DEEP_READ_CAP),
                    deep_read_cap = PLAN_DEEP_READ_CAP\<rparr>)"

definition empty_instrument :: "instant \<Rightarrow> instrument" where
  "empty_instrument now = \<lparr>adjudicated = 0, pending = 0, as_of = now, first_due = None,
     deep_reads = Some 0, deep_read_cap = PLAN_DEEP_READ_CAP\<rparr>"

definition named_pairs :: "string \<Rightarrow> 'a ledger_scheme \<Rightarrow> (int \<times> int) list" where
  "named_pairs name lg = map (\<lambda>r. (ip_installation r, ip_repo r))
     (filter (\<lambda>r. ip_full_name r = name \<and> ip_state r = ''active'') (rg_repos lg))"

definition reviewed_pairs :: "string \<Rightarrow> review_db \<Rightarrow> (int \<times> int) list" where
  "reviewed_pairs name rq = remdups (map (\<lambda>j. (rj_installation j, rj_repo j))
     (filter (\<lambda>j. rj_repo_full_name j = name) (rq_jobs rq)))"

definition preferred_pair :: "(int \<times> int) list \<Rightarrow> 'a ledger_scheme \<Rightarrow> (int \<times> int) option" where
  "preferred_pair candidates lg =
     (if candidates = [] then None
      else let cs = sort candidates; with_jobs = set (map (\<lambda>j. (oj_installation j, oj_repo j)) (lg_jobs lg))
           in (case List.find (\<lambda>c. c \<in> with_jobs) cs of Some c \<Rightarrow> Some c | None \<Rightarrow> Some (hd cs)))"

definition instrument_snapshot_for_repo ::
    "(instant \<Rightarrow> string) \<Rightarrow> string \<Rightarrow> instant \<Rightarrow> counters \<Rightarrow> review_db \<Rightarrow> 'a ledger_scheme \<Rightarrow> instrument option" where
  "instrument_snapshot_for_repo month name now ct rq lg =
     (if \<not> rg_configured lg then None
      else case preferred_pair (if named_pairs name lg = [] then reviewed_pairs name rq else named_pairs name lg) lg of
        None \<Rightarrow> Some (empty_instrument now)
      | Some (inst, repo) \<Rightarrow> instrument_snapshot month inst repo now ct lg)"

subsection \<open>Scopes name one payer\<close>

lemma digits_dec: "digits_value (dec n) = Some (int n)"
proof -
  have "digits_value (dec n) = Some (foldl (\<lambda>k c. 10 * k + (int (of_char c) - 48)) 0 (dec n))"
    by (simp add: digits_value_def dec_all_digits)
  also have "foldl (\<lambda>k c. 10 * k + (int (of_char c) - 48)) 0 (dec n) = int_of_digits (dec n)"
    by (simp add: int_of_digits_def)
  finally show ?thesis by simp
qed

lemma scope_heads:
  "\<not> startswith (verify_scope v) SCOPE_PREFIX" "\<not> startswith (attribution_scope a) SCOPE_PREFIX"
  "\<not> startswith (installation_scope i) VERIFY_SCOPE_PREFIX" "\<not> startswith (attribution_scope a) VERIFY_SCOPE_PREFIX"
  by (simp_all add: startswith_def verify_scope_def attribution_scope_def installation_scope_def
      SCOPE_PREFIX_def VERIFY_SCOPE_PREFIX_def ATTRIBUTION_SCOPE_PREFIX_def)

lemma dec_int_digits: "digits_value s = Some v \<Longrightarrow> dec_int v = s \<Longrightarrow> 0 \<le> v"
  by (rule ccontr) (auto simp: dec_int_def digits_value_def digit_char_def split: if_splits)

text \<open>
  A scope string names exactly one payer: it is read back as installation i only if it is the
  very string the spend is charged to for i, every such string of a non-negative id is read back,
  and the scopes of the verify and attribution passes name nobody.
\<close>
theorem scope_names_one_payer:
  "installation_from_scope s = Some i \<longleftrightarrow> 0 \<le> i \<and> s = installation_scope i"
  "installation_from_scope (verify_scope v) = None"
  "installation_from_scope (attribution_scope v) = None"
  "installation_from_scope SENTINEL_SCOPE = None"
proof -
  have d: "digits_value (dec_int i) = Some i" if "0 \<le> i"
    using that by (simp add: dec_int_def digits_dec)
  have n: "0 \<le> i" if "digits_value t = Some i" "dec_int i = t" for t
    using dec_int_digits [OF that] .
  show "installation_from_scope s = Some i \<longleftrightarrow> 0 \<le> i \<and> s = installation_scope i"
  proof (cases "startswith s SCOPE_PREFIX")
    case True
    then obtain t where t: "s = SCOPE_PREFIX @ t" by (auto simp: startswith_prefix)
    have "installation_from_scope s = Some i \<longleftrightarrow> digits_value t = Some i \<and> dec_int i = t"
      using True by (auto simp: installation_from_scope_def t split: option.split)
    also have "\<dots> \<longleftrightarrow> 0 \<le> i \<and> t = dec_int i" using d n by blast
    finally show ?thesis by (simp add: t installation_scope_def)
  next
    case False
    then show ?thesis by (auto simp: installation_from_scope_def installation_scope_def startswith_prefix)
  qed
  show "installation_from_scope (verify_scope v) = None" "installation_from_scope (attribution_scope v) = None"
    by (simp_all add: installation_from_scope_def scope_heads)
  show "installation_from_scope SENTINEL_SCOPE = None" by code_simp
qed

subsection \<open>The caps hold under any interleaving\<close>

text \<open>
  One transaction of any caller, with the log of the charges that were granted. Every caller passes
  the cap of its scope.
\<close>

inductive charge_step :: "counters \<times> (string \<times> string) list \<Rightarrow> counters \<times> (string \<times> string) list \<Rightarrow> bool" where
  opened: "charge_step (db, w) (open_period scope period db, w)"
| granted: "spend_one scope period (cap_for scope) db = (True, db') \<Longrightarrow> charge_step (db, w) (db', (scope, period) # w)"
| refused: "spend_one scope period (cap_for scope) db = (False, db') \<Longrightarrow> charge_step (db, w) (db', w)"

definition fresh_counters :: counters where
  "fresh_counters = \<lparr>ct_configured = True, ct_rows = (\<lambda>_. None)\<rparr>"

definition spent :: "counters \<Rightarrow> string \<times> string \<Rightarrow> nat" where
  "spent db k = (case ct_rows db k of None \<Rightarrow> 0 | Some n \<Rightarrow> n)"

lemma spent_open [simp]: "spent (open_period s p db) k = spent db k"
  by (auto simp: spent_def open_period_def split: option.split)

lemma spend_cases:
  "spend_one s p cap db = (won, db') \<Longrightarrow>
     (if won then spent db (s, p) < cap \<and> (\<forall>k. spent db' k = (if k = (s, p) then spent db k + 1 else spent db k))
      else db' = db)"
  by (auto simp: spend_one_def spent_def split: option.splits if_splits)

inductive_cases charge_stepE: "charge_step st st'"

interpretation reads: capped_counter charge_step "\<lambda>st. spent (fst st)" snd "\<lambda>k. cap_for (fst k)" "\<lambda>_. True"
  by unfold_locales (auto elim!: charge_stepE dest!: spend_cases simp: fun_eq_iff)

text \<open>
  C3. No interleaving of charges beats a cap: however the two transactions of concurrent readers
  mix, the reads granted to a scope in a month are exactly what its counter says and never more
  than the cap of that scope.
\<close>
theorem cap_bounds_the_reads:
  assumes "charge_step\<^sup>*\<^sup>* (fresh_counters, []) (db, granted)"
  shows "count_list granted (scope, month) = spent db (scope, month)
    \<and> count_list granted (scope, month) \<le> cap_for scope"
  using reads.grants_are_counted [OF assms, of "(scope, month)"] by (simp add: fresh_counters_def spent_def)

lemma cap_bounds_the_reads_witness:
  "count_list [(''untenanted'', ''2026-08'')] (''untenanted'', ''2026-08'') \<le> cap_for ''untenanted''"
proof -
  let ?k = "(''untenanted'', ''2026-08'')"
  let ?a = "open_period ''untenanted'' ''2026-08'' fresh_counters"
  have g: "spend_one ''untenanted'' ''2026-08'' (cap_for ''untenanted'') ?a = (True, ?a\<lparr>ct_rows := (ct_rows ?a)(?k \<mapsto> 1)\<rparr>)"
    by (simp add: open_period_def fresh_counters_def spend_one_def cap_for_def is_verify_scope_def
        VERIFY_SCOPE_PREFIX_def startswith_def SENTINEL_SCOPE_def SENTINEL_MONTHLY_READ_CAP_def)
  have "charge_step\<^sup>*\<^sup>* (fresh_counters, []) (?a\<lparr>ct_rows := (ct_rows ?a)(?k \<mapsto> 1)\<rparr>, [?k])"
  proof (rule rtranclp_trans)
    show "charge_step\<^sup>*\<^sup>* (fresh_counters, []) (?a, [])" by (rule r_into_rtranclp) (rule charge_step.opened)
    show "charge_step\<^sup>*\<^sup>* (?a, []) (?a\<lparr>ct_rows := (ct_rows ?a)(?k \<mapsto> 1)\<rparr>, [?k])"
      by (rule r_into_rtranclp) (rule charge_step.granted [OF g])
  qed
  then show ?thesis by (rule cap_bounds_the_reads [THEN conjunct2])
qed

subsection \<open>What the footer shows\<close>

lemma count_split: "length (filter P xs) + length (filter (\<lambda>x. \<not> P x) xs) = length xs"
  by (rule sum_length_filter_compl)

text \<open>
  The instrument is a partition: adjudicated and pending together are the repository's outcome
  jobs, a first due date is shown exactly while something is pending and is the earliest of the
  pending ones, and the read meter never runs past the plan's allowance.
\<close>
theorem instrument_accounts_for_every_job:
  assumes "instrument_snapshot month inst repo now ct lg = Some s"
  shows "adjudicated s + pending s = length (filter (of_repository inst repo) (lg_jobs lg))"
    and "first_due s = None \<longleftrightarrow> pending s = 0"
    and "\<forall>d. first_due s = Some d \<longrightarrow>
      (\<forall>j \<in> set (lg_jobs lg). of_repository inst repo j \<and> oj_status j \<noteq> Done \<longrightarrow> d \<le> oj_due_at j)"
    and "\<exists>n. deep_reads s = Some n \<and> n \<le> deep_read_cap s"
proof -
  let ?open = "filter (\<lambda>j. oj_status j \<noteq> Done) (filter (of_repository inst repo) (lg_jobs lg))"
  from assms have s: "adjudicated s = length (filter (\<lambda>j. oj_status j = Done) (filter (of_repository inst repo) (lg_jobs lg)))"
    "pending s = length ?open" "first_due s = map_option oj_due_at (first_by oj_due_at ?open)"
    "deep_reads s = Some (case ct_rows ct (installation_scope inst, month now) of
                       None \<Rightarrow> 0 | Some n \<Rightarrow> min n PLAN_DEEP_READ_CAP)" "deep_read_cap s = PLAN_DEEP_READ_CAP"
    by (auto simp: instrument_snapshot_def Let_def split: if_splits)
  show "adjudicated s + pending s = length (filter (of_repository inst repo) (lg_jobs lg))"
    unfolding s by (rule count_split)
  show "first_due s = None \<longleftrightarrow> pending s = 0" unfolding s by simp
  show "\<forall>d. first_due s = Some d \<longrightarrow>
      (\<forall>j \<in> set (lg_jobs lg). of_repository inst repo j \<and> oj_status j \<noteq> Done \<longrightarrow> d \<le> oj_due_at j)"
    unfolding s by (auto dest!: first_by_Some)
  show "\<exists>n. deep_reads s = Some n \<and> n \<le> deep_read_cap s" unfolding s by (auto split: option.split)
qed

lemma instrument_accounts_witness:
  "adjudicated (empty_instrument 5) + pending (empty_instrument 5) = 0"
proof -
  let ?lg = "\<lparr>rg_configured = True, rg_installs = [], rg_repos = [], rg_install_seq = 1, rg_repo_seq = 1,
     lg_jobs = [], lg_job_seq = 1, lg_outcomes = [], lg_outcome_seq = 1, lg_verdicts = []\<rparr>"
  have "instrument_snapshot (\<lambda>_. ''1970-01'') 7 9 5 fresh_counters ?lg = Some (empty_instrument 5)"
    by (simp add: instrument_snapshot_def empty_instrument_def fresh_counters_def)
  from instrument_accounts_for_every_job(1) [OF this] show ?thesis by simp
qed

lemma other_scope_charge:
  assumes "scope \<noteq> installation_scope inst"
  shows "ct_rows (snd (record_deep_read month scope cap t ct)) (installation_scope inst, p)
    = ct_rows ct (installation_scope inst, p)"
  using assms by (auto simp: record_deep_read_def spend_one_def open_period_def split: option.split)

text \<open>
  A verify or attribution read never shows on a customer's meter: whatever such a charge does
  to the counters, the snapshot of every installation and repository reads the same afterwards.
\<close>
theorem mechanical_reads_stay_off_the_meter:
  "instrument_snapshot month inst repo now (snd (record_deep_read month (verify_scope v) cap t ct)) lg
     = instrument_snapshot month inst repo now ct lg"
  "instrument_snapshot month inst repo now (snd (record_deep_read month (attribution_scope v) cap t ct)) lg
     = instrument_snapshot month inst repo now ct lg"
proof -
  have "verify_scope v \<noteq> installation_scope inst" "attribution_scope v \<noteq> installation_scope inst"
    by (simp_all add: verify_scope_def attribution_scope_def installation_scope_def
        SCOPE_PREFIX_def VERIFY_SCOPE_PREFIX_def ATTRIBUTION_SCOPE_PREFIX_def)
  from this [THEN other_scope_charge]
  show "instrument_snapshot month inst repo now (snd (record_deep_read month (verify_scope v) cap t ct)) lg
     = instrument_snapshot month inst repo now ct lg"
    "instrument_snapshot month inst repo now (snd (record_deep_read month (attribution_scope v) cap t ct)) lg
     = instrument_snapshot month inst repo now ct lg"
    by (simp_all add: instrument_snapshot_def)
qed

end
