(* ===== verification/Job_Pipeline.thy ===== *)
theory Job_Pipeline
  imports Replay Spend Pr_Comment
begin

text \<open>
  The job pipeline of \<open>api/doug/worker.py\<close>: \<open>process_job\<close> and the sticky comment it ends with. A job is
  a sequence of stages, each one transaction or one request; \<open>run_job\<close> runs them to the end and other
  workers may run between them. The services are arguments: GitHub's answers, and the paid read
  (\<open>fetch_pr\<close>, \<open>score_one\<close>, \<open>read_intent\<close>), which may also charge the counters. A fault of the database is
  not a branch of a stage; that a worker stops or raises anywhere is a step of its own later.
\<close>

subsection \<open>What the worker talks to\<close>

text \<open>The parts of a pull request that are used, each \<open>None\<close> where it is no usable value.\<close>

record pull =
  pl_head :: "string option"
  pl_base_repo :: "int option"
  pl_base_sha :: "string option"

datatype call_error = Github_Error gh_error | Other_Error string

datatype intent_result = No_Intent | Intent intent_read | Intent_Failed string string

record read_result =
  rr_tier :: string
  rr_verdict :: verdict
  rr_coverage :: "coverage option"
  rr_intent :: intent_result

record 'g services =
  sv_formats :: formats
  sv_month :: "instant \<Rightarrow> string"
  sv_web_url :: "string option"
  sv_app :: "string option"
  sv_error :: "call_error \<Rightarrow> string"
  sv_client :: "int \<Rightarrow> string option"
  sv_pull :: "string \<Rightarrow> string \<Rightarrow> int \<Rightarrow> 'g \<Rightarrow> (call_error, pull) result \<times> 'g"
  sv_read :: "review_job \<Rightarrow> pull \<Rightarrow> rat option \<Rightarrow> bool \<Rightarrow> verdict_db \<Rightarrow> counters \<times> 'g \<Rightarrow>
              (string, read_result) result \<times> counters \<times> 'g"
  sv_comments :: "string \<Rightarrow> string \<Rightarrow> int \<Rightarrow> 'g github"

text \<open>One \<open>checks.create\<close> asked for, with the job and the verdict it is for.\<close>

record check_post =
  cp_job :: int
  cp_verdict :: "int option"
  cp_head :: string
  cp_title :: string
  cp_summary :: string

record 'g pipeline =
  pw_queue :: review_db
  pw_verdicts :: verdict_db
  pw_ledger :: ledger
  pw_counters :: counters
  pw_slots :: slots
  pw_denied :: "int \<Rightarrow> instant option"
  pw_checks :: "check_post list"
  pw_reads :: "int list"
  pw_gh :: 'g

definition rq_text :: "rq_error \<Rightarrow> string" where
  "rq_text e = (case e of ValueError s \<Rightarrow> s | RuntimeError s \<Rightarrow> s)"

text \<open>\<open>split("/", 1)\<close> unpacked into two.\<close>

definition split_slug :: "string \<Rightarrow> (string \<times> string) option" where
  "split_slug s = (if CHR ''/'' \<in> set s then Some (until_slash s, after_slash s) else None)"

definition slug_error :: string where
  "slug_error = ''not enough values to unpack (expected 2, got 1)''"

subsection \<open>The comment columns\<close>

definition PR_COMMENT_OUTCOME_MAX :: nat where "PR_COMMENT_OUTCOME_MAX = 32"

definition record_pr_comment_outcome :: "int \<Rightarrow> string \<Rightarrow> review_db \<Rightarrow> review_db" where
  "record_pr_comment_outcome i outcome db =
     (if \<not> rq_configured db then db
      else db\<lparr>rq_jobs := update_where (\<lambda>j. rj_id j = i)
        (\<lambda>j. j\<lparr>rj_pr_comment := Some (take PR_COMMENT_OUTCOME_MAX outcome)\<rparr>) (rq_jobs db)\<rparr>)"

definition mark_pr_comment_denied ::
    "int \<Rightarrow> instant option \<Rightarrow> 'a registry_scheme \<Rightarrow> (int \<Rightarrow> instant option) \<Rightarrow> int \<Rightarrow> instant option" where
  "mark_pr_comment_denied inst at_time lg denied =
     (if \<not> rg_configured lg \<or> row_by in_installation inst (rg_installs lg) = None then denied
      else denied(inst := at_time))"

definition pr_comment_denied_at :: "int \<Rightarrow> 'a registry_scheme \<Rightarrow> (int \<Rightarrow> instant option) \<Rightarrow> instant option" where
  "pr_comment_denied_at inst lg denied = (if \<not> rg_configured lg then None else denied inst)"

subsection \<open>The sticky comment\<close>

definition outcome_token :: "Pr_Comment.outcome \<Rightarrow> string" where
  "outcome_token out =
     (case out of
        Created \<Rightarrow> ''created'' | Updated \<Rightarrow> ''updated'' | Skipped_Stale \<Rightarrow> ''skipped-stale''
      | Denied_403 \<Rightarrow> ''denied:403'' | Failed_Code c \<Rightarrow> ''failed:'' @ dec_int c
      | Failed_Net \<Rightarrow> ''failed:net'' | Page_Bound \<Rightarrow> ''failed:page-bound'')"

definition state_token :: "comment_state \<Rightarrow> string" where
  "state_token st =
     (case st of CommentOn \<Rightarrow> ''on'' | CommentOff \<Rightarrow> ''off'' | NoActiveRow \<Rightarrow> ''no-active-row'' | NoLedger \<Rightarrow> ''no-ledger'')"

text \<open>\<open>pr_comment.target_matches\<close> on the answer of \<open>pulls.get\<close>; another exception passes through.\<close>

definition target_check ::
    "'g services \<Rightarrow> string \<Rightarrow> string \<Rightarrow> review_job \<Rightarrow> 'g \<Rightarrow> (string, bool) result \<times> 'g" where
  "target_check sv owner name j g =
     (case sv_pull sv owner name (rj_pr j) g of
        (Inl (Github_Error e), g') \<Rightarrow> (Return (target_matches (Inl e) (rj_repo j)), g')
      | (Inl (Other_Error e), g') \<Rightarrow> (Raise e, g')
      | (Inr p, g') \<Rightarrow> (Return (target_matches (Inr (pl_base_repo p)) (rj_repo j)), g'))"

text \<open>Rendering, the upsert and the permission marker; an over-long frame is the exception.\<close>

definition comment_out :: "'g services \<Rightarrow> string \<Rightarrow> string \<Rightarrow> review_job \<Rightarrow> string \<Rightarrow> instant \<Rightarrow> 'g pipeline \<Rightarrow>
    (string, string) result \<times> 'g pipeline" where
  "comment_out sv owner name j summary now w =
     (case comment_render summary (rj_head_sha j) (rj_id j) (receipt_links (sv_web_url sv) owner name (rj_pr j)) of
        Inl n \<Rightarrow> (Raise ''RuntimeError'', w)
      | Inr body \<Rightarrow>
          (case upsert (sv_comments sv owner name (rj_pr j)) (sv_app sv)
                  (rj_installation j, rj_repo j, rj_pr j) body (rj_id j) (pw_slots w, pw_gh w) of
             (out, db, g) \<Rightarrow>
               (Return (outcome_token out),
                w\<lparr>pw_slots := db, pw_gh := g,
                  pw_denied :=
                    (if out = Denied_403 then mark_pr_comment_denied (rj_installation j) (Some now) (pw_ledger w) (pw_denied w)
                     else if out \<in> {Created, Updated} then mark_pr_comment_denied (rj_installation j) None (pw_ledger w) (pw_denied w)
                     else pw_denied w)\<rparr>)))"

definition pr_comment_outcome :: "'g services \<Rightarrow> string \<Rightarrow> string \<Rightarrow> review_job \<Rightarrow> string \<Rightarrow> bool \<Rightarrow> instant \<Rightarrow> 'g pipeline \<Rightarrow>
    (string, string) result \<times> 'g pipeline" where
  "pr_comment_outcome sv owner name j summary fresh now w =
     (let st = repo_pr_comment_state (rj_installation j) (rj_repo j) (pw_ledger w) in
      if st \<noteq> CommentOn then (Return (''skipped:'' @ state_token st), w)
      else if fresh then comment_out sv owner name j summary now w
      else (case target_check sv owner name j (pw_gh w) of
              (Raise e, g) \<Rightarrow> (Raise e, w\<lparr>pw_gh := g\<rparr>)
            | (Return False, g) \<Rightarrow> (Return ''skipped-target'', w\<lparr>pw_gh := g\<rparr>)
            | (Return True, g) \<Rightarrow> comment_out sv owner name j summary now (w\<lparr>pw_gh := g\<rparr>)))"

text \<open>\<open>_post_pr_comment\<close> up to its \<open>finally\<close>: the token that will be recorded.\<close>

definition comment_token :: "'g services \<Rightarrow> string \<Rightarrow> string \<Rightarrow> review_job \<Rightarrow> string \<Rightarrow> bool \<Rightarrow> instant \<Rightarrow> 'g pipeline \<Rightarrow>
    string \<times> 'g pipeline" where
  "comment_token sv owner name j summary fresh now w =
     (case pr_comment_outcome sv owner name j summary fresh now w of
        (Return t, w') \<Rightarrow> (t, w') | (Raise e, w') \<Rightarrow> (''failed:internal'', w'))"

definition record_and_log :: "review_job \<Rightarrow> string \<Rightarrow> 'g pipeline \<Rightarrow> 'g pipeline" where
  "record_and_log j outcome w = w\<lparr>pw_queue := record_pr_comment_outcome (rj_id j) outcome (pw_queue w)\<rparr>"

definition post_pr_comment :: "'g services \<Rightarrow> string \<Rightarrow> string \<Rightarrow> review_job \<Rightarrow> string \<Rightarrow> bool \<Rightarrow> instant \<Rightarrow> 'g pipeline \<Rightarrow> 'g pipeline" where
  "post_pr_comment sv owner name j summary fresh now w =
     (case comment_token sv owner name j summary fresh now w of (t, w') \<Rightarrow> record_and_log j t w')"

subsection \<open>The stages of a job\<close>

datatype job_stage =
    Lookup | Render_Recorded stored_verdict | Check_Head | Retire | Displace string string | Requeue string string
  | Read_Diff pull | Save_Review read_result | Find_Peer int | Save_Deviations "int option" read_result
  | Render_Fresh "int option" read_result | Complete_Job "int option" string string bool
  | Post_Check "int option" string string bool | Post_Comment "int option" string bool | Record "int option" string

type_synonym job_result = "(string, int option) result"

abbreviation owner_of :: "review_job \<Rightarrow> string" where "owner_of j \<equiv> until_slash (rj_repo_full_name j)"
abbreviation name_of :: "review_job \<Rightarrow> string" where "name_of j \<equiv> after_slash (rj_repo_full_name j)"

definition recorded_of :: "review_job \<Rightarrow> verdict_db \<Rightarrow> stored_verdict option" where
  "recorded_of j db = find_verdict_by_identity (rj_installation j) (rj_repo j) (rj_pr j) (rj_head_sha j) db"

definition instrument_of :: "'g services \<Rightarrow> review_job \<Rightarrow> instant \<Rightarrow> 'g pipeline \<Rightarrow> instrument option" where
  "instrument_of sv j now w =
     instrument_snapshot (sv_month sv) (rj_installation j) (rj_repo j) now (pw_counters w) (pw_ledger w)"

text \<open>The head and target checks on the pull request as it is now.\<close>

definition usable :: "string option \<Rightarrow> bool" where
  "usable s = (case s of None \<Rightarrow> False | Some t \<Rightarrow> t \<noteq> [])"

definition head_check :: "review_job \<Rightarrow> pull \<Rightarrow> job_result + job_stage" where
  "head_check j p =
     (if \<not> usable (pl_head p) then Inl (Raise ''GitHub pull response carried no usable head.sha'')
      else case pl_base_repo p of
        None \<Rightarrow> Inl (Raise ''GitHub pull response carried no usable base.repo.id'')
      | Some b \<Rightarrow>
          if b \<noteq> rj_repo j then Inr Retire
          else if the (pl_head p) = rj_head_sha j then Inr (Read_Diff p)
          else if \<not> usable (pl_base_sha p)
          then Inl (Raise ''GitHub pull response carried no usable base.sha for stale-head replacement'')
          else Inr (Displace (the (pl_head p)) (the (pl_base_sha p))))"

text \<open>A failed intent read is a notice on the verdict.\<close>

definition with_notice :: "string \<Rightarrow> string \<Rightarrow> read_result \<Rightarrow> read_result" where
  "with_notice rule label rr =
     rr\<lparr>rr_verdict := (rr_verdict rr)\<lparr>v_reasons := v_reasons (rr_verdict rr) @ [plain_reason rule label 0]\<rparr>\<rparr>"

definition noted :: "read_result \<Rightarrow> read_result" where
  "noted rr = (case rr_intent rr of Intent_Failed rule label \<Rightarrow> with_notice rule label rr | _ \<Rightarrow> rr)"

definition intent_of :: "read_result \<Rightarrow> intent_read option" where
  "intent_of rr = (case rr_intent rr of Intent ir \<Rightarrow> Some ir | _ \<Rightarrow> None)"

definition job_identity_args :: "review_job \<Rightarrow> identity_args" where
  "job_identity_args j =
     \<lparr>ia_installation = Some (rj_installation j), ia_repo = Some (rj_repo j), ia_head = Some (rj_head_sha j)\<rparr>"

text \<open>What a fenced write reports; only an unconfigured database makes it raise.\<close>

definition fenced :: "(rq_error, bool \<times> review_db) result \<Rightarrow> (bool \<Rightarrow> job_result + job_stage) \<Rightarrow> 'g pipeline \<Rightarrow>
    (job_result + job_stage) \<times> 'g pipeline" where
  "fenced r k w =
     (case r of Raise e \<Rightarrow> (Inl (Raise (rq_text e)), w) | Return (b, q) \<Rightarrow> (k b, w\<lparr>pw_queue := q\<rparr>))"

fun job_call :: "'g services \<Rightarrow> review_job \<Rightarrow> instant \<Rightarrow> job_stage \<Rightarrow> 'g pipeline \<Rightarrow>
    (job_result + job_stage) \<times> 'g pipeline" where
  "job_call sv j now Lookup w =
     (case sv_client sv (rj_installation j) of
        Some e \<Rightarrow> (Inl (Raise e), w)
      | None \<Rightarrow>
          (if split_slug (rj_repo_full_name j) = None then (Inl (Raise slug_error), w)
           else (Inr (case recorded_of j (pw_verdicts w) of Some b \<Rightarrow> Render_Recorded b | None \<Rightarrow> Check_Head), w)))"
| "job_call sv j now (Render_Recorded b) w =
     (case render_recorded (sv_formats sv) (instrument_of sv j now w) (rj_repo_full_name j) (rj_head_sha j) (pw_verdicts w) b of
        (title, summary) \<Rightarrow> (Inr (Complete_Job (Some (bd_id b)) title summary False), w))"
| "job_call sv j now Check_Head w =
     (case sv_pull sv (owner_of j) (name_of j) (rj_pr j) (pw_gh w) of
        (Raise e, g) \<Rightarrow> (Inl (Raise (sv_error sv e)), w\<lparr>pw_gh := g\<rparr>)
      | (Return p, g) \<Rightarrow> (head_check j p, w\<lparr>pw_gh := g\<rparr>))"
| "job_call sv j now Retire w =
     fenced (supersede now (rj_id j) (rj_generation j) (pw_queue w)) (\<lambda>_. Inl (Return None)) w"
| "job_call sv j now (Displace head base) w =
     fenced (supersede now (rj_id j) (rj_generation j) (pw_queue w)) (\<lambda>_. Inr (Requeue head base)) w"
| "job_call sv j now (Requeue head base) w =
     (case enqueue now now (rj_installation j) (rj_repo j) (rj_repo_full_name j) (rj_pr j) head (Some base) ''live'' (pw_queue w) of
        Raise e \<Rightarrow> (Inl (Raise (rq_text e)), w)
      | Return (_, q) \<Rightarrow> (Inl (Return None), w\<lparr>pw_queue := q\<rparr>))"
| "job_call sv j now (Read_Diff p) w =
     (case sv_read sv j p (repo_threshold (rj_installation j) (rj_repo j) (pw_ledger w))
             (repo_deep_read (rj_installation j) (rj_repo j) (pw_ledger w)) (pw_verdicts w) (pw_counters w, pw_gh w) of
        (r, ct, g) \<Rightarrow>
          (case r of Raise e \<Rightarrow> Inl (Raise e) | Return rr \<Rightarrow> Inr (Save_Review (noted rr)),
           w\<lparr>pw_counters := ct, pw_gh := g, pw_reads := pw_reads w @ [rj_id j]\<rparr>))"
| "job_call sv j now (Save_Review rr) w =
     (case save_review now (rj_repo_full_name j) (rj_pr j) (rr_tier rr) (rr_verdict rr) (rr_coverage rr)
             (job_identity_args j) (Some ''app'') (pw_verdicts w) of
        (Raise e, db) \<Rightarrow> (Inl (Raise e), w\<lparr>pw_verdicts := db\<rparr>)
      | (Return None, db) \<Rightarrow> (Inr (Save_Deviations None rr), w\<lparr>pw_verdicts := db\<rparr>)
      | (Return (Some (v, True)), db) \<Rightarrow> (Inr (Save_Deviations (Some v) rr), w\<lparr>pw_verdicts := db\<rparr>)
      | (Return (Some (v, False)), db) \<Rightarrow> (Inr (Find_Peer v), w\<lparr>pw_verdicts := db\<rparr>))"
| "job_call sv j now (Find_Peer v) w =
     (case recorded_of j (pw_verdicts w) of
        Some b \<Rightarrow> (Inr (Render_Recorded b), w)
      | None \<Rightarrow>
          (case find_verdict_by_id v (pw_verdicts w) of
             Some b \<Rightarrow> (Inr (Render_Recorded b), w)
           | None \<Rightarrow> (Inl (Raise ''save_review reported an existing identity but no lookup found it''), w)))"
| "job_call sv j now (Save_Deviations v rr) w =
     (Inr (Render_Fresh v rr),
      (case intent_of rr of None \<Rightarrow> w
       | Some ir \<Rightarrow> w\<lparr>pw_verdicts := snd (save_deviations v (i_findings ir) (i_refs ir) (i_alignment ir) (pw_verdicts w))\<rparr>))"
| "job_call sv j now (Render_Fresh v rr) w =
     (case render (sv_formats sv) (rr_tier rr) (rr_verdict rr) (intent_of rr) (rr_coverage rr) (instrument_of sv j now w)
             (case v of None \<Rightarrow> None | Some i \<Rightarrow> if rr_tier rr = ''reader'' then convergence_for i (pw_verdicts w) else None)
             (source_of (rj_repo_full_name j) (rj_head_sha j)) of
        (title, summary) \<Rightarrow> (Inr (Complete_Job v title summary True), w))"
| "job_call sv j now (Complete_Job v title summary fresh) w =
     fenced (complete now (rj_id j) v (rj_generation j) (\<not> fresh \<or> v \<noteq> None) (pw_queue w))
       (\<lambda>won. if won then Inr (Post_Check v title summary fresh) else Inl (Return v)) w"
| "job_call sv j now (Post_Check v title summary fresh) w =
     (Inr (Post_Comment v summary fresh),
      w\<lparr>pw_checks := pw_checks w @ [\<lparr>cp_job = rj_id j, cp_verdict = v, cp_head = rj_head_sha j,
          cp_title = cp_take TITLE_LIMIT title, cp_summary = cp_take SUMMARY_LIMIT summary\<rparr>]\<rparr>)"
| "job_call sv j now (Post_Comment v summary fresh) w =
     (case comment_token sv (owner_of j) (name_of j) j summary fresh now w of (t, w') \<Rightarrow> (Inr (Record v t), w'))"
| "job_call sv j now (Record v t) w = (Inl (Return v), record_and_log j t w)"

text \<open>A bound on the stages left.\<close>

fun stages_left :: "job_stage \<Rightarrow> nat" where
  "stages_left Lookup = 13"
| "stages_left Check_Head = 12"
| "stages_left (Read_Diff p) = 9"
| "stages_left (Displace head base) = 2"
| "stages_left (Requeue head base) = 1"
| "stages_left Retire = 1"
| "stages_left (Save_Review rr) = 8"
| "stages_left (Find_Peer v) = 7"
| "stages_left (Save_Deviations v rr) = 7"
| "stages_left (Render_Fresh v rr) = 6"
| "stages_left (Render_Recorded b) = 6"
| "stages_left (Complete_Job v title summary fresh) = 5"
| "stages_left (Post_Check v title summary fresh) = 4"
| "stages_left (Post_Comment v summary fresh) = 3"
| "stages_left (Record v t) = 2"

lemma head_check_stages: "head_check j p = Inr st \<Longrightarrow> stages_left st \<le> 9"
  by (auto simp: head_check_def split: if_splits option.splits)

lemma job_call_progress:
  "job_call sv j now st w = (Inr st', w') \<Longrightarrow> stages_left st' < stages_left st"
  by (cases "(sv, j, now, st, w)" rule: job_call.cases)
    (auto simp: fenced_def dest!: head_check_stages split: if_splits option.splits prod.splits sum.splits bool.splits)

text \<open>The whole job; the clock is read anew by every stage.\<close>

function run_job :: "'g services \<Rightarrow> review_job \<Rightarrow> (nat \<Rightarrow> instant) \<Rightarrow> job_stage \<Rightarrow> 'g pipeline \<Rightarrow> job_result \<times> 'g pipeline" where
  "run_job sv j clock st w =
     (case job_call sv j (clock (stages_left st)) st w of
        (Inl r, w') \<Rightarrow> (r, w')
      | (Inr st', w') \<Rightarrow> run_job sv j clock st' w')"
  by pat_completeness auto
termination
  by (relation "measure (\<lambda>(sv, j, clock, st, w). stages_left st)") (auto dest: job_call_progress [OF sym])

declare run_job.simps [simp del]

definition process_job :: "'g services \<Rightarrow> (nat \<Rightarrow> instant) \<Rightarrow> review_job \<Rightarrow> 'g pipeline \<Rightarrow> job_result \<times> 'g pipeline" where
  "process_job sv clock j w = run_job sv j clock Lookup w"

subsection \<open>Running the tail of a job\<close>

text \<open>
  \<open>complete\<close> before \<open>post\<close>: a lost claim ends the job without a word to GitHub; a won one is followed
  by the check run and the comment.
\<close>

definition finish_job :: "'g services \<Rightarrow> (nat \<Rightarrow> instant) \<Rightarrow> review_job \<Rightarrow> int option \<Rightarrow> string \<times> string \<Rightarrow> bool \<Rightarrow>
    'g pipeline \<Rightarrow> job_result \<times> 'g pipeline" where
  "finish_job sv clock j v shown fresh w =
     (case complete (clock 5) (rj_id j) v (rj_generation j) (\<not> fresh \<or> v \<noteq> None) (pw_queue w) of
        Raise e \<Rightarrow> (Raise (rq_text e), w)
      | Return (False, q) \<Rightarrow> (Return v, w\<lparr>pw_queue := q\<rparr>)
      | Return (True, q) \<Rightarrow>
          (Return v, post_pr_comment sv (owner_of j) (name_of j) j (snd shown) fresh (clock 3)
             (w\<lparr>pw_queue := q,
                pw_checks := pw_checks w @ [\<lparr>cp_job = rj_id j, cp_verdict = v, cp_head = rj_head_sha j,
                  cp_title = cp_take TITLE_LIMIT (fst shown), cp_summary = cp_take SUMMARY_LIMIT (snd shown)\<rparr>]\<rparr>)))"

lemma run_complete:
  "run_job sv j clock (Complete_Job v title summary fresh) w = finish_job sv clock j v (title, summary) fresh w"
  by (simp add: run_job.simps [of sv j clock "Complete_Job v title summary fresh"]
      run_job.simps [of sv j clock "Post_Check v title summary fresh"]
      run_job.simps [of sv j clock "Post_Comment v summary fresh"] run_job.simps [of sv j clock "Record v _"]
      fenced_def finish_job_def post_pr_comment_def split: sum.split prod.split bool.split)

lemma run_recorded:
  "run_job sv j clock (Render_Recorded b) w = finish_job sv clock j (Some (bd_id b))
     (render_recorded (sv_formats sv) (instrument_of sv j (clock 6) w) (rj_repo_full_name j) (rj_head_sha j) (pw_verdicts w) b)
     False w"
  by (simp add: run_job.simps [of sv j clock "Render_Recorded b"] run_complete split: prod.split)

lemma run_fresh:
  "run_job sv j clock (Render_Fresh v rr) w = finish_job sv clock j v
     (render (sv_formats sv) (rr_tier rr) (rr_verdict rr) (intent_of rr) (rr_coverage rr) (instrument_of sv j (clock 6) w)
       (case v of None \<Rightarrow> None | Some i \<Rightarrow> if rr_tier rr = ''reader'' then convergence_for i (pw_verdicts w) else None)
       (source_of (rj_repo_full_name j) (rj_head_sha j))) True w"
  by (simp add: run_job.simps [of sv j clock "Render_Fresh v rr"] run_complete split: prod.split)

lemma record_keeps [simp]:
  "pw_verdicts (record_and_log j t w) = pw_verdicts w" "pw_reads (record_and_log j t w) = pw_reads w"
  "pw_checks (record_and_log j t w) = pw_checks w"
  by (simp_all add: record_and_log_def)

lemma comment_out_keeps:
  "comment_out sv owner name j summary now w = (r, w') \<Longrightarrow>
     pw_verdicts w' = pw_verdicts w \<and> pw_reads w' = pw_reads w \<and> pw_checks w' = pw_checks w \<and> pw_queue w' = pw_queue w"
  by (auto simp: comment_out_def split: sum.splits prod.splits)

lemma comment_token_keeps:
  "comment_token sv owner name j summary fresh now w = (t, w') \<Longrightarrow>
     pw_verdicts w' = pw_verdicts w \<and> pw_reads w' = pw_reads w \<and> pw_checks w' = pw_checks w \<and> pw_queue w' = pw_queue w"
  by (auto simp: comment_token_def pr_comment_outcome_def Let_def
      split: if_splits sum.splits prod.splits bool.splits dest!: comment_out_keeps)

lemma post_comment_keeps [simp]:
  "pw_verdicts (post_pr_comment sv owner name j summary fresh now w) = pw_verdicts w"
  "pw_reads (post_pr_comment sv owner name j summary fresh now w) = pw_reads w"
  "pw_checks (post_pr_comment sv owner name j summary fresh now w) = pw_checks w"
  by (auto simp: post_pr_comment_def split: prod.split dest: comment_token_keeps)

lemma finish_job_keeps:
  assumes "finish_job sv clock j v shown fresh w = (r, w')"
  shows "pw_verdicts w' = pw_verdicts w \<and> pw_reads w' = pw_reads w
    \<and> (pw_checks w' = pw_checks w \<or> pw_checks w' = pw_checks w @ [\<lparr>cp_job = rj_id j, cp_verdict = v, cp_head = rj_head_sha j,
          cp_title = cp_take TITLE_LIMIT (fst shown), cp_summary = cp_take SUMMARY_LIMIT (snd shown)\<rparr>])
    \<and> (r = Return v \<or> (\<exists>e. r = Raise e))"
  using assms by (auto simp: finish_job_def split: sum.splits prod.splits bool.splits)

text \<open>
  C2. A commit that was read is never paid for again: when the ledger holds a verdict for the job's
  commit, \<open>process_job\<close> enters no read and writes no verdict, whether or not the branch moved on. It
  answers with the recorded verdict or raises, and at most one check run appears, whose title and
  summary are the recorded verdict's.
\<close>
theorem recorded_commit_is_replayed:
  assumes "recorded_of j (pw_verdicts w) = Some b" and "process_job sv clock j w = (r, w')"
  shows "pw_reads w' = pw_reads w
    \<and> pw_verdicts w' = pw_verdicts w
    \<and> (r = Return (Some (bd_id b)) \<or> (\<exists>e. r = Raise e))
    \<and> (pw_checks w' = pw_checks w \<or> (\<exists>title summary. pw_checks w' = pw_checks w @
           [\<lparr>cp_job = rj_id j, cp_verdict = Some (bd_id b), cp_head = rj_head_sha j,
             cp_title = cp_take TITLE_LIMIT title, cp_summary = cp_take SUMMARY_LIMIT summary\<rparr>]
         \<and> (title, summary) = render_recorded (sv_formats sv) (instrument_of sv j (clock 6) w)
             (rj_repo_full_name j) (rj_head_sha j) (pw_verdicts w) b))"
proof -
  have facts: "pw_reads w' = pw_reads w"
      "pw_verdicts w' = pw_verdicts w"
      "r = Return (Some (bd_id b)) \<or> (\<exists>e. r = Raise e)"
      "pw_checks w' = pw_checks w \<or> (\<exists>title summary. pw_checks w' = pw_checks w @
           [\<lparr>cp_job = rj_id j, cp_verdict = Some (bd_id b), cp_head = rj_head_sha j,
             cp_title = cp_take TITLE_LIMIT title, cp_summary = cp_take SUMMARY_LIMIT summary\<rparr>]
         \<and> (title, summary) = render_recorded (sv_formats sv) (instrument_of sv j (clock 6) w)
             (rj_repo_full_name j) (rj_head_sha j) (pw_verdicts w) b)"
  proof -
    let ?shown = "render_recorded (sv_formats sv) (instrument_of sv j (clock 6) w)
               (rj_repo_full_name j) (rj_head_sha j) (pw_verdicts w) b"
    have "(\<exists>e. r = Raise e \<and> w' = w) \<or> finish_job sv clock j (Some (bd_id b)) ?shown False w = (r, w')"
      using assms by (auto simp: process_job_def run_job.simps [of sv j clock Lookup] run_recorded
          split: option.splits if_splits)
    then have "pw_verdicts w' = pw_verdicts w \<and> pw_reads w' = pw_reads w
      \<and> (pw_checks w' = pw_checks w \<or> pw_checks w' = pw_checks w @ [\<lparr>cp_job = rj_id j, cp_verdict = Some (bd_id b),
            cp_head = rj_head_sha j, cp_title = cp_take TITLE_LIMIT (fst ?shown), cp_summary = cp_take SUMMARY_LIMIT (snd ?shown)\<rparr>])
      \<and> (r = Return (Some (bd_id b)) \<or> (\<exists>e. r = Raise e))"
      by (elim disjE) (auto dest: finish_job_keeps)
    moreover obtain title summary where "?shown = (title, summary)" by (cases ?shown)
    ultimately show "pw_reads w' = pw_reads w" "pw_verdicts w' = pw_verdicts w"
      "r = Return (Some (bd_id b)) \<or> (\<exists>e. r = Raise e)"
      "pw_checks w' = pw_checks w \<or> (\<exists>title summary. pw_checks w' = pw_checks w @
             [\<lparr>cp_job = rj_id j, cp_verdict = Some (bd_id b), cp_head = rj_head_sha j,
               cp_title = cp_take TITLE_LIMIT title, cp_summary = cp_take SUMMARY_LIMIT summary\<rparr>]
           \<and> (title, summary) = ?shown)"
      by auto
  qed
  show ?thesis by (rule conjI [OF facts(1) conjI [OF facts(2) conjI [OF facts(3) facts(4)]]])
qed

subsection \<open>A head that moved on\<close>

lemma supersede_won:
  assumes "rq_wf q" and "rq_configured q" and "j \<in> set (rq_jobs q)" and "rj_status j = Running"
  obtains q' where "supersede now (rj_id j) (rj_generation j) q = Return (True, q')" and "rq_wf q'"
    and "rq_configured q'" and "j\<lparr>rj_status := Superseded, rj_finished_at := Some now\<rparr> \<in> set (rq_jobs q')"
proof -
  have t: "terminal_where (rj_id j) (rj_generation j) j" using assms(4) by (simp add: terminal_where_def)
  then have h: "holds_claim q (rj_id j) (rj_generation j)" using assms(3) by (auto simp: holds_claim_def)
  let ?f = "\<lambda>j. j\<lparr>rj_status := Superseded, rj_finished_at := Some now\<rparr>"
  let ?q = "q\<lparr>rq_jobs := update_where (terminal_where (rj_id j) (rj_generation j)) ?f (rq_jobs q)\<rparr>"
  have s: "supersede now (rj_id j) (rj_generation j) q = Return (True, ?q)"
    using fenced_update_cases [OF assms(2)] h by (simp add: supersede_def)
  moreover have "rq_wf ?q" using rq_step_wf [OF rq_step.supersede [OF s] assms(1)] .
  moreover have "?f j \<in> set (rq_jobs ?q)"
    using t assms(3) by (auto simp: in_update_where intro!: bexI [of _ j])
  ultimately show ?thesis using assms(2) by (intro that [of ?q]) auto
qed

text \<open>An enqueue for one head leaves a superseded row of another head as it is.\<close>

lemma enqueue_other_head:
  assumes "enqueue now now' inst repo name pr head (Some base) trigger q = Return (r, q')"
    and "k \<in> set (rq_jobs q)" and "rj_status k = Superseded" and "rj_head_sha k \<noteq> head"
  shows "k \<in> set (rq_jobs q')"
proof (cases "enqueue_insert now inst repo name pr head base q")
  case (Some res)
  with assms have "q' = snd res" by (auto simp: enqueue_def split: if_splits prod.splits)
  moreover have "rq_jobs (snd res) = map (\<lambda>j. if job_filter inst repo pr j \<and> rj_head_sha j \<noteq> head \<and> rj_status j = Pending
                then j\<lparr>rj_status := Superseded, rj_finished_at := Some now\<rparr> else j) (rq_jobs q)
           @ [new_job now (rq_next_id q) inst repo name pr head base]"
    using insert_shape(1) [of now inst repo name pr head base q "fst res" "snd res"] Some by simp
  ultimately show ?thesis using assms(2,3) by (auto intro!: image_eqI [of _ _ k])
next
  case None
  with assms have "q' = snd (revive now' inst repo pr head base trigger q)"
    by (auto simp: enqueue_def split: if_splits)
  with assms(2,4) show ?thesis by (auto simp: revive_def Let_def in_update_where intro!: bexI [of _ k])
qed

lemma displaced_job:
  assumes "rq_wf (pw_queue w)" and "rq_configured (pw_queue w)"
    and "j \<in> set (rq_jobs (pw_queue w))" and "rj_status j = Running" and "head \<noteq> rj_head_sha j" and "base \<noteq> []"
    and "run_job sv j clock (Displace head base) w = (r, w')"
  shows "r = Return None \<and> pw_reads w' = pw_reads w \<and> pw_verdicts w' = pw_verdicts w \<and> pw_checks w' = pw_checks w
    \<and> (\<exists>k \<in> set (rq_jobs (pw_queue w')). rj_id k = rj_id j \<and> rj_status k = Superseded)
    \<and> (\<exists>k \<in> set (rq_jobs (pw_queue w')). rj_key k = (rj_installation j, rj_repo j, rj_pr j, head)
         \<and> rj_status k \<in> {Pending, Running, Done})"
proof -
  obtain q1 where q1: "supersede (clock 2) (rj_id j) (rj_generation j) (pw_queue w) = Return (True, q1)" "rq_wf q1"
    "rq_configured q1" and old: "j\<lparr>rj_status := Superseded, rj_finished_at := Some (clock 2)\<rparr> \<in> set (rq_jobs q1)"
    using supersede_won [OF assms(1-4)] by blast
  obtain i q2 k where q2: "enqueue (clock 1) (clock 1) (rj_installation j) (rj_repo j) (rj_repo_full_name j) (rj_pr j) head
      (Some base) ''live'' q1 = Return (i, q2)" and k: "k \<in> set (rq_jobs q2)"
      "rj_key k = (rj_installation j, rj_repo j, rj_pr j, head)" "rj_status k \<in> {Pending, Running, Done}"
    using live_enqueue_never_loses_a_push [OF q1(2,3) assms(6), of "''live''"] by fastforce
  from q1(1) q2 assms(7) have w': "r = Return None" "w' = w\<lparr>pw_queue := q2\<rparr>"
    by (simp_all add: run_job.simps [of sv j clock "Displace head base"]
        run_job.simps [of sv j clock "Requeue head base"] fenced_def)
  have "j\<lparr>rj_status := Superseded, rj_finished_at := Some (clock 2)\<rparr> \<in> set (rq_jobs q2)"
    by (rule enqueue_other_head [OF q2 old]) (use assms(5) in simp_all)
  then have "\<exists>k \<in> set (rq_jobs q2). rj_id k = rj_id j \<and> rj_status k = Superseded" by (rule bexI [rotated]) simp
  with k w' show ?thesis by auto
qed


subsection \<open>A worked instance\<close>

definition sample_job :: review_job where
  "sample_job = (new_job 10 1 7 9 ''acme/web'' 4 ''c0ffee'' ''ba5e'')
     \<lparr>rj_status := Running, rj_started_at := Some 20, rj_generation := 1\<rparr>"

definition sample_queue :: review_db where
  "sample_queue = \<lparr>rq_configured = True, rq_jobs = [sample_job], rq_next_id = 2\<rparr>"

definition sample_outcomes :: ledger where
  "sample_outcomes = \<lparr>rg_configured = True, rg_installs = [], rg_repos = [], rg_install_seq = 1, rg_repo_seq = 1,
     lg_jobs = [], lg_job_seq = 1, lg_outcomes = [], lg_outcome_seq = 1, lg_verdicts = []\<rparr>"

definition sample_services :: "string services" where
  "sample_services = \<lparr>sv_formats = sample_formats, sv_month = (\<lambda>_. ''2026-08''), sv_web_url = None, sv_app = None,
     sv_error = (\<lambda>_. ''error''), sv_client = (\<lambda>_. None),
     sv_pull = (\<lambda>_ _ _ g. (Return \<lparr>pl_head = Some ''f00d'', pl_base_repo = Some 9, pl_base_sha = Some ''ba5e''\<rparr>, g)),
     sv_read = (\<lambda>_ _ _ _ _ s. (Raise ''no reader'', s)), sv_comments = (\<lambda>_ _ _. board)\<rparr>"

definition sample_world :: "verdict_db \<Rightarrow> string pipeline" where
  "sample_world vb = \<lparr>pw_queue = sample_queue, pw_verdicts = vb, pw_ledger = sample_outcomes,
     pw_counters = fresh_counters, pw_slots = \<lparr>ss_engine = True, ss_rows = (\<lambda>_. None)\<rparr>, pw_denied = (\<lambda>_. None),
     pw_checks = [], pw_reads = [], pw_gh = []\<rparr>"

lemma sample_queue_wf: "rq_wf sample_queue"
  by (simp add: rq_wf_def sample_queue_def sample_job_def new_job_def row_ok_def)

lemma recorded_commit_is_replayed_witness:
  "pw_reads (snd (process_job sample_services (\<lambda>_. 30) sample_job (sample_world sample_ledger))) = []"
proof -
  have "recorded_of sample_job (pw_verdicts (sample_world sample_ledger)) = Some (read_back 1 ''reader'' sample_verdict None)"
    using saved_verdict_lookup by (simp add: recorded_of_def sample_job_def new_job_def sample_world_def)
  from recorded_commit_is_replayed [OF this prod.collapse [symmetric], THEN conjunct1] show ?thesis
    by (simp add: sample_world_def)
qed


end
