(* ===== verification/Payload.thy ===== *)
theory Payload
  imports Iso_Time Text_Units
begin

text \<open>
  Reading a decoded JSON body without trusting its shape: \<open>_obj\<close>, \<open>_text\<close> and \<open>_payload_timestamp\<close> of
  \<open>api/doug/api.py\<close>, \<open>is_bot_author\<close> of \<open>api/doug/models.py\<close>, and the merge commit look-up of
  \<open>api/doug/merge_sha.py\<close>. A number with a fraction is not a value of the type: at every use here it
  behaves as an array does, being neither an object, a text nor an int. An absent key, a null and
  the client's \<open>UNSET\<close> read alike, as \<open>JNull\<close>. The GraphQL client is an argument.
\<close>

subsection \<open>Shapes\<close>

definition obj :: "json \<Rightarrow> (string \<times> json) list" where
  "obj v = (case v of JObj d \<Rightarrow> d | _ \<Rightarrow> [])"

text \<open>\<open>_obj(raw).get(key)\<close>, and the attribute chain \<open>getattr(raw, key, None)\<close> of the worker.\<close>

definition field :: "json \<Rightarrow> string \<Rightarrow> json" where
  "field v k = jget (obj v) k"

text \<open>\<open>isinstance(raw, int)\<close>, which Python's booleans pass.\<close>

definition as_int :: "json \<Rightarrow> int option" where
  "as_int v = (case v of JNum n \<Rightarrow> Some n | JBool b \<Rightarrow> Some (if b then 1 else 0) | _ \<Rightarrow> None)"

text \<open>\<open>_text\<close>: the second argument is the length of the column the value is for, in code points.\<close>

definition text_of :: "nat option \<Rightarrow> json \<Rightarrow> string option" where
  "text_of column v =
     (case v of
        JStr s \<Rightarrow> if s = [] then None
                  else (case column of None \<Rightarrow> Some s | Some n \<Rightarrow> if n < cp_len s then None else Some s)
      | _ \<Rightarrow> None)"

definition truthy :: "json \<Rightarrow> bool" where
  "truthy v = (case v of JNull \<Rightarrow> False | JBool b \<Rightarrow> b | JNum n \<Rightarrow> n \<noteq> 0 | JStr s \<Rightarrow> s \<noteq> []
                | JArr xs \<Rightarrow> xs \<noteq> [] | JObj d \<Rightarrow> d \<noteq> [])"

definition aware :: "datetime \<Rightarrow> datetime" where
  "aware t = (case t of (l, None) \<Rightarrow> (l, Some 0) | (l, Some off) \<Rightarrow> (l, Some off))"

definition payload_timestamp :: "json \<Rightarrow> datetime option" where
  "payload_timestamp v = (case v of JStr s \<Rightarrow> map_option aware (fromisoformat s) | _ \<Rightarrow> None)"

definition is_bot_author :: "json \<Rightarrow> json \<Rightarrow> bool" where
  "is_bot_author user_type login \<longleftrightarrow>
     user_type = JStr ''Bot'' \<or> (case login of JStr s \<Rightarrow> endswith s ''[bot]'' | _ \<Rightarrow> False)"

lemma as_utc_aware [simp]: "as_utc (aware t) = as_utc t"
  by (cases t; cases "snd t") (auto simp: aware_def)

lemma text_of_Some:
  "text_of column v = Some s \<longleftrightarrow> v = JStr s \<and> s \<noteq> [] \<and> (\<forall>n. column = Some n \<longrightarrow> cp_len s \<le> n)"
  by (auto simp: text_of_def split: json.splits option.splits if_splits)

lemma text_of_nonempty: "text_of column v = Some s \<Longrightarrow> s \<noteq> []"
  by (simp add: text_of_Some)

subsection \<open>The columns\<close>

definition ACCOUNT_LOGIN :: nat where "ACCOUNT_LOGIN = 200"
definition ACCOUNT_TYPE :: nat where "ACCOUNT_TYPE = 20"
definition FULL_NAME :: nat where "FULL_NAME = 200"
definition BASE_REF :: nat where "BASE_REF = 200"
definition SHA_COLUMN :: nat where "SHA_COLUMN = 64"
definition SOURCE_COLUMN :: nat where "SOURCE_COLUMN = 64"

subsection \<open>The merge commit\<close>

text \<open>\<open>_dig\<close>: a \<open>data\<close> envelope is taken off, and a level that is no object ends the walk with null.\<close>

fun walk_keys :: "json \<Rightarrow> string list \<Rightarrow> json" where
  "walk_keys v [] = v"
| "walk_keys v (k # ks) = (case v of JObj d \<Rightarrow> walk_keys (jget d k) ks | _ \<Rightarrow> JNull)"

definition dig :: "json \<Rightarrow> string list \<Rightarrow> json" where
  "dig body ks =
     walk_keys (case body of
       JObj d \<Rightarrow> if ''data'' \<in> fst ` set d \<and> ''repository'' \<notin> fst ` set d then jget d ''data'' else body
     | _ \<Rightarrow> body) ks"

definition OID_PATH :: "string list" where
  "OID_PATH = [''repository'', ''pullRequest'', ''mergeCommit'', ''oid'']"

type_synonym 'g graphql = "string \<Rightarrow> string \<Rightarrow> int \<Rightarrow> 'g \<Rightarrow> (string, json) result \<times> 'g"

definition from_merge_commit ::
    "'g graphql \<Rightarrow> string \<Rightarrow> string \<Rightarrow> int \<Rightarrow> 'g \<Rightarrow> string option \<times> 'g" where
  "from_merge_commit ask owner name number g =
     (case ask owner name number g of
        (Raise e, g') \<Rightarrow> (None, g')
      | (Return body, g') \<Rightarrow> (text_of (Some SHA_COLUMN) (dig body OID_PATH), g'))"

text \<open>\<open>resolve\<close>: the client is only built when the carried value is unusable; an error text is no client.\<close>

definition resolve ::
    "json \<Rightarrow> string option \<Rightarrow> 'g graphql \<Rightarrow> string \<Rightarrow> string \<Rightarrow> int \<Rightarrow> 'g \<Rightarrow> string option \<times> 'g" where
  "resolve carried client ask owner name number g =
     (case text_of (Some SHA_COLUMN) carried of
        Some sha \<Rightarrow> (Some sha, g)
      | None \<Rightarrow> if client \<noteq> None then (None, g) else from_merge_commit ask owner name number g)"

lemma dig_envelope:
  assumes "''data'' \<notin> fst ` set d \<or> ''repository'' \<in> fst ` set d"
  shows "dig (JObj [(''data'', JObj d)]) ks = dig (JObj d) ks"
  using assms by (auto simp: dig_def jget_def)

lemma resolve_carried: "text_of (Some SHA_COLUMN) carried = Some sha \<Longrightarrow> resolve carried client ask owner name number g = (Some sha, g)"
  by (simp add: resolve_def)

text \<open>
  The merge commit is one fact from two sources: whatever \<open>resolve\<close> answers fits the column, a usable
  carried value costs no request and wins, and a client error, a failed query, an unmerged pull
  request or an over-long id are the same answer, \<open>None\<close>.
\<close>
theorem merge_commit_is_usable:
  assumes "resolve carried client ask owner name number g = (r, g')"
  shows "\<forall>sha. r = Some sha \<longrightarrow> sha \<noteq> [] \<and> cp_len sha \<le> SHA_COLUMN"
    and "text_of (Some SHA_COLUMN) carried \<noteq> None \<Longrightarrow> g' = g \<and> carried = JStr (the r)"
    and "text_of (Some SHA_COLUMN) carried = None \<Longrightarrow>
      r = (if client \<noteq> None then None
           else case fst (ask owner name number g) of Raise e \<Rightarrow> None
                | Return body \<Rightarrow> text_of (Some SHA_COLUMN) (dig body OID_PATH))"
proof -
  show "\<forall>sha. r = Some sha \<longrightarrow> sha \<noteq> [] \<and> cp_len sha \<le> SHA_COLUMN"
    using assms by (auto simp: resolve_def from_merge_commit_def text_of_Some
      split: option.splits if_splits prod.splits sum.splits)
  show "text_of (Some SHA_COLUMN) carried \<noteq> None \<Longrightarrow> g' = g \<and> carried = JStr (the r)"
  proof -
    assume "text_of (Some SHA_COLUMN) carried \<noteq> None"
    then obtain s where s: "text_of (Some SHA_COLUMN) carried = Some s" by blast
    then have "r = Some s" "g' = g" using assms resolve_carried [OF s, of client ask owner name number g] by auto
    moreover have "carried = JStr s" using s by (simp add: text_of_Some)
    ultimately show "g' = g \<and> carried = JStr (the r)" by simp
  qed
  show "text_of (Some SHA_COLUMN) carried = None \<Longrightarrow>
      r = (if client \<noteq> None then None
           else case fst (ask owner name number g) of Raise e \<Rightarrow> None
                | Return body \<Rightarrow> text_of (Some SHA_COLUMN) (dig body OID_PATH))"
    using assms by (auto simp: resolve_def from_merge_commit_def split: prod.splits sum.splits if_splits)
qed

text \<open>The graph's answer, with and without the envelope, and for a pull request that was not merged.\<close>

definition ex_graph :: "json \<Rightarrow> json" where
  "ex_graph commit = JObj [(''repository'', JObj [(''pullRequest'', JObj [(''mergeCommit'', commit)])])]"

lemma resolve_reads_the_graph:
  "resolve JNull None (\<lambda>o' n k g. (Return (ex_graph (JObj [(''oid'', JStr ''abc'')])), g + 1)) ''o'' ''n'' 7 (0::nat)
     = (Some ''abc'', 1)"
  "resolve JNull None (\<lambda>o' n k g. (Return (JObj [(''data'', ex_graph (JObj [(''oid'', JStr ''abc'')]))]), g + 1)) ''o'' ''n'' 7 (0::nat)
     = (Some ''abc'', 1)"
  "resolve JNull None (\<lambda>o' n k g. (Return (ex_graph JNull), g + 1)) ''o'' ''n'' 7 (0::nat) = (None, 1)"
  by (simp_all add: resolve_def from_merge_commit_def ex_graph_def dig_def OID_PATH_def jget_def text_of_def
      SHA_COLUMN_def cp_len_def cont_byte_def)

theorem merge_commit_is_usable_witness:
  "text_of (Some SHA_COLUMN) (JStr ''abc'') \<noteq> None \<and> JStr ''abc'' = JStr (the (Some ''abc''))
   \<and> ''abc'' \<noteq> [] \<and> cp_len ''abc'' \<le> SHA_COLUMN"
proof -
  have ok: "text_of (Some SHA_COLUMN) (JStr ''abc'') = Some ''abc''"
    by (simp add: text_of_def SHA_COLUMN_def cp_len_def cont_byte_def)
  then have r: "resolve (JStr ''abc'') None (\<lambda>o' n k g. (Raise [], g + 1)) ''o'' ''n'' 7 (0::nat) = (Some ''abc'', 0)"
    by (rule resolve_carried)
  have "\<forall>sha. Some ''abc'' = Some sha \<longrightarrow> sha \<noteq> [] \<and> cp_len sha \<le> SHA_COLUMN"
    by (rule merge_commit_is_usable(1) [OF r])
  moreover have "(0::nat) = 0 \<and> JStr ''abc'' = JStr (the (Some ''abc''))"
    by (rule merge_commit_is_usable(2) [OF r]) (simp add: ok)
  ultimately show ?thesis using ok by blast
qed

end
