(* ===== verification/Reconcile.thy ===== *)
theory Reconcile
  imports Job_Pipeline Payload
begin

text \<open>
  The healing sweeps of \<open>api/doug/worker.py\<close>: \<open>reconcile_installation\<close> and \<open>reconcile_all\<close> enqueue every
  open pull request that may be reviewed, \<open>reconcile_outcomes\<close> and \<open>reconcile_all_outcomes\<close> every merge of
  the last days whose delivery was lost; \<open>reconcile_worker.run\<close> is the entry point of the second. GitHub is
  an argument: the pages of the two listings, the raw pull request and the graph. A pull request of a
  listing is its typed number and timestamps (\<open>None\<close> where the client has no \<open>datetime\<close>) and, for what is
  read with \<open>getattr\<close>, its JSON. What is only printed is not modelled.
\<close>

record listed_pull =
  lp_number :: int
  lp_obj :: json
  lp_updated :: "datetime option"
  lp_merged :: "datetime option"

record 'g rest =
  re_open :: "string \<Rightarrow> string \<Rightarrow> nat \<Rightarrow> 'g \<Rightarrow> (string, listed_pull list) result \<times> 'g"
  re_closed :: "string \<Rightarrow> string \<Rightarrow> nat \<Rightarrow> 'g \<Rightarrow> (string, listed_pull list) result \<times> 'g"
  re_pull :: "string \<Rightarrow> string \<Rightarrow> int \<Rightarrow> 'g \<Rightarrow> (string, json) result \<times> 'g"
  re_graphql :: "'g graphql"

subsection \<open>The gate\<close>

definition skip_reason :: "json \<Rightarrow> string option" where
  "skip_reason p =
     (if field p ''draft'' \<noteq> JBool False then Some ''draft''
      else let head_id = as_int (field (field (field p ''head'') ''repo'') ''id'');
               base_id = as_int (field (field (field p ''base'') ''repo'') ''id'')
           in if head_id = None \<or> base_id = None \<or> head_id \<noteq> base_id then Some ''fork''
              else let user = field p ''user''
                   in if truthy user \<and> is_bot_author (field user ''type'') (field user ''login'') then Some ''bot''
                      else None)"

text \<open>
  One open pull request: how many jobs it enqueued. A raised \<open>enqueue\<close> leaves the queue as it was.
\<close>

definition reconcile_pull ::
    "int \<Rightarrow> int \<Rightarrow> string \<Rightarrow> string \<Rightarrow> instant \<Rightarrow> instant \<Rightarrow> listed_pull \<Rightarrow> review_db \<Rightarrow>
     (rq_error, nat \<times> review_db) result" where
  "reconcile_pull inst repo name trigger now now' p db =
     (if skip_reason (lp_obj p) \<noteq> None then Return (0, db)
      else (case field (field (lp_obj p) ''head'') ''sha'' of
        JStr head \<Rightarrow>
          (case text_of None (field (field (lp_obj p) ''base'') ''sha'') of
             None \<Rightarrow> Return (0, db)
           | Some base \<Rightarrow>
               if as_int (field (field (field (lp_obj p) ''base'') ''repo'') ''id'') \<noteq> Some repo then Return (0, db)
               else (case enqueue now now' inst repo name (lp_number p) head (Some base) trigger db of
                       Raise e \<Rightarrow> Raise e
                     | Return (Some i, db') \<Rightarrow> Return (1, db')
                     | Return (None, db') \<Rightarrow> Return (0, db')))
      | _ \<Rightarrow> Return (0, db)))"

fun reconcile_pulls ::
    "int \<Rightarrow> int \<Rightarrow> string \<Rightarrow> string \<Rightarrow> (nat \<Rightarrow> instant) \<Rightarrow> listed_pull list \<Rightarrow> review_db \<Rightarrow>
     (string, nat) result \<times> review_db" where
  "reconcile_pulls inst repo name trigger t [] db = (Return 0, db)"
| "reconcile_pulls inst repo name trigger t (p # ps) db =
     (case reconcile_pull inst repo name trigger (t 0) (t 1) p db of
        Raise e \<Rightarrow> (Raise (rq_text e), db)
      | Return (n, db') \<Rightarrow>
          (case reconcile_pulls inst repo name trigger (\<lambda>k. t (k + 2)) ps db' of
             (Raise e, db'') \<Rightarrow> (Raise e, db'')
           | (Return m, db'') \<Rightarrow> (Return (n + m), db'')))"

subsection \<open>The listing\<close>

definition MAX_OPEN_PRS_PER_REPO :: nat where "MAX_OPEN_PRS_PER_REPO = 1000"
definition MAX_CLOSED_PRS_PER_REPO :: nat where "MAX_CLOSED_PRS_PER_REPO = 300"

type_synonym 'g pages = "nat \<Rightarrow> 'g \<Rightarrow> (string, listed_pull list) result \<times> 'g"

text \<open>Page by page; every page but the last has at least a hundred entries, so the loop ends.\<close>

function open_pulls ::
    "'g pages \<Rightarrow> nat \<Rightarrow> listed_pull list \<Rightarrow> 'g \<Rightarrow> (string, listed_pull list) result \<times> 'g" where
  "open_pulls fetch page pulls g =
     (case fetch page g of
        (Raise e, g') \<Rightarrow> (Raise e, g')
      | (Return batch, g') \<Rightarrow>
          if length batch < 100 \<or> MAX_OPEN_PRS_PER_REPO \<le> length (pulls @ batch) then (Return (pulls @ batch), g')
          else open_pulls fetch (page + 1) (pulls @ batch) g')"
  by pat_completeness auto
termination
  by (relation "measure (\<lambda>(_, _, pulls, _). MAX_OPEN_PRS_PER_REPO - length pulls)") auto

declare open_pulls.simps [simp del]

text \<open>\<open>closed_pulls\<close> also says whether the listing was exhausted; the flag keeps its last value on an empty page.\<close>

function closed_pulls ::
    "instant \<Rightarrow> 'g pages \<Rightarrow> nat \<Rightarrow> listed_pull list \<Rightarrow> bool \<Rightarrow> 'g \<Rightarrow>
     (string, listed_pull list \<times> bool) result \<times> 'g" where
  "closed_pulls cutoff fetch page pulls exhausted g =
     (case fetch page g of
        (Raise e, g') \<Rightarrow> (Raise e, g')
      | (Return batch, g') \<Rightarrow>
          if batch = [] then (Return (pulls, exhausted), g')
          else let stale = (case lp_updated (last batch) of None \<Rightarrow> False | Some u \<Rightarrow> as_utc u < cutoff);
                   done_now = (stale \<or> length batch < 100)
               in if done_now \<or> MAX_CLOSED_PRS_PER_REPO \<le> length (pulls @ batch) then (Return (pulls @ batch, done_now), g')
                  else closed_pulls cutoff fetch (page + 1) (pulls @ batch) done_now g')"
  by pat_completeness auto
termination
  by (relation "measure (\<lambda>(_, _, _, pulls, _, _). MAX_CLOSED_PRS_PER_REPO - length pulls)") auto

declare closed_pulls.simps [simp del]

subsection \<open>Open pull requests\<close>

fun reconcile_repos ::
    "'g rest \<Rightarrow> int \<Rightarrow> string \<Rightarrow> (nat \<Rightarrow> nat \<Rightarrow> instant) \<Rightarrow> (int \<times> string) list \<Rightarrow> 'g pipeline \<Rightarrow>
     (string, nat) result \<times> 'g pipeline" where
  "reconcile_repos re inst trigger clock [] w = (Return 0, w)"
| "reconcile_repos re inst trigger clock ((repo, name) # rest) w =
     (case open_pulls (re_open re (until_slash name) (after_slash name)) 1 [] (pw_gh w) of
        (Raise e, g) \<Rightarrow> reconcile_repos re inst trigger (\<lambda>k. clock (k + 1)) rest (w\<lparr>pw_gh := g\<rparr>)
      | (Return pulls, g) \<Rightarrow>
          (case reconcile_pulls inst repo name trigger (clock 0) (take MAX_OPEN_PRS_PER_REPO pulls) (pw_queue w) of
             (Raise e, q) \<Rightarrow> (Raise e, w\<lparr>pw_gh := g, pw_queue := q\<rparr>)
           | (Return n, q) \<Rightarrow>
               (case reconcile_repos re inst trigger (\<lambda>k. clock (k + 1)) rest (w\<lparr>pw_gh := g, pw_queue := q\<rparr>) of
                  (Raise e, w') \<Rightarrow> (Raise e, w')
                | (Return m, w') \<Rightarrow> (Return (n + m), w'))))"

definition reconcile_installation ::
    "'g services \<Rightarrow> 'g rest \<Rightarrow> int \<Rightarrow> string \<Rightarrow> (nat \<Rightarrow> nat \<Rightarrow> instant) \<Rightarrow> 'g pipeline \<Rightarrow>
     (string, nat) result \<times> 'g pipeline" where
  "reconcile_installation sv re inst trigger clock w =
     (case sv_client sv inst of
        Some e \<Rightarrow> (Raise e, w)
      | None \<Rightarrow> reconcile_repos re inst trigger clock (active_repos inst (pw_ledger w)) w)"

fun reconcile_each ::
    "'g services \<Rightarrow> 'g rest \<Rightarrow> (nat \<Rightarrow> nat \<Rightarrow> nat \<Rightarrow> instant) \<Rightarrow> int list \<Rightarrow> 'g pipeline \<Rightarrow> nat \<times> 'g pipeline" where
  "reconcile_each sv re clock [] w = (0, w)"
| "reconcile_each sv re clock (i # rest) w =
     (case reconcile_installation sv re i ''reconcile'' (clock 0) w of
        (r, w') \<Rightarrow>
          (case reconcile_each sv re (\<lambda>k. clock (k + 1)) rest w' of
             (m, w'') \<Rightarrow> ((case r of Raise e \<Rightarrow> m | Return n \<Rightarrow> n + m), w'')))"

definition reconcile_all ::
    "'g services \<Rightarrow> 'g rest \<Rightarrow> instant \<Rightarrow> (nat \<Rightarrow> nat \<Rightarrow> nat \<Rightarrow> instant) \<Rightarrow> 'g pipeline \<Rightarrow> nat \<times> 'g pipeline" where
  "reconcile_all sv re now clock w =
     (let w1 = w\<lparr>pw_queue := snd (Review_Queue.reclaim_stalled Review_Queue.STALL_LEASE_SECONDS now (pw_queue w))\<rparr>
      in reconcile_each sv re clock (active_installations (pw_ledger w1)) w1)"

subsection \<open>Merges\<close>

definition MERGE_RECONCILE_LOOKBACK_DAYS :: int where "MERGE_RECONCILE_LOOKBACK_DAYS = 14"

text \<open>The default of \<open>enqueue_outcome_jobs\<close>.\<close>

definition WINDOW_DAYS :: "int list" where "WINDOW_DAYS = [14, 60]"

text \<open>The checks a listed pull request passes before anything is asked about it: when it merged and into what.\<close>

definition merge_candidate :: "instant \<Rightarrow> int \<Rightarrow> listed_pull \<Rightarrow> (datetime \<times> string) option" where
  "merge_candidate cutoff repo p =
     (if (case lp_updated p of None \<Rightarrow> False | Some u \<Rightarrow> as_utc u < cutoff) then None
      else (case lp_merged p of
        None \<Rightarrow> None
      | Some m \<Rightarrow>
          if as_utc m < cutoff then None
          else if as_int (field (field (field (lp_obj p) ''base'') ''repo'') ''id'') \<noteq> Some repo then None
          else map_option (Pair (aware m)) (text_of (Some BASE_REF) (field (field (lp_obj p) ''base'') ''ref''))))"

definition reconcile_merge ::
    "'g rest \<Rightarrow> instant \<Rightarrow> int \<Rightarrow> int \<Rightarrow> string \<Rightarrow> instant \<Rightarrow> listed_pull \<Rightarrow> ledger \<times> 'g \<Rightarrow> nat \<times> ledger \<times> 'g" where
  "reconcile_merge re cutoff inst repo name now p s =
     (case s of (lg, g) \<Rightarrow>
        (case merge_candidate cutoff repo p of
           None \<Rightarrow> (0, lg, g)
         | Some (merged_at, base_ref) \<Rightarrow>
             (case re_pull re (until_slash name) (after_slash name) (lp_number p) g of
                (Return (JObj d), g') \<Rightarrow>
                  (case resolve (jget d ''merge_commit_sha'') None (re_graphql re) (until_slash name) (after_slash name)
                          (lp_number p) g' of
                     (None, g'') \<Rightarrow> (0, lg, g'')
                   | (Some sha, g'') \<Rightarrow>
                       (case enqueue_outcome_jobs now inst repo (lp_number p) sha merged_at base_ref WINDOW_DAYS
                               (case field (field (lp_obj p) ''head'') ''sha'' of JStr h \<Rightarrow> Some h | _ \<Rightarrow> None) lg of
                          (ids, lg') \<Rightarrow> (length ids, lg', g'')))
              | (_, g') \<Rightarrow> (0, lg, g'))))"

fun reconcile_merges ::
    "'g rest \<Rightarrow> instant \<Rightarrow> int \<Rightarrow> int \<Rightarrow> string \<Rightarrow> (nat \<Rightarrow> instant) \<Rightarrow> listed_pull list \<Rightarrow> ledger \<times> 'g \<Rightarrow>
     nat \<times> ledger \<times> 'g" where
  "reconcile_merges re cutoff inst repo name t [] s = (0, s)"
| "reconcile_merges re cutoff inst repo name t (p # ps) s =
     (case reconcile_merge re cutoff inst repo name (t 0) p s of
        (n, s') \<Rightarrow> (case reconcile_merges re cutoff inst repo name (\<lambda>k. t (k + 1)) ps s' of (m, s'') \<Rightarrow> (n + m, s'')))"

definition capped_closed :: "listed_pull list \<Rightarrow> bool \<Rightarrow> listed_pull list" where
  "capped_closed pulls exhausted =
     (if MAX_CLOSED_PRS_PER_REPO < length pulls \<or> (length pulls = MAX_CLOSED_PRS_PER_REPO \<and> \<not> exhausted)
      then take MAX_CLOSED_PRS_PER_REPO pulls else pulls)"

fun reconcile_merge_repos ::
    "'g rest \<Rightarrow> instant \<Rightarrow> int \<Rightarrow> (nat \<Rightarrow> nat \<Rightarrow> instant) \<Rightarrow> (int \<times> string) list \<Rightarrow> ledger \<times> 'g \<Rightarrow> nat \<times> ledger \<times> 'g" where
  "reconcile_merge_repos re cutoff inst clock [] s = (0, s)"
| "reconcile_merge_repos re cutoff inst clock ((repo, name) # rest) s =
     (case closed_pulls cutoff (re_closed re (until_slash name) (after_slash name)) 1 [] True (snd s) of
        (Raise e, g) \<Rightarrow> reconcile_merge_repos re cutoff inst (\<lambda>k. clock (k + 1)) rest (fst s, g)
      | (Return (pulls, exhausted), g) \<Rightarrow>
          (case reconcile_merges re cutoff inst repo name (clock 0) (capped_closed pulls exhausted) (fst s, g) of
             (n, s') \<Rightarrow>
               (case reconcile_merge_repos re cutoff inst (\<lambda>k. clock (k + 1)) rest s' of (m, s'') \<Rightarrow> (n + m, s''))))"

definition reconcile_outcomes ::
    "'g services \<Rightarrow> 'g rest \<Rightarrow> int \<Rightarrow> instant \<Rightarrow> (nat \<Rightarrow> nat \<Rightarrow> instant) \<Rightarrow> 'g pipeline \<Rightarrow>
     (string, nat) result \<times> 'g pipeline" where
  "reconcile_outcomes sv re inst now clock w =
     (case sv_client sv inst of
        Some e \<Rightarrow> (Raise e, w)
      | None \<Rightarrow>
          (case reconcile_merge_repos re (now - days MERGE_RECONCILE_LOOKBACK_DAYS) inst clock
                  (active_repos inst (pw_ledger w)) (pw_ledger w, pw_gh w) of
             (n, lg, g) \<Rightarrow> (Return n, w\<lparr>pw_ledger := lg, pw_gh := g\<rparr>)))"

fun reconcile_each_outcomes ::
    "'g services \<Rightarrow> 'g rest \<Rightarrow> (nat \<Rightarrow> instant) \<Rightarrow> (nat \<Rightarrow> nat \<Rightarrow> nat \<Rightarrow> instant) \<Rightarrow> int list \<Rightarrow> 'g pipeline \<Rightarrow>
     nat \<times> 'g pipeline" where
  "reconcile_each_outcomes sv re start clock [] w = (0, w)"
| "reconcile_each_outcomes sv re start clock (i # rest) w =
     (case reconcile_outcomes sv re i (start 0) (clock 0) w of
        (r, w') \<Rightarrow>
          (case reconcile_each_outcomes sv re (\<lambda>k. start (k + 1)) (\<lambda>k. clock (k + 1)) rest w' of
             (m, w'') \<Rightarrow> ((case r of Raise e \<Rightarrow> m | Return n \<Rightarrow> n + m), w'')))"

definition reconcile_all_outcomes ::
    "'g services \<Rightarrow> 'g rest \<Rightarrow> (nat \<Rightarrow> instant) \<Rightarrow> (nat \<Rightarrow> nat \<Rightarrow> nat \<Rightarrow> instant) \<Rightarrow> 'g pipeline \<Rightarrow> nat \<times> 'g pipeline" where
  "reconcile_all_outcomes sv re start clock w =
     reconcile_each_outcomes sv re start clock (active_installations (pw_ledger w)) w"

text \<open>\<open>reconcile_worker.run\<close>: without the App's credentials or a ledger the Job fails loudly.\<close>

definition reconcile_run ::
    "bool \<Rightarrow> 'g services \<Rightarrow> 'g rest \<Rightarrow> (nat \<Rightarrow> instant) \<Rightarrow> (nat \<Rightarrow> nat \<Rightarrow> nat \<Rightarrow> instant) \<Rightarrow> 'g pipeline \<Rightarrow>
     (string, nat) result \<times> 'g pipeline" where
  "reconcile_run app_enabled sv re start clock w =
     (if \<not> app_enabled
      then (Raise ''DOUG_GITHUB_APP_ID and GITHUB_APP_PRIVATE_KEY must be configured before reconciling'', w)
      else if \<not> rg_configured (pw_ledger w) then (Raise ''DATABASE_URL must be configured before reconciling'', w)
      else (case reconcile_all_outcomes sv re start clock w of (n, w') \<Rightarrow> (Return n, w')))"
subsection \<open>How many pages a pass asks for\<close>

text \<open>\<open>asked\<close> counts the requests, whatever else the state of GitHub is.\<close>

lemma open_pulls_pages:
  assumes "\<forall>p g. asked (snd (fetch p g)) \<le> Suc (asked g)"
    and "1 \<le> m" and "MAX_OPEN_PRS_PER_REPO \<le> length pulls + 100 * m"
  shows "asked (snd (open_pulls fetch page pulls g)) \<le> asked g + m"
  using assms
proof (induction fetch page pulls g arbitrary: m rule: open_pulls.induct)
  case (1 fetch page pulls g)
  obtain x g1 where f: "fetch page g = (x, g1)" by fastforce
  have one: "asked g1 \<le> Suc (asked g)" using 1(2) f by (metis snd_conv)
  show ?case
  proof (cases "\<exists>batch. x = Return batch \<and> \<not> (length batch < 100 \<or> MAX_OPEN_PRS_PER_REPO \<le> length (pulls @ batch))")
    case True
    then obtain batch where b: "x = Return batch" "\<not> (length batch < 100 \<or> MAX_OPEN_PRS_PER_REPO \<le> length (pulls @ batch))"
      by blast
    have "1 \<le> m - 1" "MAX_OPEN_PRS_PER_REPO \<le> length (pulls @ batch) + 100 * (m - 1)"
      using b(2) 1(3,4) by auto
    from 1(1) [OF f [symmetric] b(1) b(2) 1(2) this] one 1(3) show ?thesis
      by (simp add: open_pulls.simps [of fetch page] f b(1) b(2) [simplified] split: if_splits)
  next
    case False
    then have "asked (snd (open_pulls fetch page pulls g)) = asked g1"
      by (auto simp: open_pulls.simps [of fetch page] f split: sum.splits)
    with one 1(3) show ?thesis by simp
  qed
qed

lemma closed_pulls_pages:
  assumes "\<forall>p g. asked (snd (fetch p g)) \<le> Suc (asked g)"
    and "1 \<le> m" and "MAX_CLOSED_PRS_PER_REPO \<le> length pulls + 100 * m"
  shows "asked (snd (closed_pulls cutoff fetch page pulls ex g)) \<le> asked g + m"
  using assms
proof (induction cutoff fetch page pulls ex g arbitrary: m rule: closed_pulls.induct)
  case (1 cutoff fetch page pulls ex g)
  obtain x g1 where f: "fetch page g = (x, g1)" by fastforce
  have one: "asked g1 \<le> Suc (asked g)" using 1(2) f by (metis snd_conv)
  let ?stale = "\<lambda>batch. case lp_updated (last batch) of None \<Rightarrow> False | Some u \<Rightarrow> as_utc u < cutoff"
  let ?on = "\<lambda>batch. batch \<noteq> [] \<and> \<not> ((?stale batch \<or> length batch < 100) \<or> MAX_CLOSED_PRS_PER_REPO \<le> length (pulls @ batch))"
  show ?case
  proof (cases "\<exists>batch. x = Return batch \<and> ?on batch")
    case True
    then obtain batch where b: "x = Return batch" "batch \<noteq> []"
      "\<not> ((?stale batch \<or> length batch < 100) \<or> MAX_CLOSED_PRS_PER_REPO \<le> length (pulls @ batch))" by blast
    have "1 \<le> m - 1" "MAX_CLOSED_PRS_PER_REPO \<le> length (pulls @ batch) + 100 * (m - 1)"
      using b(3) 1(3,4) by auto
    from 1(1) [OF f [symmetric] b(1,2) refl refl b(3) 1(2) this] one 1(3) show ?thesis
      using b(3) by (simp add: closed_pulls.simps [of cutoff fetch page] f b(1,2) Let_def)
  next
    case False
    then have "asked (snd (closed_pulls cutoff fetch page pulls ex g)) = asked g1"
      by (auto simp: closed_pulls.simps [of cutoff fetch page] f Let_def split: sum.splits)
    with one 1(3) show ?thesis by simp
  qed
qed

text \<open>
  C40. A pass cannot hang on one repository: whatever GitHub answers, the listing of open pull requests
  ends after at most ten requests and that of closed ones after at most three, and what is worked off
  is at most a thousand and three hundred pull requests.
\<close>
theorem listings_are_bounded:
  assumes "\<forall>p g. asked (snd (fetch p g)) \<le> Suc (asked g)"
  shows "asked (snd (open_pulls fetch 1 [] g)) \<le> asked g + 10
    \<and> asked (snd (closed_pulls cutoff fetch 1 [] True g)) \<le> asked g + 3
    \<and> length (capped_closed pulls exhausted) \<le> MAX_CLOSED_PRS_PER_REPO"
proof -
  have facts: "asked (snd (open_pulls fetch 1 [] g)) \<le> asked g + 10"
      "asked (snd (closed_pulls cutoff fetch 1 [] True g)) \<le> asked g + 3"
      "length (capped_closed pulls exhausted) \<le> MAX_CLOSED_PRS_PER_REPO"
  proof -
    show "asked (snd (open_pulls fetch 1 [] g)) \<le> asked g + 10"
      by (rule open_pulls_pages [OF assms]) (simp_all add: MAX_OPEN_PRS_PER_REPO_def)
    show "asked (snd (closed_pulls cutoff fetch 1 [] True g)) \<le> asked g + 3"
      by (rule closed_pulls_pages [OF assms]) (simp_all add: MAX_CLOSED_PRS_PER_REPO_def)
    show "length (capped_closed pulls exhausted) \<le> MAX_CLOSED_PRS_PER_REPO"
      by (auto simp: capped_closed_def)
  qed
  show ?thesis by (rule conjI [OF facts(1) conjI [OF facts(2) facts(3)]])
qed

theorem listings_are_bounded_witness:
  "snd (open_pulls (\<lambda>p g. (Return [], g + 1)) 1 [] (0::nat)) \<le> 0 + 10
   \<and> snd (closed_pulls 0 (\<lambda>p g. (Return [], g + 1)) 1 [] True (0::nat)) \<le> 0 + 3"
proof
  show "snd (open_pulls (\<lambda>p g. (Return [], g + 1)) 1 [] (0::nat)) \<le> 0 + 10"
    using listings_are_bounded [of id "\<lambda>p g. (Return [], g + 1)" 0, THEN conjunct1] by simp
  show "snd (closed_pulls 0 (\<lambda>p g. (Return [], g + 1)) 1 [] True (0::nat)) \<le> 0 + 3"
    using listings_are_bounded [of id "\<lambda>p g. (Return [], g + 1)" 0 0, THEN conjunct2, THEN conjunct1] by simp
qed

subsection \<open>What one pull request does to the queue\<close>

text \<open>
  A head is attended to when a row of it is pending, running, done, or failed so lately that its
  cooloff was not over at the instant \<open>T\<close>.
\<close>

definition attended :: "instant \<Rightarrow> review_db \<Rightarrow> int \<times> int \<times> int \<times> string \<Rightarrow> bool" where
  "attended T q k \<longleftrightarrow> (\<exists>j \<in> set (rq_jobs q). rj_key j = k \<and>
     (rj_status j \<in> {Pending, Running, Done} \<or>
      rj_status j = Failed \<and> (\<exists>f. rj_finished_at j = Some f \<and> T - seconds FAILED_REVIVE_COOLOFF_SECONDS \<le> f)))"

text \<open>Outside the rows \<open>P\<close> nothing moves, and only heads of \<open>K\<close> become pending.\<close>

definition confined :: "(review_job \<Rightarrow> bool) \<Rightarrow> (int \<times> int \<times> int \<times> string) set \<Rightarrow> review_db \<Rightarrow> review_db \<Rightarrow> bool" where
  "confined P K q q' \<longleftrightarrow> rq_wf q' \<and> rq_configured q'
     \<and> (\<forall>j. \<not> P j \<longrightarrow> j \<in> set (rq_jobs q') \<longleftrightarrow> j \<in> set (rq_jobs q))
     \<and> (\<forall>j \<in> set (rq_jobs q'). rj_status j = Pending \<longrightarrow> j \<in> set (rq_jobs q) \<or> rj_key j \<in> K)"

lemma confined_refl: "rq_wf q \<Longrightarrow> rq_configured q \<Longrightarrow> confined P K q q"
  by (simp add: confined_def)

lemma confined_trans: "confined P K q q' \<Longrightarrow> confined P K q' q'' \<Longrightarrow> confined P K q q''"
  unfolding confined_def by blast

lemma confined_mono: "confined P K q q' \<Longrightarrow> (\<And>j. P j \<Longrightarrow> P' j) \<Longrightarrow> K \<subseteq> K' \<Longrightarrow> confined P' K' q q'"
  unfolding confined_def by blast

lemma confined_ok: "confined P K q q' \<Longrightarrow> rq_wf q' \<and> rq_configured q'"
  by (simp add: confined_def)

lemma attended_kept:
  assumes "attended T q k" and "confined P K q q'" and "\<And>j. rj_key j = k \<Longrightarrow> \<not> P j"
  shows "attended T q' k"
  using assms unfolding attended_def confined_def by metis

lemma insert_confined:
  assumes "rq_wf db" and "rq_configured db" and "enqueue_insert now inst repo name pr head base db = Some (i, db')"
  shows "confined (job_filter inst repo pr) {(inst, repo, pr, head)} db db'"
  unfolding confined_def insert_shape(1,3) [OF assms(3)]
  using insert_wf [OF assms(1,3)] assms(2)
  by (auto simp: job_filter_def new_job_def rj_key_def)

lemma revive_confined:
  assumes wf: "rq_wf db" and "rq_configured db" and j: "j \<in> set (rq_jobs db)" "rj_key j = (inst, repo, pr, head)"
  shows "confined (job_filter inst repo pr) {(inst, repo, pr, head)} db (snd (revive now inst repo pr head base trigger db))"
  using revive_wf [OF wf, of now inst repo pr head base trigger] assms(2,3,4)
  unfolding confined_def revive_cases [OF wf j]
  by (auto simp: revived_def rj_key_def job_filter_def)

lemma revive_attends:
  assumes wf: "rq_wf db" and j: "j \<in> set (rq_jobs db)" "rj_key j = (inst, repo, pr, head)" and "T \<le> now"
  shows "attended T (snd (revive now inst repo pr head base trigger db)) (inst, repo, pr, head)"
proof (cases "revivable now trigger j")
  case True
  then show ?thesis using j
    unfolding attended_def revive_cases [OF wf j]
    by (auto simp: revived_def rj_key_def intro!: bexI [of _ j])
next
  case False
  have "row_ok j" using wf j(1) by (auto simp: rq_wf_def)
  with False \<open>T \<le> now\<close> have "rj_status j \<in> {Pending, Running, Done} \<or>
      rj_status j = Failed \<and> (\<exists>f. rj_finished_at j = Some f \<and> T - seconds FAILED_REVIVE_COOLOFF_SECONDS \<le> f)"
    by (cases "rj_status j") (auto simp: revivable_def row_ok_def)
  with False j show ?thesis unfolding attended_def revive_cases [OF wf j] by auto
qed

lemma insert_attends:
  assumes "enqueue_insert now inst repo name pr head base db = Some (i, db')"
  shows "attended T db' (inst, repo, pr, head)"
  unfolding attended_def insert_shape(1) [OF assms] by (auto simp: new_job_def rj_key_def)

lemma enqueue_step:
  assumes wf: "rq_wf db" "rq_configured db" and base: "base \<noteq> []"
  obtains r db' where "enqueue now now' inst repo name pr head (Some base) trigger db = Return (r, db')"
    and "confined (job_filter inst repo pr) {(inst, repo, pr, head)} db db'"
    and "T \<le> now' \<Longrightarrow> attended T db' (inst, repo, pr, head)"
proof (cases "enqueue_insert now inst repo name pr head base db")
  case None
  then obtain j where j: "j \<in> set (rq_jobs db)" "rj_key j = (inst, repo, pr, head)" by (rule enqueue_collision)
  obtain r db' where rv: "revive now' inst repo pr head base trigger db = (r, db')" by fastforce
  show ?thesis
    by (rule that [of r db']) (use None wf base rv revive_confined [OF wf j, of now' base trigger]
      revive_attends [OF wf(1) j, of T now' base trigger] in \<open>simp_all add: enqueue_def\<close>)
next
  case (Some res)
  obtain i db' where res: "res = (i, db')" by fastforce
  show ?thesis
    by (rule that [of "Some i" db']) (use Some res wf base insert_confined [OF wf, of now inst repo name pr head base i db']
      insert_attends in \<open>auto simp: enqueue_def\<close>)
qed

text \<open>What the sweep makes of a listed pull request: the head and base it would enqueue.\<close>

definition wanted :: "int \<Rightarrow> listed_pull \<Rightarrow> (string \<times> string) option" where
  "wanted repo p =
     (if skip_reason (lp_obj p) \<noteq> None \<or> as_int (field (field (field (lp_obj p) ''base'') ''repo'') ''id'') \<noteq> Some repo
      then None
      else case (field (field (lp_obj p) ''head'') ''sha'', text_of None (field (field (lp_obj p) ''base'') ''sha'')) of
             (JStr head, Some base) \<Rightarrow> Some (head, base) | _ \<Rightarrow> None)"

lemma wanted_base: "wanted repo p = Some (head, base) \<Longrightarrow> base \<noteq> []"
  by (auto simp: wanted_def text_of_Some split: if_splits json.splits option.splits)

lemma reconcile_pull_wanted:
  "reconcile_pull inst repo name trigger now now' p db =
     (case wanted repo p of
        None \<Rightarrow> Return (0, db)
      | Some (head, base) \<Rightarrow>
          (case enqueue now now' inst repo name (lp_number p) head (Some base) trigger db of
             Raise e \<Rightarrow> Raise e | Return (r, db') \<Rightarrow> Return (if r = None then 0 else 1, db')))"
  by (auto simp: reconcile_pull_def wanted_def split: json.splits option.splits sum.splits)

definition head_keys :: "int \<Rightarrow> int \<Rightarrow> listed_pull list \<Rightarrow> (int \<times> int \<times> int \<times> string) set" where
  "head_keys inst repo ps =
     {(inst, repo, lp_number p, head) |p head base. p \<in> set ps \<and> wanted repo p = Some (head, base)}"

lemma reconcile_pull_step:
  assumes "rq_wf db" "rq_configured db"
  obtains n db' where "reconcile_pull inst repo name trigger now now' p db = Return (n, db')"
    and "confined (job_filter inst repo (lp_number p)) (head_keys inst repo [p]) db db'"
    and "\<And>head base. T \<le> now' \<Longrightarrow> wanted repo p = Some (head, base) \<Longrightarrow> attended T db' (inst, repo, lp_number p, head)"
proof (cases "wanted repo p")
  case None
  then show ?thesis using assms that [of 0 db] by (simp add: reconcile_pull_wanted confined_refl)
next
  case (Some hb)
  then obtain head base where w: "wanted repo p = Some (head, base)" by (cases hb) auto
  then have "base \<noteq> []" by (rule wanted_base)
  from enqueue_step [OF assms this, of now now' inst repo name "lp_number p" head trigger T]
  obtain r db' where e: "enqueue now now' inst repo name (lp_number p) head (Some base) trigger db = Return (r, db')"
    and c: "confined (job_filter inst repo (lp_number p)) {(inst, repo, lp_number p, head)} db db'"
    and a: "T \<le> now' \<Longrightarrow> attended T db' (inst, repo, lp_number p, head)" by blast
  have "{(inst, repo, lp_number p, head)} \<subseteq> head_keys inst repo [p]" using w by (auto simp: head_keys_def)
  from confined_mono [OF c _ this] have "confined (job_filter inst repo (lp_number p)) (head_keys inst repo [p]) db db'" .
  with w e a show ?thesis by (intro that [of "if r = None then 0 else 1" db']) (simp_all add: reconcile_pull_wanted)
qed

subsection \<open>What a pass does\<close>

definition among :: "int \<Rightarrow> int \<Rightarrow> int set \<Rightarrow> review_job \<Rightarrow> bool" where
  "among inst repo numbers j \<longleftrightarrow> rj_installation j = inst \<and> rj_repo j = repo \<and> rj_pr j \<in> numbers"

lemma among_filter: "job_filter inst repo pr j \<longleftrightarrow> among inst repo {pr} j"
  by (auto simp: job_filter_def among_def)

lemma among_mono: "among inst repo A j \<Longrightarrow> A \<subseteq> B \<Longrightarrow> among inst repo B j"
  by (auto simp: among_def)

lemma head_keys_mono: "set ps \<subseteq> set qs \<Longrightarrow> head_keys inst repo ps \<subseteq> head_keys inst repo qs"
  by (auto simp: head_keys_def)

lemma reconcile_pulls_step:
  assumes "rq_wf db" "rq_configured db"
  shows "\<exists>n db'. reconcile_pulls inst repo name trigger t ps db = (Return n, db')
    \<and> confined (among inst repo (lp_number ` set ps)) (head_keys inst repo ps) db db'
    \<and> (\<forall>p \<in> set ps. \<forall>head base. distinct (map lp_number ps) \<longrightarrow> (\<forall>k. T \<le> t k) \<longrightarrow> wanted repo p = Some (head, base) \<longrightarrow>
         attended T db' (inst, repo, lp_number p, head))"
  using assms
proof (induction ps arbitrary: t db)
  case Nil
  then show ?case by (auto intro: confined_refl)
next
  case (Cons p ps)
  obtain n db1 where one: "reconcile_pull inst repo name trigger (t 0) (t 1) p db = Return (n, db1)"
    and c1: "confined (job_filter inst repo (lp_number p)) (head_keys inst repo [p]) db db1"
    and a1: "\<And>head base. T \<le> t 1 \<Longrightarrow> wanted repo p = Some (head, base) \<Longrightarrow> attended T db1 (inst, repo, lp_number p, head)"
    by (rule reconcile_pull_step [OF Cons.prems]) blast
  obtain m db2 where rest: "reconcile_pulls inst repo name trigger (\<lambda>k. t (k + 2)) ps db1 = (Return m, db2)"
    and c2: "confined (among inst repo (lp_number ` set ps)) (head_keys inst repo ps) db1 db2"
    and a2: "\<forall>p \<in> set ps. \<forall>head base. distinct (map lp_number ps) \<longrightarrow> (\<forall>k. T \<le> t (k + 2)) \<longrightarrow>
        wanted repo p = Some (head, base) \<longrightarrow> attended T db2 (inst, repo, lp_number p, head)"
    using Cons.IH [of db1 "\<lambda>k. t (k + 2)"] confined_ok [OF c1] by blast
  let ?P = "among inst repo (lp_number ` set (p # ps))"
  let ?K = "head_keys inst repo (p # ps)"
  have "confined ?P ?K db db1"
    by (rule confined_mono [OF c1]) (auto simp: among_filter intro: among_mono head_keys_mono [THEN subsetD, rotated])
  moreover have "confined ?P ?K db1 db2"
    by (rule confined_mono [OF c2]) (auto intro: among_mono head_keys_mono [THEN subsetD, rotated])
  ultimately have c: "confined ?P ?K db db2" by (rule confined_trans)
  have a: "attended T db2 (inst, repo, lp_number q, head)"
    if "q \<in> set (p # ps)" "distinct (map lp_number (p # ps))" "\<forall>k. T \<le> t k" "wanted repo q = Some (head, base)" for q head base
  proof (cases "q = p")
    case True
    have "attended T db1 (inst, repo, lp_number p, head)" using a1 that True by blast
    from attended_kept [OF this c2] True that(2) show ?thesis by (auto simp: among_def rj_key_def)
  next
    case False
    then show ?thesis using a2 that by auto
  qed
  show ?case using one rest c a by auto
qed

text \<open>The heads a pass may enqueue for one repository: those of pull requests some page listed.\<close>

definition listed_keys :: "'g rest \<Rightarrow> int \<Rightarrow> int \<times> string \<Rightarrow> (int \<times> int \<times> int \<times> string) set" where
  "listed_keys re inst rn =
     {(inst, fst rn, lp_number p, head) |p head base page g batch g'.
        re_open re (until_slash (snd rn)) (after_slash (snd rn)) page g = (Return batch, g') \<and> p \<in> set batch
        \<and> wanted (fst rn) p = Some (head, base)}"

lemma open_pulls_listed:
  assumes "open_pulls fetch page pulls g = (Return all, g')" and "p \<in> set all"
  shows "p \<in> set pulls \<or> (\<exists>page g batch g'. fetch page g = (Return batch, g') \<and> p \<in> set batch)"
  using assms
proof (induction fetch page pulls g arbitrary: all rule: open_pulls.induct)
  case (1 fetch page pulls g)
  obtain x g1 where f: "fetch page g = (x, g1)" by fastforce
  show ?case
  proof (cases x)
    case (Inl e)
    then show ?thesis using 1(2) by (simp add: open_pulls.simps [of fetch page] f)
  next
    case (Inr batch)
    show ?thesis
    proof (cases "length batch < 100 \<or> MAX_OPEN_PRS_PER_REPO \<le> length (pulls @ batch)")
      case True
      then have "all = pulls @ batch" using 1(2) Inr by (auto simp: open_pulls.simps [of fetch page] f)
      then show ?thesis using 1(3) f Inr by auto
    next
      case False
      then have "open_pulls fetch (page + 1) (pulls @ batch) g1 = (Return all, g')"
        using 1(2) Inr by (simp add: open_pulls.simps [of fetch page] f)
      from 1(1) [OF f [symmetric] Inr False this 1(3)] f Inr show ?thesis by auto
    qed
  qed
qed

lemma head_keys_listed:
  assumes "open_pulls (re_open re (until_slash name) (after_slash name)) page [] g = (Return pulls, g')"
  shows "head_keys inst repo (take n pulls) \<subseteq> listed_keys re inst (repo, name)"
proof
  fix k assume "k \<in> head_keys inst repo (take n pulls)"
  then obtain p head base where p: "p \<in> set (take n pulls)" "wanted repo p = Some (head, base)"
    "k = (inst, repo, lp_number p, head)" by (auto simp: head_keys_def)
  from open_pulls_listed [OF assms in_set_takeD [OF p(1)]] p(2,3)
  show "k \<in> listed_keys re inst (repo, name)" by (fastforce simp: listed_keys_def)
qed

abbreviation repos_rows :: "int \<Rightarrow> (int \<times> string) list \<Rightarrow> review_job \<Rightarrow> bool" where
  "repos_rows inst repos j \<equiv> rj_installation j = inst \<and> rj_repo j \<in> fst ` set repos"

abbreviation repos_keys :: "'g rest \<Rightarrow> int \<Rightarrow> (int \<times> string) list \<Rightarrow> (int \<times> int \<times> int \<times> string) set" where
  "repos_keys re inst repos \<equiv> \<Union>rn \<in> set repos. listed_keys re inst rn"

lemma reconcile_repos_step:
  assumes "rq_wf (pw_queue w)" and "rq_configured (pw_queue w)"
  shows "\<exists>n q g. reconcile_repos re inst trigger clock repos w = (Return n, w\<lparr>pw_queue := q, pw_gh := g\<rparr>)
    \<and> confined (repos_rows inst repos) (repos_keys re inst repos) (pw_queue w) q"
  using assms
proof (induction repos arbitrary: clock w)
  case Nil
  then show ?case
    by (intro exI [of _ 0] exI [of _ "pw_queue w"] exI [of _ "pw_gh w"]) (simp add: confined_refl)
next
  case (Cons rn repos)
  obtain repo name where rn: "rn = (repo, name)" by fastforce
  obtain x g where l: "open_pulls (re_open re (until_slash name) (after_slash name)) (Suc 0) [] (pw_gh w) = (x, g)" by fastforce
  let ?P = "repos_rows inst (rn # repos)" and ?K = "repos_keys re inst (rn # repos)"
  have wide: "confined (repos_rows inst repos) (repos_keys re inst repos) q q' \<Longrightarrow> confined ?P ?K q q'" for q q'
    by (erule confined_mono) auto
  show ?case
  proof (cases x)
    case (Inl e)
    from Cons.IH [of "w\<lparr>pw_gh := g\<rparr>" "\<lambda>k. clock (k + 1)"] Cons.prems
    obtain n q g' where "reconcile_repos re inst trigger (\<lambda>k. clock (k + 1)) repos (w\<lparr>pw_gh := g\<rparr>)
        = (Return n, w\<lparr>pw_queue := q, pw_gh := g'\<rparr>)" and c: "confined (repos_rows inst repos) (repos_keys re inst repos) (pw_queue w) q"
      by auto
    then show ?thesis using wide [OF c] by (auto simp: rn l Inl)
  next
    case (Inr pulls)
    let ?ps = "take MAX_OPEN_PRS_PER_REPO pulls"
    obtain n q where one: "reconcile_pulls inst repo name trigger (clock 0) ?ps (pw_queue w) = (Return n, q)"
      and c: "confined (among inst repo (lp_number ` set ?ps)) (head_keys inst repo ?ps) (pw_queue w) q"
      using reconcile_pulls_step [OF Cons.prems] by blast
    from head_keys_listed [OF l [unfolded Inr]] have c1: "confined ?P ?K (pw_queue w) q"
      by (intro confined_mono [OF c]) (auto simp: rn among_def)
    from Cons.IH [of "w\<lparr>pw_gh := g, pw_queue := q\<rparr>" "\<lambda>k. clock (k + 1)"] confined_ok [OF c]
    obtain m q' g' where rest: "reconcile_repos re inst trigger (\<lambda>k. clock (k + 1)) repos (w\<lparr>pw_gh := g, pw_queue := q\<rparr>)
        = (Return m, w\<lparr>pw_queue := q', pw_gh := g'\<rparr>)" and c2: "confined (repos_rows inst repos) (repos_keys re inst repos) q q'"
      by auto
    have "confined ?P ?K (pw_queue w) q'" by (rule confined_trans [OF c1 wide [OF c2]])
    then show ?thesis using one rest by (auto simp: rn l Inr)
  qed
qed

lemma reconcile_repos_attended:
  assumes "rq_wf (pw_queue w)" and "rq_configured (pw_queue w)" and "(repo, name) \<in> set repos" and "distinct (map fst repos)"
    and listing: "\<forall>g. fst (open_pulls (re_open re (until_slash name) (after_slash name)) 1 [] g) = Return pulls"
    and p: "p \<in> set (take MAX_OPEN_PRS_PER_REPO pulls)" "distinct (map lp_number (take MAX_OPEN_PRS_PER_REPO pulls))"
    and want: "wanted repo p = Some (head, base)" and time: "\<forall>a b. T \<le> clock a b"
  shows "attended T (pw_queue (snd (reconcile_repos re inst trigger clock repos w))) (inst, repo, lp_number p, head)"
  using assms(1-4) time
proof (induction repos arbitrary: clock w)
  case Nil
  then show ?case by simp
next
  case (Cons rn repos)
  obtain repo' name' where rn: "rn = (repo', name')" by fastforce
  obtain x g where l: "open_pulls (re_open re (until_slash name') (after_slash name')) (Suc 0) [] (pw_gh w) = (x, g)" by fastforce
  let ?ps = "\<lambda>pulls. take MAX_OPEN_PRS_PER_REPO pulls"
  show ?case
  proof (cases "(repo, name) = rn")
    case here: True
    then have x: "x = Return pulls" using listing l rn by (metis One_nat_def fst_conv prod.inject)
    obtain n q where one: "reconcile_pulls inst repo name trigger (clock 0) (?ps pulls) (pw_queue w) = (Return n, q)"
      and c: "confined (among inst repo (lp_number ` set (?ps pulls))) (head_keys inst repo (?ps pulls)) (pw_queue w) q"
      and a: "attended T q (inst, repo, lp_number p, head)"
      using reconcile_pulls_step [OF Cons.prems(1,2), of inst repo name trigger "clock 0" "?ps pulls" T] p want Cons.prems(5) by blast
    from reconcile_repos_step [of "w\<lparr>pw_gh := g, pw_queue := q\<rparr>" re inst trigger "\<lambda>k. clock (k + 1)" repos] confined_ok [OF c]
    obtain m q' g' where rest: "reconcile_repos re inst trigger (\<lambda>k. clock (k + 1)) repos (w\<lparr>pw_gh := g, pw_queue := q\<rparr>)
        = (Return m, w\<lparr>pw_queue := q', pw_gh := g'\<rparr>)" and c2: "confined (repos_rows inst repos) (repos_keys re inst repos) q q'"
      by auto
    have "repo \<notin> fst ` set repos" using here Cons.prems(4) rn by auto
    then have "attended T q' (inst, repo, lp_number p, head)"
      by (intro attended_kept [OF a c2]) (auto simp: rj_key_def)
    then show ?thesis using here one rest by (simp add: rn l x)
  next
    case False
    then have tail: "(repo, name) \<in> set repos" "distinct (map fst repos)" using Cons.prems(3,4) by auto
    have time': "\<forall>a b. T \<le> clock (a + 1) b" using Cons.prems(5) by blast
    show ?thesis
    proof (cases x)
      case (Inl e)
      with Cons.IH [of "w\<lparr>pw_gh := g\<rparr>" "\<lambda>k. clock (k + 1)"] Cons.prems(1,2) tail time'
      show ?thesis by (simp add: rn l Inl)
    next
      case (Inr all)
      obtain n q where one: "reconcile_pulls inst repo' name' trigger (clock 0) (?ps all) (pw_queue w) = (Return n, q)"
        and c: "confined (among inst repo' (lp_number ` set (?ps all))) (head_keys inst repo' (?ps all)) (pw_queue w) q"
        using reconcile_pulls_step [OF Cons.prems(1,2)] by blast
      from Cons.IH [of "w\<lparr>pw_gh := g, pw_queue := q\<rparr>" "\<lambda>k. clock (k + 1)"] confined_ok [OF c] tail time'
      have "attended T (pw_queue (snd (reconcile_repos re inst trigger (\<lambda>k. clock (k + 1)) repos (w\<lparr>pw_gh := g, pw_queue := q\<rparr>))))
          (inst, repo, lp_number p, head)" by simp
      then show ?thesis using one by (auto simp: rn l Inr split: prod.splits sum.splits)
    qed
  qed
qed

text \<open>The heads all repositories of an installation may contribute.\<close>

abbreviation installation_keys :: "'g rest \<Rightarrow> 'a registry_scheme \<Rightarrow> int \<Rightarrow> (int \<times> int \<times> int \<times> string) set" where
  "installation_keys re lg inst \<equiv> repos_keys re inst (active_repos inst lg)"

lemma reconcile_installation_step:
  assumes "rq_wf (pw_queue w)" and "rq_configured (pw_queue w)"
  shows "\<exists>r q g. reconcile_installation sv re inst trigger clock w = (r, w\<lparr>pw_queue := q, pw_gh := g\<rparr>)
    \<and> confined (\<lambda>j. rj_installation j = inst) (installation_keys re (pw_ledger w) inst) (pw_queue w) q"
proof (cases "sv_client sv inst")
  case None
  from reconcile_repos_step [OF assms, of re inst trigger clock "active_repos inst (pw_ledger w)"]
  obtain n q g where r: "reconcile_repos re inst trigger clock (active_repos inst (pw_ledger w)) w = (Return n, w\<lparr>pw_queue := q, pw_gh := g\<rparr>)"
    and c: "confined (repos_rows inst (active_repos inst (pw_ledger w))) (installation_keys re (pw_ledger w) inst) (pw_queue w) q"
    by blast
  have "confined (\<lambda>j. rj_installation j = inst) (installation_keys re (pw_ledger w) inst) (pw_queue w) q"
    by (rule confined_mono [OF c]) auto
  with r None show ?thesis by (auto simp: reconcile_installation_def)
next
  case (Some e)
  then show ?thesis using assms
    by (intro exI [of _ "Raise e"] exI [of _ "pw_queue w"] exI [of _ "pw_gh w"])
       (simp add: reconcile_installation_def confined_refl)
qed

lemma reconcile_each_step:
  assumes "rq_wf (pw_queue w)" and "rq_configured (pw_queue w)"
  shows "\<exists>n q g. reconcile_each sv re clock insts w = (n, w\<lparr>pw_queue := q, pw_gh := g\<rparr>)
    \<and> confined (\<lambda>j. rj_installation j \<in> set insts) (\<Union>i \<in> set insts. installation_keys re (pw_ledger w) i) (pw_queue w) q"
  using assms
proof (induction insts arbitrary: clock w)
  case Nil
  then show ?case
    by (intro exI [of _ 0] exI [of _ "pw_queue w"] exI [of _ "pw_gh w"]) (simp add: confined_refl)
next
  case (Cons i insts)
  let ?P = "\<lambda>j. rj_installation j \<in> set (i # insts)" and ?K = "\<Union>i \<in> set (i # insts). installation_keys re (pw_ledger w) i"
  obtain r q g where one: "reconcile_installation sv re i ''reconcile'' (clock 0) w = (r, w\<lparr>pw_queue := q, pw_gh := g\<rparr>)"
    and c: "confined (\<lambda>j. rj_installation j = i) (installation_keys re (pw_ledger w) i) (pw_queue w) q"
    using reconcile_installation_step [OF Cons.prems] by blast
  from Cons.IH [of "w\<lparr>pw_queue := q, pw_gh := g\<rparr>" "\<lambda>k. clock (k + 1)"] confined_ok [OF c]
  obtain n q' g' where rest: "reconcile_each sv re (\<lambda>k. clock (k + 1)) insts (w\<lparr>pw_queue := q, pw_gh := g\<rparr>)
      = (n, w\<lparr>pw_queue := q', pw_gh := g'\<rparr>)"
    and c': "confined (\<lambda>j. rj_installation j \<in> set insts) (\<Union>i \<in> set insts. installation_keys re (pw_ledger w) i) q q'" by auto
  have "confined ?P ?K (pw_queue w) q'"
  proof (rule confined_trans)
    show "confined ?P ?K (pw_queue w) q" by (rule confined_mono [OF c]) auto
    show "confined ?P ?K q q'" by (rule confined_mono [OF c']) auto
  qed
  with one rest show ?case by auto
qed

lemma reconcile_each_attended:
  assumes "rq_wf (pw_queue w)" and "rq_configured (pw_queue w)" and "inst \<in> set insts" and "distinct insts"
    and "sv_client sv inst = None" and "(repo, name) \<in> set (active_repos inst (pw_ledger w))"
    and "distinct (map fst (active_repos inst (pw_ledger w)))"
    and listing: "\<forall>g. fst (open_pulls (re_open re (until_slash name) (after_slash name)) 1 [] g) = Return pulls"
    and p: "p \<in> set (take MAX_OPEN_PRS_PER_REPO pulls)" "distinct (map lp_number (take MAX_OPEN_PRS_PER_REPO pulls))"
    and want: "wanted repo p = Some (head, base)" and time: "\<forall>a b c. T \<le> clock a b c"
  shows "attended T (pw_queue (snd (reconcile_each sv re clock insts w))) (inst, repo, lp_number p, head)"
  using assms(1-7) time
proof (induction insts arbitrary: clock w)
  case Nil
  then show ?case by simp
next
  case (Cons i insts)
  obtain r q g where one: "reconcile_installation sv re i ''reconcile'' (clock 0) w = (r, w\<lparr>pw_queue := q, pw_gh := g\<rparr>)"
    and c: "confined (\<lambda>j. rj_installation j = i) (installation_keys re (pw_ledger w) i) (pw_queue w) q"
    using reconcile_installation_step [OF Cons.prems(1,2)] by blast
  let ?w = "w\<lparr>pw_queue := q, pw_gh := g\<rparr>"
  have q: "rq_wf (pw_queue ?w)" "rq_configured (pw_queue ?w)" using confined_ok [OF c] by auto
  from reconcile_each_step [OF this, of sv re "\<lambda>k. clock (k + 1)" insts]
  obtain n q' g' where rest: "reconcile_each sv re (\<lambda>k. clock (k + 1)) insts ?w = (n, ?w\<lparr>pw_queue := q', pw_gh := g'\<rparr>)"
    and c': "confined (\<lambda>j. rj_installation j \<in> set insts) (\<Union>i \<in> set insts. installation_keys re (pw_ledger w) i) q q'" by auto
  have "attended T q' (inst, repo, lp_number p, head)"
  proof (cases "i = inst")
    case True
    have "attended T q (inst, repo, lp_number p, head)"
      using reconcile_repos_attended [OF Cons.prems(1,2,6,7) listing p want, of T "clock 0" inst "''reconcile''"] Cons.prems(5,8) one True
      by (simp add: reconcile_installation_def)
    then show ?thesis using True Cons.prems(4) by (intro attended_kept [OF _ c']) (auto simp: rj_key_def)
  next
    case False
    then show ?thesis
      using Cons.IH [OF q, of "\<lambda>k. clock (k + 1)"] Cons.prems(3-8) rest by auto
  qed
  with one rest show ?case by simp
qed

lemma active_distinct:
  assumes "registry_wf lg"
  shows "distinct (active_installations lg)" and "distinct (map fst (active_repos inst lg))"
proof -
  show "distinct (active_installations lg)"
    using assms by (simp add: active_installations_def registry_wf_def distinct_map_filter)
  have "inj_on (\<lambda>r. (ip_installation r, ip_repo r)) (set (rg_repos lg))" "distinct (rg_repos lg)"
    using assms by (auto simp: registry_wf_def distinct_map)
  then show "distinct (map fst (active_repos inst lg))"
    by (auto simp: active_repos_def comp_def distinct_map intro!: inj_onI dest: inj_onD)
qed

lemma reconcile_all_each:
  assumes "rq_wf (pw_queue w)" and "rq_configured (pw_queue w)"
  obtains q where "reconcile_all sv re now clock w = reconcile_each sv re clock (active_installations (pw_ledger w)) (w\<lparr>pw_queue := q\<rparr>)"
    and "rq_wf q" and "rq_configured q"
    and "\<And>j. j \<in> set (rq_jobs q) \<Longrightarrow> \<exists>k \<in> set (rq_jobs (pw_queue w)). rj_key k = rj_key j \<and>
           (rj_status j = Pending \<longrightarrow> rj_status k \<in> {Pending, Running})"
proof (rule that)
  let ?q = "snd (Review_Queue.reclaim_stalled Review_Queue.STALL_LEASE_SECONDS now (pw_queue w))"
  show "reconcile_all sv re now clock w = reconcile_each sv re clock (active_installations (pw_ledger w)) (w\<lparr>pw_queue := ?q\<rparr>)"
    by (simp add: reconcile_all_def Let_def)
  show "rq_wf ?q" by (rule reclaim_wf [OF assms(1)])
  show "rq_configured ?q" using assms(2) by (simp add: Review_Queue.reclaim_stalled_def)
  show "\<exists>k \<in> set (rq_jobs (pw_queue w)). rj_key k = rj_key j \<and> (rj_status j = Pending \<longrightarrow> rj_status k \<in> {Pending, Running})"
    if "j \<in> set (rq_jobs ?q)" for j
    using that assms(2)
    by (auto simp: Review_Queue.reclaim_stalled_def in_update_where stalled_def rj_key_def)
qed

text \<open>
  What may be reviewed, stated without the order of the checks: the draft state is known to be off, head and
  base are one repository by id, and the author is no bot.
\<close>

definition may_be_reviewed :: "json \<Rightarrow> bool" where
  "may_be_reviewed p \<longleftrightarrow> field p ''draft'' = JBool False
     \<and> as_int (field (field (field p ''base'') ''repo'') ''id'') \<noteq> None
     \<and> as_int (field (field (field p ''head'') ''repo'') ''id'') = as_int (field (field (field p ''base'') ''repo'') ''id'')
     \<and> \<not> is_bot_author (field (field p ''user'') ''type'') (field (field p ''user'') ''login'')"

lemma falsy_user: "\<not> truthy u \<Longrightarrow> \<not> is_bot_author (field u ''type'') (field u ''login'')"
  by (cases u) (auto simp: truthy_def field_def obj_def jget_def is_bot_author_def)

lemma skip_reason_None: "skip_reason p = None \<longleftrightarrow> may_be_reviewed p"
  using falsy_user [of "field p ''user''"] by (auto simp: skip_reason_def may_be_reviewed_def Let_def)

text \<open>
  C5. The sweep heals: after \<open>reconcile_all\<close> every open pull request of a covered repository that passes
  the gate has a row for its head that is pending, running or done, or one that failed within the
  cooloff before the sweep began; whatever happens with the other repositories (unreadable, capped),
  the other installations (no token) and the other pull requests, as long as its own repository could
  be listed.
\<close>
theorem sweep_attends_to_every_open_pr:
  assumes "registry_wf (pw_ledger w)" and "rq_wf (pw_queue w)" and "rq_configured (pw_queue w)"
    and "\<forall>a b c. start \<le> clock a b c"
    and "inst \<in> set (active_installations (pw_ledger w))" and "sv_client sv inst = None"
    and "(repo, name) \<in> set (active_repos inst (pw_ledger w))"
    and "\<forall>g. fst (open_pulls (re_open re (until_slash name) (after_slash name)) 1 [] g) = Return pulls"
    and "p \<in> set (take MAX_OPEN_PRS_PER_REPO pulls)" and "distinct (map lp_number (take MAX_OPEN_PRS_PER_REPO pulls))"
    and "may_be_reviewed (lp_obj p)" and "field (field (lp_obj p) ''head'') ''sha'' = JStr head"
    and "field (field (lp_obj p) ''base'') ''sha'' = JStr base" and "base \<noteq> []"
    and "as_int (field (field (field (lp_obj p) ''base'') ''repo'') ''id'') = Some repo"
  shows "attended start (pw_queue (snd (reconcile_all sv re now clock w))) (inst, repo, lp_number p, head)"
proof -
  obtain q where all: "reconcile_all sv re now clock w = reconcile_each sv re clock (active_installations (pw_ledger w)) (w\<lparr>pw_queue := q\<rparr>)"
    and q: "rq_wf q" "rq_configured q"
    by (rule reconcile_all_each [OF assms(2,3), of sv re now clock]) blast
  have want: "wanted repo p = Some (head, base)"
    using assms(11-15) by (simp add: wanted_def text_of_def skip_reason_None)
  show ?thesis unfolding all
    using reconcile_each_attended [of "w\<lparr>pw_queue := q\<rparr>", OF _ _ assms(5) active_distinct(1) [OF assms(1)] assms(6) _ _ assms(8,9,10) want assms(4)]
      q assms(7) active_distinct(2) [OF assms(1)] by simp
qed

text \<open>
  C22. The sweep buys only what may be reviewed: a row that is pending afterwards was pending or running
  before, or is the current head of an open pull request which GitHub listed for a covered repository
  of an active installation, which is no draft, no fork and not a bot's, and whose base is that
  repository by its id. Nothing of the ledger is written and no read is paid.
\<close>
theorem sweep_enqueues_only_reviewable:
  assumes "rq_wf (pw_queue w)" and "rq_configured (pw_queue w)"
    and "j \<in> set (rq_jobs (pw_queue (snd (reconcile_all sv re now clock w))))" and "rj_status j = Pending"
    and "\<not> (\<exists>k \<in> set (rq_jobs (pw_queue w)). rj_key k = rj_key j \<and> rj_status k \<in> {Pending, Running})"
  shows "rj_installation j \<in> set (active_installations (pw_ledger w))
    \<and> (\<exists>name page g batch g' p. (rj_repo j, name) \<in> set (active_repos (rj_installation j) (pw_ledger w))
      \<and> re_open re (until_slash name) (after_slash name) page g = (Return batch, g') \<and> p \<in> set batch
      \<and> lp_number p = rj_pr j \<and> field (field (lp_obj p) ''head'') ''sha'' = JStr (rj_head_sha j)
      \<and> may_be_reviewed (lp_obj p)
      \<and> as_int (field (field (field (lp_obj p) ''base'') ''repo'') ''id'') = Some (rj_repo j))
    \<and> (\<exists>q g. snd (reconcile_all sv re now clock w) = w\<lparr>pw_queue := q, pw_gh := g\<rparr>)"
proof -
  have facts: "rj_installation j \<in> set (active_installations (pw_ledger w))"
      "\<exists>name page g batch g' p. (rj_repo j, name) \<in> set (active_repos (rj_installation j) (pw_ledger w))
      \<and> re_open re (until_slash name) (after_slash name) page g = (Return batch, g') \<and> p \<in> set batch
      \<and> lp_number p = rj_pr j \<and> field (field (lp_obj p) ''head'') ''sha'' = JStr (rj_head_sha j)
      \<and> may_be_reviewed (lp_obj p)
      \<and> as_int (field (field (field (lp_obj p) ''base'') ''repo'') ''id'') = Some (rj_repo j)"
      "\<exists>q g. snd (reconcile_all sv re now clock w) = w\<lparr>pw_queue := q, pw_gh := g\<rparr>"
  proof -
    let ?insts = "active_installations (pw_ledger w)"
    obtain q where all: "reconcile_all sv re now clock w = reconcile_each sv re clock ?insts (w\<lparr>pw_queue := q\<rparr>)"
      and q: "rq_wf q" "rq_configured q"
      and old: "\<And>j. j \<in> set (rq_jobs q) \<Longrightarrow> \<exists>k \<in> set (rq_jobs (pw_queue w)). rj_key k = rj_key j \<and>
             (rj_status j = Pending \<longrightarrow> rj_status k \<in> {Pending, Running})"
      by (rule reconcile_all_each [OF assms(1,2), of sv re now clock]) blast
    from reconcile_each_step [of "w\<lparr>pw_queue := q\<rparr>" sv re clock ?insts] q
    obtain n q' g where r: "reconcile_each sv re clock ?insts (w\<lparr>pw_queue := q\<rparr>) = (n, w\<lparr>pw_queue := q', pw_gh := g\<rparr>)"
      and c: "confined (\<lambda>j. rj_installation j \<in> set ?insts) (\<Union>i \<in> set ?insts. installation_keys re (pw_ledger w) i) q q'"
      by auto
    have j: "j \<in> set (rq_jobs q')" using assms(3) by (simp add: all r)
    with c assms(4) old assms(5)
    have "rj_key j \<in> (\<Union>i \<in> set ?insts. installation_keys re (pw_ledger w) i)" unfolding confined_def by blast
    then obtain i name repo p head base page g0 batch g' where i: "i \<in> set ?insts" "(repo, name) \<in> set (active_repos i (pw_ledger w))"
        and k: "rj_key j = (i, repo, lp_number p, head)"
        and b: "re_open re (until_slash name) (after_slash name) page g0 = (Return batch, g')" "p \<in> set batch"
        and want: "wanted repo p = Some (head, base)"
      by (auto simp: listed_keys_def)
    show "rj_installation j \<in> set ?insts" using i(1) k by (simp add: rj_key_def)
    have want': "may_be_reviewed (lp_obj p)" "as_int (field (field (field (lp_obj p) ''base'') ''repo'') ''id'') = Some repo"
        "field (field (lp_obj p) ''head'') ''sha'' = JStr head"
      using want by (auto simp: wanted_def skip_reason_None split: if_splits json.splits option.splits)
    show "\<exists>name page g batch g' p. (rj_repo j, name) \<in> set (active_repos (rj_installation j) (pw_ledger w))
        \<and> re_open re (until_slash name) (after_slash name) page g = (Return batch, g') \<and> p \<in> set batch
        \<and> lp_number p = rj_pr j \<and> field (field (lp_obj p) ''head'') ''sha'' = JStr (rj_head_sha j)
        \<and> may_be_reviewed (lp_obj p)
        \<and> as_int (field (field (field (lp_obj p) ''base'') ''repo'') ''id'') = Some (rj_repo j)"
      using i(2) k b want' by (intro exI [of _ name] exI [of _ page] exI [of _ g0] exI [of _ batch] exI [of _ g'] exI [of _ p])
        (simp add: rj_key_def)
    show "\<exists>q g. snd (reconcile_all sv re now clock w) = w\<lparr>pw_queue := q, pw_gh := g\<rparr>" by (auto simp: all r)
  qed
  show ?thesis by (rule conjI [OF facts(1) conjI [OF facts(2) facts(3)]])
qed

subsection \<open>What the outcome sweep starts\<close>

text \<open>A clock the sweep may start: an adjudicable row of a covered repository, merged after the cutoff.\<close>

definition clock_ok :: "instant \<Rightarrow> int \<Rightarrow> int set \<Rightarrow> outcome_job \<Rightarrow> bool" where
  "clock_ok cutoff inst repos j \<longleftrightarrow>
     oj_installation j = inst \<and> oj_repo j \<in> repos \<and> oj_window j \<in> set WINDOW_DAYS \<and> oj_status j = Pending
     \<and> cutoff \<le> as_utc (oj_merged_at j) \<and> oj_due_at j = as_utc (oj_merged_at j) + days (oj_window j)
     \<and> oj_merge_sha j \<noteq> [] \<and> cp_len (oj_merge_sha j) \<le> SHA_COLUMN
     \<and> oj_base_ref j \<noteq> [] \<and> cp_len (oj_base_ref j) \<le> BASE_REF"

text \<open>The ledger grew at the end of one table by \<open>n\<close> such rows, and nothing else of it changed.\<close>

definition grown :: "instant \<Rightarrow> int \<Rightarrow> int set \<Rightarrow> nat \<Rightarrow> ledger \<Rightarrow> ledger \<Rightarrow> bool" where
  "grown cutoff inst repos n lg lg' \<longleftrightarrow>
     (\<exists>news s. lg' = lg\<lparr>lg_jobs := lg_jobs lg @ news, lg_job_seq := s\<rparr> \<and> length news = n
        \<and> (\<forall>j \<in> set news. clock_ok cutoff inst repos j))"

lemma grown_refl [simp]: "grown cutoff inst repos 0 lg lg"
  unfolding grown_def by (intro exI [of _ "[]"] exI [of _ "lg_job_seq lg"]) simp

lemma grown_trans:
  assumes "grown cutoff inst repos n lg lg'" and "grown cutoff inst repos m lg' lg''"
  shows "grown cutoff inst repos (n + m) lg lg''"
proof -
  obtain a s where a: "lg' = lg\<lparr>lg_jobs := lg_jobs lg @ a, lg_job_seq := s\<rparr>" "length a = n"
    "\<forall>j \<in> set a. clock_ok cutoff inst repos j" using assms(1) unfolding grown_def by blast
  obtain b t where b: "lg'' = lg'\<lparr>lg_jobs := lg_jobs lg' @ b, lg_job_seq := t\<rparr>" "length b = m"
    "\<forall>j \<in> set b. clock_ok cutoff inst repos j" using assms(2) unfolding grown_def by blast
  from a b show ?thesis unfolding grown_def by (intro exI [of _ "a @ b"] exI [of _ t]) auto
qed

lemma insert_windows_appends:
  assumes "insert_windows mk ws lg = (ids, lg')"
  shows "\<exists>news s. lg' = lg\<lparr>lg_jobs := lg_jobs lg @ news, lg_job_seq := s\<rparr> \<and> length news = length ids
    \<and> (\<forall>j \<in> set news. \<exists>i w. w \<in> set ws \<and> j = mk i w)"
  using assms
proof (induction mk ws lg arbitrary: ids rule: insert_windows.induct)
  case (1 mk lg)
  then show ?case by (intro exI [of _ "[]"] exI [of _ "lg_job_seq lg"]) simp
next
  case (2 mk w rest lg)
  let ?j = "mk (lg_job_seq lg) w"
  show ?case
  proof (cases "job_identity ?j \<in> job_identity ` set (lg_jobs lg)")
    case True
    then have "insert_windows mk rest lg = (ids, lg')" using 2(3) by (simp add: Let_def)
    from 2(1) [OF refl True this] show ?thesis by fastforce
  next
    case False
    let ?lg = "lg\<lparr>lg_jobs := lg_jobs lg @ [?j], lg_job_seq := lg_job_seq lg + 1\<rparr>"
    obtain ids' where r: "insert_windows mk rest ?lg = (ids', lg')" "ids = (w, lg_job_seq lg) # ids'"
      using 2(3) False by (auto simp: Let_def split: prod.splits)
    from 2(2) [OF refl False r(1)]
    obtain news s where n: "lg' = ?lg\<lparr>lg_jobs := lg_jobs ?lg @ news, lg_job_seq := s\<rparr>" "length news = length ids'"
      "\<forall>j \<in> set news. \<exists>i w. w \<in> set rest \<and> j = mk i w" by blast
    show ?thesis
      by (intro exI [of _ "?j # news"] exI [of _ s]) (use n r(2) in simp, blast)
  qed
qed

lemma merge_candidate_Some:
  assumes "merge_candidate cutoff repo p = Some (m, ref)"
  shows "cutoff \<le> as_utc m" and "ref \<noteq> []" and "cp_len ref \<le> BASE_REF"
  using assms by (auto simp: merge_candidate_def text_of_Some split: if_splits option.splits)

lemma reconcile_merge_grows:
  assumes "reconcile_merge re cutoff inst repo name now p (lg, g) = (n, lg', g')" and "repo \<in> repos"
  shows "grown cutoff inst repos n lg lg'"
proof (cases "n = 0 \<and> lg' = lg")
  case False
  then obtain m ref d sha g1 ids head where c: "merge_candidate cutoff repo p = Some (m, ref)"
    and sha: "resolve (jget d ''merge_commit_sha'') None (re_graphql re) (until_slash name) (after_slash name)
                (lp_number p) g1 = (Some sha, g')"
    and e: "enqueue_outcome_jobs now inst repo (lp_number p) sha m ref WINDOW_DAYS head lg = (ids, lg')" "n = length ids"
    using assms(1) by (auto simp: reconcile_merge_def split: option.splits prod.splits sum.splits json.splits)
  have sha': "sha \<noteq> []" "cp_len sha \<le> SHA_COLUMN"
    using sha by (auto simp: resolve_def from_merge_commit_def text_of_Some split: option.splits prod.splits sum.splits)
  have "rg_configured lg" using e False by (auto simp: enqueue_outcome_jobs_def split: if_splits)
  then have "insert_windows (\<lambda>i. new_outcome_job now i inst repo (lp_number p) sha m ref head) WINDOW_DAYS lg = (ids, lg')"
    using e(1) by (simp add: enqueue_outcome_jobs_def)
  from insert_windows_appends [OF this] show ?thesis
    unfolding grown_def e(2) using assms(2) sha' merge_candidate_Some [OF c]
    by (fastforce simp: new_outcome_job_def clock_ok_def)
qed simp

lemma reconcile_merges_grows:
  assumes "repo \<in> repos" and "reconcile_merges re cutoff inst repo name t ps (lg, g) = (n, lg', g')"
  shows "grown cutoff inst repos n lg lg'"
  using assms(2)
proof (induction ps arbitrary: t lg g n)
  case Nil
  then show ?case by simp
next
  case (Cons p ps)
  obtain k lg1 g1 where one: "reconcile_merge re cutoff inst repo name (t 0) p (lg, g) = (k, lg1, g1)" by (cases "reconcile_merge re cutoff inst repo name (t 0) p (lg, g)")
  obtain m where rest: "reconcile_merges re cutoff inst repo name (\<lambda>k. t (k + 1)) ps (lg1, g1) = (m, lg', g')" "n = k + m"
    using Cons.prems one by (auto split: prod.splits)
  show ?case unfolding rest(2)
    by (rule grown_trans [OF reconcile_merge_grows [OF one assms(1)] Cons.IH [OF rest(1)]])
qed

lemma reconcile_merge_repos_grows:
  assumes "fst ` set rs \<subseteq> repos" and "reconcile_merge_repos re cutoff inst clock rs (lg, g) = (n, lg', g')"
  shows "grown cutoff inst repos n lg lg'"
  using assms
proof (induction rs arbitrary: clock lg g n)
  case Nil
  then show ?case by simp
next
  case (Cons rn rs)
  obtain repo name where rn: "rn = (repo, name)" by fastforce
  have here: "repo \<in> repos" and tail: "fst ` set rs \<subseteq> repos" using Cons.prems(1) by (auto simp: rn)
  obtain x g1 where l: "closed_pulls cutoff (re_closed re (until_slash name) (after_slash name)) (Suc 0) [] True g = (x, g1)"
    by fastforce
  show ?case
  proof (cases x)
    case (Inl e)
    then have "reconcile_merge_repos re cutoff inst (\<lambda>k. clock (k + 1)) rs (lg, g1) = (n, lg', g')"
      using Cons.prems(2) by (simp add: rn l)
    from Cons.IH [OF tail this] show ?thesis .
  next
    case (Inr pe)
    obtain pulls ex where pe: "pe = (pulls, ex)" by fastforce
    obtain k lg1 g2 where one: "reconcile_merges re cutoff inst repo name (clock 0) (capped_closed pulls ex) (lg, g1) = (k, lg1, g2)"
      by (cases "reconcile_merges re cutoff inst repo name (clock 0) (capped_closed pulls ex) (lg, g1)")
    obtain m where rest: "reconcile_merge_repos re cutoff inst (\<lambda>k. clock (k + 1)) rs (lg1, g2) = (m, lg', g')" "n = k + m"
      using Cons.prems(2) one by (auto simp: rn l Inr pe split: prod.splits)
    show ?thesis unfolding rest(2)
      by (rule grown_trans [OF reconcile_merges_grows [OF here one] Cons.IH [OF tail rest(1)]])
  qed
qed

text \<open>
  The outcome sweep starts clocks and nothing else: it appends exactly as many rows as it reports,
  each of a repository the installation covers, with a merge inside the lookback, due its window
  after the merge, with a commit and a branch that fit their columns; no existing row, no queue, no
  verdict and no counter changes.
\<close>
theorem outcome_sweep_starts_recent_clocks:
  assumes "reconcile_outcomes sv re inst now clock w = (Return n, w')"
  shows "\<exists>news s g. w' = w\<lparr>pw_ledger := (pw_ledger w)\<lparr>lg_jobs := lg_jobs (pw_ledger w) @ news, lg_job_seq := s\<rparr>, pw_gh := g\<rparr>
    \<and> length news = n
    \<and> (\<forall>j \<in> set news. clock_ok (now - days MERGE_RECONCILE_LOOKBACK_DAYS) inst (fst ` set (active_repos inst (pw_ledger w))) j)"
proof -
  let ?cutoff = "now - days MERGE_RECONCILE_LOOKBACK_DAYS"
  obtain lg g where r: "reconcile_merge_repos re ?cutoff inst clock (active_repos inst (pw_ledger w)) (pw_ledger w, pw_gh w) = (n, lg, g)"
    and w': "w' = w\<lparr>pw_ledger := lg, pw_gh := g\<rparr>"
    using assms by (auto simp: reconcile_outcomes_def split: option.splits prod.splits)
  from reconcile_merge_repos_grows [OF subset_refl r] w' show ?thesis unfolding grown_def by blast
qed

subsection \<open>A worked sweep\<close>

text \<open>One installation with one repository, and one open pull request its owner wrote.\<close>

definition swept_ledger :: ledger where
  "swept_ledger = sample_outcomes
     \<lparr>rg_installs := [\<lparr>in_id = 1, in_installation = 7, in_login = ''acme'', in_type = ''User'', in_state = ''active'',
                       in_updated_at = 0, in_installer = None\<rparr>],
      rg_repos := [new_registration 0 7 9 ''acme/web'' ''active'' 1], rg_install_seq := 2, rg_repo_seq := 2\<rparr>"

definition sample_pull_json :: json where
  "sample_pull_json = JObj
     [(''number'', JNum 4), (''draft'', JBool False),
      (''user'', JObj [(''type'', JStr ''User''), (''login'', JStr ''ada'')]),
      (''head'', JObj [(''sha'', JStr ''f00d''), (''repo'', JObj [(''id'', JNum 9)])]),
      (''base'', JObj [(''sha'', JStr ''ba5e''), (''ref'', JStr ''main''),
                     (''repo'', JObj [(''id'', JNum 9), (''full_name'', JStr ''acme/web'')])])]"

definition sample_pull :: listed_pull where
  "sample_pull = \<lparr>lp_number = 4, lp_obj = sample_pull_json, lp_updated = Some (days 100, Some 0), lp_merged = Some (days 99, Some 0)\<rparr>"

definition sample_rest :: "string rest" where
  "sample_rest = \<lparr>re_open = (\<lambda>_ _ _ g. (Return [sample_pull], g)), re_closed = (\<lambda>_ _ _ g. (Return [sample_pull], g)),
     re_pull = (\<lambda>_ _ _ g. (Return (JObj [(''merge_commit_sha'', JStr ''c0de'')]), g)),
     re_graphql = (\<lambda>_ _ _ g. (Return JNull, g))\<rparr>"

definition swept_world :: "string pipeline" where
  "swept_world = (sample_world \<lparr>vb_configured = True, vb_rows = [], vb_seq = 1\<rparr>)
     \<lparr>pw_ledger := swept_ledger, pw_queue := \<lparr>rq_configured = True, rq_jobs = [], rq_next_id = 1\<rparr>\<rparr>"

lemmas swept_defs = swept_world_def swept_ledger_def sample_outcomes_def sample_world_def new_registration_def
  active_installations_def active_repos_def sample_services_def

lemmas sample_pull_defs = sample_pull_def sample_pull_json_def field_def obj_def jget_def as_int_def

lemma sample_pull_facts:
  "skip_reason (lp_obj sample_pull) = None" "field (field (lp_obj sample_pull) ''head'') ''sha'' = JStr ''f00d''"
  "field (field (lp_obj sample_pull) ''base'') ''sha'' = JStr ''ba5e''" "lp_number sample_pull = 4"
  "as_int (field (field (field (lp_obj sample_pull) ''base'') ''repo'') ''id'') = Some 9"
  by (simp_all add: sample_pull_defs skip_reason_def truthy_def is_bot_author_def endswith_def)

lemma sample_listing: "open_pulls (re_open sample_rest o' n) page [] g = (Return [sample_pull], g)"
  by (simp add: open_pulls.simps sample_rest_def)

lemma swept_ok: "registry_wf (pw_ledger swept_world)" "rq_wf (pw_queue swept_world)" "rq_configured (pw_queue swept_world)"
  "7 \<in> set (active_installations (pw_ledger swept_world))" "sv_client sample_services 7 = None"
  "(9, ''acme/web'') \<in> set (active_repos 7 (pw_ledger swept_world))"
  by (simp_all add: swept_defs registry_wf_def rq_wf_def)

theorem sweep_attends_to_every_open_pr_witness:
  "attended 30 (pw_queue (snd (reconcile_all sample_services sample_rest 20 (\<lambda>_ _ _. 30) swept_world))) (7, 9, 4, ''f00d'')"
proof -
  have "\<forall>a b c. (30::instant) \<le> (\<lambda>_ _ _. 30) a b c" by simp
  from sweep_attends_to_every_open_pr [OF swept_ok(1-3) this swept_ok(4-6), of sample_rest "[sample_pull]" sample_pull
      "''f00d''" "''ba5e''" 20] show ?thesis
    by (simp add: sample_listing sample_pull_facts MAX_OPEN_PRS_PER_REPO_def flip: skip_reason_None)
qed

lemma swept_result:
  "reconcile_all sample_services sample_rest 20 (\<lambda>_ _ _. 30) swept_world
     = (1, swept_world\<lparr>pw_queue := \<lparr>rq_configured = True, rq_jobs = [new_job 30 1 7 9 ''acme/web'' 4 ''f00d'' ''ba5e''], rq_next_id = 2\<rparr>\<rparr>)"
proof -
  have w: "wanted 9 sample_pull = Some (''f00d'', ''ba5e'')"
    by (simp add: wanted_def sample_pull_facts text_of_def)
  have "active_installations (pw_ledger swept_world) = [7]" "active_repos 7 (pw_ledger swept_world) = [(9, ''acme/web'')]"
    by (simp_all add: swept_defs)
  moreover have "Review_Queue.reclaim_stalled Review_Queue.STALL_LEASE_SECONDS 20 (pw_queue swept_world) = (0, pw_queue swept_world)"
    by (simp add: Review_Queue.reclaim_stalled_def swept_world_def rowcount_def)
  moreover have "enqueue 30 30 7 9 ''acme/web'' 4 ''f00d'' (Some ''ba5e'') ''reconcile'' (pw_queue swept_world)
      = Return (Some 1, \<lparr>rq_configured = True, rq_jobs = [new_job 30 1 7 9 ''acme/web'' 4 ''f00d'' ''ba5e''], rq_next_id = 2\<rparr>)"
    by (simp add: enqueue_def enqueue_insert_def swept_world_def update_where_def new_job_def Let_def)
  ultimately show ?thesis
    by (simp add: reconcile_all_def reconcile_installation_def sample_services_def sample_listing MAX_OPEN_PRS_PER_REPO_def
        reconcile_pull_wanted w sample_pull_facts)
qed

theorem sweep_enqueues_only_reviewable_witness:
  "7 \<in> set (active_installations (pw_ledger swept_world))"
proof -
  have "new_job 30 1 7 9 ''acme/web'' 4 ''f00d'' ''ba5e''
      \<in> set (rq_jobs (pw_queue (snd (reconcile_all sample_services sample_rest 20 (\<lambda>_ _ _. 30) swept_world))))"
    "rj_status (new_job 30 1 7 9 ''acme/web'' 4 ''f00d'' ''ba5e'') = Pending"
    by (simp_all add: swept_result new_job_def)
  from sweep_enqueues_only_reviewable [OF swept_ok(2,3) this, THEN conjunct1] show ?thesis
    by (simp add: swept_world_def new_job_def)
qed

lemma swept_merges:
  "fst (reconcile_outcomes sample_services sample_rest 7 (days 101) (\<lambda>_ _. days 101) swept_world) = Return 2"
proof -
  have c: "merge_candidate (days 101 - days 14) 9 sample_pull = Some ((days 99, Some 0), ''main'')"
    by (simp add: merge_candidate_def sample_pull_defs aware_def text_of_def BASE_REF_def cp_len_def cont_byte_def days_def)
  have "closed_pulls k (re_closed sample_rest o' n) page [] True g = (Return ([sample_pull], True), g)" for k o' n page g
    by (simp add: closed_pulls.simps sample_rest_def Let_def MAX_CLOSED_PRS_PER_REPO_def)
  moreover have "active_repos 7 (pw_ledger swept_world) = [(9, ''acme/web'')]"
    by (simp add: swept_defs)
  moreover have "resolve (JStr ''c0de'') client ask o' n k g = (Some ''c0de'', g)" for client ask o' n k and g :: string
    by (rule resolve_carried) (simp add: text_of_def SHA_COLUMN_def cp_len_def cont_byte_def)
  moreover have "length (fst (enqueue_outcome_jobs t 7 9 4 ''c0de'' m ref [14, 60] h (pw_ledger swept_world))) = 2" for t m ref h
    by (simp add: enqueue_outcome_jobs_def swept_defs job_identity_def new_outcome_job_def Let_def)
  ultimately show ?thesis using c
    by (simp add: reconcile_outcomes_def sample_services_def capped_closed_def MAX_CLOSED_PRS_PER_REPO_def reconcile_merge_def
        MERGE_RECONCILE_LOOKBACK_DAYS_def sample_rest_def jget_def sample_pull_facts WINDOW_DAYS_def case_prod_beta)
qed

theorem outcome_sweep_starts_recent_clocks_witness:
  "\<exists>news s g. snd (reconcile_outcomes sample_services sample_rest 7 (days 101) (\<lambda>_ _. days 101) swept_world)
     = swept_world\<lparr>pw_ledger := (pw_ledger swept_world)\<lparr>lg_jobs := lg_jobs (pw_ledger swept_world) @ news, lg_job_seq := s\<rparr>, pw_gh := g\<rparr>
     \<and> length news = 2"
proof -
  have "reconcile_outcomes sample_services sample_rest 7 (days 101) (\<lambda>_ _. days 101) swept_world
    = (Return 2, snd (reconcile_outcomes sample_services sample_rest 7 (days 101) (\<lambda>_ _. days 101) swept_world))"
    using swept_merges by (metis prod.collapse)
  from outcome_sweep_starts_recent_clocks [OF this] show ?thesis by blast
qed

end
