(* ===== verification/Job_Safety.thy ===== *)
theory Job_Safety
  imports Job_Pipeline
begin

text \<open>
  Many workers on one ledger: any number of drainers run \<open>process_job\<close> stage by stage, each may die or
  meet a database fault between any two stages, deliveries and sweeps change the queue, other writers
  change the rest. The invariant of such runs says what a finished job and a posted check run mean.
\<close>

subsection \<open>Finished rows\<close>

type_synonym head_key = "int \<times> int \<times> int \<times> string"

definition done_of :: "review_db \<Rightarrow> int \<Rightarrow> (head_key \<times> int option) option" where
  "done_of db i = (case row_by rj_id i (rq_jobs db) of
     None \<Rightarrow> None | Some j \<Rightarrow> if rj_status j = Done then Some (rj_key j, rj_verdict_id j) else None)"

text \<open>A row update that neither finishes a job nor touches a finished one.\<close>

definition quiet_row :: "(review_job \<Rightarrow> review_job) \<Rightarrow> bool" where
  "quiet_row f \<longleftrightarrow> (\<forall>j. rj_id (f j) = rj_id j \<and> rj_key (f j) = rj_key j \<and> (rj_status (f j) = Done \<longleftrightarrow> rj_status j = Done)
     \<and> (rj_status j = Done \<longrightarrow> rj_verdict_id (f j) = rj_verdict_id j))"

lemma done_of_map:
  assumes "rq_jobs db' = map f (rq_jobs db) @ new" and "quiet_row f" and "\<forall>j \<in> set new. rj_status j \<noteq> Done"
  shows "done_of db' = done_of db"
proof
  fix i
  from assms(2) have "\<And>j. rj_id (f j) = rj_id j" by (simp add: quiet_row_def)
  then have "row_by rj_id i (map f (rq_jobs db) @ new)
      = (case row_by rj_id i (rq_jobs db) of Some j \<Rightarrow> Some (f j) | None \<Rightarrow> row_by rj_id i new)"
    by (simp add: row_simps split: option.split)
  with assms show "done_of db' i = done_of db i"
    by (auto simp: done_of_def quiet_row_def dest: row_by_Some_in split: option.splits)
qed

lemma done_of_update:
  assumes "quiet_row (\<lambda>j. if p j then f j else j)"
  shows "done_of (db\<lparr>rq_jobs := update_where p f (rq_jobs db)\<rparr>) = done_of db"
  by (rule done_of_map [OF _ assms, where new = "[]"]) (simp_all add: update_where_def)

lemma done_of_fenced:
  assumes "fenced_update i g f db = Return (b, db')"
    and "\<And>j. rj_status j = Running \<Longrightarrow> rj_id (f j) = rj_id j \<and> rj_key (f j) = rj_key j \<and> rj_status (f j) \<noteq> Done"
  shows "done_of db' = done_of db"
proof -
  have "quiet_row (\<lambda>j. if terminal_where i g j then f j else j)"
    using assms(2) by (auto simp: quiet_row_def terminal_where_def)
  from done_of_update [OF this] assms(1) show ?thesis by (auto simp: fenced_update_def split: if_splits)
qed

lemma done_of_insert:
  assumes "enqueue_insert now inst repo name pr head base db = Some (i, db')"
  shows "done_of db' = done_of db"
  by (rule done_of_map [OF insert_shape(1) [OF assms]]) (auto simp: quiet_row_def rj_key_def new_job_def)

lemma done_of_revive: "done_of (snd (revive now inst repo pr head base trigger db)) = done_of db"
  unfolding revive_def Let_def snd_conv
  by (rule done_of_update) (auto simp: quiet_row_def rj_key_def revivable_def)

lemma done_of_claim: "done_of (snd (claim locked now db)) = done_of db"
proof -
  have "done_of (db\<lparr>rq_jobs := update_where (\<lambda>j. rj_id j = i \<and> rj_status j = Pending)
      (\<lambda>j. j\<lparr>rj_status := Running, rj_started_at := Some now, rj_generation := rj_generation j + 1\<rparr>) (rq_jobs db)\<rparr>)
      = done_of db" for i
    by (rule done_of_update) (auto simp: quiet_row_def rj_key_def)
  then show ?thesis by (auto simp: claim_def Let_def split: option.splits)
qed

lemma done_of_reclaim: "done_of (snd (reclaim_stalled older now db)) = done_of db"
proof -
  have "done_of (db\<lparr>rq_jobs := update_where (stalled older now)
      (\<lambda>j. j\<lparr>rj_status := Pending, rj_started_at := None, rj_enqueued_at := now\<rparr>) (rq_jobs db)\<rparr>) = done_of db"
    by (rule done_of_update) (auto simp: quiet_row_def rj_key_def stalled_def)
  then show ?thesis by (simp add: reclaim_stalled_def)
qed

lemma done_of_comment:
  "done_of (db\<lparr>rq_jobs := update_where p (\<lambda>j. j\<lparr>rj_pr_comment := c\<rparr>) (rq_jobs db)\<rparr>) = done_of db"
  by (rule done_of_update) (auto simp: quiet_row_def rj_key_def)

lemma done_of_holder:
  shows "release i g db = Return (b, db') \<Longrightarrow> done_of db' = done_of db"
    and "supersede now i g db = Return (b, db') \<Longrightarrow> done_of db' = done_of db"
    and "fail now i err g m db = Return (b, db') \<Longrightarrow> done_of db' = done_of db"
  unfolding holder_defs by (erule done_of_fenced; simp add: rj_key_def Let_def)+

text \<open>A completion that won its fence finishes one row that was not finished; one that lost does nothing.\<close>

lemma done_of_complete:
  assumes "rq_wf db" and "complete now i v g owes db = Return (won, db')"
  shows "if won then done_of db i = None
           \<and> (\<forall>r. row_by rj_id i (rq_jobs db) = Some r \<longrightarrow> done_of db' = (done_of db)(i \<mapsto> (rj_key r, v)))
         else db' = db"
proof -
  have c: "rq_configured db" using assms(2) by (simp add: complete_def fenced_update_def split: if_splits)
  from assms(2) fenced_update_cases [OF c] have won: "won = holds_claim db i g" by (simp add: complete_def)
  show ?thesis
  proof (cases won)
    case False
    with assms(2) won fenced_update_cases [OF c] show ?thesis by (simp add: complete_def)
  next
    case True
    let ?f = "\<lambda>j. j\<lparr>rj_status := Done, rj_verdict_id := v, rj_finished_at := Some now, rj_error := None,
       rj_pr_comment := (if owes then Some PR_COMMENT_OWED else rj_pr_comment j)\<rparr>"
    from True won obtain j where j: "j \<in> set (rq_jobs db)" "terminal_where i g j" by (auto simp: holds_claim_def)
    then have r: "row_by rj_id i (rq_jobs db) = Some j"
      using assms(1) row_by_in [of rj_id "rq_jobs db" j] by (auto simp: rq_wf_def terminal_where_def)
    have q: "rq_jobs db' = update_where (terminal_where i g) ?f (rq_jobs db)"
      using assms(2) True won fenced_update_cases [OF c] by (auto simp: complete_def)
    have "done_of db' k = (if k = i then Some (rj_key j, v) else done_of db k)" for k
      using j r by (auto simp: done_of_def q row_simps terminal_where_def rj_key_def split: option.splits
        dest: row_by_Some_in)
    moreover have "done_of db i = None" using r j(2) by (simp add: done_of_def terminal_where_def)
    ultimately show ?thesis using True r by (auto simp: fun_eq_iff)
  qed
qed

subsection \<open>The crowd\<close>

datatype worker = Working review_job job_stage | Failing review_job string

type_synonym 'g crowd = "'g pipeline \<times> (nat \<Rightarrow> worker option)"

text \<open>
  One step. \<open>fault\<close> is an exception of the database or the network between two stages; at the
  deviations it is swallowed into a notice. \<open>stop\<close> is a worker that dies. The last rules are everybody
  else: deliveries, sweeps, other drainers' bookkeeping, other writers of verdicts, and any change to the
  registry, the counters, the comment slots and GitHub.
\<close>

inductive crowd_step :: "'g services \<Rightarrow> 'g crowd \<Rightarrow> 'g crowd \<Rightarrow> bool" for sv where
  take_job: "ws n = None \<Longrightarrow> claim locked now (pw_queue w) = (Some j, q) \<Longrightarrow>
    crowd_step sv (w, ws) (w\<lparr>pw_queue := q\<rparr>, ws(n \<mapsto> Working j Lookup))"
| stage: "ws n = Some (Working j st) \<Longrightarrow> job_call sv j now st w = (Inr st', w') \<Longrightarrow>
    crowd_step sv (w, ws) (w', ws(n \<mapsto> Working j st'))"
| ended: "ws n = Some (Working j st) \<Longrightarrow> job_call sv j now st w = (Inl (Return r), w') \<Longrightarrow>
    crowd_step sv (w, ws) (w', ws(n := None))"
| raised: "ws n = Some (Working j st) \<Longrightarrow> job_call sv j now st w = (Inl (Raise e), w') \<Longrightarrow>
    crowd_step sv (w, ws) (w', ws(n \<mapsto> Failing j e))"
| fault: "ws n = Some (Working j st) \<Longrightarrow> crowd_step sv (w, ws) (w, ws(n \<mapsto> Failing j e))"
| deviations_fault: "ws n = Some (Working j (Save_Deviations v rr)) \<Longrightarrow>
    crowd_step sv (w, ws) (w, ws(n \<mapsto> Working j (Render_Fresh v (with_notice ''deviations-unrecorded'' (take 200 e) rr))))"
| give_up: "ws n = Some (Failing j e) \<Longrightarrow> fail now (rj_id j) e (rj_generation j) Review_Queue.MAX_ATTEMPTS (pw_queue w) = Return (b, q) \<Longrightarrow>
    crowd_step sv (w, ws) (w\<lparr>pw_queue := q\<rparr>, ws(n := None))"
| lapped: "ws n = Some (Working j Lookup) \<Longrightarrow> release (rj_id j) (rj_generation j) (pw_queue w) = Return (b, q) \<Longrightarrow>
    crowd_step sv (w, ws) (w\<lparr>pw_queue := q\<rparr>, ws(n := None))"
| stop: "crowd_step sv (w, ws) (w, ws(n := None))"
| delivery: "rq_configured (pw_queue w) \<Longrightarrow> enqueue_insert now inst repo name pr head base (pw_queue w) = Some (i, q) \<Longrightarrow>
    crowd_step sv (w, ws) (w\<lparr>pw_queue := q\<rparr>, ws)"
| collision: "rq_configured (pw_queue w) \<Longrightarrow>
    crowd_step sv (w, ws) (w\<lparr>pw_queue := snd (revive now inst repo pr head base trigger (pw_queue w))\<rparr>, ws)"
| reclaim: "crowd_step sv (w, ws) (w\<lparr>pw_queue := snd (reclaim_stalled older now (pw_queue w))\<rparr>, ws)"
| comment_column: "crowd_step sv (w, ws) (w\<lparr>pw_queue := (pw_queue w)\<lparr>rq_jobs :=
    update_where p (\<lambda>j. j\<lparr>rj_pr_comment := c\<rparr>) (rq_jobs (pw_queue w))\<rparr>\<rparr>, ws)"
| verdicts: "verdict_step (pw_verdicts w) db \<Longrightarrow> crowd_step sv (w, ws) (w\<lparr>pw_verdicts := db\<rparr>, ws)"
| elsewhere: "crowd_step sv (w, ws)
    (w\<lparr>pw_ledger := lg, pw_counters := ct, pw_slots := sl, pw_denied := dn, pw_gh := g\<rparr>, ws)"

subsection \<open>The invariant\<close>

text \<open>A verdict row of exactly this commit.\<close>

definition commit_of :: "verdict_row \<Rightarrow> head_key \<Rightarrow> bool" where
  "commit_of r k \<longleftrightarrow> (case k of (inst, repo, pr, head) \<Rightarrow>
     vd_installation r = Some inst \<and> vd_github_repo r = Some repo \<and> vd_pr r = pr \<and> vd_head r = Some head)"

definition names :: "verdict_db \<Rightarrow> int \<Rightarrow> head_key \<Rightarrow> bool" where
  "names db v k \<longleftrightarrow> (\<exists>r \<in> set (vb_rows db). vd_id r = v \<and> commit_of r k)"

definition names_opt :: "verdict_db \<Rightarrow> int option \<Rightarrow> head_key \<Rightarrow> bool" where
  "names_opt db v k \<longleftrightarrow> (case v of None \<Rightarrow> True | Some i \<Rightarrow> names db i k)"

text \<open>What a worker between two stages may rely on.\<close>

fun stage_ok :: "verdict_db \<Rightarrow> review_job \<Rightarrow> job_stage \<Rightarrow> bool" where
  "stage_ok db j (Render_Recorded b) = names db (bd_id b) (rj_key j)"
| "stage_ok db j (Find_Peer v) = names db v (rj_key j)"
| "stage_ok db j (Save_Deviations v rr) = names_opt db v (rj_key j)"
| "stage_ok db j (Render_Fresh v rr) = names_opt db v (rj_key j)"
| "stage_ok db j (Complete_Job v title summary fresh) = names_opt db v (rj_key j)"
| "stage_ok db j st = True"

text \<open>The job a worker is about to post a check run for.\<close>

fun post_at :: "worker option \<Rightarrow> (int \<times> head_key \<times> int option) option" where
  "post_at (Some (Working j (Post_Check v title summary fresh))) = Some (rj_id j, rj_key j, v)"
| "post_at x = None"

definition posted :: "'g pipeline \<Rightarrow> int \<Rightarrow> bool" where
  "posted w i \<longleftrightarrow> i \<in> cp_job ` set (pw_checks w)"

definition row_key :: "review_db \<Rightarrow> int \<Rightarrow> head_key option" where
  "row_key db i = map_option rj_key (row_by rj_id i (rq_jobs db))"

definition world_ok :: "'g pipeline \<Rightarrow> bool" where
  "world_ok w \<longleftrightarrow> rq_wf (pw_queue w) \<and> verdicts_wf (pw_verdicts w)
     \<and> (\<forall>i k v. done_of (pw_queue w) i = Some (k, Some v) \<longrightarrow> names (pw_verdicts w) v k)
     \<and> distinct (map cp_job (pw_checks w))
     \<and> (\<forall>p \<in> set (pw_checks w). \<exists>k. done_of (pw_queue w) (cp_job p) = Some (k, cp_verdict p)
          \<and> cp_head p = snd (snd (snd k)))"

definition worker_ok :: "'g pipeline \<Rightarrow> worker option \<Rightarrow> bool" where
  "worker_ok w x \<longleftrightarrow>
     (\<forall>j st. x = Some (Working j st) \<longrightarrow> stage_ok (pw_verdicts w) j st \<and> row_key (pw_queue w) (rj_id j) = Some (rj_key j))
     \<and> (\<forall>i d. post_at x = Some (i, d) \<longrightarrow> done_of (pw_queue w) i = Some d \<and> \<not> posted w i)"

definition posts_apart :: "(nat \<Rightarrow> worker option) \<Rightarrow> bool" where
  "posts_apart ws \<longleftrightarrow> (\<forall>n m i d e. post_at (ws n) = Some (i, d) \<longrightarrow> post_at (ws m) = Some (i, e) \<longrightarrow> n = m)"

definition crowd_ok :: "'g crowd \<Rightarrow> bool" where
  "crowd_ok c \<longleftrightarrow> world_ok (fst c) \<and> (\<forall>n. worker_ok (fst c) (snd c n)) \<and> posts_apart (snd c)"

text \<open>A change of the world that finishes nothing, posts nothing and loses nothing.\<close>

definition calm :: "'g pipeline \<Rightarrow> 'g pipeline \<Rightarrow> bool" where
  "calm w w' \<longleftrightarrow> (rq_wf (pw_queue w) \<longrightarrow> rq_wf (pw_queue w')) \<and> (verdicts_wf (pw_verdicts w) \<longrightarrow> verdicts_wf (pw_verdicts w'))
     \<and> done_of (pw_queue w') = done_of (pw_queue w)
     \<and> (\<forall>i k. row_key (pw_queue w) i = Some k \<longrightarrow> row_key (pw_queue w') i = Some k)
     \<and> (\<forall>v k. names (pw_verdicts w) v k \<longrightarrow> names (pw_verdicts w') v k)
     \<and> pw_checks w' = pw_checks w"

text \<open>Heads are compared whole, never component by component.\<close>

declare split_paired_All [simp del] split_paired_Ex [simp del]

lemma calm_refl [simp]: "calm w w"
  by (simp add: calm_def)

lemma stage_ok_mono:
  "stage_ok db j st \<Longrightarrow> (\<And>v k. names db v k \<Longrightarrow> names db' v k) \<Longrightarrow> stage_ok db' j st"
  by (cases st) (auto simp: names_opt_def split: option.splits)

lemma calm_world: "calm w w' \<Longrightarrow> world_ok w \<Longrightarrow> world_ok w'"
  by (auto simp: calm_def world_ok_def)

lemma calm_worker: "calm w w' \<Longrightarrow> worker_ok w x \<Longrightarrow> worker_ok w' x"
  unfolding worker_ok_def
proof (elim conjE, intro conjI allI impI)
  fix j st
  assume c: "calm w w'" and x: "x = Some (Working j st)"
    and "\<forall>j st. x = Some (Working j st) \<longrightarrow> stage_ok (pw_verdicts w) j st \<and> row_key (pw_queue w) (rj_id j) = Some (rj_key j)"
  then have s: "stage_ok (pw_verdicts w) j st" "row_key (pw_queue w) (rj_id j) = Some (rj_key j)" by blast+
  from s(1) show "stage_ok (pw_verdicts w') j st"
    by (rule stage_ok_mono) (use c in \<open>unfold calm_def, blast\<close>)
  from c s(2) show "row_key (pw_queue w') (rj_id j) = Some (rj_key j)" unfolding calm_def by blast
next
  fix i d
  assume c: "calm w w'" and x: "post_at x = Some (i, d)"
    and "\<forall>i d. post_at x = Some (i, d) \<longrightarrow> done_of (pw_queue w) i = Some d \<and> \<not> posted w i"
  then have d: "done_of (pw_queue w) i = Some d" "\<not> posted w i" by blast+
  with c show "done_of (pw_queue w') i = Some d" "\<not> posted w' i" by (simp_all only: calm_def posted_def) simp_all
qed

lemma calm_crowd:
  assumes "crowd_ok (w, ws)" and "calm w w'" and "worker_ok w' x" and "post_at x = None"
  shows "crowd_ok (w', ws(n := x))"
proof -
  have "worker_ok w' (ws m)" for m using assms(1) calm_worker [OF assms(2)] by (simp add: crowd_ok_def)
  with assms calm_world [OF assms(2)] show ?thesis by (simp add: crowd_ok_def posts_apart_def)
qed

lemma calm_others: "crowd_ok (w, ws) \<Longrightarrow> calm w w' \<Longrightarrow> crowd_ok (w', ws)"
  using calm_world [of w w'] calm_worker [of w w'] by (simp add: crowd_ok_def)

lemma idle_ok [simp]: "worker_ok w None" "worker_ok w (Some (Failing j e))"
  by (simp_all add: worker_ok_def)

lemma row_key_frame: "frame q q' \<Longrightarrow> row_key q i = Some k \<Longrightarrow> row_key q' i = Some k"
  by (auto simp: row_key_def row_step_def dest: frame_row_by)

lemma calm_queue:
  assumes "rq_step (pw_queue w) q" and "done_of q = done_of (pw_queue w)"
  shows "calm w (w\<lparr>pw_queue := q\<rparr>)"
  unfolding calm_def
  using assms(2) rq_step_wf [OF assms(1)] row_key_frame [OF rq_step_frame [OF assms(1)]] by simp

lemma names_update:
  "names db v k \<Longrightarrow> names (db\<lparr>vb_rows := update_where p (\<lambda>r. r\<lparr>vd_deviations := f r\<rparr>) (vb_rows db)\<rparr>) v k"
proof -
  let ?f = "\<lambda>r. r\<lparr>vd_deviations := f r\<rparr>"
  assume "names db v k"
  then obtain r where r: "r \<in> set (vb_rows db)" "vd_id r = v" "commit_of r k" unfolding names_def by blast
  have "vd_id (if p r then ?f r else r) = v" "commit_of (if p r then ?f r else r) k"
    using r(2,3) by (auto simp: commit_of_def split: prod.split)
  with update_where_mem [OF r(1), of p ?f] show ?thesis unfolding names_def by auto
qed

lemma names_append: "names db v k \<Longrightarrow> names (db\<lparr>vb_rows := vb_rows db @ rs, vb_seq := n\<rparr>) v k"
  by (auto simp: names_def)

lemma names_step: "verdict_step db db' \<Longrightarrow> names db v k \<Longrightarrow> names db' v k"
proof (induction rule: verdict_step.induct)
  case (review db now repo pr tier v' cov ia source)
  then show ?case
    using names_append unfolding save_review_def Let_def
    by (simp add: names_append split: if_splits option.splits)
next
  case (external db inst g repo pr head source bnd scored_at seen)
  then show ?case by (simp add: save_external_review_def names_append)
next
  case (deviations db vid fs refs alignment)
  then show ?case by (simp add: save_deviations_def names_update split: option.split)
qed

lemma verdict_step_wf: "verdict_step db db' \<Longrightarrow> verdicts_wf db \<Longrightarrow> verdicts_wf db'"
  by (erule verdict_step.cases) (simp_all add: review_wf external_wf deviations_wf)

lemma calm_verdicts: "verdict_step (pw_verdicts w) db \<Longrightarrow> calm w (w\<lparr>pw_verdicts := db\<rparr>)"
  using names_step verdict_step_wf by (auto simp: calm_def)

subsection \<open>Every stage keeps it\<close>

lemma find_identity_names:
  assumes "find_verdict_by_identity inst repo pr head db = Some b"
  shows "names db (bd_id b) (inst, repo, pr, head)"
proof -
  obtain r where r: "first_by (\<lambda>r. - vd_id r) (filter (is_identity inst repo pr head) (vb_rows db)) = Some r" "b = verdict_bundle r"
    using assms by (auto simp: find_verdict_by_identity_def split: if_splits)
  from first_by_Some [OF r(1)] have "r \<in> set (vb_rows db)" "is_identity inst repo pr head r" by auto
  with r(2) show ?thesis
    by (auto simp: names_def commit_of_def is_identity_def verdict_bundle_def)
qed

lemma recorded_names: "recorded_of j db = Some b \<Longrightarrow> names db (bd_id b) (rj_key j)"
  by (auto simp: recorded_of_def rj_key_def dest: find_identity_names)

lemma saved_names:
  assumes "save_review now repo pr tier v cov (job_identity_args j) source db = (Return (Some (i, fresh)), db')"
    and "pr = rj_pr j"
  shows "names db' i (rj_key j)"
proof (cases fresh)
  case True
  with assms(1) have "db' = db\<lparr>vb_rows := vb_rows db @ [new_verdict now i repo pr tier v cov (job_identity_args j) source],
      vb_seq := vb_seq db + 1\<rparr>" by (auto dest: save_review_inserted)
  then show ?thesis
    by (simp add: names_def commit_of_def new_verdict_def job_identity_args_def rj_key_def assms(2))
next
  case False
  with assms(1) have "save_review now repo pr tier v cov \<lparr>ia_installation = Some (rj_installation j),
      ia_repo = Some (rj_repo j), ia_head = Some (rj_head_sha j)\<rparr> source db = (Return (Some (i, False)), db')"
    by (simp add: job_identity_args_def)
  from save_review_peer [OF this] obtain b where b: "db' = db" "bd_id b = i"
    "find_verdict_by_identity (rj_installation j) (rj_repo j) pr (rj_head_sha j) db = Some b" by blast
  from find_identity_names [OF b(3)] b(1,2) assms(2) show ?thesis by (simp add: rj_key_def)
qed

lemma find_id_names:
  assumes "verdicts_wf db" and "names db v k" and "find_verdict_by_id v db = Some b"
  shows "names db (bd_id b) k"
proof -
  have "bd_id b = v"
    using assms(3) by (auto simp: find_verdict_by_id_def load_verdict_row_def verdict_bundle_def find_Some_iff split: if_splits)
  with assms(2) show ?thesis by simp
qed

lemma fenced_calm:
  assumes "fenced r k w = (res, w')" and "\<And>b q. r = Return (b, q) \<Longrightarrow> rq_step (pw_queue w) q \<and> done_of q = done_of (pw_queue w)"
  shows "calm w w'"
  using assms by (auto simp: fenced_def intro: calm_queue split: sum.splits prod.splits)

lemma enqueue_steps:
  assumes "enqueue now now' inst repo name pr head base trigger q = Return (r, q')"
  shows "rq_step q q' \<and> done_of q' = done_of q"
  using assms rq_step.insert rq_step.revive done_of_insert done_of_revive
  by (auto simp: enqueue_def split: option.splits if_splits) (metis snd_conv)+

lemma calm_elsewhere: "pw_queue w' = pw_queue w \<Longrightarrow> pw_verdicts w' = pw_verdicts w \<Longrightarrow> pw_checks w' = pw_checks w \<Longrightarrow> calm w w'"
  by (simp add: calm_def)

lemma comment_calm: "comment_token sv owner name j summary fresh now w = (t, w') \<Longrightarrow> calm w w'"
  by (rule calm_elsewhere) (simp_all add: comment_token_keeps)

lemma record_calm: "calm w (record_and_log j t w)"
proof -
  have "calm w (w\<lparr>pw_queue := (pw_queue w)\<lparr>rq_jobs := update_where p (\<lambda>j. j\<lparr>rj_pr_comment := c\<rparr>) (rq_jobs (pw_queue w))\<rparr>\<rparr>)" for p c
    by (rule calm_queue [OF rq_step.comment done_of_comment])
  then show ?thesis by (simp add: record_and_log_def record_pr_comment_outcome_def)
qed

text \<open>The stages that only read or only talk to GitHub.\<close>

definition settles :: "job_stage \<Rightarrow> bool" where
  "settles st \<longleftrightarrow> (case st of Complete_Job v title summary fresh \<Rightarrow> True | Post_Check v title summary fresh \<Rightarrow> True | _ \<Rightarrow> False)"

lemma stage_calm:
  assumes "job_call sv j now st w = (res, w')" and "\<not> settles st"
  shows "calm w w'"
proof (cases st)
  case (Save_Review rr)
  have "calm w (w\<lparr>pw_verdicts := snd (save_review now (rj_repo_full_name j) (rj_pr j) (rr_tier rr) (rr_verdict rr)
      (rr_coverage rr) (job_identity_args j) (Some ''app'') (pw_verdicts w))\<rparr>)"
    by (rule calm_verdicts [OF verdict_step.review])
  with Save_Review assms(1) show ?thesis by (auto split: prod.splits sum.splits option.splits bool.splits)
next
  case (Save_Deviations v rr)
  have "calm w (w\<lparr>pw_verdicts := snd (save_deviations v fs refs al (pw_verdicts w))\<rparr>)" for fs refs al
    by (rule calm_verdicts [OF verdict_step.deviations])
  with Save_Deviations assms(1) show ?thesis by (auto split: option.splits)
next
  case Retire
  with assms(1) show ?thesis by (auto intro!: fenced_calm intro: rq_step.supersede done_of_holder)
next
  case (Displace head base)
  with assms(1) show ?thesis by (auto intro!: fenced_calm intro: rq_step.supersede done_of_holder)
next
  case (Requeue head base)
  with assms(1) show ?thesis
    by (auto split: sum.splits prod.splits dest!: enqueue_steps intro: calm_queue)
next
  case (Post_Comment v summary fresh)
  with assms(1) show ?thesis by (auto split: prod.splits intro: comment_calm)
next
  case (Record v t)
  with assms(1) show ?thesis by (auto intro: record_calm)
qed (use assms in \<open>auto simp: settles_def split: option.splits if_splits prod.splits sum.splits intro: calm_elsewhere\<close>)

lemma head_check_quiet: "head_check j p = Inr st \<Longrightarrow> stage_ok db j st \<and> post_at (Some (Working j st)) = None"
  by (auto simp: head_check_def split: if_splits option.splits)

lemma stage_next:
  assumes "job_call sv j now st w = (Inr st', w')" and "stage_ok (pw_verdicts w) j st" and "\<not> settles st"
    and "verdicts_wf (pw_verdicts w)"
  shows "stage_ok (pw_verdicts w') j st' \<and> post_at (Some (Working j st')) = None"
proof (cases st)
  case Lookup
  with assms(1) show ?thesis by (auto split: option.splits if_splits dest: recorded_names)
next
  case Check_Head
  with assms(1) show ?thesis by (auto split: sum.splits prod.splits dest: head_check_quiet)
next
  case (Save_Review rr)
  with assms(1) show ?thesis
    by (auto simp: names_opt_def split: prod.splits sum.splits option.splits bool.splits dest: saved_names)
next
  case (Find_Peer v)
  with assms show ?thesis by (auto split: option.splits dest: recorded_names find_id_names)
next
  case (Save_Deviations v rr)
  from stage_calm [OF assms(1,3)] assms(1,2) Save_Deviations show ?thesis
    unfolding calm_def by (auto simp: names_opt_def split: option.splits)
qed (use assms in \<open>auto simp: settles_def names_opt_def fenced_def split: prod.splits sum.splits\<close>)

text \<open>Completing a job: either the claim was lost and nothing changed, or the row is finished and may be posted.\<close>

lemma complete_ok:
  assumes ok: "crowd_ok (w, ws)" and n: "ws n = Some (Working j (Complete_Job v title summary fresh))"
    and call: "job_call sv j now (Complete_Job v title summary fresh) w = (res, w')"
  shows "(\<forall>st'. res = Inr st' \<longrightarrow> crowd_ok (w', ws(n \<mapsto> Working j st')))
    \<and> (\<forall>r. res = Inl r \<longrightarrow> calm w w')"
proof (cases "complete now (rj_id j) v (rj_generation j) (\<not> fresh \<or> v \<noteq> None) (pw_queue w)")
  case (Inl e)
  with call show ?thesis by (auto simp: fenced_def)
next
  case (Inr bq)
  then obtain won q where c: "complete now (rj_id j) v (rj_generation j) (\<not> fresh \<or> v \<noteq> None) (pw_queue w) = Return (won, q)"
    by (cases bq) auto
  from ok have world: "world_ok w" and workers: "\<And>m. worker_ok w (ws m)" and apart: "posts_apart ws"
    by (simp_all add: crowd_ok_def)
  have wf: "rq_wf (pw_queue w)" using world by (simp add: world_ok_def)
  show ?thesis
  proof (cases won)
    case False
    with done_of_complete [OF wf c] have "q = pw_queue w" by simp
    with call c False show ?thesis by (auto simp: fenced_def)
  next
    case True
    from workers [of n] n have v: "names_opt (pw_verdicts w) v (rj_key j)"
      and k: "row_key (pw_queue w) (rj_id j) = Some (rj_key j)" by (auto simp: worker_ok_def)
    then obtain r where r: "row_by rj_id (rj_id j) (rq_jobs (pw_queue w)) = Some r" "rj_key r = rj_key j"
      by (auto simp: row_key_def)
    from done_of_complete [OF wf c] True r have fresh_id: "done_of (pw_queue w) (rj_id j) = None"
      and d: "done_of q = (done_of (pw_queue w))(rj_id j \<mapsto> (rj_key j, v))" by auto
    have step: "rq_step (pw_queue w) q" using rq_step.complete [OF c] .
    have w': "w' = w\<lparr>pw_queue := q\<rparr>" and res: "res = Inr (Post_Check v title summary fresh)"
      using call c True by (simp_all add: fenced_def)
    have unposted: "\<not> posted w (rj_id j)"
      using world fresh_id by (fastforce simp: world_ok_def posted_def)
    have "world_ok w'"
      using world v rq_step_wf [OF step wf] fresh_id by (auto simp: world_ok_def w' d names_opt_def)
    moreover have "worker_ok w' (ws m)" if "m \<noteq> n" for m
    proof -
      have "done_of (pw_queue w) i = Some e \<Longrightarrow> done_of q i = Some e" for i e using fresh_id by (auto simp: d)
      with workers [of m] row_key_frame [OF rq_step_frame [OF step]] show ?thesis
        unfolding worker_ok_def w' posted_def by simp
    qed
    moreover have "worker_ok w' (Some (Working j (Post_Check v title summary fresh)))"
      using k row_key_frame [OF rq_step_frame [OF step]] unposted by (auto simp: worker_ok_def w' d posted_def)
    moreover have "post_at (ws m) \<noteq> Some (rj_id j, e)" for m e
      using workers [of m] fresh_id by (auto simp: worker_ok_def)
    then have "posts_apart (ws(n \<mapsto> Working j (Post_Check v title summary fresh)))"
      using apart by (auto simp: posts_apart_def)
    ultimately show ?thesis by (auto simp: res crowd_ok_def)
  qed
qed

lemma post_ok:
  assumes ok: "crowd_ok (w, ws)" and n: "ws n = Some (Working j (Post_Check v title summary fresh))"
    and call: "job_call sv j now (Post_Check v title summary fresh) w = (Inr st', w')"
  shows "crowd_ok (w', ws(n \<mapsto> Working j st'))"
proof -
  from ok have world: "world_ok w" and workers: "\<And>m. worker_ok w (ws m)" and apart: "posts_apart ws"
    by (simp_all add: crowd_ok_def)
  from workers [of n] n have d: "done_of (pw_queue w) (rj_id j) = Some (rj_key j, v)" and p: "\<not> posted w (rj_id j)"
    and k: "row_key (pw_queue w) (rj_id j) = Some (rj_key j)" by (auto simp: worker_ok_def)
  have st': "st' = Post_Comment v summary fresh" and w': "w' = w\<lparr>pw_checks := pw_checks w @
      [\<lparr>cp_job = rj_id j, cp_verdict = v, cp_head = rj_head_sha j,
          cp_title = cp_take TITLE_LIMIT title, cp_summary = cp_take SUMMARY_LIMIT summary\<rparr>]\<rparr>"
    using call by auto
  have "world_ok w'" using world d p by (auto simp: world_ok_def w' posted_def rj_key_def)
  moreover have "post_at (ws m) \<noteq> Some (rj_id j, e)" if "m \<noteq> n" for m e
    using apart n that unfolding posts_apart_def by (metis post_at.simps(1))
  then have "worker_ok w' (ws m)" if "m \<noteq> n" for m
    using workers [of m] that by (auto simp: worker_ok_def w' posted_def)
  moreover have "worker_ok w' (Some (Working j st'))" using k by (simp add: worker_ok_def st' w')
  moreover have "posts_apart (ws(n \<mapsto> Working j st'))" using apart by (auto simp: posts_apart_def st')
  ultimately show ?thesis by (auto simp: crowd_ok_def)
qed

lemma crowd_update: "crowd_ok (w, ws) \<Longrightarrow> worker_ok w x \<Longrightarrow> post_at x = None \<Longrightarrow> crowd_ok (w, ws(n := x))"
  by (rule calm_crowd [where w = w]) simp_all

lemma working_ok:
  assumes "crowd_ok (w, ws)" and "ws n = Some (Working j st)"
  shows "stage_ok (pw_verdicts w) j st" and "row_key (pw_queue w) (rj_id j) = Some (rj_key j)"
    and "verdicts_wf (pw_verdicts w)" and "rq_wf (pw_queue w)"
proof -
  have "worker_ok w (ws n)" "world_ok w" using assms(1) by (simp_all add: crowd_ok_def)
  with assms(2) show "stage_ok (pw_verdicts w) j st" "row_key (pw_queue w) (rj_id j) = Some (rj_key j)"
    "verdicts_wf (pw_verdicts w)" "rq_wf (pw_queue w)"
    by (simp_all add: worker_ok_def world_ok_def)
qed

lemma stage_crowd:
  assumes "crowd_ok (w, ws)" and "ws n = Some (Working j st)" and "job_call sv j now st w = (res, w')"
  shows "(\<forall>st'. res = Inr st' \<longrightarrow> crowd_ok (w', ws(n \<mapsto> Working j st'))) \<and> (\<forall>r. res = Inl r \<longrightarrow> calm w w')"
proof (cases "settles st")
  case False
  have calm: "calm w w'" by (rule stage_calm [OF assms(3) False])
  have "crowd_ok (w', ws(n \<mapsto> Working j st'))" if "res = Inr st'" for st'
  proof (rule calm_crowd [OF assms(1) calm])
    from stage_next [OF assms(3) [unfolded that] working_ok(1) [OF assms(1,2)] False working_ok(3) [OF assms(1,2)]]
    have s: "stage_ok (pw_verdicts w') j st'" "post_at (Some (Working j st')) = None" by simp_all
    show "post_at (Some (Working j st')) = None" by (rule s(2))
    from calm working_ok(2) [OF assms(1,2)] have "row_key (pw_queue w') (rj_id j) = Some (rj_key j)"
      unfolding calm_def by blast
    with s show "worker_ok w' (Some (Working j st'))" by (simp add: worker_ok_def)
  qed
  with calm show ?thesis by simp
next
  case True
  then consider (complete) v title summary fresh where "st = Complete_Job v title summary fresh"
    | (post) v title summary fresh where "st = Post_Check v title summary fresh"
    by (auto simp: settles_def split: job_stage.splits)
  then show ?thesis
  proof cases
    case complete
    with assms show ?thesis using complete_ok by blast
  next
    case post
    obtain st' where r: "res = Inr st'" using assms(3) unfolding post by auto
    from post_ok [OF assms(1) assms(2) [unfolded post] assms(3) [unfolded post r]] show ?thesis by (simp add: r)
  qed
qed

lemma claim_crowd:
  assumes "crowd_ok (w, ws)" and "claim locked now (pw_queue w) = (Some j, q)"
  shows "crowd_ok (w\<lparr>pw_queue := q\<rparr>, ws(n \<mapsto> Working j Lookup))"
proof -
  have step: "rq_step (pw_queue w) q" and d: "done_of q = done_of (pw_queue w)"
    using rq_step.claim [of "pw_queue w" locked now] done_of_claim [of locked now "pw_queue w"] assms(2) by simp_all
  have wf: "rq_wf (pw_queue w)" using assms(1) by (simp add: crowd_ok_def world_ok_def)
  have "j \<in> set (rq_jobs q)" using claim_holds [OF wf assms(2)] by simp
  moreover have "distinct (map rj_id (rq_jobs q))" using rq_step_wf [OF step wf] by (simp add: rq_wf_def)
  ultimately have "row_key q (rj_id j) = Some (rj_key j)" by (simp add: row_key_def row_by_in)
  then show ?thesis by (intro calm_crowd [OF assms(1) calm_queue [OF step d]]) (simp_all add: worker_ok_def)
qed

lemma calm_env: "calm w (w\<lparr>pw_ledger := lg, pw_counters := ct, pw_slots := sl, pw_denied := dn, pw_gh := g\<rparr>)"
  by (rule calm_elsewhere) simp_all

lemma crowd_step_ok: "crowd_step sv c c' \<Longrightarrow> crowd_ok c \<Longrightarrow> crowd_ok c'"
proof (induction rule: crowd_step.induct)
  case (take_job ws n locked now w j q)
  then show ?case by (auto intro: claim_crowd)
next
  case (stage ws n j st now w st' w')
  then show ?case using stage_crowd by blast
next
  case (ended ws n j st now w r w')
  with stage_crowd [of w ws n j st] have "calm w w'" by blast
  from calm_crowd [OF ended(3) this] show ?case by simp
next
  case (raised ws n j st now w e w')
  with stage_crowd [of w ws n j st] have "calm w w'" by blast
  from calm_crowd [OF raised(3) this] show ?case by simp
next
  case (fault ws n j st w e)
  then show ?case by (intro crowd_update) simp_all
next
  case (deviations_fault ws n j v rr w e)
  then show ?case using working_ok(1,2) [OF deviations_fault(2,1)]
    by (intro crowd_update) (simp_all add: worker_ok_def)
next
  case (give_up ws n j e now w b q)
  then show ?case using calm_queue [OF rq_step.fail [OF give_up(2)] done_of_holder(3) [OF give_up(2)]]
    by (auto intro: calm_crowd)
next
  case (lapped ws n j w b q)
  then show ?case using calm_queue [OF rq_step.release [OF lapped(2)] done_of_holder(1) [OF lapped(2)]]
    by (auto intro: calm_crowd)
next
  case (stop w ws n)
  then show ?case by (intro crowd_update) simp_all
next
  case (delivery w now inst repo name pr head base i q ws)
  then show ?case using calm_queue [OF rq_step.insert [OF delivery(1,2)] done_of_insert [OF delivery(2)]]
    by (auto intro: calm_others)
next
  case (collision w now inst repo pr head base trigger ws)
  show ?case by (rule calm_others [OF collision(2) calm_queue [OF rq_step.revive [OF collision(1)] done_of_revive]])
next
  case (reclaim w ws older now)
  show ?case by (rule calm_others [OF reclaim calm_queue [OF rq_step.reclaim done_of_reclaim]])
next
  case (comment_column w ws p c)
  show ?case by (rule calm_others [OF comment_column calm_queue [OF rq_step.comment done_of_comment]])
next
  case (verdicts w db ws)
  show ?case by (rule calm_others [OF verdicts(2) calm_verdicts [OF verdicts(1)]])
next
  case (elsewhere w ws lg ct sl dn g)
  show ?case by (rule calm_others [OF elsewhere calm_env])
qed

lemma crowd_run_ok: "(crowd_step sv)\<^sup>*\<^sup>* c c' \<Longrightarrow> crowd_ok c \<Longrightarrow> crowd_ok c'"
  by (induction rule: rtranclp_induct) (auto intro: crowd_step_ok)

text \<open>Before any work: no job is finished, no check run is posted, nobody works.\<close>

definition quiet_start :: "'g pipeline \<Rightarrow> bool" where
  "quiet_start w \<longleftrightarrow> rq_wf (pw_queue w) \<and> verdicts_wf (pw_verdicts w) \<and> list_all (\<lambda>j. rj_status j \<noteq> Done) (rq_jobs (pw_queue w))
     \<and> pw_checks w = []"

lemma start_ok: "quiet_start w \<Longrightarrow> crowd_ok (w, \<lambda>_. None)"
  by (auto simp: quiet_start_def crowd_ok_def world_ok_def posts_apart_def done_of_def list_all_iff
      dest: row_by_Some_in split: option.splits if_splits)

subsection \<open>What a run guarantees\<close>

text \<open>
  C1. At most one check run per job, and it is the right one: however the stages of any number of
  workers interleave with deaths, faults, retries, reclaims and deliveries, no two check runs are ever
  posted for one job; a posted check run is of a finished job, on that job's commit, and for the very
  verdict the job's row is finished with.
\<close>
theorem one_check_run_per_job:
  assumes "quiet_start w0" and "(crowd_step sv)\<^sup>*\<^sup>* (w0, \<lambda>_. None) (w, ws)"
  shows "distinct (map cp_job (pw_checks w))
    \<and> (\<forall>p \<in> set (pw_checks w). \<exists>j \<in> set (rq_jobs (pw_queue w)). rj_id j = cp_job p \<and> rj_status j = Done
           \<and> rj_verdict_id j = cp_verdict p \<and> rj_head_sha j = cp_head p)"
proof -
  have facts: "distinct (map cp_job (pw_checks w))"
      "\<forall>p \<in> set (pw_checks w). \<exists>j \<in> set (rq_jobs (pw_queue w)). rj_id j = cp_job p \<and> rj_status j = Done
           \<and> rj_verdict_id j = cp_verdict p \<and> rj_head_sha j = cp_head p"
  proof -
    have ok: "world_ok w" using crowd_run_ok [OF assms(2) start_ok [OF assms(1)]] by (simp add: crowd_ok_def)
    then show "distinct (map cp_job (pw_checks w))" by (simp add: world_ok_def)
    show "\<forall>p \<in> set (pw_checks w). \<exists>j \<in> set (rq_jobs (pw_queue w)). rj_id j = cp_job p \<and> rj_status j = Done
             \<and> rj_verdict_id j = cp_verdict p \<and> rj_head_sha j = cp_head p"
    proof
      fix p assume "p \<in> set (pw_checks w)"
      with ok obtain k where k: "done_of (pw_queue w) (cp_job p) = Some (k, cp_verdict p)" "cp_head p = snd (snd (snd k))"
        unfolding world_ok_def by blast
      then obtain j where "row_by rj_id (cp_job p) (rq_jobs (pw_queue w)) = Some j" "rj_status j = Done" "rj_key j = k"
        "rj_verdict_id j = cp_verdict p"
        by (auto simp: done_of_def split: option.splits if_splits)
      with k(2) show "\<exists>j \<in> set (rq_jobs (pw_queue w)). rj_id j = cp_job p \<and> rj_status j = Done
             \<and> rj_verdict_id j = cp_verdict p \<and> rj_head_sha j = cp_head p"
        by (auto simp: rj_key_def dest: row_by_Some_in)
    qed
  qed
  show ?thesis by (rule conjI [OF facts(1) facts(2)])
qed

lemma done_names:
  assumes "world_ok w" and "j \<in> set (rq_jobs (pw_queue w))" and "rj_status j = Done" and "rj_verdict_id j = Some v"
  shows "names (pw_verdicts w) v (rj_key j)"
proof -
  have "row_by rj_id (rj_id j) (rq_jobs (pw_queue w)) = Some j"
    using assms(1,2) by (simp add: world_ok_def rq_wf_def row_by_in)
  with assms(3,4) have "done_of (pw_queue w) (rj_id j) = Some (rj_key j, Some v)" by (simp add: done_of_def)
  with assms(1) show ?thesis unfolding world_ok_def by blast
qed

text \<open>
  C33. A finished job points at a verdict of its own commit: in every state of such a run, the verdict
  a done row names exists in the ledger and is of that row's installation, repository, pull request and
  head; so the verdict the comment repair loads for the job is there to be rendered.
\<close>
theorem done_job_names_its_own_verdict:
  assumes "quiet_start w0" and "(crowd_step sv)\<^sup>*\<^sup>* (w0, \<lambda>_. None) (w, ws)"
    and "j \<in> set (rq_jobs (pw_queue w))" and "rj_status j = Done" and "rj_verdict_id j = Some v"
  shows "\<exists>r \<in> set (vb_rows (pw_verdicts w)). vd_id r = v \<and> vd_installation r = Some (rj_installation j)
    \<and> vd_github_repo r = Some (rj_repo j) \<and> vd_pr r = rj_pr j \<and> vd_head r = Some (rj_head_sha j)"
proof -
  have "world_ok w" using crowd_run_ok [OF assms(2) start_ok [OF assms(1)]] by (simp add: crowd_ok_def)
  from done_names [OF this assms(3-5)] show ?thesis by (auto simp: names_def commit_of_def rj_key_def)
qed

subsection \<open>A worked run\<close>

text \<open>One worker claims a job whose commit is recorded, completes it and posts its check run.\<close>

definition start_world :: "string pipeline" where
  "start_world = (sample_world sample_ledger)\<lparr>pw_queue :=
     \<lparr>rq_configured = True, rq_jobs = [new_job 10 1 7 9 ''acme/web'' 4 ''c0ffee'' ''ba5e''], rq_next_id = 2\<rparr>\<rparr>"

definition done_queue :: review_db where
  "done_queue = sample_queue\<lparr>rq_jobs := [sample_job\<lparr>rj_status := Done, rj_verdict_id := Some 1, rj_finished_at := Some 30,
     rj_pr_comment := Some PR_COMMENT_OWED\<rparr>]\<rparr>"

lemma start_world_quiet: "quiet_start start_world"
  using sample_ledger_wf
  by (simp add: quiet_start_def start_world_def sample_world_def rq_wf_def new_job_def row_ok_def)

lemma worker_turn:
  assumes "ws 0 = Some (Working j st)" and "job_call sv j now st w = (Inr st', w')"
    and "(crowd_step sv)\<^sup>*\<^sup>* c (w, ws)"
  shows "(crowd_step sv)\<^sup>*\<^sup>* c (w', ws(0 \<mapsto> Working j st'))"
  by (rule rtranclp.rtrancl_into_rtrancl [OF assms(3)]) (rule crowd_step.stage, rule assms(1), rule assms(2))

lemma sample_run:
  "\<exists>ws title summary. (crowd_step sample_services)\<^sup>*\<^sup>* (start_world, \<lambda>_. None)
     ((sample_world sample_ledger)\<lparr>pw_queue := done_queue, pw_checks :=
        [\<lparr>cp_job = 1, cp_verdict = Some 1, cp_head = ''c0ffee'', cp_title = title, cp_summary = summary\<rparr>]\<rparr>, ws)"
proof -
  let ?w = "sample_world sample_ledger" and ?b = "read_back 1 ''reader'' sample_verdict None"
  let ?s = "\<lambda>st. [0 \<mapsto> Working sample_job st]"
  obtain title summary where shown: "render_recorded sample_formats (instrument_of sample_services sample_job 30 ?w)
      ''acme/web'' ''c0ffee'' sample_ledger ?b = (title, summary)" by fastforce
  have job: "rj_id sample_job = 1" "rj_generation sample_job = 1" "rj_head_sha sample_job = ''c0ffee''"
    "rj_repo_full_name sample_job = ''acme/web''" by (simp_all add: sample_job_def new_job_def)
  have "claim [] 20 (pw_queue start_world) = (Some sample_job, sample_queue)"
    by (simp add: claim_def start_world_def sample_queue_def sample_job_def new_job_def Let_def)
  from crowd_step.take_job [OF _ this, of "\<lambda>_. None" 0]
  have s1: "(crowd_step sample_services)\<^sup>*\<^sup>* (start_world, \<lambda>_. None) (?w, ?s Lookup)"
    by (intro r_into_rtranclp) (simp add: start_world_def sample_world_def)
  have c2: "job_call sample_services sample_job 30 Lookup ?w = (Inr (Render_Recorded ?b), ?w)"
    using saved_verdict_lookup
    by (simp add: recorded_of_def sample_job_def new_job_def sample_world_def sample_services_def split_slug_def)
  have c3: "job_call sample_services sample_job 30 (Render_Recorded ?b) ?w = (Inr (Complete_Job (Some 1) title summary False), ?w)"
    using shown by (simp add: job sample_services_def sample_world_def read_back_def)
  have c4: "job_call sample_services sample_job 30 (Complete_Job (Some 1) title summary False) ?w
      = (Inr (Post_Check (Some 1) title summary False), ?w\<lparr>pw_queue := done_queue\<rparr>)"
    by (simp add: fenced_def complete_def fenced_update_def sample_world_def sample_queue_def done_queue_def
        terminal_where_def sample_job_def new_job_def)
  note s4 = worker_turn [OF _ c4 worker_turn [OF _ c3 worker_turn [OF _ c2 s1]], simplified]
  have c5: "job_call sample_services sample_job 30 (Post_Check (Some 1) title summary False) (?w\<lparr>pw_queue := done_queue\<rparr>)
      = (Inr (Post_Comment (Some 1) summary False), ?w\<lparr>pw_queue := done_queue, pw_checks := [\<lparr>cp_job = 1, cp_verdict = Some 1,
          cp_head = ''c0ffee'', cp_title = cp_take TITLE_LIMIT title, cp_summary = cp_take SUMMARY_LIMIT summary\<rparr>]\<rparr>)"
    by (simp add: job sample_world_def)
  show ?thesis using worker_turn [OF _ c5 s4] by fastforce
qed

lemma one_check_run_per_job_witness:
  "\<exists>w ws. (crowd_step sample_services)\<^sup>*\<^sup>* (start_world, \<lambda>_. None) (w, ws) \<and> length (pw_checks w) = 1
     \<and> distinct (map cp_job (pw_checks w))"
proof -
  from sample_run obtain ws title summary where run: "(crowd_step sample_services)\<^sup>*\<^sup>* (start_world, \<lambda>_. None)
     ((sample_world sample_ledger)\<lparr>pw_queue := done_queue, pw_checks :=
        [\<lparr>cp_job = 1, cp_verdict = Some 1, cp_head = ''c0ffee'', cp_title = title, cp_summary = summary\<rparr>]\<rparr>, ws)" by blast
  show ?thesis
  proof (intro exI conjI)
    show "distinct (map cp_job (pw_checks ((sample_world sample_ledger)\<lparr>pw_queue := done_queue, pw_checks :=
        [\<lparr>cp_job = 1, cp_verdict = Some 1, cp_head = ''c0ffee'', cp_title = title, cp_summary = summary\<rparr>]\<rparr>)))"
      by (rule one_check_run_per_job [OF start_world_quiet run, THEN conjunct1])
  qed (use run in \<open>simp_all add: sample_world_def\<close>)
qed

lemma done_job_names_its_own_verdict_witness:
  "\<exists>r \<in> set (vb_rows sample_ledger). vd_id r = 1 \<and> vd_head r = Some ''c0ffee''"
proof -
  from sample_run obtain ws title summary where run: "(crowd_step sample_services)\<^sup>*\<^sup>* (start_world, \<lambda>_. None)
     ((sample_world sample_ledger)\<lparr>pw_queue := done_queue, pw_checks :=
        [\<lparr>cp_job = 1, cp_verdict = Some 1, cp_head = ''c0ffee'', cp_title = title, cp_summary = summary\<rparr>]\<rparr>, ws)" by blast
  have "\<exists>r \<in> set (vb_rows sample_ledger). vd_id r = 1 \<and> vd_installation r = Some 7 \<and> vd_github_repo r = Some 9
      \<and> vd_pr r = 4 \<and> vd_head r = Some ''c0ffee''"
    using done_job_names_its_own_verdict [OF start_world_quiet run, of "hd (rq_jobs done_queue)" 1]
    by (simp add: done_queue_def sample_job_def new_job_def sample_world_def)
  then show ?thesis by blast
qed

end
