(* ===== verification/Drain.thy ===== *)
theory Drain
  imports Job_Safety Metering
begin

text \<open>
  One pass of a worker (\<open>drain\<close> of \<open>api/doug/worker.py\<close>) and the repair of lost comments it ends with
  (\<open>retry_unposted_comments\<close>, with \<open>claim_pr_comment_retry\<close> and \<open>jobs_with_unposted_pr_comment\<close> of
  \<open>api/doug/store.py\<close>). The column \<open>pr_comment_attempts\<close>, which only the repair uses, is a map from job
  ids beside the queue. The clock of a pass is an argument.
\<close>

subsection \<open>Which comments are repaired\<close>

definition PR_COMMENT_MAX_RETRIES :: nat where "PR_COMMENT_MAX_RETRIES = 2"
definition PR_COMMENT_SETTLED_SECONDS :: int where "PR_COMMENT_SETTLED_SECONDS = 900"
definition PR_COMMENT_RETRY_WINDOW_SECONDS :: int where "PR_COMMENT_RETRY_WINDOW_SECONDS = 86400"
definition PR_COMMENT_RETRY_BATCH :: nat where "PR_COMMENT_RETRY_BATCH = 20"

type_synonym attempts = "int \<Rightarrow> nat"

definition unlanded :: "review_job \<Rightarrow> bool" where
  "unlanded j \<longleftrightarrow> (case rj_pr_comment j of
     None \<Rightarrow> False | Some t \<Rightarrow> t = PR_COMMENT_OWED \<or> startswith t ''failed:'')"

definition claim_pr_comment_retry :: "int \<Rightarrow> nat \<Rightarrow> review_db \<Rightarrow> attempts \<Rightarrow> bool \<times> attempts" where
  "claim_pr_comment_retry i n db att =
     (if \<not> rq_configured db then (False, att)
      else if \<exists>j \<in> set (rq_jobs db). rj_id j = i \<and> att i = n \<and> unlanded j then (True, att(i := n + 1))
      else (False, att))"

definition repairable :: "nat \<Rightarrow> int \<Rightarrow> int \<Rightarrow> instant \<Rightarrow> attempts \<Rightarrow> review_job \<Rightarrow> bool" where
  "repairable max_retries settled_for window now att j \<longleftrightarrow>
     rj_status j = Done \<and> unlanded j \<and> att (rj_id j) < max_retries
     \<and> (case rj_finished_at j of None \<Rightarrow> False
        | Some f \<Rightarrow> f \<le> now - seconds settled_for \<and> now - seconds window \<le> f)"

definition jobs_with_unposted_pr_comment ::
    "nat \<Rightarrow> int \<Rightarrow> int \<Rightarrow> nat \<Rightarrow> instant \<Rightarrow> attempts \<Rightarrow> review_db \<Rightarrow> review_job list" where
  "jobs_with_unposted_pr_comment max_retries settled_for window limit now att db =
     (if \<not> rq_configured db then []
      else take limit (sort_key (\<lambda>j. (the (rj_finished_at j), rj_id j))
             (filter (repairable max_retries settled_for window now att) (rq_jobs db))))"

subsection \<open>The repair\<close>

text \<open>One row of the sweep, as it was selected: whether it was tried, and the state after.\<close>

definition repair_one ::
    "'g services \<Rightarrow> instant \<Rightarrow> review_job \<times> nat \<Rightarrow> attempts \<times> 'g pipeline \<Rightarrow> nat \<times> attempts \<times> 'g pipeline" where
  "repair_one sv now jn s =
     (case (jn, s) of ((j, n), (att, w)) \<Rightarrow>
        (case (case rj_verdict_id j of None \<Rightarrow> None | Some v \<Rightarrow> find_verdict_by_id v (pw_verdicts w)) of
           None \<Rightarrow> (0, att, record_and_log j ''skipped:no-verdict'' w)
         | Some b \<Rightarrow>
             (case claim_pr_comment_retry (rj_id j) n (pw_queue w) att of
                (False, att') \<Rightarrow> (0, att', w)
              | (True, att') \<Rightarrow>
                  if sv_client sv (rj_installation j) \<noteq> None \<or> split_slug (rj_repo_full_name j) = None
                  then (0, att', record_and_log j ''failed:internal'' w)
                  else (1, att', post_pr_comment sv (owner_of j) (name_of j) j
                         (snd (render_recorded (sv_formats sv) (instrument_of sv j now w) (rj_repo_full_name j)
                                 (rj_head_sha j) (pw_verdicts w) b)) False now w))))"

fun repair_each ::
    "'g services \<Rightarrow> instant \<Rightarrow> (review_job \<times> nat) list \<Rightarrow> attempts \<times> 'g pipeline \<Rightarrow> nat \<times> attempts \<times> 'g pipeline" where
  "repair_each sv now [] s = (0, s)"
| "repair_each sv now (jn # jns) s =
     (case repair_one sv now jn s of (k, s') \<Rightarrow> (case repair_each sv now jns s' of (m, s'') \<Rightarrow> (k + m, s'')))"

definition retry_unposted_comments ::
    "'g services \<Rightarrow> instant \<Rightarrow> nat \<Rightarrow> attempts \<times> 'g pipeline \<Rightarrow> nat \<times> attempts \<times> 'g pipeline" where
  "retry_unposted_comments sv now limit s =
     repair_each sv now
       (map (\<lambda>j. (j, fst s (rj_id j)))
          (jobs_with_unposted_pr_comment PR_COMMENT_MAX_RETRIES PR_COMMENT_SETTLED_SECONDS
             PR_COMMENT_RETRY_WINDOW_SECONDS limit now (fst s) (pw_queue (snd s)))) s"

subsection \<open>The pass\<close>

text \<open>
  The claim loop with the attempts that are left: the ids tried, in order. A job met again ends the
  pass and is handed back; an exception hands the job to \<open>fail\<close>.
\<close>

definition handed_back :: "(rq_error, bool \<times> review_db) result \<Rightarrow> 'g pipeline \<Rightarrow> 'g pipeline" where
  "handed_back r w = (case r of Raise e \<Rightarrow> w | Return (b, q) \<Rightarrow> w\<lparr>pw_queue := q\<rparr>)"

fun drain_loop ::
    "'g services \<Rightarrow> (nat \<Rightarrow> nat \<Rightarrow> instant) \<Rightarrow> nat \<Rightarrow> int list \<Rightarrow> 'g pipeline \<Rightarrow> int list \<times> 'g pipeline" where
  "drain_loop sv clock 0 seen w = ([], w)"
| "drain_loop sv clock (Suc n) seen w =
     (case claim [] (clock n 20) (pw_queue w) of
        (None, q) \<Rightarrow> ([], w\<lparr>pw_queue := q\<rparr>)
      | (Some j, q) \<Rightarrow>
          (if rj_id j \<in> set seen
           then ([], handed_back (release (rj_id j) (rj_generation j) q) (w\<lparr>pw_queue := q\<rparr>))
           else (case process_job sv (clock n) j (w\<lparr>pw_queue := q\<rparr>) of
                   (r, w') \<Rightarrow>
                     let w'' = (case r of Return v \<Rightarrow> w'
                       | Raise e \<Rightarrow> handed_back (fail (clock n 0) (rj_id j) e (rj_generation j) Review_Queue.MAX_ATTEMPTS (pw_queue w')) w')
                     in (case drain_loop sv clock n (rj_id j # seen) w'' of (ids, v) \<Rightarrow> (rj_id j # ids, v)))))"

definition drain ::
    "'g services \<Rightarrow> (nat \<Rightarrow> nat \<Rightarrow> instant) \<Rightarrow> nat \<Rightarrow> attempts \<times> 'g pipeline \<Rightarrow> int list \<times> attempts \<times> 'g pipeline" where
  "drain sv clock max_jobs s =
     (case drain_loop sv clock max_jobs []
             ((snd s)\<lparr>pw_queue := snd (Review_Queue.reclaim_stalled Review_Queue.STALL_LEASE_SECONDS (clock max_jobs 0) (pw_queue (snd s)))\<rparr>) of
        (ids, w) \<Rightarrow> (ids, snd (retry_unposted_comments sv (clock max_jobs 1) PR_COMMENT_RETRY_BATCH (fst s, w))))"

subsection \<open>At most two repairs of a comment\<close>

text \<open>
  Any number of sweepers: each selects rows without a lock, and claims what it selected later, while
  the queue goes on. The log holds the claims that were won, one for every write to GitHub.
\<close>

inductive sweep_step ::
    "review_db \<times> attempts \<times> (int \<times> nat) set \<times> int list \<Rightarrow> review_db \<times> attempts \<times> (int \<times> nat) set \<times> int list \<Rightarrow> bool" where
  select: "j \<in> set (jobs_with_unposted_pr_comment PR_COMMENT_MAX_RETRIES settled_for window limit now att db) \<Longrightarrow>
    sweep_step (db, att, picked, won) (db, att, insert (rj_id j, att (rj_id j)) picked, won)"
| win: "(i, n) \<in> picked \<Longrightarrow> claim_pr_comment_retry i n db att = (True, att') \<Longrightarrow>
    sweep_step (db, att, picked, won) (db, att', picked, i # won)"
| lose: "(i, n) \<in> picked \<Longrightarrow> claim_pr_comment_retry i n db att = (False, att') \<Longrightarrow>
    sweep_step (db, att, picked, won) (db, att', picked, won)"
| queue: "rq_step db db' \<Longrightarrow> sweep_step (db, att, picked, won) (db', att, picked, won)"

text \<open>What was selected could be claimed when it was selected.\<close>

definition picked_below :: "review_db \<times> attempts \<times> (int \<times> nat) set \<times> int list \<Rightarrow> bool" where
  "picked_below s \<longleftrightarrow> (case s of (db, att, picked, won) \<Rightarrow> \<forall>(i, n) \<in> picked. n < PR_COMMENT_MAX_RETRIES)"

inductive_cases sweep_stepE: "sweep_step s t"

lemma selected_below:
  "j \<in> set (jobs_with_unposted_pr_comment m settled_for window limit now att db) \<Longrightarrow> att (rj_id j) < m"
  by (auto simp: jobs_with_unposted_pr_comment_def repairable_def split: if_splits dest!: in_set_takeD)

lemma retry_claim_cases:
  "claim_pr_comment_retry i n db att = (won, att') \<Longrightarrow> if won then att i = n \<and> att' = att(i := n + 1) else att' = att"
  by (auto simp: claim_pr_comment_retry_def split: if_splits)

interpretation repairs: capped_counter sweep_step "\<lambda>(db, att, picked, won). att" "\<lambda>(db, att, picked, won). won"
    "\<lambda>_. PR_COMMENT_MAX_RETRIES" picked_below
  by unfold_locales (auto elim!: sweep_stepE dest!: retry_claim_cases selected_below simp: picked_below_def)

text \<open>
  C23. However many sweepers select the same rows, a job's comment is repaired at most twice: over any
  interleaving of their selections and claims with the work of the queue, the claims won for one job
  are as many as its attempts column says and never more than two.
\<close>
theorem at_most_two_repairs:
  assumes "sweep_step\<^sup>*\<^sup>* (db, \<lambda>_. 0, {}, []) (db', att, picked, won)"
  shows "count_list won i = att i
    \<and> count_list won i \<le> PR_COMMENT_MAX_RETRIES"
  using repairs.grants_are_counted [OF assms, of i] by (simp add: picked_below_def)

text \<open>
  The sweep and its reservation agree: a selected row can be claimed at once by whoever selected
  it, and a job whose comment landed, was skipped or was denied is neither selected nor claimed.
\<close>
theorem selection_and_claim_agree:
  assumes "rq_wf db"
  shows "j \<in> set (jobs_with_unposted_pr_comment m settled_for window limit now att db) \<Longrightarrow>
      fst (claim_pr_comment_retry (rj_id j) (att (rj_id j)) db att)"
    and "j \<in> set (rq_jobs db) \<Longrightarrow> rj_pr_comment j = Some (outcome_token out) \<Longrightarrow>
      out \<in> {Created, Updated, Skipped_Stale, Denied_403} \<Longrightarrow>
      j \<notin> set (jobs_with_unposted_pr_comment m settled_for window limit now att db)
        \<and> \<not> fst (claim_pr_comment_retry (rj_id j) n db att)"
proof -
  assume "j \<in> set (jobs_with_unposted_pr_comment m settled_for window limit now att db)"
  then show "fst (claim_pr_comment_retry (rj_id j) (att (rj_id j)) db att)"
    by (auto simp: jobs_with_unposted_pr_comment_def claim_pr_comment_retry_def repairable_def
        split: if_splits dest!: in_set_takeD)
next
  assume j: "j \<in> set (rq_jobs db)" "rj_pr_comment j = Some (outcome_token out)"
    and out: "out \<in> {Created, Updated, Skipped_Stale, Denied_403}"
  have landed: "\<not> unlanded j"
    using j(2) out by (auto simp: unlanded_def outcome_token_def PR_COMMENT_OWED_def startswith_def)
  have "k = j" if "k \<in> set (rq_jobs db)" "rj_id k = rj_id j" for k
    using wf_id_unique [OF assms that(1) j(1) that(2)] .
  with landed show "j \<notin> set (jobs_with_unposted_pr_comment m settled_for window limit now att db)
        \<and> \<not> fst (claim_pr_comment_retry (rj_id j) n db att)"
    by (auto simp: jobs_with_unposted_pr_comment_def claim_pr_comment_retry_def repairable_def
        split: if_splits dest!: in_set_takeD)
qed

subsection \<open>A pass strands nothing\<close>

definition idle :: "review_db \<Rightarrow> bool" where
  "idle q \<longleftrightarrow> (\<forall>k \<in> set (rq_jobs q). rj_status k \<noteq> Running)"

definition only_claim :: "review_job \<Rightarrow> review_db \<Rightarrow> bool" where
  "only_claim j q \<longleftrightarrow>
     (\<forall>k \<in> set (rq_jobs q). rj_status k = Running \<longrightarrow> rj_id k = rj_id j \<and> rj_generation k = rj_generation j)"

text \<open>Whether the claim is behind the worker at a stage.\<close>

fun claim_spent :: "job_stage \<Rightarrow> bool" where
  "claim_spent (Requeue head base) = True"
| "claim_spent (Post_Check v title summary fresh) = True"
| "claim_spent (Post_Comment v summary fresh) = True"
| "claim_spent (Record v t) = True"
| "claim_spent st = False"

definition at_stage :: "review_job \<Rightarrow> job_stage \<Rightarrow> review_db \<Rightarrow> bool" where
  "at_stage j st q \<longleftrightarrow> (if claim_spent st then idle q else only_claim j q)"

lemma idle_only: "idle q \<Longrightarrow> only_claim j q"
  by (simp add: idle_def only_claim_def)

lemma fenced_idle:
  assumes "fenced_update (rj_id j) (rj_generation j) f q = Return (b, q')" and "only_claim j q"
    and "\<And>k. rj_status (f k) \<noteq> Running"
  shows "idle q'"
proof -
  have q': "q' = q\<lparr>rq_jobs := update_where (terminal_where (rj_id j) (rj_generation j)) f (rq_jobs q)\<rparr>"
    using assms(1) by (simp add: fenced_update_def split: if_splits)
  have "rj_status (if terminal_where (rj_id j) (rj_generation j) r then f r else r) \<noteq> Running" if "r \<in> set (rq_jobs q)" for r
    using that assms(2,3) unfolding only_claim_def terminal_where_def by auto
  then have "\<forall>k \<in> set (update_where (terminal_where (rj_id j) (rj_generation j)) f (rq_jobs q)). rj_status k \<noteq> Running"
    by (intro ballI) (elim in_update_where [THEN iffD1, THEN bexE], simp del: if_split)
  then show ?thesis by (simp add: idle_def q')
qed

lemma holders_idle:
  assumes "only_claim j q"
  shows "supersede now (rj_id j) (rj_generation j) q = Return (b, q') \<Longrightarrow> idle q'"
    and "complete now (rj_id j) v (rj_generation j) owes q = Return (b, q') \<Longrightarrow> idle q'"
    and "fail now (rj_id j) e (rj_generation j) m q = Return (b, q') \<Longrightarrow> idle q'"
    and "release (rj_id j) (rj_generation j) q = Return (b, q') \<Longrightarrow> idle q'"
  unfolding holder_defs by (erule fenced_idle [OF _ assms]; simp add: Let_def)+

lemma enqueue_idle:
  assumes "enqueue now now' inst repo name pr head base trigger q = Return (r, q')" and "idle q"
  shows "idle q'"
proof -
  have i: "idle q2" if "enqueue_insert now inst repo name pr head b q = Some (i, q2)" for b i q2
    using insert_shape(1) [OF that] assms(2) by (auto simp: idle_def new_job_def)
  have v: "idle (snd (revive now' inst repo pr head b trigger q))" for b
    using assms(2) by (auto simp: idle_def revive_def Let_def in_update_where split: if_splits)
  show ?thesis using assms(1) i v [of "the base"] by (auto simp: enqueue_def split: option.splits if_splits)
qed

lemma record_idle: "idle (pw_queue w) \<Longrightarrow> idle (pw_queue (record_and_log j t w))"
  by (auto simp: idle_def record_and_log_def record_pr_comment_outcome_def in_update_where split: if_splits)

lemma head_check_claim: "head_check j p = Inr st \<Longrightarrow> \<not> claim_spent st"
  and head_check_raises: "head_check j p \<noteq> Inl (Return v)"
  by (auto simp: head_check_def split: if_splits option.splits)

text \<open>Stages that never touch the queue: they raise or go on to a stage before the claim is spent.\<close>

fun queue_free :: "job_stage \<Rightarrow> bool" where
  "queue_free Lookup = True"
| "queue_free (Render_Recorded b) = True"
| "queue_free Check_Head = True"
| "queue_free (Read_Diff p) = True"
| "queue_free (Save_Review rr) = True"
| "queue_free (Find_Peer v) = True"
| "queue_free (Save_Deviations v rr) = True"
| "queue_free (Render_Fresh v rr) = True"
| "queue_free st = False"

lemma free_stage:
  assumes "queue_free st" and "job_call sv j now st w = (res, w')"
  shows "pw_queue w' = pw_queue w \<and> \<not> claim_spent st
    \<and> (case res of Inr st' \<Rightarrow> \<not> claim_spent st' | Inl (Return v) \<Rightarrow> False | Inl (Raise e) \<Rightarrow> True)"
proof (cases st)
  case Check_Head
  with assms(2) show ?thesis
    by (auto simp: head_check_raises split: sum.splits prod.splits dest: head_check_claim)
next
  case (Read_Diff p)
  with assms(2) show ?thesis by (auto split: sum.splits prod.splits)
next
  case (Save_Review rr)
  with assms(2) show ?thesis by (auto split: sum.splits prod.splits option.splits bool.splits)
qed (use assms in \<open>auto split: option.splits if_splits prod.splits\<close>)

lemma stage_claims:
  assumes "job_call sv j now st w = (res, w')" and "at_stage j st (pw_queue w)"
  shows "case res of Inr st' \<Rightarrow> at_stage j st' (pw_queue w')
    | Inl (Return v) \<Rightarrow> idle (pw_queue w') | Inl (Raise e) \<Rightarrow> only_claim j (pw_queue w')"
proof (cases "queue_free st")
  case True
  with free_stage [OF this assms(1)] assms(2) show ?thesis by (auto simp: at_stage_def split: sum.splits)
next
  case False
  then show ?thesis
  proof (cases st)
    case Retire
    with assms show ?thesis
      by (auto simp: at_stage_def fenced_def split: sum.splits prod.splits dest: holders_idle)
  next
    case (Displace head base)
    with assms show ?thesis
      by (auto simp: at_stage_def fenced_def split: sum.splits prod.splits dest: holders_idle)
  next
    case (Requeue head base)
    with assms show ?thesis
      by (auto simp: at_stage_def idle_only split: sum.splits prod.splits dest: enqueue_idle)
  next
    case (Complete_Job v title summary fresh)
    with assms show ?thesis
      by (auto simp: at_stage_def fenced_def split: sum.splits prod.splits if_splits dest: holders_idle)
  next
    case (Post_Comment v summary fresh)
    with assms show ?thesis by (auto simp: at_stage_def split: prod.splits dest!: comment_token_keeps)
  next
    case (Record v t)
    with assms show ?thesis by (auto simp: at_stage_def record_idle)
  next
    case (Post_Check v title summary fresh)
    with assms show ?thesis by (auto simp: at_stage_def)
  qed simp_all
qed

lemma stage_wf:
  assumes "job_call sv j now st w = (res, w')" and "rq_wf (pw_queue w)"
  shows "rq_wf (pw_queue w')"
proof (cases "settles st")
  case False
  from stage_calm [OF assms(1) False] assms(2) show ?thesis by (simp add: calm_def)
next
  case True
  with assms show ?thesis
    by (auto simp: settles_def fenced_def split: job_stage.splits sum.splits prod.splits
        intro: rq_step_wf [OF rq_step.complete])
qed

lemma run_claims:
  "run_job sv j clock st w = (r, w') \<Longrightarrow> at_stage j st (pw_queue w) \<Longrightarrow> rq_wf (pw_queue w) \<Longrightarrow>
     rq_wf (pw_queue w') \<and> (case r of Return v \<Rightarrow> idle (pw_queue w') | Raise e \<Rightarrow> only_claim j (pw_queue w'))"
proof (induction sv j clock st w arbitrary: r w' rule: run_job.induct)
  case (1 sv j clock st w)
  obtain res w1 where c: "job_call sv j (clock (stages_left st)) st w = (res, w1)" by fastforce
  note s = stage_claims [OF c 1(3)] and wf = stage_wf [OF c 1(4)]
  show ?case
  proof (cases res)
    case (Inl out)
    with c 1(2) have "r = out" "w' = w1" by (simp_all add: run_job.simps [of sv j clock st w])
    with s wf Inl show ?thesis by (cases out) simp_all
  next
    case (Inr st')
    with c 1(2) have run: "run_job sv j clock st' w1 = (r, w')" by (simp add: run_job.simps [of sv j clock st w])
    show ?thesis by (rule 1(1) [OF c [symmetric] Inr run _ wf]) (use s Inr in simp)
  qed
qed

lemma claim_only:
  assumes "rq_wf q" and "claim locked now q = (Some j, q')" and "idle q"
  shows "rq_wf q' \<and> only_claim j q'"
proof -
  obtain i where q': "rq_jobs q' = map (\<lambda>l. if rj_id l = i then j else l) (rq_jobs q)"
    using claim_takes_the_oldest [OF assms(1,2)] by blast
  have "only_claim j q'" using assms(3) by (auto simp: only_claim_def idle_def q')
  moreover have "rq_wf q'" using rq_step_wf [OF rq_step.claim [of q locked now] assms(1)] assms(2) by simp
  ultimately show ?thesis by simp
qed

lemma claim_idle: "claim locked now q = (None, q') \<Longrightarrow> idle q \<Longrightarrow> idle q'"
  by (auto simp: claim_def Let_def idle_def in_update_where find_None_iff split: if_splits option.splits)

lemma handed_idle:
  assumes "only_claim j (pw_queue w)" and "rq_wf (pw_queue w)" and "rq_configured (pw_queue w)"
  shows "idle (pw_queue (handed_back (fail now (rj_id j) e (rj_generation j) Review_Queue.MAX_ATTEMPTS (pw_queue w)) w))"
    and "rq_wf (pw_queue (handed_back (fail now (rj_id j) e (rj_generation j) Review_Queue.MAX_ATTEMPTS (pw_queue w)) w))"
    and "idle (pw_queue (handed_back (release (rj_id j) (rj_generation j) (pw_queue w)) w))"
    and "rq_wf (pw_queue (handed_back (release (rj_id j) (rj_generation j) (pw_queue w)) w))"
proof -
  obtain b q where f: "fail now (rj_id j) e (rj_generation j) Review_Queue.MAX_ATTEMPTS (pw_queue w) = Return (b, q)"
    using assms(3) by (simp add: fail_def fenced_update_def)
  obtain b' q' where r: "release (rj_id j) (rj_generation j) (pw_queue w) = Return (b', q')"
    using assms(3) by (simp add: release_def fenced_update_def)
  show "idle (pw_queue (handed_back (fail now (rj_id j) e (rj_generation j) Review_Queue.MAX_ATTEMPTS (pw_queue w)) w))"
    "rq_wf (pw_queue (handed_back (fail now (rj_id j) e (rj_generation j) Review_Queue.MAX_ATTEMPTS (pw_queue w)) w))"
    using holders_idle(3) [OF assms(1) f] rq_step_wf [OF rq_step.fail [OF f] assms(2)] by (simp_all add: f handed_back_def)
  show "idle (pw_queue (handed_back (release (rj_id j) (rj_generation j) (pw_queue w)) w))"
    "rq_wf (pw_queue (handed_back (release (rj_id j) (rj_generation j) (pw_queue w)) w))"
    using holders_idle(4) [OF assms(1) r] rq_step_wf [OF rq_step.release [OF r] assms(2)] by (simp_all add: r handed_back_def)
qed

lemma configured_complete: "complete now i v g owes q = Return (b, q') \<Longrightarrow> rq_configured q' = rq_configured q"
  using rq_step_frame [OF rq_step.complete] by (simp add: frame_def)

lemma stage_configured:
  assumes "job_call sv j now st w = (res, w')"
  shows "rq_configured (pw_queue w') = rq_configured (pw_queue w)"
proof (cases "queue_free st")
  case True
  from free_stage [OF this assms] show ?thesis by simp
next
  case False
  then show ?thesis
  proof (cases st)
    case Retire
    with assms show ?thesis
      by (auto simp: fenced_def supersede_def fenced_update_def split: sum.splits prod.splits if_splits)
  next
    case (Displace head base)
    with assms show ?thesis
      by (auto simp: fenced_def supersede_def fenced_update_def split: sum.splits prod.splits if_splits)
  next
    case (Requeue head base)
    with assms show ?thesis
      using rq_step_frame by (fastforce simp: frame_def dest!: enqueue_steps split: sum.splits prod.splits)
  next
    case (Complete_Job v title summary fresh)
    with assms show ?thesis
      by (auto simp: fenced_def split: sum.splits prod.splits dest: configured_complete)
  next
    case (Post_Comment v summary fresh)
    with assms show ?thesis by (auto split: prod.splits dest!: comment_token_keeps)
  next
    case (Record v t)
    with assms show ?thesis
      by (cases "rq_configured (pw_queue w)") (auto simp: record_and_log_def record_pr_comment_outcome_def)
  next
    case (Post_Check v title summary fresh)
    with assms show ?thesis by auto
  qed simp_all
qed

lemma run_configured:
  "run_job sv j clock st w = (r, w') \<Longrightarrow> rq_configured (pw_queue w') = rq_configured (pw_queue w)"
proof (induction sv j clock st w arbitrary: r w' rule: run_job.induct)
  case (1 sv j clock st w)
  obtain res w1 where c: "job_call sv j (clock (stages_left st)) st w = (res, w1)" by fastforce
  note conf = stage_configured [OF c]
  show ?case
  proof (cases res)
    case (Inl out)
    with c 1(2) conf show ?thesis by (simp add: run_job.simps [of sv j clock st w])
  next
    case (Inr st')
    with c 1(2) have run: "run_job sv j clock st' w1 = (r, w')" by (simp add: run_job.simps [of sv j clock st w])
    show ?thesis using 1(1) [OF c [symmetric] Inr run] conf by simp
  qed
qed

lemma loop_idle:
  assumes "drain_loop sv clock n seen w = (ids, w')" and "rq_wf (pw_queue w)" and "rq_configured (pw_queue w)"
    and "idle (pw_queue w)"
  shows "rq_wf (pw_queue w') \<and> idle (pw_queue w') \<and> length ids \<le> n \<and> distinct ids \<and> set ids \<inter> set seen = {}"
  using assms
proof (induction n arbitrary: seen w ids w')
  case 0
  then show ?case by simp
next
  case (Suc n)
  obtain found q where c: "claim [] (clock n 20) (pw_queue w) = (found, q)" by fastforce
  have conf: "rq_configured q" and wf: "rq_wf q"
    using rq_step_frame [OF rq_step.claim [of "pw_queue w" "[]" "clock n 20"]]
      rq_step_wf [OF rq_step.claim [of "pw_queue w" "[]" "clock n 20"] Suc.prems(2)] c Suc.prems(3)
    by (simp_all add: frame_def)
  show ?case
  proof (cases found)
    case None
    with c Suc.prems(1) have "ids = []" "w' = w\<lparr>pw_queue := q\<rparr>" by simp_all
    with claim_idle [OF c [unfolded None] Suc.prems(4)] wf show ?thesis by simp
  next
    case (Some j)
    have only: "only_claim j q" using claim_only [OF Suc.prems(2) c [unfolded Some] Suc.prems(4)] by simp
    show ?thesis
    proof (cases "rj_id j \<in> set seen")
      case True
      with c Some Suc.prems(1) have "ids = []"
        "w' = handed_back (release (rj_id j) (rj_generation j) q) (w\<lparr>pw_queue := q\<rparr>)" by simp_all
      with handed_idle(3,4) [of j "w\<lparr>pw_queue := q\<rparr>"] only wf conf show ?thesis by simp
    next
      case False
      obtain r w1 where run: "run_job sv j (clock n) Lookup (w\<lparr>pw_queue := q\<rparr>) = (r, w1)" by fastforce
      have s1: "rq_wf (pw_queue w1)" "case r of Return v \<Rightarrow> idle (pw_queue w1) | Raise e \<Rightarrow> only_claim j (pw_queue w1)"
        using run_claims [OF run] only wf by (simp_all add: at_stage_def)
      have c1: "rq_configured (pw_queue w1)" using run_configured [OF run] conf by simp
      define w2 where "w2 = (case r of Return v \<Rightarrow> w1
        | Raise e \<Rightarrow> handed_back (fail (clock n 0) (rj_id j) e (rj_generation j) Review_Queue.MAX_ATTEMPTS (pw_queue w1)) w1)"
      have w2: "rq_wf (pw_queue w2) \<and> idle (pw_queue w2) \<and> rq_configured (pw_queue w2)"
      proof (cases r)
        case (Inl e)
        have "rq_configured (pw_queue (handed_back (fail t i e g m (pw_queue w1)) w1)) = rq_configured (pw_queue w1)" for t i g m
          by (auto simp: handed_back_def fail_def fenced_update_def split: sum.split)
        with Inl handed_idle(1,2) [of j w1] s1 c1 show ?thesis by (simp add: w2_def)
      qed (use s1 c1 in \<open>simp add: w2_def\<close>)
      obtain rest w3 where l: "drain_loop sv clock n (rj_id j # seen) w2 = (rest, w3)" by fastforce
      have "ids = rj_id j # rest" "w' = w3"
        using Suc.prems(1) c Some False run l by (simp_all add: process_job_def w2_def Let_def)
      moreover have "rq_wf (pw_queue w3) \<and> idle (pw_queue w3) \<and> length rest \<le> n \<and> distinct rest
          \<and> set rest \<inter> set (rj_id j # seen) = {}"
        by (rule Suc.IH [OF l]) (use w2 in simp_all)
      ultimately show ?thesis using False by auto
    qed
  qed
qed

lemma repair_idle: "repair_each sv now jns (att, w) = (k, att', w') \<Longrightarrow> idle (pw_queue w) \<Longrightarrow> idle (pw_queue w')"
proof (induction jns arbitrary: att w k)
  case (Cons jn jns)
  obtain j n where jn: "jn = (j, n)" by fastforce
  obtain m att1 w1 where one: "repair_one sv now jn (att, w) = (m, att1, w1)" by (metis prod_cases3)
  have post: "idle (pw_queue (post_pr_comment sv ow nm j summary False now w))" if "idle (pw_queue w)" for ow nm summary
  proof -
    obtain t v where c: "comment_token sv ow nm j summary False now w = (t, v)" by fastforce
    with comment_token_keeps [OF c] that show ?thesis by (simp add: post_pr_comment_def record_idle)
  qed
  have "idle (pw_queue w1)"
    using one Cons.prems(2) by (auto simp: repair_one_def jn record_idle post split: option.splits prod.splits bool.splits if_splits)
  with Cons.prems(1) one Cons.IH show ?case by (auto split: prod.splits)
qed simp

text \<open>
  C35. A pass strands nothing: with no other worker about, \<open>drain\<close> tries at most the given number of
  jobs, none twice, and however the jobs ended (completed, superseded, raised, met again) no job is
  left running behind it.
\<close>
theorem drain_strands_nothing:
  assumes "drain sv clock max_jobs (att, w) = (ids, att', w')" and "rq_wf (pw_queue w)" and "rq_configured (pw_queue w)"
    and "idle (pw_queue w)"
  shows "idle (pw_queue w')
    \<and> length ids \<le> max_jobs
    \<and> distinct ids"
proof -
  have facts: "idle (pw_queue w')"
      "length ids \<le> max_jobs"
      "distinct ids"
  proof -
    let ?q = "snd (Review_Queue.reclaim_stalled Review_Queue.STALL_LEASE_SECONDS (clock max_jobs 0) (pw_queue w))"
    have q: "rq_wf ?q" "rq_configured ?q" "idle ?q"
      using assms(2-4) reclaim_wf rq_step_frame [OF rq_step.reclaim [of "pw_queue w"]]
      by (auto simp: frame_def) (auto simp: idle_def reclaim_stalled_def in_update_where split: if_splits)
    obtain w1 where l: "drain_loop sv clock max_jobs [] (w\<lparr>pw_queue := ?q\<rparr>) = (ids, w1)"
      and r: "(att', w') = snd (retry_unposted_comments sv (clock max_jobs 1) PR_COMMENT_RETRY_BATCH (att, w1))"
      using assms(1) by (auto simp: drain_def split: prod.splits)
    have s: "idle (pw_queue w1)" "length ids \<le> max_jobs" "distinct ids"
      using loop_idle [OF l] q by simp_all
    from r obtain k jns where "repair_each sv (clock max_jobs 1) jns (att, w1) = (k, att', w')"
      unfolding retry_unposted_comments_def by (metis fst_conv prod.collapse)
    from repair_idle [OF this s(1)] s(2,3) show "idle (pw_queue w')" "length ids \<le> max_jobs" "distinct ids" by simp_all
  qed
  show ?thesis by (rule conjI [OF facts(1) conjI [OF facts(2) facts(3)]])
qed

subsection \<open>Worked instances\<close>

lemma sweep_witness_selected:
  "sample_job\<lparr>rj_status := Done, rj_verdict_id := Some 1, rj_finished_at := Some 30, rj_pr_comment := Some PR_COMMENT_OWED\<rparr>
     \<in> set (jobs_with_unposted_pr_comment 2 900 86400 20 (seconds 1000) (\<lambda>_. 0) done_queue)"
  by (simp add: jobs_with_unposted_pr_comment_def done_queue_def sample_queue_def repairable_def unlanded_def seconds_def)

lemma at_most_two_repairs_witness: "count_list [1] (1 :: int) \<le> PR_COMMENT_MAX_RETRIES"
proof -
  have pick: "sweep_step (done_queue, \<lambda>_. 0, {}, []) (done_queue, \<lambda>_. 0, {(1, 0)}, [])"
    using sweep_step.select [OF sweep_witness_selected [folded PR_COMMENT_MAX_RETRIES_def], of "{}" "[]"]
    by (simp add: sample_job_def new_job_def PR_COMMENT_MAX_RETRIES_def)
  have "claim_pr_comment_retry 1 0 done_queue (\<lambda>_. 0) = (True, (\<lambda>_. 0)(1 := 1))"
    by (simp add: claim_pr_comment_retry_def done_queue_def sample_queue_def sample_job_def new_job_def unlanded_def)
  then have "sweep_step (done_queue, \<lambda>_. 0, {(1, 0)}, []) (done_queue, (\<lambda>_. 0)(1 := 1), {(1, 0)}, [1])"
    by (intro sweep_step.win) simp_all
  with pick have "sweep_step\<^sup>*\<^sup>* (done_queue, \<lambda>_. 0, {}, []) (done_queue, (\<lambda>_. 0)(1 := 1), {(1, 0)}, [1])"
    by (meson converse_rtranclp_into_rtranclp r_into_rtranclp)
  then show ?thesis by (rule at_most_two_repairs [THEN conjunct2])
qed

lemma selection_and_claim_agree_witness: "fst (claim_pr_comment_retry 1 0 done_queue (\<lambda>_. 0))"
proof -
  have "rq_wf done_queue"
    by (simp add: rq_wf_def done_queue_def sample_queue_def sample_job_def new_job_def row_ok_def)
  from selection_and_claim_agree(1) [OF this sweep_witness_selected] show ?thesis
    by (simp add: sample_job_def new_job_def)
qed

lemma drain_strands_nothing_witness:
  "idle (pw_queue (snd (snd (drain sample_services (\<lambda>_ _. seconds 30) 20 (\<lambda>_. 0, start_world)))))"
proof -
  have w: "rq_wf (pw_queue start_world)" "rq_configured (pw_queue start_world)" "idle (pw_queue start_world)"
    using start_world_quiet by (simp_all add: quiet_start_def start_world_def sample_world_def idle_def new_job_def)
  obtain ids att' w' where d: "drain sample_services (\<lambda>_ _. seconds 30) 20 (\<lambda>_. 0, start_world) = (ids, att', w')"
    by (metis prod_cases3)
  from drain_strands_nothing [OF d w, THEN conjunct1] show ?thesis by (simp add: d)
qed

end
