(* ===== verification/Webhook.thy ===== *)
theory Webhook
  imports Reconcile Drain Tenancy
begin

text \<open>
  The GitHub webhook of \<open>api/doug/api.py\<close>: \<open>github_webhook\<close> with its handlers, from the signature to
  the 202, and the background tasks it queues. The body is what \<open>json.loads\<close> makes of it; that
  function, \<open>verify_webhook\<close> and the text \<open>str()\<close> gives a value that is no string are arguments. One
  delivery runs between two other requests here; the races inside the store's writers are their own
  theories'. A result \<open>Return s\<close> is the HTTP status and \<open>Raise e\<close> an exception nobody handles, a 500.
\<close>

subsection \<open>The ledger a delivery reaches\<close>

datatype task = Reconcile_Then_Drain int | Drain_Queue | Merge_Lookup json

record 'g web =
  wb_pipe :: "'g pipeline"
  wb_attempts :: attempts
  wb_tokens :: "key_row list"
  wb_token_repos :: "(int \<times> int) list"
  wb_token_seq :: int
  wb_tasks :: "task list"

record 'g hooks =
  hk_secret :: string
  hk_verify :: "string \<Rightarrow> string \<Rightarrow> string \<Rightarrow> bool"
  hk_loads :: "string \<Rightarrow> json option"
  hk_str :: "json \<Rightarrow> string"
  hk_services :: "'g services"
  hk_rest :: "'g rest"

text \<open>The key tables lie in the same database as the registry; this is that view of it.\<close>

definition keys_view :: "'g web \<Rightarrow> key_db" where
  "keys_view w =
     registry.extend (registry.truncate (pw_ledger (wb_pipe w))) (key_db.fields (wb_tokens w) (wb_token_repos w) (wb_token_seq w))"

definition on_ledger :: "(ledger \<Rightarrow> ledger) \<Rightarrow> 'g web \<Rightarrow> 'g web" where
  "on_ledger f w = w\<lparr>wb_pipe := (wb_pipe w)\<lparr>pw_ledger := f (pw_ledger (wb_pipe w))\<rparr>\<rparr>"

definition revoke_keys :: "instant \<Rightarrow> int \<Rightarrow> 'g web \<Rightarrow> 'g web" where
  "revoke_keys now inst w = w\<lparr>wb_tokens := kd_tokens (snd (revoke_all_installation_tokens now inst (keys_view w)))\<rparr>"

definition queue_task :: "task \<Rightarrow> 'g web \<Rightarrow> 'g web" where
  "queue_task t w = w\<lparr>wb_tasks := wb_tasks w @ [t]\<rparr>"

subsection \<open>Installations\<close>

definition PR_ACTIONS :: "string list" where
  "PR_ACTIONS = [''opened'', ''synchronize'', ''reopened'', ''ready_for_review'']"

definition INSTALLATION_STATES :: "(string \<times> string) list" where
  "INSTALLATION_STATES = [(''created'', ''active''), (''deleted'', ''deleted''), (''suspend'', ''suspended''), (''unsuspend'', ''active'')]"

definition repo_list :: "json \<Rightarrow> (int \<times> string) list" where
  "repo_list raw =
     (case raw of
        JArr xs \<Rightarrow> List.map_filter (\<lambda>e. case (as_int (field e ''id''), text_of (Some FULL_NAME) (field e ''full_name'')) of
                     (Some i, Some n) \<Rightarrow> Some (i, n) | _ \<Rightarrow> None) xs
      | _ \<Rightarrow> [])"

definition or_empty :: "string option \<Rightarrow> string" where
  "or_empty x = (case x of None \<Rightarrow> [] | Some s \<Rightarrow> s)"

definition record_installation :: "(nat \<Rightarrow> instant) \<Rightarrow> json \<Rightarrow> string \<Rightarrow> string \<Rightarrow> int \<Rightarrow> 'g web \<Rightarrow> 'g web" where
  "record_installation t payload action state inst w =
     (let account = field (field payload ''installation'') ''account'';
          sender = as_int (field (field payload ''sender'') ''id'');
          w1 = on_ledger (\<lambda>lg. upsert_installation (t 0) inst
                 (or_empty (text_of (Some ACCOUNT_LOGIN) (field account ''login'')))
                 (or_empty (text_of (Some ACCOUNT_TYPE) (field account ''type''))) state
                 (if action = ''created'' then sender else None) (rg_installs lg) lg) w
      in if action = ''created''
         then on_ledger (set_installation_repos (t 1) inst (repo_list (field payload ''repositories'')) False ''active'') w1
         else if action = ''deleted''
         then revoke_keys (t 2) inst (on_ledger (set_installation_repos (t 1) inst [] True ''active'') w1)
         else w1)"

definition merge_repos :: "instant \<Rightarrow> json \<Rightarrow> string \<Rightarrow> string \<Rightarrow> int \<Rightarrow> 'g web \<Rightarrow> 'g web" where
  "merge_repos now payload key state inst w =
     (let repos = repo_list (field payload key)
      in if repos = [] then w else on_ledger (set_installation_repos now inst repos False state) w)"

definition merge_installation_repos :: "(nat \<Rightarrow> instant) \<Rightarrow> json \<Rightarrow> int \<Rightarrow> 'g web \<Rightarrow> 'g web" where
  "merge_installation_repos t payload inst w =
     merge_repos (t 1) payload ''repositories_removed'' ''removed'' inst
       (merge_repos (t 0) payload ''repositories_added'' ''active'' inst w)"

subsection \<open>Pull requests\<close>

definition enqueue_pull_request ::
    "(nat \<Rightarrow> instant) \<Rightarrow> json \<Rightarrow> int \<Rightarrow> review_db \<Rightarrow> (rq_error, int option \<times> review_db) result" where
  "enqueue_pull_request t payload inst db =
     (let pr = field payload ''pull_request''
      in if field pr ''draft'' \<noteq> JBool False then Return (None, db)
      else let base_ref = field pr ''base''; base = field base_ref ''repo''; head = field pr ''head'';
               base_id = as_int (field base ''id''); head_id = as_int (field (field head ''repo'') ''id'')
      in if base_id = None \<or> head_id = None \<or> head_id \<noteq> base_id then Return (None, db)
      else let user = field pr ''user''
      in if is_bot_author (field user ''type'') (field user ''login'') then Return (None, db)
      else (case (as_int (field pr ''number''), text_of (Some FULL_NAME) (field base ''full_name''),
                  text_of (Some SHA_COLUMN) (field base_ref ''sha''), text_of (Some SHA_COLUMN) (field head ''sha'')) of
              (Some number, Some full_name, Some base_sha, Some head_sha) \<Rightarrow>
                enqueue (t 0) (t 1) inst (the base_id) full_name number head_sha (Some base_sha) ''live'' db
            | _ \<Rightarrow> Return (None, db)))"

text \<open>\<open>str(full_name or "")\<close>.\<close>

definition slug_text :: "(json \<Rightarrow> string) \<Rightarrow> json \<Rightarrow> string" where
  "slug_text to_str v = (if truthy v then (case v of JStr s \<Rightarrow> s | _ \<Rightarrow> to_str v) else [])"

text \<open>\<open>_record_merge\<close>: whether the payload is worth the look-up off the request path.\<close>

definition record_merge ::
    "'g hooks \<Rightarrow> bool \<Rightarrow> instant \<Rightarrow> json \<Rightarrow> int \<Rightarrow> 'g pipeline \<Rightarrow> bool \<times> 'g pipeline" where
  "record_merge h allow_lookup now payload inst w =
     (let pr = field payload ''pull_request''
      in if \<not> truthy (field pr ''merged'') then (False, w)
      else let base = field pr ''base''; merged_at = payload_timestamp (field pr ''merged_at'');
               base_ref = text_of (Some BASE_REF) (field base ''ref''); number = as_int (field pr ''number'');
               repo_id = as_int (field (field base ''repo'') ''id'');
               slug = slug_text (hk_str h) (field (field base ''repo'') ''full_name'');
               owner = until_slash slug; name = after_slash slug;
               carried = text_of (Some SHA_COLUMN) (field pr ''merge_commit_sha'');
               can_look_up = (number \<noteq> None \<and> as_int (field (field payload ''installation'') ''id'') \<noteq> None
                              \<and> owner \<noteq> [] \<and> name \<noteq> [])
      in if carried = None \<and> \<not> allow_lookup
         then (can_look_up \<and> merged_at \<noteq> None \<and> base_ref \<noteq> None \<and> repo_id \<noteq> None, w)
      else (case (if carried = None \<and> can_look_up
                  then Payload.resolve JNull (sv_client (hk_services h) inst) (re_graphql (hk_rest h)) owner name (the number) (pw_gh w)
                  else (carried, pw_gh w)) of
              (sha, g) \<Rightarrow>
                (False,
                 (case (merged_at, sha, base_ref, number, repo_id) of
                    (Some at_time, Some commit, Some ref, Some n, Some repo) \<Rightarrow>
                      w\<lparr>pw_gh := g, pw_ledger := snd (enqueue_outcome_jobs now inst repo n commit at_time ref WINDOW_DAYS
                          (text_of (Some SHA_COLUMN) (field (field pr ''head'') ''sha'')) (pw_ledger w))\<rparr>
                  | _ \<Rightarrow> w\<lparr>pw_gh := g\<rparr>))))"

subsection \<open>Reviews by others\<close>

definition review_band :: "string \<Rightarrow> band option" where
  "review_band state = (if state = ''approved'' then Some Cleared else if state = ''changes_requested'' then Some Flagged else None)"

definition record_external_review :: "json \<Rightarrow> int \<Rightarrow> verdict_db \<Rightarrow> verdict_db" where
  "record_external_review payload inst db =
     (let review = field payload ''review''; pr = field payload ''pull_request''
      in case (case field review ''state'' of JStr s \<Rightarrow> review_band (lower s) | _ \<Rightarrow> None) of
           None \<Rightarrow> db
         | Some b \<Rightarrow>
             let base_repo = field (field pr ''base'') ''repo'';
                 source = (case text_of None (field (field review ''user'') ''login'') of
                             None \<Rightarrow> None | Some login \<Rightarrow> text_of (Some SOURCE_COLUMN) (JStr (''review:'' @ login)))
             in (case (payload_timestamp (field review ''submitted_at''), text_of (Some SHA_COLUMN) (field review ''commit_id''),
                       source, text_of (Some FULL_NAME) (field base_repo ''full_name''), as_int (field pr ''number''),
                       as_int (field base_repo ''id'')) of
                   (Some scored_at, Some head, Some src, Some repo, Some number, Some repo_id) \<Rightarrow>
                     snd (save_external_review inst repo_id repo number head src b (as_utc scored_at) (vb_rows db) db)
                 | _ \<Rightarrow> db))"

subsection \<open>The endpoint\<close>

definition handled :: "string \<Rightarrow> string \<Rightarrow> bool" where
  "handled event action \<longleftrightarrow>
     (event = ''installation'' \<and> action \<in> fst ` set INSTALLATION_STATES)
     \<or> (event = ''installation_repositories'' \<and> action \<in> {''added'', ''removed''})
     \<or> (event = ''pull_request'' \<and> (action \<in> set PR_ACTIONS \<or> action = ''closed''))
     \<or> (event = ''pull_request_review'' \<and> action = ''submitted'')"

text \<open>What is done with a handled delivery of a known installation; only \<open>enqueue\<close> can raise.\<close>

definition deliver ::
    "'g hooks \<Rightarrow> (nat \<Rightarrow> instant) \<Rightarrow> string \<Rightarrow> string \<Rightarrow> json \<Rightarrow> int \<Rightarrow> 'g web \<Rightarrow> (rq_error, 'g web) result" where
  "deliver h t event action payload inst w =
     (if event = ''installation''
      then (let w1 = record_installation t payload action (the (map_of INSTALLATION_STATES action)) inst w
            in Return (if action = ''created'' then queue_task (Reconcile_Then_Drain inst) w1 else w1))
      else if event = ''installation_repositories'' then Return (merge_installation_repos t payload inst w)
      else if event = ''pull_request''
      then (if action = ''closed''
            then (case record_merge h False (t 0) payload inst (wb_pipe w) of
                    (retry, p) \<Rightarrow> Return ((if retry then queue_task (Merge_Lookup payload) else id) (w\<lparr>wb_pipe := p\<rparr>)))
            else (case enqueue_pull_request t payload inst (pw_queue (wb_pipe w)) of
                    Raise e \<Rightarrow> Raise e
                  | Return (job, q) \<Rightarrow>
                      Return ((if job \<noteq> None then queue_task Drain_Queue else id) (w\<lparr>wb_pipe := (wb_pipe w)\<lparr>pw_queue := q\<rparr>\<rparr>))))
      else Return (w\<lparr>wb_pipe := (wb_pipe w)\<lparr>pw_verdicts := record_external_review payload inst (pw_verdicts (wb_pipe w))\<rparr>\<rparr>))"

definition github_webhook ::
    "'g hooks \<Rightarrow> (nat \<Rightarrow> instant) \<Rightarrow> string \<Rightarrow> string \<Rightarrow> string \<Rightarrow> 'g web \<Rightarrow> (rq_error, nat) result \<times> 'g web" where
  "github_webhook h t event signature body w =
     (if hk_secret h = [] then (Return 503, w)
      else if \<not> startswith signature ''sha256='' then (Return 401, w)
      else if \<not> hk_verify h (hk_secret h) body signature then (Return 401, w)
      else (case hk_loads h body of
        Some (JObj d) \<Rightarrow>
          (let action = or_empty (text_of None (jget d ''action''))
           in if \<not> handled event action then (Return 202, w)
              else if \<not> rg_configured (pw_ledger (wb_pipe w)) then (Return 503, w)
              else (case as_int (field (jget d ''installation'') ''id'') of
                      None \<Rightarrow> (Return 202, w)
                    | Some inst \<Rightarrow>
                        (case deliver h t event action (JObj d) inst w of
                           Raise e \<Rightarrow> (Raise e, w) | Return w' \<Rightarrow> (Return 202, w'))))
      | _ \<Rightarrow> (Return 202, w)))"

subsection \<open>The background tasks\<close>

definition DRAIN_MAX_JOBS :: nat where "DRAIN_MAX_JOBS = 20"

definition drain_web :: "'g hooks \<Rightarrow> (nat \<Rightarrow> nat \<Rightarrow> instant) \<Rightarrow> 'g web \<Rightarrow> 'g web" where
  "drain_web h clock w =
     (case drain (hk_services h) clock DRAIN_MAX_JOBS (wb_attempts w, wb_pipe w) of
        (ids, att, p) \<Rightarrow> w\<lparr>wb_attempts := att, wb_pipe := p\<rparr>)"

text \<open>An exception of the first sweep ends \<open>_reconcile_then_drain\<close>; \<open>_record_merge_with_lookup\<close> never raises.\<close>

definition run_task ::
    "'g hooks \<Rightarrow> instant \<Rightarrow> (nat \<Rightarrow> nat \<Rightarrow> nat \<Rightarrow> instant) \<Rightarrow> task \<Rightarrow> 'g web \<Rightarrow> 'g web" where
  "run_task h now clock task w =
     (case task of
        Reconcile_Then_Drain inst \<Rightarrow>
          (case reconcile_installation (hk_services h) (hk_rest h) inst ''reconcile'' (clock 0) (wb_pipe w) of
             (Raise e, p) \<Rightarrow> w\<lparr>wb_pipe := p\<rparr>
           | (Return n, p) \<Rightarrow>
               let w1 = drain_web h (clock 1) (w\<lparr>wb_pipe := p\<rparr>)
               in w1\<lparr>wb_pipe := snd (reconcile_outcomes (hk_services h) (hk_rest h) inst now (clock 2) (wb_pipe w1))\<rparr>)
      | Drain_Queue \<Rightarrow> drain_web h (clock 0) w
      | Merge_Lookup payload \<Rightarrow>
          (case as_int (field (field payload ''installation'') ''id'') of
             None \<Rightarrow> w
           | Some inst \<Rightarrow> w\<lparr>wb_pipe := snd (record_merge h True now payload inst (wb_pipe w))\<rparr>))"

subsection \<open>Every delivery is answered\<close>

definition authentic :: "'g hooks \<Rightarrow> string \<Rightarrow> string \<Rightarrow> bool" where
  "authentic h signature body \<longleftrightarrow>
     hk_secret h \<noteq> [] \<and> startswith signature ''sha256='' \<and> hk_verify h (hk_secret h) body signature"

lemma enqueue_Return:
  assumes "rq_configured db" and "base \<noteq> []"
  shows "\<exists>r. enqueue now now' inst repo name pr head (Some base) trigger db = Return r"
  using assms by (auto simp: enqueue_def split: option.splits)

lemma enqueue_pull_request_Return:
  assumes "rq_configured db"
  shows "\<exists>r. enqueue_pull_request t payload inst db = Return r"
  using enqueue_Return [OF assms]
  by (auto simp: enqueue_pull_request_def Let_def text_of_nonempty split: option.splits)

lemma deliver_Return:
  assumes "rq_configured (pw_queue (wb_pipe w))"
  shows "\<exists>w'. deliver h t event action payload inst w = Return w'"
  using enqueue_pull_request_Return [OF assms, of t payload inst]
  by (auto simp: deliver_def Let_def split: prod.splits)

text \<open>The one place where a delivery takes effect.\<close>

lemma github_webhook_cases:
  assumes "rg_configured (pw_ledger (wb_pipe w)) \<Longrightarrow> rq_configured (pw_queue (wb_pipe w))"
  obtains (rejected) s where "\<forall>u. github_webhook h u event signature body w = (Return s, w)"
      and "s = 401 \<or> s = 503" and "\<not> (authentic h signature body \<and> rg_configured (pw_ledger (wb_pipe w)))"
    | (ignored) "\<forall>u. github_webhook h u event signature body w = (Return 202, w)" and "authentic h signature body"
    | (taken) d inst w' where "github_webhook h t event signature body w = (Return 202, w')" and "authentic h signature body"
      and "hk_loads h body = Some (JObj d)" and "handled event (or_empty (text_of None (jget d ''action'')))"
      and "as_int (field (jget d ''installation'') ''id'') = Some inst" and "rg_configured (pw_ledger (wb_pipe w))"
      and "deliver h t event (or_empty (text_of None (jget d ''action''))) (JObj d) inst w = Return w'"
proof (cases "authentic h signature body")
  case False
  then have "\<exists>s. (\<forall>u. github_webhook h u event signature body w = (Return s, w)) \<and> (s = 401 \<or> s = 503)"
    by (auto simp: github_webhook_def authentic_def)
  with False rejected show ?thesis by blast
next
  case auth: True
  then have head: "\<not> hk_secret h = []" "\<not> \<not> startswith signature ''sha256=''" "\<not> \<not> hk_verify h (hk_secret h) body signature"
    by (simp_all add: authentic_def)
  show ?thesis
  proof (cases "\<exists>d. hk_loads h body = Some (JObj d)")
    case False
    with head have "\<forall>u. github_webhook h u event signature body w = (Return 202, w)"
      by (auto simp: github_webhook_def split: option.splits json.splits)
    with auth show ?thesis by (rule ignored [rotated])
  next
    case True
    then obtain d where d: "hk_loads h body = Some (JObj d)" by blast
    let ?a = "or_empty (text_of None (jget d ''action''))"
    show ?thesis
    proof (cases "handled event ?a")
      case False
      with head d have "\<forall>u. github_webhook h u event signature body w = (Return 202, w)" by (simp add: github_webhook_def)
      with auth show ?thesis by (rule ignored [rotated])
    next
      case ok: True
      show ?thesis
      proof (cases "rg_configured (pw_ledger (wb_pipe w))")
        case False
        with head d ok have "\<forall>u. github_webhook h u event signature body w = (Return 503, w)" by (simp add: github_webhook_def)
        with False show ?thesis by (intro rejected) auto
      next
        case conf: True
        show ?thesis
        proof (cases "as_int (field (jget d ''installation'') ''id'')")
          case None
          with head d ok conf have "\<forall>u. github_webhook h u event signature body w = (Return 202, w)" by (simp add: github_webhook_def)
          with auth show ?thesis by (rule ignored [rotated])
        next
          case (Some inst)
          obtain w' where w': "deliver h t event ?a (JObj d) inst w = Return w'"
            using deliver_Return [OF assms [OF conf]] by blast
          with head d ok conf Some have "github_webhook h t event signature body w = (Return 202, w')"
            by (simp add: github_webhook_def)
          from taken [OF this auth d ok Some conf w'] show ?thesis .
        qed
      qed
    qed
  qed
qed


subsection \<open>One gate\<close>

lemma enqueue_pull_request_gate:
  "enqueue_pull_request t payload inst db =
     (let pr = field payload ''pull_request''
      in if skip_reason pr \<noteq> None then Return (None, db)
         else (case (as_int (field pr ''number''), text_of (Some FULL_NAME) (field (field (field pr ''base'') ''repo'') ''full_name''),
                     text_of (Some SHA_COLUMN) (field (field pr ''base'') ''sha''), text_of (Some SHA_COLUMN) (field (field pr ''head'') ''sha'')) of
                 (Some number, Some full_name, Some base_sha, Some head_sha) \<Rightarrow>
                   enqueue (t 0) (t 1) inst (the (as_int (field (field (field pr ''base'') ''repo'') ''id''))) full_name number
                     head_sha (Some base_sha) ''live'' db
               | _ \<Rightarrow> Return (None, db)))"
  unfolding enqueue_pull_request_def Let_def skip_reason_None may_be_reviewed_def by auto


subsection \<open>What a delivery can touch\<close>

lemma record_merge_fast:
  "record_merge h False now payload inst p = (retry, p') \<Longrightarrow>
     p' = p\<lparr>pw_ledger := pw_ledger p'\<rparr> \<and> (retry \<longrightarrow> p' = p)"
  by (auto simp: record_merge_def Let_def split: if_splits option.splits)

lemma deliver_simps:
  "deliver h t ''installation'' action payload inst w =
     (let w1 = record_installation t payload action (the (map_of INSTALLATION_STATES action)) inst w
      in Return (if action = ''created'' then queue_task (Reconcile_Then_Drain inst) w1 else w1))"
  "deliver h t ''installation_repositories'' action payload inst w = Return (merge_installation_repos t payload inst w)"
  "deliver h t ''pull_request'' ''closed'' payload inst w =
     (case record_merge h False (t 0) payload inst (wb_pipe w) of
        (retry, p) \<Rightarrow> Return ((if retry then queue_task (Merge_Lookup payload) else id) (w\<lparr>wb_pipe := p\<rparr>)))"
  "action \<noteq> ''closed'' \<Longrightarrow> deliver h t ''pull_request'' action payload inst w =
     (case enqueue_pull_request t payload inst (pw_queue (wb_pipe w)) of
        Raise e \<Rightarrow> Raise e
      | Return (job, q) \<Rightarrow>
          Return ((if job \<noteq> None then queue_task Drain_Queue else id) (w\<lparr>wb_pipe := (wb_pipe w)\<lparr>pw_queue := q\<rparr>\<rparr>)))"
  "event \<notin> {''installation'', ''installation_repositories'', ''pull_request''} \<Longrightarrow> deliver h t event action payload inst w =
     Return (w\<lparr>wb_pipe := (wb_pipe w)\<lparr>pw_verdicts := record_external_review payload inst (pw_verdicts (wb_pipe w))\<rparr>\<rparr>)"
  by (simp_all add: deliver_def)

lemma deliver_cases:
  obtains (install) "event = ''installation''" | (repos) "event = ''installation_repositories''"
    | (closed) "event = ''pull_request''" "action = ''closed''" | (opened) "event = ''pull_request''" "action \<noteq> ''closed''"
    | (review) "event \<notin> {''installation'', ''installation_repositories'', ''pull_request''}"
  by blast

text \<open>The parts of the state each kind of delivery leaves alone.\<close>

lemma record_installation_keeps:
  "wb_pipe (record_installation t payload action state inst w)
     = (wb_pipe w)\<lparr>pw_ledger := pw_ledger (wb_pipe (record_installation t payload action state inst w))\<rparr>"
  "wb_tasks (record_installation t payload action state inst w) = wb_tasks w"
  "wb_token_repos (record_installation t payload action state inst w) = wb_token_repos w"
  "wb_token_seq (record_installation t payload action state inst w) = wb_token_seq w"
  "wb_attempts (record_installation t payload action state inst w) = wb_attempts w"
  by (simp_all add: record_installation_def on_ledger_def revoke_keys_def Let_def)

lemma merge_installation_repos_keeps:
  "\<exists>lg. merge_installation_repos t payload inst w = w\<lparr>wb_pipe := (wb_pipe w)\<lparr>pw_ledger := lg\<rparr>\<rparr>"
proof -
  have one: "\<exists>lg. merge_repos now payload k st inst v = v\<lparr>wb_pipe := (wb_pipe v)\<lparr>pw_ledger := lg\<rparr>\<rparr>" for now k st v
    by (cases "repo_list (field payload k) = []")
       (auto simp: merge_repos_def on_ledger_def Let_def intro: exI [of _ "pw_ledger (wb_pipe v)"])
  obtain lg where "merge_repos (t 0) payload ''repositories_added'' ''active'' inst w = w\<lparr>wb_pipe := (wb_pipe w)\<lparr>pw_ledger := lg\<rparr>\<rparr>"
    using one by blast
  with one [of "t 1" "''repositories_removed''" "''removed''" "w\<lparr>wb_pipe := (wb_pipe w)\<lparr>pw_ledger := lg\<rparr>\<rparr>"]
  show ?thesis by (auto simp: merge_installation_repos_def)
qed

text \<open>What a delivery may have done to the rest: \<open>news\<close> are the tasks it queued.\<close>

lemma deliver_touches:
  assumes "deliver h t event action payload inst w = Return w'"
  shows "\<exists>lg q v news. wb_pipe w' = (wb_pipe w)\<lparr>pw_ledger := lg, pw_queue := q, pw_verdicts := v\<rparr>
      \<and> wb_tasks w' = wb_tasks w @ news \<and> wb_token_repos w' = wb_token_repos w \<and> wb_token_seq w' = wb_token_seq w
      \<and> wb_attempts w' = wb_attempts w \<and> (event \<noteq> ''installation'' \<longrightarrow> wb_tokens w' = wb_tokens w)
      \<and> (event \<noteq> ''pull_request'' \<or> action = ''closed'' \<longrightarrow> q = pw_queue (wb_pipe w) \<and> Drain_Queue \<notin> set news)
      \<and> (event \<in> {''installation'', ''installation_repositories'', ''pull_request''} \<longrightarrow> v = pw_verdicts (wb_pipe w))
      \<and> (event \<noteq> ''installation'' \<and> event \<noteq> ''installation_repositories'' \<and> action \<noteq> ''closed'' \<longrightarrow> lg = pw_ledger (wb_pipe w))
      \<and> length news \<le> 1 \<and> (\<forall>p. news = [Merge_Lookup p] \<longrightarrow> w' = queue_task (Merge_Lookup p) w)"
proof (cases rule: deliver_cases [of event _ action])
  case install
  let ?w = "record_installation t payload action (the (map_of INSTALLATION_STATES action)) inst w"
  have "w' = (if action = ''created'' then queue_task (Reconcile_Then_Drain inst) ?w else ?w)"
    using assms by (simp add: install deliver_simps Let_def split: if_splits)
  moreover obtain lg where "wb_pipe ?w = (wb_pipe w)\<lparr>pw_ledger := lg\<rparr>" using record_installation_keeps(1) by blast
  ultimately show ?thesis
    by (intro exI [of _ lg] exI [of _ "pw_queue (wb_pipe w)"] exI [of _ "pw_verdicts (wb_pipe w)"]
          exI [of _ "if action = ''created'' then [Reconcile_Then_Drain inst] else []"])
       (cases "action = ''created''"; simp add: install queue_task_def record_installation_keeps(2-5))
next
  case repos
  obtain lg where "merge_installation_repos t payload inst w = w\<lparr>wb_pipe := (wb_pipe w)\<lparr>pw_ledger := lg\<rparr>\<rparr>"
    using merge_installation_repos_keeps by blast
  then have "w' = w\<lparr>wb_pipe := (wb_pipe w)\<lparr>pw_ledger := lg\<rparr>\<rparr>" using assms by (simp add: repos deliver_simps)
  then show ?thesis
    by (intro exI [of _ lg] exI [of _ "pw_queue (wb_pipe w)"] exI [of _ "pw_verdicts (wb_pipe w)"] exI [of _ "[]"]) (simp add: repos)
next
  case closed
  obtain retry p where r: "record_merge h False (t 0) payload inst (wb_pipe w) = (retry, p)" by fastforce
  have w': "w' = (if retry then queue_task (Merge_Lookup payload) else id) (w\<lparr>wb_pipe := p\<rparr>)"
    using assms by (simp add: closed deliver_simps r)
  obtain lg where p: "p = (wb_pipe w)\<lparr>pw_ledger := lg\<rparr>" and re: "retry \<longrightarrow> p = wb_pipe w"
    using record_merge_fast [OF r] by blast
  show ?thesis
    by (intro exI [of _ lg] exI [of _ "pw_queue (wb_pipe w)"] exI [of _ "pw_verdicts (wb_pipe w)"]
          exI [of _ "if retry then [Merge_Lookup payload] else []"])
       (cases retry; use re in \<open>simp add: w' closed queue_task_def\<close>; simp add: p)
next
  case opened
  obtain job q where e: "enqueue_pull_request t payload inst (pw_queue (wb_pipe w)) = Return (job, q)"
    using assms by (auto simp: opened deliver_simps split: sum.splits)
  have w': "w' = (if job \<noteq> None then queue_task Drain_Queue else id) (w\<lparr>wb_pipe := (wb_pipe w)\<lparr>pw_queue := q\<rparr>\<rparr>)"
    using assms by (simp add: opened deliver_simps e)
  show ?thesis
    by (intro exI [of _ "pw_ledger (wb_pipe w)"] exI [of _ q] exI [of _ "pw_verdicts (wb_pipe w)"]
          exI [of _ "if job \<noteq> None then [Drain_Queue] else []"])
       (simp add: w' opened queue_task_def)
next
  case review
  then have "w' = w\<lparr>wb_pipe := (wb_pipe w)\<lparr>pw_verdicts := record_external_review payload inst (pw_verdicts (wb_pipe w))\<rparr>\<rparr>"
    using assms by (simp add: deliver_simps(5))
  then show ?thesis using review
    by (intro exI [of _ "pw_ledger (wb_pipe w)"] exI [of _ "pw_queue (wb_pipe w)"]
          exI [of _ "record_external_review payload inst (pw_verdicts (wb_pipe w))"] exI [of _ "[]"]) simp
qed

text \<open>
  A delivery spends nothing and calls nobody: whatever arrives, no read is bought, no counter
  charged, no check run posted and no request sent to GitHub before the 202; at most one background
  task is queued; a merge or a review queues no drain and leaves the review queue as it is.
\<close>
theorem delivery_spends_nothing:
  assumes "rg_configured (pw_ledger (wb_pipe w)) \<Longrightarrow> rq_configured (pw_queue (wb_pipe w))"
    and "github_webhook h t event signature body w = (r, w')"
  shows "pw_counters (wb_pipe w') = pw_counters (wb_pipe w)" and "pw_reads (wb_pipe w') = pw_reads (wb_pipe w)"
    and "pw_checks (wb_pipe w') = pw_checks (wb_pipe w)" and "pw_gh (wb_pipe w') = pw_gh (wb_pipe w)"
    and "wb_tasks w' = wb_tasks w \<or> (\<exists>k. wb_tasks w' = wb_tasks w @ [k])"
    and "event \<noteq> ''pull_request'' \<or> (\<forall>d. hk_loads h body = Some (JObj d) \<longrightarrow> jget d ''action'' = JStr ''closed'') \<Longrightarrow>
      pw_queue (wb_pipe w') = pw_queue (wb_pipe w) \<and> count_list (wb_tasks w') Drain_Queue = count_list (wb_tasks w) Drain_Queue"
proof -
  have all: "pw_counters (wb_pipe w') = pw_counters (wb_pipe w) \<and> pw_reads (wb_pipe w') = pw_reads (wb_pipe w)
      \<and> pw_checks (wb_pipe w') = pw_checks (wb_pipe w) \<and> pw_gh (wb_pipe w') = pw_gh (wb_pipe w)
      \<and> (wb_tasks w' = wb_tasks w \<or> (\<exists>k. wb_tasks w' = wb_tasks w @ [k]))
      \<and> (event \<noteq> ''pull_request'' \<or> (\<forall>d. hk_loads h body = Some (JObj d) \<longrightarrow> jget d ''action'' = JStr ''closed'') \<longrightarrow>
          pw_queue (wb_pipe w') = pw_queue (wb_pipe w) \<and> count_list (wb_tasks w') Drain_Queue = count_list (wb_tasks w) Drain_Queue)"
  proof (cases rule: github_webhook_cases [OF assms(1), where h = h and t = t and event = event and signature = signature and body = body])
    case (4 d inst w'')
    let ?a = "or_empty (text_of None (jget d ''action''))"
    have "w' = w''" using 4(1) assms(2) by simp
    from deliver_touches [OF 4(7), folded this] obtain lg q v news where
      p: "wb_pipe w' = (wb_pipe w)\<lparr>pw_ledger := lg, pw_queue := q, pw_verdicts := v\<rparr>" and n: "wb_tasks w' = wb_tasks w @ news"
      and q: "event \<noteq> ''pull_request'' \<or> ?a = ''closed'' \<longrightarrow> q = pw_queue (wb_pipe w) \<and> Drain_Queue \<notin> set news"
      and len: "length news \<le> 1" by blast
    have a: "?a = ''closed''" if "jget d ''action'' = JStr ''closed''" using that by (simp add: text_of_def or_empty_def)
    have news: "news = [] \<or> (\<exists>k. news = [k])" using len by (cases news) auto
    have none: "count_list news Drain_Queue = 0" if "Drain_Queue \<notin> set news" using that by (simp add: count_list_0_iff)
    show ?thesis using p n q a news none 4(3) by auto
  qed (use assms(2) in auto)
  then show "pw_counters (wb_pipe w') = pw_counters (wb_pipe w)" "pw_reads (wb_pipe w') = pw_reads (wb_pipe w)"
    "pw_checks (wb_pipe w') = pw_checks (wb_pipe w)" "pw_gh (wb_pipe w') = pw_gh (wb_pipe w)"
    "wb_tasks w' = wb_tasks w \<or> (\<exists>k. wb_tasks w' = wb_tasks w @ [k])"
    "event \<noteq> ''pull_request'' \<or> (\<forall>d. hk_loads h body = Some (JObj d) \<longrightarrow> jget d ''action'' = JStr ''closed'') \<Longrightarrow>
      pw_queue (wb_pipe w') = pw_queue (wb_pipe w) \<and> count_list (wb_tasks w') Drain_Queue = count_list (wb_tasks w) Drain_Queue"
    by blast+
qed

lemma enqueue_pull_request_confined:
  assumes "rq_wf db" and "rq_configured db" and "enqueue_pull_request t payload inst db = Return (job, db')"
  shows "db' = db \<and> job = None \<or> (\<exists>repo number head. may_be_reviewed (field payload ''pull_request'')
    \<and> as_int (field (field (field (field payload ''pull_request'') ''base'') ''repo'') ''id'') = Some repo
    \<and> as_int (field (field payload ''pull_request'') ''number'') = Some number
    \<and> field (field (field payload ''pull_request'') ''head'') ''sha'' = JStr head
    \<and> confined (job_filter inst repo number) {(inst, repo, number, head)} db db')"
proof (cases "\<exists>number name base head. skip_reason (field payload ''pull_request'') = None
    \<and> as_int (field (field payload ''pull_request'') ''number'') = Some number
    \<and> text_of (Some FULL_NAME) (field (field (field (field payload ''pull_request'') ''base'') ''repo'') ''full_name'') = Some name
    \<and> text_of (Some SHA_COLUMN) (field (field (field payload ''pull_request'') ''base'') ''sha'') = Some base
    \<and> text_of (Some SHA_COLUMN) (field (field (field payload ''pull_request'') ''head'') ''sha'') = Some head")
  case False
  then show ?thesis using assms(3) by (auto simp: enqueue_pull_request_gate Let_def split: if_splits option.splits)
next
  case True
  let ?pr = "field payload ''pull_request''"
  obtain number name base head where f: "skip_reason ?pr = None" "as_int (field ?pr ''number'') = Some number"
    "text_of (Some FULL_NAME) (field (field (field ?pr ''base'') ''repo'') ''full_name'') = Some name"
    "text_of (Some SHA_COLUMN) (field (field ?pr ''base'') ''sha'') = Some base"
    "text_of (Some SHA_COLUMN) (field (field ?pr ''head'') ''sha'') = Some head" using True by blast
  obtain repo where repo: "as_int (field (field (field ?pr ''base'') ''repo'') ''id'') = Some repo"
    using f(1) by (auto simp: skip_reason_None may_be_reviewed_def)
  have e: "enqueue (t 0) (t 1) inst repo name number head (Some base) ''live'' db = Return (job, db')"
    using assms(3) f repo by (simp add: enqueue_pull_request_gate)
  have "confined (job_filter inst repo number) {(inst, repo, number, head)} db db'"
    using enqueue_step [OF assms(1,2) text_of_nonempty [OF f(4)], of "t 0" "t 1" inst repo name number head "''live''"] e by force
  moreover have "field (field ?pr ''head'') ''sha'' = JStr head" using f(5) by (simp add: text_of_Some)
  ultimately show ?thesis using f(1,2) repo unfolding skip_reason_None by blast
qed

text \<open>
  C13. Only a reviewable pull request is queued: if a delivery changed the review queue, it was an
  authentic pull_request event with one of the reviewed actions, whose pull request is no draft, no
  fork and not a bot's; it touched only rows of that pull request, and only its current head may have
  become pending.
\<close>
theorem delivery_queues_only_reviewable:
  assumes "rq_wf (pw_queue (wb_pipe w))" and "rq_configured (pw_queue (wb_pipe w))"
    and "github_webhook h t event signature body w = (r, w')" and "pw_queue (wb_pipe w') \<noteq> pw_queue (wb_pipe w)"
  shows "authentic h signature body
    \<and> event = ''pull_request''
    \<and> (\<exists>d action inst repo number head. hk_loads h body = Some (JObj d) \<and> jget d ''action'' = JStr action \<and> action \<in> set PR_ACTIONS
      \<and> as_int (field (jget d ''installation'') ''id'') = Some inst \<and> may_be_reviewed (jget d ''pull_request'')
      \<and> as_int (field (field (field (jget d ''pull_request'') ''base'') ''repo'') ''id'') = Some repo
      \<and> as_int (field (jget d ''pull_request'') ''number'') = Some number
      \<and> field (field (jget d ''pull_request'') ''head'') ''sha'' = JStr head
      \<and> confined (job_filter inst repo number) {(inst, repo, number, head)} (pw_queue (wb_pipe w)) (pw_queue (wb_pipe w')))"
proof -
  have conf: "rg_configured (pw_ledger (wb_pipe w)) \<Longrightarrow> rq_configured (pw_queue (wb_pipe w))" by (rule assms(2))
  show ?thesis
  proof (cases rule: github_webhook_cases [OF conf, where h = h and t = t and event = event and signature = signature and body = body])
    case (4 d inst w'')
    have w': "w'' = w'" using 4(1) assms(3) by simp
    obtain action where act: "jget d ''action'' = JStr action" "or_empty (text_of None (jget d ''action'')) = action"
      using 4(4) by (cases "jget d ''action''")
        (auto simp: handled_def text_of_def or_empty_def INSTALLATION_STATES_def PR_ACTIONS_def split: if_splits)
    obtain lg q v where "wb_pipe w' = (wb_pipe w)\<lparr>pw_ledger := lg, pw_queue := q, pw_verdicts := v\<rparr>"
        "event \<noteq> ''pull_request'' \<or> action = ''closed'' \<longrightarrow> q = pw_queue (wb_pipe w)"
      using deliver_touches [OF 4(7) [unfolded act(2) w']] by blast
    then have pr: "event = ''pull_request''" "action \<noteq> ''closed''" using assms(4) by auto
    then have "action \<in> set PR_ACTIONS" using 4(4) act(2) by (simp add: handled_def)
    obtain job q where e: "enqueue_pull_request t (JObj d) inst (pw_queue (wb_pipe w)) = Return (job, q)" and q: "pw_queue (wb_pipe w') = q"
      using 4(7) pr act(2) w' by (auto simp: deliver_simps queue_task_def split: sum.splits if_splits)
    have f: "field (JObj d) ''pull_request'' = jget d ''pull_request''" by (simp add: field_def obj_def)
    from enqueue_pull_request_confined [OF assms(1,2) e, unfolded f] assms(4) q
    show ?thesis using 4(2,3,5) pr act \<open>action \<in> set PR_ACTIONS\<close> by blast
  qed (use assms(3,4) in auto)
qed

subsection \<open>One clock, three ways\<close>

text \<open>The same delivery with the merge commit it did not carry.\<close>

definition with_sha :: "string \<Rightarrow> (string \<times> json) list \<Rightarrow> (string \<times> json) list \<Rightarrow> json" where
  "with_sha sha pr d = JObj (dict_set ''pull_request'' (JObj (dict_set ''merge_commit_sha'' (JStr sha) pr)) d)"

lemma jget_set [simp]: "jget (dict_set k v d) j = (if j = k then v else jget d j)"
  by (simp add: jget_def)

lemma field_obj [simp]: "field (JObj d) k = jget d k"
  by (simp add: field_def obj_def)

text \<open>What \<open>record_merge\<close> does with a merge whose five facts are there, given the commit.\<close>

definition clock_of :: "instant \<Rightarrow> int \<Rightarrow> (string \<times> json) list \<Rightarrow> datetime \<Rightarrow> string \<Rightarrow> int \<Rightarrow> int \<Rightarrow> string \<Rightarrow> ledger \<Rightarrow> ledger" where
  "clock_of now inst pr at_time ref number repo sha lg =
     snd (enqueue_outcome_jobs now inst repo number sha at_time ref WINDOW_DAYS
       (text_of (Some SHA_COLUMN) (field (jget pr ''head'') ''sha'')) lg)"

lemma record_merge_carried:
  assumes "truthy (jget pr ''merged'')" and "payload_timestamp (jget pr ''merged_at'') = Some m"
    and "text_of (Some BASE_REF) (field (jget pr ''base'') ''ref'') = Some ref" and "as_int (jget pr ''number'') = Some number"
    and "as_int (field (field (jget pr ''base'') ''repo'') ''id'') = Some repo"
    and "text_of (Some SHA_COLUMN) (JStr sha) = Some sha"
  shows "record_merge h allow now (with_sha sha pr d) inst w = (False, w\<lparr>pw_ledger := clock_of now inst pr m ref number repo sha (pw_ledger w)\<rparr>)"
  using assms by (cases m) (simp add: record_merge_def with_sha_def Let_def clock_of_def)

lemma record_merge_looked_up:
  assumes "truthy (jget pr ''merged'')" and "payload_timestamp (jget pr ''merged_at'') = Some m"
    and "text_of (Some BASE_REF) (field (jget pr ''base'') ''ref'') = Some ref" and "as_int (jget pr ''number'') = Some number"
    and "as_int (field (field (jget pr ''base'') ''repo'') ''id'') = Some repo"
    and "jget d ''pull_request'' = JObj pr" and "text_of (Some SHA_COLUMN) (jget pr ''merge_commit_sha'') = None"
    and "as_int (field (jget d ''installation'') ''id'') = Some inst"
    and "field (field (jget pr ''base'') ''repo'') ''full_name'' = JStr slug" and "until_slash slug \<noteq> []" and "after_slash slug \<noteq> []"
    and "Payload.resolve JNull (sv_client (hk_services h) inst) (re_graphql (hk_rest h)) (until_slash slug) (after_slash slug) number (pw_gh w)
           = (Some sha, g)"
  shows "record_merge h False now (JObj d) inst w = (True, w)"
    and "record_merge h True now (JObj d) inst w
      = (False, w\<lparr>pw_gh := g, pw_ledger := clock_of now inst pr m ref number repo sha (pw_ledger w)\<rparr>)"
proof -
  have "slug \<noteq> []" using assms(10) by (auto simp: until_slash_def)
  then have s: "slug_text (hk_str h) (JStr slug) = slug" by (simp add: slug_text_def truthy_def)
  show "record_merge h False now (JObj d) inst w = (True, w)"
    unfolding record_merge_def Let_def field_obj assms(6,9) s using assms by simp
  show "record_merge h True now (JObj d) inst w
      = (False, w\<lparr>pw_gh := g, pw_ledger := clock_of now inst pr m ref number repo sha (pw_ledger w)\<rparr>)"
    unfolding record_merge_def Let_def field_obj assms(6,9) s using assms by (cases m) (simp add: clock_of_def)
qed

text \<open>
  C16. A merge starts the same clocks whichever way its commit becomes known: carried by the delivery,
  looked up in the graph by the task the delivery queued, or found by the sweep that lists the pull
  request, the ledger ends up with the very same rows.
\<close>
theorem merge_clock_is_one_fact:
  assumes "truthy (jget pr ''merged'')" and "payload_timestamp (jget pr ''merged_at'') = Some m"
    and "text_of (Some BASE_REF) (field (jget pr ''base'') ''ref'') = Some ref" and "as_int (jget pr ''number'') = Some number"
    and "as_int (field (field (jget pr ''base'') ''repo'') ''id'') = Some repo"
    and "jget d ''pull_request'' = JObj pr" and "text_of (Some SHA_COLUMN) (jget pr ''merge_commit_sha'') = None"
    and "as_int (field (jget d ''installation'') ''id'') = Some inst"
    and "field (field (jget pr ''base'') ''repo'') ''full_name'' = JStr slug" and "until_slash slug \<noteq> []" and "after_slash slug \<noteq> []"
    and "Payload.resolve JNull (sv_client (hk_services h) inst) (re_graphql (hk_rest h)) (until_slash slug) (after_slash slug) number (pw_gh w)
           = (Some sha, g)"
    and "lp_obj p = JObj pr" and "lp_number p = number" and "map_option aware (lp_merged p) = Some m"
    and "lp_updated p = Some u" and "cutoff \<le> as_utc u" and "cutoff \<le> as_utc m"
    and "field (jget pr ''head'') ''sha'' = JStr head" and "text_of (Some SHA_COLUMN) (JStr head) = Some head"
    and "re_pull re (until_slash slug) (after_slash slug) number g0 = (Return (JObj [(''merge_commit_sha'', JStr sha)]), g1)"
  shows "record_merge h False now (JObj d) inst w = (True, w)
    \<and> pw_ledger (snd (record_merge h True now (JObj d) inst w))
      = pw_ledger (snd (record_merge h False now (with_sha sha pr d) inst w))
    \<and> fst (snd (reconcile_merge re cutoff inst repo slug now p (pw_ledger w, g0)))
      = pw_ledger (snd (record_merge h False now (with_sha sha pr d) inst w))"
proof -
  have facts: "record_merge h False now (JObj d) inst w = (True, w)"
      "pw_ledger (snd (record_merge h True now (JObj d) inst w))
      = pw_ledger (snd (record_merge h False now (with_sha sha pr d) inst w))"
      "fst (snd (reconcile_merge re cutoff inst repo slug now p (pw_ledger w, g0)))
      = pw_ledger (snd (record_merge h False now (with_sha sha pr d) inst w))"
  proof -
    have sha: "text_of (Some SHA_COLUMN) (JStr sha) = Some sha"
      using assms(12) by (auto simp: Payload.resolve_def from_merge_commit_def text_of_Some text_of_def [of _ JNull]
          split: if_splits prod.splits sum.splits)
    show "record_merge h False now (JObj d) inst w = (True, w)"
      by (rule record_merge_looked_up(1) [OF assms(1-12)])
    show "pw_ledger (snd (record_merge h True now (JObj d) inst w))
        = pw_ledger (snd (record_merge h False now (with_sha sha pr d) inst w))"
      by (simp add: record_merge_looked_up(2) [OF assms(1-12)] record_merge_carried [OF assms(1-5) sha])
    obtain t where t: "lp_merged p = Some t" "m = aware t" using assms(15) by auto
    have c: "merge_candidate cutoff repo p = Some (m, ref)"
      using assms(3,5,13,16-18) t by (simp add: merge_candidate_def)
    have "Payload.resolve (JStr sha) None (re_graphql re) (until_slash slug) (after_slash slug) number g1 = (Some sha, g1)"
      by (rule resolve_carried [OF sha])
    then have "fst (snd (reconcile_merge re cutoff inst repo slug now p (pw_ledger w, g0)))
        = snd (enqueue_outcome_jobs now inst repo number sha m ref WINDOW_DAYS (Some head) (pw_ledger w))"
      using assms(13,14,19,21) c by (simp add: reconcile_merge_def jget_def split: prod.splits)
    then show "fst (snd (reconcile_merge re cutoff inst repo slug now p (pw_ledger w, g0)))
        = pw_ledger (snd (record_merge h False now (with_sha sha pr d) inst w))"
      using assms(19,20) by (simp add: record_merge_carried [OF assms(1-5) sha] clock_of_def)
  qed
  show ?thesis by (rule conjI [OF facts(1) conjI [OF facts(2) facts(3)]])
qed

subsection \<open>An uninstall ends every key\<close>

lemma keys_view_simps [simp]:
  "kd_tokens (keys_view w) = wb_tokens w" "kd_repos (keys_view w) = wb_token_repos w" "kd_seq (keys_view w) = wb_token_seq w"
  "rg_configured (keys_view w) = rg_configured (pw_ledger (wb_pipe w))" "rg_installs (keys_view w) = rg_installs (pw_ledger (wb_pipe w))"
  "rg_repos (keys_view w) = rg_repos (pw_ledger (wb_pipe w))"
  by (simp_all add: keys_view_def registry.defs key_db.defs)

lemma ball_update_where:
  "(\<forall>r \<in> set (update_where p f rows). Q r) \<longleftrightarrow> (\<forall>r \<in> set rows. if p r then Q (f r) else Q r)"
  by (auto simp: update_where_def)

lemma upsert_state:
  assumes "rg_configured lg"
  shows "\<forall>r \<in> set (rg_installs (upsert_installation now inst login kind state installer (rg_installs lg) lg)).
    in_installation r = inst \<longrightarrow> in_state r = state"
proof (cases "List.find (\<lambda>r. in_installation r = inst) (rg_installs lg)")
  case None
  then have "\<forall>r \<in> set (rg_installs lg). in_installation r \<noteq> inst" by (simp add: find_None_iff)
  with None assms show ?thesis by (simp add: upsert_installation_def Let_def)
next
  case (Some r)
  with assms have "rg_installs (upsert_installation now inst login kind state installer (rg_installs lg) lg)
      = update_where (\<lambda>r. in_installation r = inst) (\<lambda>r. r\<lparr>in_login := login, in_type := kind, in_state := state, in_updated_at := now,
          in_installer := (if installer = None then in_installer r else installer)\<rparr>) (rg_installs lg)"
    by (simp add: upsert_installation_def Let_def)
  then show ?thesis by (simp add: ball_update_where)
qed

lemma retire_all_state:
  assumes "rg_configured lg" and "r \<in> set (rg_repos (set_installation_repos now inst [] True s lg))" and "ip_installation r = inst"
  shows "ip_state r = ''removed''"
proof -
  have "rg_repos (set_installation_repos now inst [] True s lg)
      = update_where (\<lambda>r. ip_installation r = inst) (\<lambda>r. r\<lparr>ip_state := ''removed'', ip_updated_at := now\<rparr>) (rg_repos lg)"
    using assms(1) by (simp add: set_installation_repos_def retire_stale_def)
  then have "\<forall>r \<in> set (rg_repos (set_installation_repos now inst [] True s lg)). ip_installation r = inst \<longrightarrow> ip_state r = ''removed''"
    by (simp add: ball_update_where)
  with assms(2,3) show ?thesis by blast
qed

lemma revoke_all_kills:
  assumes "keys_wf db" and "rg_configured db" and "r \<in> set (kd_tokens db)" and "kr_installation r = inst"
  shows "dead_key (kr_id r) (snd (revoke_all_installation_tokens now inst db))"
proof -
  have inj: "inj_on kr_id (set (kd_tokens db))" using assms(1) by (simp add: keys_wf_def distinct_map)
  have "q = r" if "q \<in> set (kd_tokens db)" "kr_id q = kr_id r" for q using inj_onD [OF inj that(2,1) assms(3)] .
  moreover have "kr_id r < kd_seq db" using assms(1,3) by (auto simp: keys_wf_def list_all_iff)
  ultimately show ?thesis using assms(2,4)
    by (auto simp: revoke_all_installation_tokens_def dead_key_def list_all_iff in_update_where live_key_of_def) blast
qed

lemma deleted_delivery:
  "record_installation t payload ''deleted'' ''deleted'' inst w =
     revoke_keys (t 2) inst (on_ledger (set_installation_repos (t 1) inst [] True ''active'') (on_ledger (\<lambda>lg. upsert_installation (t 0) inst
        (or_empty (text_of (Some ACCOUNT_LOGIN) (field (field (field payload ''installation'') ''account'') ''login'')))
        (or_empty (text_of (Some ACCOUNT_TYPE) (field (field (field payload ''installation'') ''account'') ''type'')))
        ''deleted'' None (rg_installs lg) lg) w))"
  by (simp add: record_installation_def Let_def)

text \<open>
  C10. An uninstall ends access for good: after an authentic delivery of installation.deleted the
  installation is no active one and covers no repository, and no key it had minted resolves again,
  whatever is minted, presented, revoked or delivered later, a reinstall included.
\<close>
theorem uninstall_ends_every_key:
  assumes "keys_wf (keys_view w)" and "rg_configured (pw_ledger (wb_pipe w))" and "authentic h signature body"
    and "hk_loads h body = Some (JObj d)" and "jget d ''action'' = JStr ''deleted''"
    and "as_int (field (jget d ''installation'') ''id'') = Some inst"
    and "github_webhook h t ''installation'' signature body w = (r, w')"
    and "row \<in> set (wb_tokens w)" and "kr_installation row = inst" and "key_step\<^sup>*\<^sup>* (keys_view w') db"
    and "Tenancy.resolve env now used token db = (Return (Some ctx), db')"
  shows "inst \<notin> set (active_installations (pw_ledger (wb_pipe w'))) \<and> active_repos inst (pw_ledger (wb_pipe w')) = []
    \<and> tc_token ctx \<noteq> kr_id row"
proof -
  let ?up = "\<lambda>lg. upsert_installation (t 0) inst
        (or_empty (text_of (Some ACCOUNT_LOGIN) (field (field (field (JObj d) ''installation'') ''account'') ''login'')))
        (or_empty (text_of (Some ACCOUNT_TYPE) (field (field (field (JObj d) ''installation'') ''account'') ''type'')))
        ''deleted'' None (rg_installs lg) lg"
  let ?lg = "set_installation_repos (t 1) inst [] True ''active'' (?up (pw_ledger (wb_pipe w)))"
  let ?w = "on_ledger (set_installation_repos (t 1) inst [] True ''active'') (on_ledger ?up w)"
  have act: "or_empty (text_of None (jget d ''action'')) = ''deleted''" using assms(5) by (simp add: text_of_def or_empty_def)
  have "deliver h t ''installation'' ''deleted'' (JObj d) inst w = Return (revoke_keys (t 2) inst ?w)"
    by (simp add: deliver_simps INSTALLATION_STATES_def deleted_delivery Let_def)
  moreover have "handled ''installation'' ''deleted''" by (simp add: handled_def INSTALLATION_STATES_def)
  ultimately have w': "w' = revoke_keys (t 2) inst ?w"
    using assms(2-4,6,7) act unfolding github_webhook_def authentic_def Let_def by simp
  have lg: "pw_ledger (wb_pipe w') = ?lg" by (simp add: w' revoke_keys_def on_ledger_def)
  have keep: "rg_installs (set_installation_repos now inst [] True s lg) = rg_installs lg"
    "rg_configured (set_installation_repos now inst [] True s lg) = rg_configured lg" for now s and lg :: ledger
    by (simp_all add: set_installation_repos_def retire_stale_def)
  have conf: "rg_configured (?up (pw_ledger (wb_pipe w)))" using assms(2) by (simp add: upsert_installation_def Let_def)
  have inactive: "inst \<notin> set (active_installations (pw_ledger (wb_pipe w')))"
    using upsert_state [OF assms(2), of "t 0" inst] by (auto simp: lg active_installations_def keep)
  have uncovered: "active_repos inst (pw_ledger (wb_pipe w')) = []"
    using retire_all_state [OF conf, of _ "t 1" inst "''active''"]
    by (auto simp: lg active_repos_def keep filter_empty_conv)
  note row = assms(8,9) and hist = assms(10) and res = assms(11)
  have tok: "wb_tokens ?w = wb_tokens w" "wb_token_seq ?w = wb_token_seq w" "wb_token_repos ?w = wb_token_repos w"
    by (simp_all add: on_ledger_def)
  have view: "keys_wf (keys_view ?w)" "rg_configured (keys_view ?w)" "row \<in> set (kd_tokens (keys_view ?w))"
    using assms(1) row(1) conf by (simp_all add: keys_wf_def tok on_ledger_def keep)
  have "dead_key (kr_id row) (keys_view w')"
    using revoke_all_kills [OF view row(2), of "t 2"]
    by (simp add: dead_key_def w' revoke_keys_def revoke_all_installation_tokens_def view(2) [simplified])
  from dead_key_forever [OF hist this] have d: "dead_key (kr_id row) db" .
  from resolve_live [OF res] obtain q where "q \<in> set (kd_tokens db)" "kr_revoked q = None" "ctx = granted q (scope_of q db)"
    by (auto simp: Tenancy.usable_def)
  with d have "tc_token ctx \<noteq> kr_id row" by (auto simp: dead_key_def list_all_iff granted_def)
  with inactive uncovered show ?thesis by blast
qed

subsection \<open>A redelivery is harmless\<close>

lemma enqueue_again:
  assumes wf: "rq_wf db" "rq_configured db" and base: "base \<noteq> []"
    and e: "enqueue now now' inst repo name pr head (Some base) ''live'' db = Return (job, db')"
  shows "enqueue t t' inst repo name pr head (Some base) ''live'' db' = Return (None, db')"
proof -
  obtain j where j: "j \<in> set (rq_jobs db')" "rj_key j = (inst, repo, pr, head)" "rj_status j \<in> {Pending, Running, Done}"
    using live_enqueue_never_loses_a_push [OF wf base, of "''live''" now now' inst repo name pr head] e by auto
  have "confined (job_filter inst repo pr) {(inst, repo, pr, head)} db db'"
    using enqueue_step [OF wf base, of now now' inst repo name pr head "''live''"] e by force
  then have wf': "rq_wf db'" "rq_configured db'" using confined_ok by blast+
  have "enqueue_insert t inst repo name pr head base db' = None"
    using j(1,2) by (auto simp: enqueue_insert_def rj_key_def job_filter_def)
  moreover have "revive t' inst repo pr head base ''live'' db' = (None, db')"
    using j(3) by (simp add: revive_cases [OF wf'(1) j(1,2)] revivable_def) auto
  ultimately show ?thesis using base wf'(2) by (simp add: enqueue_def)
qed

lemma enqueue_pull_request_again:
  assumes "rq_wf db" and "rq_configured db" and "enqueue_pull_request t payload inst db = Return (job, db')"
  shows "enqueue_pull_request t' payload inst db' = Return (None, db')"
proof (cases "skip_reason (field payload ''pull_request'') = None
    \<and> as_int (field (field payload ''pull_request'') ''number'') \<noteq> None
    \<and> text_of (Some FULL_NAME) (field (field (field (field payload ''pull_request'') ''base'') ''repo'') ''full_name'') \<noteq> None
    \<and> text_of (Some SHA_COLUMN) (field (field (field payload ''pull_request'') ''base'') ''sha'') \<noteq> None
    \<and> text_of (Some SHA_COLUMN) (field (field (field payload ''pull_request'') ''head'') ''sha'') \<noteq> None")
  case False
  then show ?thesis using assms(3) by (auto simp: enqueue_pull_request_gate Let_def split: if_splits option.splits)
next
  case True
  then obtain number name base head where f: "skip_reason (field payload ''pull_request'') = None"
    "as_int (field (field payload ''pull_request'') ''number'') = Some number"
    "text_of (Some FULL_NAME) (field (field (field (field payload ''pull_request'') ''base'') ''repo'') ''full_name'') = Some name"
    "text_of (Some SHA_COLUMN) (field (field (field payload ''pull_request'') ''base'') ''sha'') = Some base"
    "text_of (Some SHA_COLUMN) (field (field (field payload ''pull_request'') ''head'') ''sha'') = Some head" by blast
  have "enqueue (t' 0) (t' 1) inst (the (as_int (field (field (field (field payload ''pull_request'') ''base'') ''repo'') ''id'')))
      name number head (Some base) ''live'' db' = Return (None, db')"
    by (rule enqueue_again [OF assms(1,2) text_of_nonempty [OF f(4)]]) (use assms(3) f in \<open>simp add: enqueue_pull_request_gate\<close>)
  then show ?thesis using f by (simp add: enqueue_pull_request_gate)
qed

lemma insert_windows_present:
  assumes "\<And>w. w \<in> set ws \<Longrightarrow> (\<forall>i. job_identity (mk i w) \<in> job_identity ` set (lg_jobs lg))"
  shows "insert_windows mk ws lg = ([], lg)"
  using assms by (induction ws) (simp_all add: Let_def)

lemma insert_windows_inserts:
  assumes "insert_windows mk ws lg = (ids, lg')" and "\<And>i k w. job_identity (mk i w) = job_identity (mk k w)" and "w \<in> set ws"
  shows "job_identity (mk i w) \<in> job_identity ` set (lg_jobs lg')"
  using assms(1,3)
proof (induction ws arbitrary: lg ids)
  case (Cons v rest)
  let ?j = "mk (lg_job_seq lg) v"
  let ?lg1 = "if job_identity ?j \<in> job_identity ` set (lg_jobs lg) then lg
    else lg\<lparr>lg_jobs := lg_jobs lg @ [?j], lg_job_seq := lg_job_seq lg + 1\<rparr>"
  obtain ids' where r: "insert_windows mk rest ?lg1 = (ids', lg')"
    using Cons.prems(1) by (auto simp: Let_def split: if_splits prod.splits)
  show ?case
  proof (cases "w = v")
    case True
    have "job_identity (mk i v) \<in> job_identity ` set (lg_jobs ?lg1)"
      using assms(2) [of i v "lg_job_seq lg"] by auto
    then show ?thesis using insert_windows_appends [OF r] True by auto
  next
    case False
    then show ?thesis using Cons.IH [OF r] Cons.prems(2) by simp
  qed
qed simp

lemma enqueue_outcome_jobs_again:
  "snd (enqueue_outcome_jobs now' inst repo pr sha m ref ws head (snd (enqueue_outcome_jobs now inst repo pr sha m ref ws head lg)))
     = snd (enqueue_outcome_jobs now inst repo pr sha m ref ws head lg)"
proof (cases "rg_configured lg")
  case True
  let ?mk = "\<lambda>now i. new_outcome_job now i inst repo pr sha m ref head"
  have same: "job_identity (?mk now i w) = job_identity (?mk now' k w)" for i k w now now'
    by (simp add: job_identity_def new_outcome_job_def)
  obtain ids lg' where one: "insert_windows (?mk now) ws lg = (ids, lg')" by fastforce
  have conf: "rg_configured lg'" using insert_windows_appends [OF one] True by auto
  have "insert_windows (?mk now') ws lg' = ([], lg')"
    by (rule insert_windows_present) (metis insert_windows_inserts [OF one] same)
  then show ?thesis using True one conf by (simp add: enqueue_outcome_jobs_def)
qed (simp add: enqueue_outcome_jobs_def)

lemma record_merge_carrying:
  assumes "text_of (Some SHA_COLUMN) (field (field payload ''pull_request'') ''merge_commit_sha'') = Some sha"
  shows "(\<forall>now p. record_merge h False now payload inst p = (False, p))
    \<or> (\<exists>repo n m ref head. \<forall>now p. record_merge h False now payload inst p
        = (False, p\<lparr>pw_ledger := snd (enqueue_outcome_jobs now inst repo n sha m ref WINDOW_DAYS head (pw_ledger p))\<rparr>))"
proof -
  let ?pr = "field payload ''pull_request''"
  show ?thesis
  proof (cases "\<exists>m ref n repo. truthy (field ?pr ''merged'') \<and> payload_timestamp (field ?pr ''merged_at'') = Some m
      \<and> text_of (Some BASE_REF) (field (field ?pr ''base'') ''ref'') = Some ref \<and> as_int (field ?pr ''number'') = Some n
      \<and> as_int (field (field (field ?pr ''base'') ''repo'') ''id'') = Some repo")
    case True
    then obtain m ref n repo where f: "truthy (field ?pr ''merged'')" "payload_timestamp (field ?pr ''merged_at'') = Some m"
      "text_of (Some BASE_REF) (field (field ?pr ''base'') ''ref'') = Some ref" "as_int (field ?pr ''number'') = Some n"
      "as_int (field (field (field ?pr ''base'') ''repo'') ''id'') = Some repo" by blast
    have "record_merge h False now payload inst p = (False, p\<lparr>pw_ledger := snd (enqueue_outcome_jobs now inst repo n sha m ref WINDOW_DAYS
        (text_of (Some SHA_COLUMN) (field (field ?pr ''head'') ''sha'')) (pw_ledger p))\<rparr>)" for now p
      by (simp add: record_merge_def Let_def assms f)
    then show ?thesis by blast
  next
    case False
    then consider "\<not> truthy (field ?pr ''merged'')" | "payload_timestamp (field ?pr ''merged_at'') = None"
      | "text_of (Some BASE_REF) (field (field ?pr ''base'') ''ref'') = None" | "as_int (field ?pr ''number'') = None"
      | "as_int (field (field (field ?pr ''base'') ''repo'') ''id'') = None" by (meson option.exhaust)
    then have "record_merge h False now payload inst p = (False, p)" for now p
      by cases (simp_all add: record_merge_def Let_def assms split: option.split)
    then show ?thesis by blast
  qed
qed

lemma record_merge_again:
  "snd (record_merge h False now' payload inst (snd (record_merge h False now payload inst p))) = snd (record_merge h False now payload inst p)"
proof (cases "text_of (Some SHA_COLUMN) (field (field payload ''pull_request'') ''merge_commit_sha'')")
  case None
  then show ?thesis by (simp add: record_merge_def Let_def)
next
  case (Some sha)
  from record_merge_carrying [OF this, of h inst] show ?thesis
    by (elim disjE exE) (simp_all add: enqueue_outcome_jobs_again)
qed

lemma record_merge_retry:
  "fst (record_merge h False now' payload inst p') = fst (record_merge h False now payload inst p)"
  by (cases "text_of (Some SHA_COLUMN) (field (field payload ''pull_request'') ''merge_commit_sha'')")
     (simp_all add: record_merge_def Let_def)

lemma save_external_again:
  "snd (save_external_review i g repo pr head src b at_time (vb_rows (snd (save_external_review i g repo pr head src b at_time (vb_rows db) db)))
      (snd (save_external_review i g repo pr head src b at_time (vb_rows db) db)))
    = snd (save_external_review i g repo pr head src b at_time (vb_rows db) db)"
proof (cases "vb_configured db \<and> List.find (same_stance i g pr src head at_time) (vb_rows db) = None")
  case True
  then show ?thesis by (simp add: save_external_review_def find_append same_stance_def)
next
  case False
  then have "snd (save_external_review i g repo pr head src b at_time (vb_rows db) db) = db"
    by (auto simp: save_external_review_def)
  then show ?thesis by simp
qed

lemma external_review_again:
  "record_external_review payload inst (record_external_review payload inst db) = record_external_review payload inst db"
  by (simp add: record_external_review_def Let_def save_external_again split: option.splits json.splits)

lemma enqueue_configured:
  "rg_configured (snd (enqueue_outcome_jobs now inst repo pr sha m ref ws head lg)) = rg_configured lg"
proof -
  obtain ids lg' where one: "insert_windows (\<lambda>i. new_outcome_job now i inst repo pr sha m ref head) ws lg = (ids, lg')" by fastforce
  show ?thesis using insert_windows_appends [OF one] one by (auto simp: enqueue_outcome_jobs_def)
qed

lemma record_merge_configured:
  "rg_configured (pw_ledger (snd (record_merge h False now payload inst p))) = rg_configured (pw_ledger p)"
proof (cases "text_of (Some SHA_COLUMN) (field (field payload ''pull_request'') ''merge_commit_sha'')")
  case None
  then show ?thesis by (simp add: record_merge_def Let_def)
next
  case (Some sha)
  from record_merge_carrying [OF this, of h inst] show ?thesis
    by (elim disjE exE) (simp_all add: enqueue_configured)
qed

lemma deliver_configured:
  assumes "deliver h t event action payload inst w = Return w'" and "event = ''pull_request'' \<or> event = ''pull_request_review''"
  shows "rg_configured (pw_ledger (wb_pipe w')) = rg_configured (pw_ledger (wb_pipe w))"
proof (cases "event = ''pull_request'' \<and> action = ''closed''")
  case True
  obtain retry p where r: "record_merge h False (t 0) payload inst (wb_pipe w) = (retry, p)" by fastforce
  then have "wb_pipe w' = p" using True assms(1) by (auto simp: deliver_simps queue_task_def split: if_splits)
  then show ?thesis using record_merge_configured [of h "t 0" payload inst "wb_pipe w"] r by simp
next
  case False
  obtain lg q v news where w': "wb_pipe w' = (wb_pipe w)\<lparr>pw_ledger := lg, pw_queue := q, pw_verdicts := v\<rparr>"
      and lg: "event \<noteq> ''installation'' \<and> event \<noteq> ''installation_repositories'' \<and> action \<noteq> ''closed'' \<longrightarrow> lg = pw_ledger (wb_pipe w)"
    using deliver_touches [OF assms(1)] by blast
  show ?thesis
  proof (cases "action = ''closed''")
    case True
    with False assms(2) have "event = ''pull_request_review''" by simp
    then have "w' = w\<lparr>wb_pipe := (wb_pipe w)\<lparr>pw_verdicts := record_external_review payload inst (pw_verdicts (wb_pipe w))\<rparr>\<rparr>"
      using assms(1) by (simp add: deliver_simps(5))
    then show ?thesis by simp
  next
    case False
    with lg assms(2) have "lg = pw_ledger (wb_pipe w)" by auto
    then show ?thesis by (simp add: w')
  qed
qed

lemma deliver_again:
  assumes "rq_wf (pw_queue (wb_pipe w))" and "rq_configured (pw_queue (wb_pipe w))"
    and "event = ''pull_request'' \<or> event = ''pull_request_review''"
    and "deliver h t event action payload inst w = Return w1"
  shows "\<exists>news. deliver h t' event action payload inst w1 = Return (w1\<lparr>wb_tasks := wb_tasks w1 @ news\<rparr>)
        \<and> (news = [] \<or> (\<exists>p. news = [Merge_Lookup p]))"
proof (cases rule: deliver_cases [of event _ action])
  case closed
  obtain retry p where r: "record_merge h False (t 0) payload inst (wb_pipe w) = (retry, p)" by fastforce
  have w1: "w1 = (if retry then queue_task (Merge_Lookup payload) else id) (w\<lparr>wb_pipe := p\<rparr>)"
    using assms(4) by (simp add: closed deliver_simps r)
  have "record_merge h False (t' 0) payload inst p = (retry, p)"
    using record_merge_again [of h "t' 0" payload inst "t 0" "wb_pipe w"] record_merge_retry [of h "t' 0" payload inst p "t 0" "wb_pipe w"]
    by (simp add: r prod_eq_iff)
  then show ?thesis
    by (intro exI [of _ "if retry then [Merge_Lookup payload] else []"]) (simp add: closed deliver_simps w1 queue_task_def)
next
  case opened
  obtain job q where e: "enqueue_pull_request t payload inst (pw_queue (wb_pipe w)) = Return (job, q)"
    using assms(4) by (auto simp: opened deliver_simps split: sum.splits)
  have w1: "w1 = (if job \<noteq> None then queue_task Drain_Queue else id) (w\<lparr>wb_pipe := (wb_pipe w)\<lparr>pw_queue := q\<rparr>\<rparr>)"
    using assms(4) by (simp add: opened deliver_simps e)
  have "enqueue_pull_request t' payload inst q = Return (None, q)" by (rule enqueue_pull_request_again [OF assms(1,2) e])
  then show ?thesis
    by (intro exI [of _ "[]"]) (simp add: opened deliver_simps w1 queue_task_def)
next
  case review
  then show ?thesis using assms(4)
    by (intro exI [of _ "[]"]) (auto simp: deliver_simps(5) external_review_again)
qed (use assms(3) in auto)

text \<open>
  C15. A redelivery is harmless: when GitHub delivers the same pull_request or pull_request_review body
  again, at whatever later time, the queue, the outcome clocks and the verdicts are what the first
  delivery made them, and the answer is the same; only the best-effort look-up of a merge commit may
  be queued once more.
\<close>
theorem redelivery_changes_nothing:
  assumes "rq_wf (pw_queue (wb_pipe w))" and "rq_configured (pw_queue (wb_pipe w))"
    and "event = ''pull_request'' \<or> event = ''pull_request_review''"
    and "github_webhook h t event signature body w = (r, w1)" and "github_webhook h t' event signature body w1 = (r', w2)"
  shows "wb_pipe w2 = wb_pipe w1
    \<and> r' = r
    \<and> (wb_tasks w2 = wb_tasks w1 \<or> (\<exists>p. wb_tasks w2 = wb_tasks w1 @ [Merge_Lookup p]))"
proof -
  have conf: "rg_configured (pw_ledger (wb_pipe w)) \<Longrightarrow> rq_configured (pw_queue (wb_pipe w))" by (rule assms(2))
  show ?thesis
  proof (cases rule: github_webhook_cases [OF conf, where h = h and t = t and event = event and signature = signature and body = body])
    case (4 d inst w'')
    let ?a = "or_empty (text_of None (jget d ''action''))"
    have w1: "w1 = w''" "r = Return 202" using 4(1) assms(4) by auto
    have del: "deliver h t event ?a (JObj d) inst w = Return w1" using 4(7) w1 by simp
    have ledger: "rg_configured (pw_ledger (wb_pipe w1))" using deliver_configured [OF del assms(3)] 4(6) by simp
    obtain news where again: "deliver h t' event ?a (JObj d) inst w1 = Return (w1\<lparr>wb_tasks := wb_tasks w1 @ news\<rparr>)"
        and news: "news = [] \<or> (\<exists>p. news = [Merge_Lookup p])"
      using deliver_again [OF assms(1-3) del] by blast
    have "github_webhook h t' event signature body w1 = (Return 202, w1\<lparr>wb_tasks := wb_tasks w1 @ news\<rparr>)"
      using 4(2-5) ledger again unfolding github_webhook_def authentic_def Let_def by simp
    then show ?thesis using assms(5) w1(2) news by auto
  qed (use assms(4,5) in auto)
qed

subsection \<open>A worked service\<close>

text \<open>Four bodies: an opened pull request, its merge without a commit, a review, and an uninstall.\<close>

definition opened_body :: "(string \<times> json) list" where
  "opened_body = [(''action'', JStr ''opened''), (''installation'', JObj [(''id'', JNum 7)]), (''pull_request'', sample_pull_json)]"

definition merged_pull :: "(string \<times> json) list" where
  "merged_pull = obj sample_pull_json @ [(''merged'', JBool True), (''merged_at'', JStr ''1970-04-10T00:00:00Z'')]"

definition merged_body :: "(string \<times> json) list" where
  "merged_body = [(''action'', JStr ''closed''), (''installation'', JObj [(''id'', JNum 7)]), (''pull_request'', JObj merged_pull)]"

definition deleted_body :: "(string \<times> json) list" where
  "deleted_body = [(''action'', JStr ''deleted''), (''installation'', JObj [(''id'', JNum 7)])]"

definition sample_hooks :: "string hooks" where
  "sample_hooks = \<lparr>hk_secret = ''s'', hk_verify = (\<lambda>s b sig. sig = ''sha256=ok''),
     hk_loads = (\<lambda>b. if b = ''opened'' then Some (JObj opened_body) else if b = ''merged'' then Some (JObj merged_body)
       else if b = ''deleted'' then Some (JObj deleted_body) else None),
     hk_str = (\<lambda>_. []), hk_services = sample_services,
     hk_rest = sample_rest\<lparr>re_graphql := (\<lambda>_ _ _ g. (Return (ex_graph (JObj [(''oid'', JStr ''c0de'')])), g)),
                        re_pull := (\<lambda>_ _ _ g. (Return (JObj [(''merge_commit_sha'', JStr ''c0de'')]), g))\<rparr>\<rparr>"

definition sample_web :: "string web" where
  "sample_web = \<lparr>wb_pipe = swept_world, wb_attempts = (\<lambda>_. 0), wb_tokens = [], wb_token_repos = [], wb_token_seq = 1, wb_tasks = []\<rparr>"

lemma sample_authentic: "authentic sample_hooks ''sha256=ok'' body"
  by (simp add: authentic_def sample_hooks_def startswith_def)

lemma sample_web_ok:
  "rq_wf (pw_queue (wb_pipe sample_web))" "rq_configured (pw_queue (wb_pipe sample_web))"
  "rg_configured (pw_ledger (wb_pipe sample_web))"
  by (simp_all add: sample_web_def swept_ok) (simp add: swept_defs)


lemma opened_facts:
  "field (JObj opened_body) ''pull_request'' = lp_obj sample_pull" "field (lp_obj sample_pull) ''number'' = JNum (lp_number sample_pull)"
  "as_int (field (field (field (lp_obj sample_pull) ''base'') ''repo'') ''id'') = Some 9"
  "text_of (Some FULL_NAME) (field (field (field (lp_obj sample_pull) ''base'') ''repo'') ''full_name'') = Some ''acme/web''"
  "text_of (Some SHA_COLUMN) (field (field (lp_obj sample_pull) ''base'') ''sha'') = Some ''ba5e''"
  "text_of (Some SHA_COLUMN) (field (field (lp_obj sample_pull) ''head'') ''sha'') = Some ''f00d''"
  by (simp_all add: opened_body_def sample_pull_defs text_of_def FULL_NAME_def SHA_COLUMN_def cp_len_def cont_byte_def)


definition opened_queue :: review_db where
  "opened_queue = \<lparr>rq_configured = True, rq_jobs = [new_job 30 1 7 9 ''acme/web'' 4 ''f00d'' ''ba5e''], rq_next_id = 2\<rparr>"

lemma opened_enqueue: "enqueue_pull_request (\<lambda>_. 30) (JObj opened_body) 7 (pw_queue swept_world) = Return (Some 1, opened_queue)"
proof -
  have "enqueue 30 30 7 9 ''acme/web'' 4 ''f00d'' (Some ''ba5e'') ''live'' (pw_queue swept_world) = Return (Some 1, opened_queue)"
    by (simp add: enqueue_def enqueue_insert_def swept_world_def update_where_def new_job_def Let_def opened_queue_def)
  moreover have "skip_reason (lp_obj sample_pull) = None" "as_int (field (lp_obj sample_pull) ''number'') = Some 4"
    by (simp_all add: sample_pull_facts) (simp add: opened_facts sample_pull_facts as_int_def)
  ultimately show ?thesis
    using opened_facts by (simp add: enqueue_pull_request_gate Let_def del: field_obj)
qed

lemma opened_delivery:
  "github_webhook sample_hooks (\<lambda>_. 30) ''pull_request'' ''sha256=ok'' ''opened'' sample_web
     = (Return 202, queue_task Drain_Queue (sample_web\<lparr>wb_pipe := swept_world\<lparr>pw_queue := opened_queue\<rparr>\<rparr>))"
proof -
  have "handled ''pull_request'' ''opened''" by (simp add: handled_def PR_ACTIONS_def)
  moreover have "or_empty (text_of None (jget opened_body ''action'')) = ''opened''" "as_int (field (jget opened_body ''installation'') ''id'') = Some 7"
    by (simp_all add: opened_body_def jget_def text_of_def or_empty_def field_def obj_def as_int_def)
  moreover have "deliver sample_hooks (\<lambda>_. 30) ''pull_request'' ''opened'' (JObj opened_body) 7 sample_web
      = Return (queue_task Drain_Queue (sample_web\<lparr>wb_pipe := swept_world\<lparr>pw_queue := opened_queue\<rparr>\<rparr>))"
    by (simp add: deliver_simps opened_enqueue sample_web_def)
  moreover have "hk_loads sample_hooks ''opened'' = Some (JObj opened_body)" by (simp add: sample_hooks_def)
  ultimately show ?thesis
    using sample_authentic [of "''opened''"] sample_web_ok(3) unfolding github_webhook_def authentic_def Let_def by simp
qed

theorem delivery_spends_nothing_witness:
  "pw_reads (wb_pipe (snd (github_webhook sample_hooks (\<lambda>_. 30) ''pull_request'' ''sha256=ok'' ''opened'' sample_web))) = []"
proof -
  have c: "rg_configured (pw_ledger (wb_pipe sample_web)) \<Longrightarrow> rq_configured (pw_queue (wb_pipe sample_web))"
    by (rule sample_web_ok(2))
  from delivery_spends_nothing(2) [OF c opened_delivery] show ?thesis
    unfolding opened_delivery snd_conv by (simp add: sample_web_def swept_world_def sample_world_def)
qed

theorem delivery_queues_only_reviewable_witness:
  "authentic sample_hooks ''sha256=ok'' ''opened'' \<and> pw_queue (wb_pipe sample_web) \<noteq> opened_queue"
proof
  show ne: "pw_queue (wb_pipe sample_web) \<noteq> opened_queue"
    by (simp add: sample_web_def swept_world_def opened_queue_def)
  show "authentic sample_hooks ''sha256=ok'' ''opened''"
    by (rule delivery_queues_only_reviewable [OF sample_web_ok(1,2) opened_delivery, THEN conjunct1]) (use ne in \<open>simp add: queue_task_def\<close>)
qed

theorem redelivery_changes_nothing_witness:
  "wb_pipe (snd (github_webhook sample_hooks (\<lambda>_. 99) ''pull_request'' ''sha256=ok'' ''opened''
     (queue_task Drain_Queue (sample_web\<lparr>wb_pipe := swept_world\<lparr>pw_queue := opened_queue\<rparr>\<rparr>))))
   = swept_world\<lparr>pw_queue := opened_queue\<rparr>"
  using redelivery_changes_nothing [OF sample_web_ok(1,2) _ opened_delivery prod.collapse [symmetric], of "\<lambda>_. 99", THEN conjunct1]
  by (simp add: queue_task_def)

lemma merged_facts:
  "truthy (jget merged_pull ''merged'')" "payload_timestamp (jget merged_pull ''merged_at'') = Some (days 99, Some 0)"
  "text_of (Some BASE_REF) (field (jget merged_pull ''base'') ''ref'') = Some ''main''" "as_int (jget merged_pull ''number'') = Some 4"
  "as_int (field (field (jget merged_pull ''base'') ''repo'') ''id'') = Some 9"
  "jget merged_body ''pull_request'' = JObj merged_pull" "text_of (Some SHA_COLUMN) (jget merged_pull ''merge_commit_sha'') = None"
  "as_int (field (jget merged_body ''installation'') ''id'') = Some 7"
  "field (field (jget merged_pull ''base'') ''repo'') ''full_name'' = JStr ''acme/web''"
  "field (jget merged_pull ''head'') ''sha'' = JStr ''f00d''"
proof -
  have "fromisoformat ''1970-04-10T00:00:00Z'' = Some (days 99, Some 0)" by code_simp
  then show "payload_timestamp (jget merged_pull ''merged_at'') = Some (days 99, Some 0)"
    by (simp add: payload_timestamp_def aware_def merged_pull_def sample_pull_json_def obj_def jget_def)
qed (simp_all add: merged_pull_def merged_body_def sample_pull_json_def obj_def jget_def truthy_def as_int_def text_of_def
      BASE_REF_def SHA_COLUMN_def cp_len_def cont_byte_def)

lemma merged_lookup:
  "Payload.resolve JNull (sv_client (hk_services sample_hooks) 7) (re_graphql (hk_rest sample_hooks)) (until_slash ''acme/web'')
     (after_slash ''acme/web'') 4 (pw_gh swept_world) = (Some ''c0de'', pw_gh swept_world)"
  by (simp add: Payload.resolve_def from_merge_commit_def sample_hooks_def sample_services_def ex_graph_def dig_def OID_PATH_def
      jget_def text_of_def SHA_COLUMN_def cp_len_def cont_byte_def)

theorem merge_clock_is_one_fact_witness:
  "pw_ledger (snd (record_merge sample_hooks True 50 (JObj merged_body) 7 swept_world))
     = pw_ledger (snd (record_merge sample_hooks False 50 (with_sha ''c0de'' merged_pull merged_body) 7 swept_world))
   \<and> fst (snd (reconcile_merge sample_rest (days 90) 7 9 ''acme/web'' 50
        (sample_pull\<lparr>lp_obj := JObj merged_pull\<rparr>) (pw_ledger swept_world, pw_gh swept_world)))
     = pw_ledger (snd (record_merge sample_hooks False 50 (with_sha ''c0de'' merged_pull merged_body) 7 swept_world))"
proof -
  let ?p = "sample_pull\<lparr>lp_obj := JObj merged_pull\<rparr>"
  have slug: "until_slash ''acme/web'' \<noteq> []" "after_slash ''acme/web'' \<noteq> []"
    by (simp_all add: until_slash_def after_slash_def)
  have p: "lp_obj ?p = JObj merged_pull" "lp_number ?p = 4" "map_option aware (lp_merged ?p) = Some (days 99, Some 0)"
    "lp_updated ?p = Some (days 100, Some 0)" "days 90 \<le> as_utc (days 100, Some 0)" "days 90 \<le> as_utc (days 99, Some 0)"
    by (simp_all add: sample_pull_def aware_def days_def)
  have h: "text_of (Some SHA_COLUMN) (JStr ''f00d'') = Some ''f00d''"
    by (simp add: text_of_def SHA_COLUMN_def cp_len_def cont_byte_def)
  have r: "re_pull sample_rest (until_slash ''acme/web'') (after_slash ''acme/web'') 4 (pw_gh swept_world)
      = (Return (JObj [(''merge_commit_sha'', JStr ''c0de'')]), pw_gh swept_world)"
    by (simp add: sample_rest_def)
  note one = merge_clock_is_one_fact [OF merged_facts(1-9) slug merged_lookup p merged_facts(10) h r]
  show ?thesis using one by blast
qed

text \<open>Two installations, a key of each: the first is uninstalled, the second goes on minting.\<close>

definition tenant_web :: "string web" where
  "tenant_web = sample_web\<lparr>wb_pipe := swept_world\<lparr>pw_ledger := swept_ledger
       \<lparr>rg_installs := rg_installs swept_ledger @ [\<lparr>in_id = 2, in_installation = 8, in_login = ''corp'', in_type = ''User'',
          in_state = ''active'', in_updated_at = 0, in_installer = None\<rparr>]\<rparr>\<rparr>,
     wb_tokens := kd_tokens ex_minted, wb_token_repos := kd_repos ex_minted, wb_token_seq := 6\<rparr>"

definition uninstalled :: "string web" where
  "uninstalled = snd (github_webhook sample_hooks (\<lambda>_. 50) ''installation'' ''sha256=ok'' ''deleted'' tenant_web)"

definition minted_after :: key_db where
  "minted_after = snd (mint_key ex_env (replicate 51 1) 60 60 8 ''all'' [] None 0 ''root'' (keys_view uninstalled))"

lemma uninstalled_delivery:
  "github_webhook sample_hooks (\<lambda>_. 50) ''installation'' ''sha256=ok'' ''deleted'' tenant_web = (Return 202, uninstalled)"
  "uninstalled = record_installation (\<lambda>_. 50) (JObj deleted_body) ''deleted'' ''deleted'' 7 tenant_web"
proof -
  have "handled ''installation'' ''deleted''" by (simp add: handled_def INSTALLATION_STATES_def)
  moreover have "or_empty (text_of None (jget deleted_body ''action'')) = ''deleted''" "as_int (field (jget deleted_body ''installation'') ''id'') = Some 7"
    by (simp_all add: deleted_body_def jget_def text_of_def or_empty_def field_def obj_def as_int_def)
  moreover have "deliver sample_hooks (\<lambda>_. 50) ''installation'' ''deleted'' (JObj deleted_body) 7 tenant_web
      = Return (record_installation (\<lambda>_. 50) (JObj deleted_body) ''deleted'' ''deleted'' 7 tenant_web)"
    by (simp add: deliver_simps INSTALLATION_STATES_def Let_def)
  moreover have "hk_loads sample_hooks ''deleted'' = Some (JObj deleted_body)" by (simp add: sample_hooks_def)
  moreover have "rg_configured (pw_ledger (wb_pipe tenant_web))" by (simp add: tenant_web_def swept_defs)
  ultimately have "github_webhook sample_hooks (\<lambda>_. 50) ''installation'' ''sha256=ok'' ''deleted'' tenant_web
      = (Return 202, record_installation (\<lambda>_. 50) (JObj deleted_body) ''deleted'' ''deleted'' 7 tenant_web)"
    using sample_authentic [of "''deleted''"] unfolding github_webhook_def authentic_def Let_def by simp
  then show "github_webhook sample_hooks (\<lambda>_. 50) ''installation'' ''sha256=ok'' ''deleted'' tenant_web = (Return 202, uninstalled)"
    "uninstalled = record_installation (\<lambda>_. 50) (JObj deleted_body) ''deleted'' ''deleted'' 7 tenant_web"
    by (simp_all add: uninstalled_def)
qed

lemma uninstalled_tables:
  "rg_configured (keys_view uninstalled)" "kd_seq (keys_view uninstalled) = 6"
  "row_by in_installation 8 (rg_installs (keys_view uninstalled)) = Some \<lparr>in_id = 2, in_installation = 8, in_login = ''corp'',
     in_type = ''User'', in_state = ''active'', in_updated_at = 0, in_installer = None\<rparr>"
  "map kr_lookup (kd_tokens (keys_view uninstalled)) = [''00000000'']" "keys_wf (keys_view uninstalled)"
proof -
  obtain r where r: "kd_tokens ex_minted = [r]" "kr_id r = 5" "kr_lookup r = ''00000000''" using ex_minted_row by auto
  note defs = uninstalled_delivery(2) record_installation_def on_ledger_def revoke_keys_def tenant_web_def sample_web_def
    swept_world_def swept_ledger_def sample_outcomes_def Let_def
  show "rg_configured (keys_view uninstalled)" "kd_seq (keys_view uninstalled) = 6"
    "row_by in_installation 8 (rg_installs (keys_view uninstalled)) = Some \<lparr>in_id = 2, in_installation = 8, in_login = ''corp'',
     in_type = ''User'', in_state = ''active'', in_updated_at = 0, in_installer = None\<rparr>"
    by (simp_all add: defs upsert_installation_def set_installation_repos_def retire_stale_def update_where_def row_by_def)
  show lookups: "map kr_lookup (kd_tokens (keys_view uninstalled)) = [''00000000'']"
    by (simp add: defs r revoke_all_installation_tokens_def update_where_def)
  have "map kr_id (kd_tokens (keys_view uninstalled)) = [5]"
    by (simp add: defs r revoke_all_installation_tokens_def update_where_def)
  note id = this
  then have ids: "kr_id ` set (kd_tokens (keys_view uninstalled)) = {5}" by (simp only: set_map [symmetric]) simp
  have "kd_repos (keys_view uninstalled) = kd_repos ex_minted" by (simp add: defs)
  then show "keys_wf (keys_view uninstalled)"
    using ex_revoked_ok(1) lookups id ids ex_minted_tables(1)
    by (auto simp: keys_wf_def list_all_iff defs)
qed

lemma uninstalled_mint:
  "mint_key ex_env (replicate 51 1) 60 60 8 ''all'' [] None 0 ''root'' (keys_view uninstalled) = (Return (Some ex_key2), minted_after)"
proof -
  have g: "mt_lookup (generate (replicate 51 1)) = ''11111111''"
    by (simp add: generate_def rand_def LOOKUP_LEN_def ALPHABET_def numeral_eq_Suc Let_def)
  then have g': "mt_lookup (generate (replicate 51 (Suc 0))) = ''11111111''" by simp
  have n: "''11111111'' \<notin> kr_lookup ` set (kd_tokens (keys_view uninstalled))"
  proof -
    have "kr_lookup ` set (kd_tokens (keys_view uninstalled)) = set [''00000000'']"
      by (simp only: set_map [symmetric] uninstalled_tables(4))
    then show ?thesis by simp
  qed
  have "fst (mint_key ex_env (replicate 51 1) 60 60 8 ''all'' [] None 0 ''root'' (keys_view uninstalled)) = Return (Some ex_key2)"
    using n by (simp add: mint_key_def ex_version keys_configured_def ex_pepper hash_secret_def minted_row_def Let_def
        insert_installation_token_def uninstalled_tables [simplified] g' attach_repos_def ex_key2_def)
  then show ?thesis by (metis minted_after_def prod.collapse)
qed

theorem uninstall_ends_every_key_witness:
  "active_repos 7 (pw_ledger (wb_pipe uninstalled)) = [] \<and> (\<exists>row \<in> set (wb_tokens tenant_web). kr_installation row = 7 \<and> 6 \<noteq> kr_id row)"
proof -
  have ok: "keys_wf (keys_view tenant_web)" "rg_configured (pw_ledger (wb_pipe tenant_web))"
      "hk_loads sample_hooks ''deleted'' = Some (JObj deleted_body)" "jget deleted_body ''action'' = JStr ''deleted''"
      "as_int (field (jget deleted_body ''installation'') ''id'') = Some 7"
    using ex_revoked_ok(1) by (simp_all add: keys_wf_def tenant_web_def ex_minted_tables swept_defs sample_hooks_def deleted_body_def
        jget_def field_def obj_def as_int_def)
  obtain row where row: "kd_tokens ex_minted = [row]" "kr_installation row = 7" using ex_minted_row by auto
  have d: "length (replicate 51 (1 :: nat)) = LOOKUP_LEN + SECRET_LEN" "list_all (\<lambda>i. i < 62) (replicate 51 (1 :: nat))"
    by (simp_all add: LOOKUP_LEN_def SECRET_LEN_def list_all_iff)
  have s: "installation_state 8 (keys_view uninstalled) = Some ''active''"
    using uninstalled_tables(1,3) by (simp add: installation_state_def)
  obtain db where res: "Tenancy.resolve ex_env 70 70 (mk_token ex_key2) minted_after = (Return
     (Some \<lparr>tc_installation = 8, tc_token = 6, tc_scopes = [''queue:read'', ''receipt:read''], tc_repos = None\<rparr>), db)"
    using mint_then_resolve [OF uninstalled_mint uninstalled_tables(5) d s, of 70 70]
    by (cases "Tenancy.resolve ex_env 70 70 (mk_token ex_key2) minted_after") (simp add: ex_key2_def)
  have "key_step (keys_view uninstalled) minted_after" unfolding minted_after_def by (rule key_step.mint)
  then have step: "key_step\<^sup>*\<^sup>* (keys_view uninstalled) minted_after" by (rule r_into_rtranclp)
  have mem: "row \<in> set (wb_tokens tenant_web)" by (simp add: tenant_web_def row)
  from uninstall_ends_every_key [OF ok(1,2) sample_authentic ok(3-5) uninstalled_delivery(1) mem row(2) step res] mem row(2)
  show ?thesis by auto
qed

end
