(* ===== verification/Spec2Isabelle.thy ===== *)
theory Spec2Isabelle
  imports Review_Queue Outcome_Worker Transfer_Repair Convergence Reader_Coverage Check_Run Ci_Evidence Yaml_Subset
    Posix_Path Pr_Comment Token_Api
    Webhook
begin

text \<open>
  A verification development for \<open>doug\<close>, the pull request reviewer in \<open>api/doug\<close>: a GitHub App that
  reads pull requests, says which of them a human has to look at, and weeks later checks what it said
  against what happened to the merged code.

  The program. Three things start work. GitHub's deliveries arrive at \<open>github_webhook\<close>, which keeps the
  registry of installations, enqueues a review job for an opened or updated pull request, records human
  verdicts and starts the outcome clocks of a merge. The two healing sweeps list what GitHub has and
  enqueue what a lost delivery left out. A scheduled job runs the outcome loop. A drainer claims review
  jobs one by one under a lease; \<open>process_job\<close> looks a recorded verdict up or pays for a read, writes the
  verdict into the ledger, posts one check run and keeps one sticky comment. When an outcome row falls
  due, the outcome worker claims the rows of its repository, reads the reverts out of the git log, and
  settles each row as reverted, clean or censored. Beside these stand the keys of the tenants, which
  are dispensed only on proof of authority from GitHub and are resolved against the live registry, and
  the repair that undoes censorings a repository transfer caused. All parts share one database; a
  function that opens one transaction is one step of the model, and what runs between two transactions
  is part of the statements about concurrency.

  The theories, in the order of their imports, with the file each one models.

  Shared ground. \<open>Prelude\<close> has Python's strings, dictionaries and SQL's statements on one table, instants
  and the result type of code that raises; \<open>Text_Units\<close> code points, slices, decimal numbers and JSON;
  \<open>Regex\<close> a backtracking matcher for the patterns of the program; \<open>Iso_Time\<close> the instants git and GitHub
  print; \<open>Posix_Path\<close> paths and globs; \<open>Digest\<close> CRC-32, SHA-256, HMAC and base64 on machine words; \<open>Models\<close>
  the records of \<open>models.py\<close>. \<open>Lease\<close> and \<open>Metering\<close> hold the two contracts several components keep, as
  locales: a lease with claim generations, which both job queues are instances of, and a counter
  raised by a conditional update, which the read budgets and the repair attempts are instances of. The
  third locale, in \<open>Git_Labels\<close>, is the order by which the earlier of two reverts is chosen; the two
  public parsers are its instances.

  Queues. \<open>Review_Queue\<close> is \<open>ingest.py\<close> on table \<open>review_jobs\<close>; \<open>Outcome_Queue\<close> is \<open>outcome_queue.py\<close> with
  the tables \<open>outcome_jobs\<close> and \<open>outcomes\<close>. Each has a step relation with one rule per transaction,
  a well-formedness invariant of its reachable states, and the functional behaviour of each operation.
  \<open>Outcome_Worker\<close> is the loop of \<open>outcome_worker.py\<close>, with \<open>Adjudicate\<close> (\<open>adjudicate.py\<close>) as its pure core and
  \<open>Git_Labels\<close> (\<open>backtest/git_labels.py\<close>) as the reader of the history. \<open>Transfer_Repair\<close> is
  \<open>transfer_repair.py\<close>, with its manifest file as part of the state.

  Registry and keys. \<open>Registry\<close> is the installation tables of \<open>store.py\<close>; \<open>Keyformat\<close>, \<open>Tenancy\<close> and
  \<open>Token_Api\<close> are \<open>keyformat.py\<close>, \<open>tenancy.py\<close> and the key endpoints of \<open>api.py\<close>.

  Reading and settling. \<open>Reader_Coverage\<close> is the part of \<open>reader.py\<close> that says what of a diff was sent;
  \<open>Hunks\<close> and \<open>Patterns\<close> are \<open>hunks.py\<close> and \<open>patterns.py\<close>; \<open>Convergence\<close> is \<open>convergence.py\<close>, the
  comparison of two reads; \<open>Settle\<close> is \<open>settle.py\<close> and \<open>Ci_Evidence\<close> with \<open>Yaml_Subset\<close> is
  \<open>ci_evidence.py\<close>.

  Rendering. \<open>Check_Run_Text\<close> and \<open>Check_Run\<close> are \<open>check_run.py\<close>; \<open>Pr_Comment\<close> is \<open>pr_comment.py\<close> with the
  claim rows of \<open>store.py\<close>, once as the function and once as its calls.

  The ledger and the worker. \<open>Verdict_Ledger\<close> is the verdict tables of \<open>store.py\<close> with their writers and
  the reads the worker needs; \<open>Spend\<close> the monthly counters; \<open>Replay\<close> what a recorded verdict shows again;
  \<open>Job_Pipeline\<close> the stages of \<open>process_job\<close> in \<open>worker.py\<close>; \<open>Job_Safety\<close> many workers interleaved with
  deaths, reclaims and deliveries; \<open>Drain\<close> one pass of a worker and the repair of lost comments.
  \<open>Payload\<close>, \<open>Reconcile\<close> and \<open>Webhook\<close> are the JSON shapes, the sweeps and the delivery handler.

  What the lemmas show. For every table: an invariant every writer keeps. For the queues: that a lost
  claim stays lost and cannot settle anything, that a done head is never bought again, that outcomes
  and done jobs correspond one to one. For the pipeline: that in every interleaving a job posts at
  most one check run, of its own commit and verdict; that a recorded verdict is replayed and not paid
  for twice; that a branch which moved on is not read. For the budgets: that no interleaving beats a
  cap. For the webhook and the sweeps: that every delivery is answered, that only reviewable pull
  requests are enqueued and all of them are, that both ways into the queue are one gate, that a
  redelivery changes nothing, that an uninstall ends every key. For the texts: that limits hold, that
  nothing counted is left out and that a cut says what it cut. For the keys: that one changed
  character is refused offline and that only proven authority dispenses. For the comparison of reads:
  that occurrences pair by count and that silence alone carries no finding forward. For the repairs:
  that a rollback restores the ledger.

  Types. Instants are microseconds since the epoch, in UTC, as \<open>int\<close>; ids are \<open>int\<close>; floats that carry two
  decimals are \<open>rat\<close>; strings are UTF-8 bytes; words are used where the code's arithmetic wraps, in the
  checksum and the digests. A raise is the left of a sum, an absent value \<open>None\<close>.

  Bounds and fuel. Loops with a measure are total functions: \<open>stages_left\<close> counts the stages of a job,
  \<open>calls_left\<close> the requests of a comment, the listings of pull requests are bounded by the cap on what
  they collect (1000 and 300, so ten and three requests), the comment listing by \<open>PAGE_BOUND\<close>, ten
  pages, as in the code. The YAML reader carries fuel: three per line and three more, and it is proved
  that this is never used up. The walk to the declared Python version is a partial function; that it
  returns for relative paths is proved, and that it does not for absolute ones. A drain carries
  the number of jobs it may still try, as the code does.

  Parameters. What is not under \<open>src\<close> is an argument: GitHub (replies that may depend on a state of its
  own, or fail), git's output, the paid read of the model, the signature check and the JSON decoder of
  the webhook, the Python and TOML parsers, the formatting of floats and dates, the iteration order of
  a set, the clock of every transaction, the rows another transaction has locked.

  Not modelled. The prompts, the model calls and their retries; the example packs, a research
  capture; session authentication and the identity provider; the trackers of linked issues; tracing;
  the DDL of the migrations; the read endpoints that project ledger rows for the dashboard; the
  backtest scripts; log lines. Failures of the database other than the unique indexes' are modelled
  where a step may be the last of a worker, and not inside a transaction.
\<close>

end
